(* ===== verification/Bat_Prelude.thy ===== *)
theory Bat_Prelude
  imports
    Main
    "HOL-Library.Word"
    "HOL-Library.Signed_Division"
    "HOL-Library.Monad_Syntax"
begin

text \<open>
  Shared vocabulary of the development.

  \<^item> Names for the machine integers of the C sources. Unsigned types are words; the signed
    types and the promoted arithmetic of C are \<^typ>\<open>int\<close>, with the conversion back to a
    16 bit signed variable written out (\<open>to_s16\<close>).
  \<^item> Array accesses with a C index. An index outside of the array is undefined behaviour, and
    so are the shifts of C by a negative amount or by the width of the type or more. All of
    these are partial operations here: \<^term>\<open>None\<close> is undefined behaviour.
  \<^item> MAC addresses (\<open>uint8_t [6]\<close>) and \<open>memcmp\<close> on them.
  \<^item> Generic lemmas on words, lists and options that the components share.
\<close>

unbundle bit_operations_syntax

named_theorems array_simps \<open>bounds-checked array accesses\<close>
named_theorems bit_defs \<open>definitions of the sliding window operations\<close>
named_theorems wf_defs \<open>definitions of the well-formedness predicates\<close>

type_synonym u8 = "8 word"
type_synonym u16 = "16 word"
type_synonym u32 = "32 word"

section \<open>C integers\<close>

text \<open>Conversion of an \<open>int\<close> to \<open>int16_t\<close> (gcc reduces modulo \<open>2 ^ 16\<close>).\<close>

definition to_s16 :: "int \<Rightarrow> int" where
  "to_s16 x = signed_take_bit 15 x"

lemma to_s16_mod: "to_s16 x = (x + 32768) mod 65536 - 32768"
  by (simp add: to_s16_def signed_take_bit_eq_take_bit_shift take_bit_eq_mod)

lemma to_s16_id [simp]: "- 32768 \<le> x \<Longrightarrow> x < 32768 \<Longrightarrow> to_s16 x = x"
  by (simp add: to_s16_mod)

lemma to_s16_range: "- 32768 \<le> to_s16 x \<and> to_s16 x < 32768"
  by (simp add: to_s16_mod)

section \<open>Arrays with C indices\<close>

definition array_get :: "'a list \<Rightarrow> int \<Rightarrow> 'a option" where
  "array_get xs i = (if 0 \<le> i \<and> i < int (length xs) then Some (xs ! nat i) else None)"

definition array_set :: "'a list \<Rightarrow> int \<Rightarrow> 'a \<Rightarrow> 'a list option" where
  "array_set xs i v = (if 0 \<le> i \<and> i < int (length xs) then Some (xs[nat i := v]) else None)"

lemma array_get_Some [array_simps]:
  "array_get xs i = Some x \<longleftrightarrow> 0 \<le> i \<and> i < int (length xs) \<and> xs ! nat i = x"
  by (auto simp: array_get_def)

lemma array_get_None [array_simps]:
  "array_get xs i = None \<longleftrightarrow> i < 0 \<or> int (length xs) \<le> i"
  by (auto simp: array_get_def)

lemma array_set_Some [array_simps]:
  "array_set xs i v = Some ys \<longleftrightarrow> 0 \<le> i \<and> i < int (length xs) \<and> ys = xs[nat i := v]"
  by (auto simp: array_set_def)

lemma array_set_None [array_simps]:
  "array_set xs i v = None \<longleftrightarrow> i < 0 \<or> int (length xs) \<le> i"
  by (auto simp: array_set_def)

lemma array_get_in [simp]: "0 \<le> i \<Longrightarrow> i < int (length xs) \<Longrightarrow> array_get xs i = Some (xs ! nat i)"
  by (simp add: array_get_def)

lemma array_set_in [simp]:
  "0 \<le> i \<Longrightarrow> i < int (length xs) \<Longrightarrow> array_set xs i v = Some (xs[nat i := v])"
  by (simp add: array_set_def)

section \<open>Shifts of C\<close>

text \<open>
  \<open>x << n\<close> and \<open>x >> n\<close> on an unsigned type of width \<open>'w\<close>: undefined when the amount is
  negative or not less than the width.
\<close>

definition c_shl :: "'w::len word \<Rightarrow> int \<Rightarrow> 'w word option" where
  "c_shl x n = (if 0 \<le> n \<and> n < int LENGTH('w) then Some (push_bit (nat n) x) else None)"

definition c_shr :: "'w::len word \<Rightarrow> int \<Rightarrow> 'w word option" where
  "c_shr x n = (if 0 \<le> n \<and> n < int LENGTH('w) then Some (drop_bit (nat n) x) else None)"

text \<open>
  \<open>1 << n\<close>, where the \<open>1\<close> is a 32 bit \<open>int\<close> whatever the other operand is, converted to an
  unsigned type of width \<open>'w\<close>. gcc gives \<open>1 << 31\<close> the value \<open>INT_MIN\<close>; an amount of 32
  or more is undefined.
\<close>

definition int_one_shl :: "int \<Rightarrow> 'w::len word option" where
  "int_one_shl n =
     (if 0 \<le> n \<and> n < 32 then Some (word_of_int (signed_take_bit 31 (2 ^ nat n))) else None)"

section \<open>MAC addresses\<close>

text \<open>An \<open>uint8_t [6]\<close>, as it is embedded in the packets and in the nodes.\<close>

datatype mac = MAC u8 u8 u8 u8 u8 u8

fun mac_bytes :: "mac \<Rightarrow> u8 list" where
  "mac_bytes (MAC a b c d e f) = [a, b, c, d, e, f]"

text \<open>\<open>memcmp\<close>: the sign of the first difference, \<open>0\<close> when there is none.\<close>

fun memcmp :: "u8 list \<Rightarrow> u8 list \<Rightarrow> int" where
  "memcmp (x # xs) (y # ys) = (if x = y then memcmp xs ys else if x < y then - 1 else 1)"
| "memcmp _ _ = 0"

lemma length_mac_bytes [simp]: "length (mac_bytes m) = 6"
  by (cases m) simp

lemma mac_bytes_inject [simp]: "mac_bytes a = mac_bytes b \<longleftrightarrow> a = b"
  by (cases a; cases b) auto

lemma memcmp_0_iff: "length xs = length ys \<Longrightarrow> memcmp xs ys = 0 \<longleftrightarrow> xs = ys"
  by (induction xs ys rule: memcmp.induct) auto

lemma memcmp_refl [simp]: "memcmp xs xs = 0"
  by (simp add: memcmp_0_iff)

section \<open>Bits of words\<close>

lemma card_bits_double: "card {n. bit (2 * m :: nat) n} = card {n. bit m n}"
proof -
  have "{n. bit (2 * m) n} = Suc ` {n. bit m n}"
    by (auto simp: bit_double_iff image_iff gr0_conv_Suc)
  then show ?thesis by (simp add: card_image)
qed

lemma finite_bits_nat: "finite {n. bit (m :: nat) n}"
proof -
  have "{n. bit m n} \<subseteq> {..m}"
  proof
    fix n assume "n \<in> {n. bit m n}"
    then have "2 ^ n \<le> m"
      by (metis bit_iff_odd div_less even_zero leI mem_Collect_eq)
    with less_exp [of n] have "n < m" by (rule less_le_trans)
    then show "n \<in> {..m}" by simp
  qed
  then show ?thesis by (rule finite_subset) simp
qed

section \<open>Further facts on words and signed division\<close>

lemma smod_nonneg: "0 \<le> (n :: int) \<Longrightarrow> 0 < m \<Longrightarrow> n smod m = n mod m"
  by (cases "n = 0") (simp_all add: signed_modulo_int_def)

lemma sdiv_nonneg: "0 \<le> (n :: int) \<Longrightarrow> 0 < m \<Longrightarrow> n sdiv m = n div m"
  by (cases "n = 0") (simp_all add: signed_divide_int_def)

lemma card_and_pred_nat: "0 < m \<Longrightarrow> card {n. bit (m :: nat) n} = Suc (card {n. bit (m AND (m - 1)) n})"
proof (induction m rule: less_induct)
  case (less m)
  show ?case
  proof (cases "even m")
    case True
    then obtain j where j: "m = 2 * j" by blast
    with less.prems have "0 < j" "j < m" by simp_all
    have "(m - 1) div 2 = j - 1" using \<open>0 < j\<close> by (simp add: j)
    then have "m AND (m - 1) = 2 * (j AND (j - 1))"
      by (subst and_rec) (simp add: j)
    with less.IH [OF \<open>j < m\<close> \<open>0 < j\<close>] show ?thesis by (simp add: j card_bits_double)
  next
    case False
    then obtain j where j: "m = 2 * j + 1" by (metis oddE)
    have "m AND (m - 1) = 2 * j"
      by (subst and_rec) (simp add: j)
    moreover have "{n. bit m n} = insert 0 {n. bit (2 * j) n}"
    proof (rule set_eqI)
      fix n show "n \<in> {n. bit m n} \<longleftrightarrow> n \<in> insert 0 {n. bit (2 * j) n}"
        by (cases n) (simp_all add: j bit_0 bit_Suc bit_double_iff)
    qed
    ultimately show ?thesis
      by (simp add: finite_bits_nat bit_0)
  qed
qed

lemma bits_unat: "{n. bit (w :: 'w::len word) n} = {n. bit (unat w) n}"
  by (simp add: bit_unsigned_iff set_eq_iff)

lemma finite_bits_word [simp]: "finite {n. bit (w :: 'w::len word) n}"
  by (simp add: bits_unat finite_bits_nat)

lemma and_exp_eq_0: "a AND 2 ^ k = 0 \<longleftrightarrow> \<not> bit (a :: 'w::len word) k"
  by (simp add: bit_iff_and_push_bit_not_eq_0)

lemma to_s16_alt:
  "to_s16 x = (if x mod 65536 < 32768 then x mod 65536 else x mod 65536 - 65536)"
proof -
  define r where "r = x mod 65536"
  have r: "0 \<le> r" "r < 65536" by (simp_all add: r_def)
  have "(x + 32768) mod 65536 = (r + 32768) mod 65536"
    by (simp add: r_def mod_add_left_eq)
  also have "\<dots> = (if r < 32768 then r + 32768 else r - 32768)"
  proof (cases "r < 32768")
    case False
    then have "(r - 32768) mod 65536 = r - 32768" using r by simp
    moreover have "(r - 32768 + 65536) mod 65536 = (r - 32768) mod 65536" by (rule mod_add_self2)
    ultimately show ?thesis using False by (simp add: add.commute)
  qed (use r in simp)
  finally show ?thesis by (simp add: to_s16_mod r_def)
qed

lemma uint_range16: "0 \<le> uint (x :: u16)" "uint (x :: u16) < 65536"
  using uint_lt2p [of x] by simp_all

text \<open>Clearing the lowest bit makes a word smaller.\<close>

lemma and_pred_less: "w \<noteq> 0 \<Longrightarrow> w AND (w - 1) < (w :: 'w::len word)"
proof -
  assume "w \<noteq> 0"
  have "w AND (w - 1) \<le> w - 1" by (simp add: word_and_le1)
  also have "w - 1 < w" using \<open>w \<noteq> 0\<close> by (simp add: word_less_nat_alt unat_minus_one unat_gt_0)
  finally show ?thesis .
qed

lemma unat_of_nat_id: "n < 2 ^ LENGTH('w) \<Longrightarrow> unat (of_nat n :: 'w::len word) = n"
  by (simp add: unat_of_nat)

lemma unat_u8_le: "unat (x :: u8) \<le> 255"
  using unsigned_less [of x, where 'a = nat] by simp

lemma unat_u16_le: "unat (x :: u16) \<le> 65535"
  using unsigned_less [of x, where 'a = nat] by simp

lemma option_eqI: "(\<And>x. a = Some x \<longleftrightarrow> b = Some x) \<Longrightarrow> a = b"
  by (cases a; cases b) auto

lemma div_mult_le: "0 \<le> a \<Longrightarrow> 0 \<le> k \<Longrightarrow> k \<le> b \<Longrightarrow> 0 < b \<Longrightarrow> (a * k) div b \<le> (a :: int)"
  by (metis div_by_0 div_mult_self_is_m less_le mult_left_mono order.strict_implies_not_eq zdiv_mono1 zero_le_mult_iff nonzero_mult_div_cancel_right)

lemma unat_minus_1_u8: "unat (- 1 :: u8) = 255"
  by code_simp

section \<open>Transition systems\<close>

text \<open>A step relation together with a predicate that every step keeps.\<close>

locale invariant_system =
  fixes step :: "'s \<Rightarrow> 's \<Rightarrow> bool" and inv :: "'s \<Rightarrow> bool"
  assumes step_inv: "step s t \<Longrightarrow> inv s \<Longrightarrow> inv t"
begin

lemma star_inv: "step\<^sup>*\<^sup>* s t \<Longrightarrow> inv s \<Longrightarrow> inv t"
  by (induction rule: rtranclp_induct) (auto intro: step_inv)

end

end
