(* ===== verification/Bitarray.thy ===== *)
theory Bitarray
  imports Bat_Prelude
begin

text \<open>
  The sliding window of received sequence numbers, \<open>src/bitarray.c\<close>.

  A window is an array of \<open>NUM_WORDS\<close> machine words of type \<open>unsigned long\<close>
  (\<open>TYPE_OF_WORD\<close>), which hold \<open>TQ_LOCAL_WINDOW_SIZE\<close> bits together; bit \<open>n\<close> says
  whether the packet \<open>n\<close> sequence numbers before the newest one was received. The operations
  are polymorphic in the width of \<open>unsigned long\<close>, so that the model covers both an ILP32
  target (\<^typ>\<open>32 word\<close>, two words) and an LP64 target (\<^typ>\<open>64 word\<close>, one word).
  \<^term>\<open>None\<close> is undefined behaviour (an access outside of the array or a bad shift).

  The contract is stated on the set of the marked positions (\<open>window\<close>), and the lemmas show
  that the operations implement the corresponding set operations.
\<close>

section \<open>Constants\<close>

definition TQ_LOCAL_WINDOW_SIZE :: int where
  "TQ_LOCAL_WINDOW_SIZE = 64"

definition WORD_BIT_SIZE :: "'w::len itself \<Rightarrow> int" where
  "WORD_BIT_SIZE _ = int LENGTH('w)"

definition NUM_WORDS :: "'w::len itself \<Rightarrow> int" where
  "NUM_WORDS w = TQ_LOCAL_WINDOW_SIZE div WORD_BIT_SIZE w"

lemma constants_32 [simp]:
  "WORD_BIT_SIZE TYPE(32) = 32" "NUM_WORDS TYPE(32) = 2"
  by (simp_all add: WORD_BIT_SIZE_def NUM_WORDS_def TQ_LOCAL_WINDOW_SIZE_def)

lemma constants_64 [simp]:
  "WORD_BIT_SIZE TYPE(64) = 64" "NUM_WORDS TYPE(64) = 1"
  by (simp_all add: WORD_BIT_SIZE_def NUM_WORDS_def TQ_LOCAL_WINDOW_SIZE_def)

section \<open>Operations\<close>

text \<open>\<open>bit_init\<close>: a loop that stores \<open>0\<close> in \<open>NUM_WORDS\<close> words, from index \<open>i\<close> on.\<close>

function bit_clear_from :: "int \<Rightarrow> 'w::len word list \<Rightarrow> 'w word list option" where
  "bit_clear_from i seq_bits =
     (if i < NUM_WORDS TYPE('w)
      then array_set seq_bits i 0 \<bind> bit_clear_from (i + 1)
      else Some seq_bits)"
  by pat_completeness auto
termination
  by (relation "measure (\<lambda>(i, bs :: 'w::len word list). nat (NUM_WORDS TYPE('w) - i))") auto

definition bit_init :: "'w::len word list \<Rightarrow> 'w word list option" where
  "bit_init seq_bits = bit_clear_from 0 seq_bits"

definition get_bit_status :: "'w::len word list \<Rightarrow> u16 \<Rightarrow> u16 \<Rightarrow> bool option" where
  "get_bit_status seq_bits last_seqno curr_seqno =
     (let diff = to_s16 (uint last_seqno - uint curr_seqno) in
      if diff < 0 \<or> diff \<ge> TQ_LOCAL_WINDOW_SIZE then Some False
      else do {
        let word_offset = to_s16 ((uint last_seqno - uint curr_seqno) smod WORD_BIT_SIZE TYPE('w));
        let word_num = to_s16 ((uint last_seqno - uint curr_seqno) sdiv WORD_BIT_SIZE TYPE('w));
        w \<leftarrow> array_get seq_bits word_num;
        m \<leftarrow> int_one_shl word_offset;
        Some (w AND m \<noteq> 0)
      })"

definition bit_mark :: "'w::len word list \<Rightarrow> int \<Rightarrow> 'w word list option" where
  "bit_mark seq_bits n =
     (if n < 0 \<or> n \<ge> TQ_LOCAL_WINDOW_SIZE then Some seq_bits
      else do {
        let word_offset = n smod WORD_BIT_SIZE TYPE('w);
        let word_num = n sdiv WORD_BIT_SIZE TYPE('w);
        w \<leftarrow> array_get seq_bits word_num;
        m \<leftarrow> int_one_shl word_offset;
        array_set seq_bits word_num (w OR m)
      })"

text \<open>The two loops of \<open>bit_shift\<close>: moving words up, and padding with zero.\<close>

function bit_shift_loop ::
    "int \<Rightarrow> int \<Rightarrow> int \<Rightarrow> 'w::len word list \<Rightarrow> (int \<times> 'w word list) option" where
  "bit_shift_loop word_num word_offset i seq_bits =
     (if i > word_num then do {
        a \<leftarrow> array_get seq_bits (i - word_num);
        hi \<leftarrow> c_shl a word_offset;
        b \<leftarrow> array_get seq_bits (i - word_num - 1);
        lo \<leftarrow> c_shr b (WORD_BIT_SIZE TYPE('w) - word_offset);
        seq_bits' \<leftarrow> array_set seq_bits i (hi + lo);
        bit_shift_loop word_num word_offset (i - 1) seq_bits'
      } else Some (i, seq_bits))"
  by pat_completeness auto
termination
  by (relation "measure (\<lambda>(wn, off, i, bs). nat (i - wn))") auto

function bit_pad_loop :: "int \<Rightarrow> 'w::len word list \<Rightarrow> 'w word list option" where
  "bit_pad_loop i seq_bits =
     (if i \<ge> 0 then array_set seq_bits i 0 \<bind> bit_pad_loop (i - 1) else Some seq_bits)"
  by pat_completeness auto
termination
  by (relation "measure (\<lambda>(i, bs). nat (i + 1))") auto

definition bit_shift :: "'w::len word list \<Rightarrow> int \<Rightarrow> 'w word list option" where
  "bit_shift seq_bits n =
     (if n \<le> 0 then Some seq_bits
      else do {
        let word_offset = n smod WORD_BIT_SIZE TYPE('w);
        let word_num = n sdiv WORD_BIT_SIZE TYPE('w);
        (i, seq_bits) \<leftarrow> bit_shift_loop word_num word_offset (NUM_WORDS TYPE('w) - 1) seq_bits;
        a \<leftarrow> array_get seq_bits (i - word_num);
        v \<leftarrow> c_shl a word_offset;
        seq_bits \<leftarrow> array_set seq_bits i v;
        bit_pad_loop (i - 1) seq_bits
      })"

text \<open>
  \<open>bit_get_packet\<close>: the result is \<open>1\<close> (here \<^term>\<open>True\<close>) when the sequence number is new.
  \<open>seq_num_diff\<close> is an \<open>int16_t\<close>.
\<close>

definition bit_get_packet ::
    "'w::len word list \<Rightarrow> int \<Rightarrow> bool \<Rightarrow> (bool \<times> 'w word list) option" where
  "bit_get_packet seq_bits seq_num_diff set_mark =
     (if seq_num_diff < 0 \<and> seq_num_diff \<ge> - TQ_LOCAL_WINDOW_SIZE then do {
        seq_bits \<leftarrow> (if set_mark then bit_mark seq_bits (- seq_num_diff) else Some seq_bits);
        Some (False, seq_bits)
      }
      else if seq_num_diff > TQ_LOCAL_WINDOW_SIZE \<or> seq_num_diff < - TQ_LOCAL_WINDOW_SIZE then do {
        seq_bits \<leftarrow> bit_clear_from 0 seq_bits;
        seq_bits \<leftarrow> (if set_mark then array_set seq_bits 0 1 else Some seq_bits);
        Some (True, seq_bits)
      }
      else do {
        seq_bits \<leftarrow> bit_shift seq_bits seq_num_diff;
        seq_bits \<leftarrow> (if set_mark then bit_mark seq_bits 0 else Some seq_bits);
        Some (True, seq_bits)
      })"

text \<open>Kernighan's loop, which clears the lowest bit that is set until none is left.\<close>

function word_hamming :: "'w::len word \<Rightarrow> int \<Rightarrow> int" where
  "word_hamming word hamming =
     (if word \<noteq> 0 then word_hamming (word AND (word - 1)) (hamming + 1) else hamming)"
  by pat_completeness auto
termination
proof (relation "measure (\<lambda>(w, h). unat w)", goal_cases)
  case (2 w h)
  then show ?case using and_pred_less [of w] by (simp add: word_less_nat_alt)
qed simp

function bit_packet_count_from :: "int \<Rightarrow> 'w::len word list \<Rightarrow> int \<Rightarrow> int option" where
  "bit_packet_count_from i seq_bits hamming =
     (if i < NUM_WORDS TYPE('w)
      then do {
        word \<leftarrow> array_get seq_bits i;
        bit_packet_count_from (i + 1) seq_bits (word_hamming word hamming)
      }
      else Some hamming)"
  by pat_completeness auto
termination
  by (relation "measure (\<lambda>(i, bs :: 'w::len word list, h). nat (NUM_WORDS TYPE('w) - i))") auto

definition bit_packet_count :: "'w::len word list \<Rightarrow> int option" where
  "bit_packet_count seq_bits = bit_packet_count_from 0 seq_bits 0"

text \<open>
  \<open>bit_count\<close> is the same loop on an \<open>int32_t\<close>, given here by its 32 bit pattern; the
  decrement of \<open>INT_MIN\<close> is a signed overflow. The result is an \<open>uint8_t\<close>.
\<close>

function bit_count_loop :: "32 word \<Rightarrow> u8 \<Rightarrow> u8 option" where
  "bit_count_loop to_count hamming =
     (if to_count \<noteq> 0
      then if to_count = 0x80000000 then None
           else bit_count_loop (to_count AND (to_count - 1)) (hamming + 1)
      else Some hamming)"
  by pat_completeness auto
termination
proof (relation "measure (\<lambda>(w, h). unat w)", goal_cases)
  case (2 w h)
  then show ?case using and_pred_less [of w] by (simp add: word_less_nat_alt)
qed simp

definition bit_count :: "32 word \<Rightarrow> u8 option" where
  "bit_count to_count = bit_count_loop to_count 0"

text \<open>
  \<open>bit_print\<close> writes the window to the static buffer \<open>bit_string\<close> of 130 bytes, the
  terminating zero included; \<open>b\<close> counts the bits written so far.
\<close>

function bit_print_word :: "'w::len word \<Rightarrow> int \<Rightarrow> int \<Rightarrow> string \<Rightarrow> int \<times> string" where
  "bit_print_word w j b out =
     (if j < WORD_BIT_SIZE TYPE('w)
      then let out = out @ [if drop_bit (nat j) w mod 2 = 0 then CHR ''0'' else CHR ''1''];
               b = b + 1;
               out = (if b = TQ_LOCAL_WINDOW_SIZE then out @ ''|'' else out)
           in bit_print_word w (j + 1) b out
      else (b, out))"
  by pat_completeness auto
termination
  by (relation "measure (\<lambda>(w :: 'w::len word, j, b, out). nat (WORD_BIT_SIZE TYPE('w) - j))") auto

function bit_print_from :: "int \<Rightarrow> int \<Rightarrow> 'w::len word list \<Rightarrow> string \<Rightarrow> string option" where
  "bit_print_from i b seq_bits out =
     (if i < NUM_WORDS TYPE('w)
      then do {
        w \<leftarrow> array_get seq_bits i;
        let (b, out) = bit_print_word w 0 b out;
        bit_print_from (i + 1) b seq_bits (out @ '' '')
      }
      else Some out)"
  by pat_completeness auto
termination
  by (relation "measure (\<lambda>(i, b, bs :: 'w::len word list, out). nat (NUM_WORDS TYPE('w) - i))") auto

definition bit_print :: "'w::len word list \<Rightarrow> string option" where
  "bit_print seq_bits = do {
     out \<leftarrow> bit_print_from 0 0 seq_bits [];
     if length out + 1 \<le> 130 then Some out else None
   }"

declare bit_clear_from.simps [simp del] bit_shift_loop.simps [simp del]
  bit_pad_loop.simps [simp del] word_hamming.simps [simp del] bit_packet_count_from.simps [simp del]
  bit_count_loop.simps [simp del] bit_print_word.simps [simp del] bit_print_from.simps [simp del]

section \<open>Basic facts\<close>

definition window :: "'w::len word list \<Rightarrow> nat set" where
  "window bs = {n. n < length bs * LENGTH('w) \<and> bit (bs ! (n div LENGTH('w))) (n mod LENGTH('w))}"

lemma int_one_shl_32 [simp]:
  assumes "0 \<le> n" "n < 32"
  shows "int_one_shl n = Some (push_bit (nat n) (1 :: 32 word))"
proof -
  have "word_of_int (signed_take_bit 31 (2 ^ nat n)) = (word_of_int (2 ^ nat n) :: 32 word)"
    by (rule bit_word_eqI) (auto simp: bit_simps min_def)
  then show ?thesis using assms by (simp add: int_one_shl_def push_bit_eq_mult)
qed

lemma int_one_shl_64_31: "int_one_shl 31 = Some (0xFFFFFFFF80000000 :: 64 word)"
  by (simp add: int_one_shl_def signed_take_bit_eq_take_bit_shift take_bit_eq_mod)

lemma div_mod_32: "32 \<le> (n :: int) \<Longrightarrow> n < 64 \<Longrightarrow> n div 32 = 1 \<and> n mod 32 = n - 32"
  by presburger

lemma len2_cases: "length bs = 2 \<Longrightarrow> (\<And>a b. bs = [a, b] \<Longrightarrow> P) \<Longrightarrow> P"
  by (auto simp: length_Suc_conv numeral_2_eq_2)

lemma window_pair:
  "window [a, b :: 32 word] = {n. n < 32 \<and> bit a n} \<union> {n. 32 \<le> n \<and> n < 64 \<and> bit b (n - 32)}"
proof (rule set_eqI)
  fix n :: nat
  have "n div 32 = 1" "n mod 32 = n - 32" if "32 \<le> n" "n < 64"
    using that by (simp_all add: div_nat_eqI mod_if)
  then show "n \<in> window [a, b] \<longleftrightarrow>
      n \<in> {n. n < 32 \<and> bit a n} \<union> {n. 32 \<le> n \<and> n < 64 \<and> bit b (n - 32)}"
    by (cases "n < 32") (auto simp: window_def)
qed

lemma bit_mark_32:
  assumes "length bs = 2" "0 \<le> n" "n < 64"
  shows "\<exists>bs'. bit_mark bs n = Some bs' \<and> length bs' = 2 \<and>
    window bs' = insert (nat n) (window (bs :: 32 word list))"
proof -
  obtain a b where bs: "bs = [a, b]" using assms(1) by (rule len2_cases)
  have eq: "bit_mark bs n = Some (bs[nat (n div 32) := bs ! nat (n div 32) OR push_bit (nat (n mod 32)) 1])"
    using assms by (simp add: bit_mark_def TQ_LOCAL_WINDOW_SIZE_def smod_nonneg sdiv_nonneg Let_def)
  show ?thesis
  proof (cases "n < 32")
    case True
    then have "n div 32 = 0" "n mod 32 = n" using assms by simp_all
    then show ?thesis using True assms
      by (auto simp: eq [unfolded bs] bs window_pair bit_simps)
  next
    case False
    then have "n div 32 = 1" "n mod 32 = n - 32" using assms by (simp_all add: div_mod_32)
    then show ?thesis using False assms
      by (auto simp: eq [unfolded bs] bs window_pair bit_simps nat_diff_distrib)
  qed
qed

lemma bit_mark_out: "n < 0 \<or> 64 \<le> n \<Longrightarrow> bit_mark bs n = Some bs"
  by (auto simp: bit_mark_def TQ_LOCAL_WINDOW_SIZE_def)

lemma bit_shift_32_eq:
  assumes "0 < n" "n < 64"
  shows "bit_shift [a, b :: 32 word] n =
    Some (if n < 32 then [push_bit (nat n) a, push_bit (nat n) b + drop_bit (nat (32 - n)) a]
          else [0, push_bit (nat (n - 32)) a])"
proof (cases "n < 32")
  case True
  then have "n sdiv 32 = 0" "n smod 32 = n" using assms by (simp_all add: sdiv_nonneg smod_nonneg)
  then show ?thesis using True assms
    by (simp add: bit_shift_def Let_def bit_shift_loop.simps bit_pad_loop.simps c_shl_def c_shr_def)
next
  case False
  then have "n sdiv 32 = 1" "n smod 32 = n - 32"
    using assms by (simp_all add: sdiv_nonneg smod_nonneg div_mod_32)
  then show ?thesis using False assms
    by (simp add: bit_shift_def Let_def bit_shift_loop.simps bit_pad_loop.simps c_shl_def c_shr_def)
qed

text \<open>The sum of the two shifted halves has no carry.\<close>

lemma bit_shift_join:
  assumes "0 < k" "k < 32"
  shows "push_bit k b + drop_bit (32 - k) a = (push_bit k b OR drop_bit (32 - k) (a :: 32 word))"
proof (rule disjunctive_add)
  fix i
  show "\<not> bit (push_bit k b) i \<or> \<not> bit (drop_bit (32 - k) a) i"
    using assms by (auto simp: bit_simps dest: bit_imp_le_length)
qed

definition shift_set :: "nat \<Rightarrow> nat set \<Rightarrow> nat set" where
  "shift_set k W = {m. k \<le> m \<and> m < 64 \<and> m - k \<in> W}"

lemma window_shift_small:
  assumes "0 < k" "k < 32"
  shows "window [push_bit k a, push_bit k b OR drop_bit (32 - k) a] =
    shift_set k (window [a, b :: 32 word])" (is "?L = ?R")
proof (rule set_eqI)
  fix x :: nat
  show "x \<in> ?L \<longleftrightarrow> x \<in> ?R"
  proof (cases "x < 32 \<or> 64 \<le> x")
    case True
    then show ?thesis using assms by (auto simp: window_pair shift_set_def bit_simps)
  next
    case False
    then obtain z where z: "x = 32 + z" "z < 32" by (metis add_diff_inverse_nat leI nat_add_left_cancel_less numeral_Bit0)
    show ?thesis
    proof (cases "z < k")
      case True
      then show ?thesis using z assms by (auto simp: window_pair shift_set_def bit_simps)
    next
      case False
      then have "x - k = 32 + (z - k)" using z by simp
      then show ?thesis using False z assms
        by (auto simp: window_pair shift_set_def bit_simps dest: bit_imp_le_length)
    qed
  qed
qed

lemma bit_shift_32:
  assumes "length bs = 2" "0 < n" "n < 64"
  shows "\<exists>bs'. bit_shift (bs :: 32 word list) n = Some bs' \<and> length bs' = 2 \<and>
    window bs' = shift_set (nat n) (window bs)"
proof -
  obtain a b where bs: "bs = [a, b]" using assms(1) by (rule len2_cases)
  define k where "k = nat n"
  then have n: "n = int k" and k: "0 < k" "k < 64" using assms by auto
  show ?thesis
  proof (cases "k < 32")
    case True
    with k show ?thesis using window_shift_small [of k a b]
      by (simp add: bs n bit_shift_32_eq nat_diff_distrib bit_shift_join [simplified])
  next
    case False
    have "window [0, push_bit (k - 32) a] = shift_set k (window [a, b])"
      using False k by (auto simp: window_pair shift_set_def bit_simps)
    then show ?thesis using False k
      by (simp add: bs n bit_shift_32_eq nat_diff_distrib)
  qed
qed
lemma word_hamming_card: "word_hamming w h = h + int (card {n. bit w n})"
proof (induction w h rule: word_hamming.induct)
  case (1 w h)
  show ?case
  proof (cases "w = 0")
    case True
    then show ?thesis by (simp add: word_hamming.simps)
  next
    case False
    then have "unat (w AND (w - 1)) = (unat w AND (unat w - 1))"
      by (simp add: unsigned_and_eq unat_minus_one)
    with False have "card {n. bit w n} = Suc (card {n. bit (w AND (w - 1)) n})"
      using card_and_pred_nat [of "unat w"] by (simp add: bits_unat unat_gt_0)
    with 1 False show ?thesis by (simp add: word_hamming.simps [of w h])
  qed
qed

lemma card_window_pair:
  "card (window [a, b :: 32 word]) = card {n. bit a n} + card {n. bit b n}"
proof -
  have A: "{n. n < 32 \<and> bit a n} = {n. bit a n}"
    by (auto dest: bit_imp_le_length)
  have B: "{n. 32 \<le> n \<and> n < 64 \<and> bit b (n - 32)} = (\<lambda>n. n + 32) ` {n. bit b n}"
  proof (rule set_eqI)
    fix n show "n \<in> {n. 32 \<le> n \<and> n < 64 \<and> bit b (n - 32)} \<longleftrightarrow> n \<in> (\<lambda>n. n + 32) ` {n. bit b n}"
      by (cases "32 \<le> n") (auto simp: image_iff dest: bit_imp_le_length intro!: exI [of _ "n - 32"])
  qed
  have "card (window [a, b]) = card {n. bit a n} + card ((\<lambda>n. n + 32) ` {n. bit b n})"
    unfolding window_pair A B
    by (rule card_Un_disjoint) (auto dest: bit_imp_le_length)
  then show ?thesis by (simp add: card_image)
qed

lemma bit_packet_count_32:
  "length bs = 2 \<Longrightarrow> bit_packet_count (bs :: 32 word list) = Some (int (card (window bs)))"
  by (erule len2_cases)
    (simp add: bit_packet_count_def bit_packet_count_from.simps word_hamming_card card_window_pair)

lemma window_bound: "length bs = 2 \<Longrightarrow> window (bs :: 32 word list) \<subseteq> {..<64}"
  by (auto simp: window_def)

lemma card_window_le: "length bs = 2 \<Longrightarrow> card (window (bs :: 32 word list)) \<le> 64"
  using card_mono [OF _ window_bound [of bs]] by simp

lemma finite_window [simp]: "finite (window bs)"
  by (simp add: window_def)

lemma get_bit_status_32:
  assumes len: "length bs = 2"
  shows "get_bit_status (bs :: 32 word list) last_seqno curr_seqno =
    (if unat (last_seqno - curr_seqno) < 64
     then if curr_seqno \<le> last_seqno
          then Some (unat (last_seqno - curr_seqno) \<in> window bs)
          else None
     else Some False)"
proof -
  obtain a b where bs: "bs = [a, b]" using len by (rule len2_cases)
  define d where "d = uint last_seqno - uint curr_seqno"
  have rng: "- 65536 < d" "d < 65536"
    using uint_range16 [of last_seqno] uint_range16 [of curr_seqno]
    unfolding d_def by linarith+
  have sub: "uint (last_seqno - curr_seqno) = d mod 65536"
    by (simp add: d_def uint_word_ariths)
  define r where "r = d mod 65536"
  have r0: "0 \<le> r" "r < 65536" by (simp_all add: r_def)
  have un_r: "int (unat (last_seqno - curr_seqno)) = r"
    by (simp only: uint_nat [symmetric] sub r_def)
  then have small: "unat (last_seqno - curr_seqno) < 64 \<longleftrightarrow> r < 64"
    by linarith
  have s16: "(to_s16 d < 0 \<or> to_s16 d \<ge> 64) \<longleftrightarrow> \<not> r < 64"
    using r0 unfolding to_s16_alt r_def [symmetric] by auto
  have le: "curr_seqno \<le> last_seqno \<longleftrightarrow> 0 \<le> d"
    by (simp add: word_le_def d_def)
  show ?thesis
  proof (cases "r < 64")
    case False
    then show ?thesis
      by (simp add: get_bit_status_def TQ_LOCAL_WINDOW_SIZE_def d_def [symmetric] s16 small)
  next
    case True
    show ?thesis
    proof (cases "0 \<le> d")
      case nonneg: True
      with rng have "r = d" by (simp add: r_def)
      with True have d64: "d < 64" by simp
      have un: "unat (last_seqno - curr_seqno) = nat d"
        using un_r \<open>r = d\<close> by linarith
      show ?thesis
      proof (cases "d < 32")
        case True
        with nonneg have "d sdiv 32 = 0" "d smod 32 = d" by (simp_all add: sdiv_nonneg smod_nonneg)
        with True nonneg show ?thesis using d64
          by (simp add: get_bit_status_def TQ_LOCAL_WINDOW_SIZE_def d_def [symmetric] un le bs
              window_pair and_exp_eq_0 nat_less_iff le_nat_iff)
      next
        case False
        with nonneg d64 have "d sdiv 32 = 1" "d smod 32 = d - 32"
          by (simp_all add: sdiv_nonneg smod_nonneg div_mod_32)
        with False nonneg show ?thesis using d64
          by (simp add: get_bit_status_def TQ_LOCAL_WINDOW_SIZE_def d_def [symmetric] un le bs
              window_pair and_exp_eq_0 nat_less_iff nat_diff_distrib le_nat_iff)
      qed
    next
      case False
      with rng have "r = d + 65536"
        using mod_pos_pos_trivial [of "d + 65536" 65536] by (simp add: r_def)
      with True have "65472 < - d" by simp
      with rng have "2046 \<le> - d div 32" "- d div 32 \<le> 2047" by simp_all
      moreover have "d sdiv 32 = - (- d div 32)"
        using False by (simp add: signed_divide_int_def)
      ultimately have "to_s16 (d sdiv 32) < 0" by simp
      then show ?thesis using False True
        by (simp add: get_bit_status_def TQ_LOCAL_WINDOW_SIZE_def d_def [symmetric] s16 small le
            array_get_def)
    qed
  qed
qed


lemma bit_clear_from_32: "bit_clear_from 0 [a, b :: 32 word] = Some [0, 0]"
  by (simp add: bit_clear_from.simps)

text \<open>What \<open>bit_get_packet\<close> does to the marked positions.\<close>

definition get_packet_window :: "int \<Rightarrow> bool \<Rightarrow> nat set \<Rightarrow> nat set" where
  "get_packet_window d mark W =
     (if d < 0 \<and> d \<ge> - 64 then (if mark \<and> d > - 64 then insert (nat (- d)) W else W)
      else (if d > 64 \<or> d < - 64 then {} else shift_set (nat d) W) \<union> (if mark then {0} else {}))"

lemma window_zero [simp]: "window [0, 0 :: 32 word] = {}"
  by (simp add: window_pair)

lemma window_one [simp]: "window [1, 0 :: 32 word] = {0}"
  by (auto simp: window_pair bit_1_iff)

lemma shift_set_0: "W \<subseteq> {..<64} \<Longrightarrow> shift_set 0 W = W"
  by (auto simp: shift_set_def)

lemma bit_get_packet_32:
  assumes len: "length bs = 2" and d: "d \<noteq> 64"
  shows "\<exists>bs'. bit_get_packet (bs :: 32 word list) d mark = Some (d \<ge> 0 \<or> d < - 64, bs') \<and>
    length bs' = 2 \<and> window bs' = get_packet_window d mark (window bs)"
proof -
  obtain a b where bs: "bs = [a, b]" using len by (rule len2_cases)
  consider (old) "d < 0" "d \<ge> - 64" | (far) "d > 64 \<or> d < - 64" | (near) "0 \<le> d" "d < 64"
    using d by linarith
  then show ?thesis
  proof cases
    case old
    then show ?thesis
      using bit_mark_32 [OF len, of "- d"] bit_mark_out [of "- d" bs] len
      by (cases "d = - 64") (auto simp: bit_get_packet_def get_packet_window_def TQ_LOCAL_WINDOW_SIZE_def)
  next
    case far
    then show ?thesis
      by (auto simp: bit_get_packet_def get_packet_window_def TQ_LOCAL_WINDOW_SIZE_def bs bit_clear_from_32)
  next
    case near
    obtain bs1 where 1: "bit_shift bs d = Some bs1" "length bs1 = 2" "window bs1 = shift_set (nat d) (window bs)"
      using bit_shift_32 [OF len, of d] near len shift_set_0 [OF window_bound [OF len]]
      by (cases "d = 0") (auto simp: bit_shift_def)
    with near show ?thesis
      using bit_mark_32 [OF 1(2), of 0]
      by (auto simp: bit_get_packet_def get_packet_window_def TQ_LOCAL_WINDOW_SIZE_def)
  qed
qed

lemma bit_get_packet_64_undefined:
  assumes "length bs = 2"
  shows "bit_get_packet (bs :: 32 word list) 64 mark = None"
proof -
  have "(64 :: int) sdiv 32 = 2" "(64 :: int) smod 32 = 0" by simp_all
  then show ?thesis
    by (simp add: bit_get_packet_def TQ_LOCAL_WINDOW_SIZE_def bit_shift_def bit_shift_loop.simps array_get_def)
qed
section \<open>The contract of the window\<close>

text \<open>
  What the callers in \<open>batman-adv.c\<close>, \<open>schedule.c\<close> and \<open>posix-specific.c\<close> rely on: the
  operations act on the set of marked positions. The distance \<open>64\<close> and a sequence number that
  has wrapped around are left out, because the operations do not handle them.
\<close>

locale seq_window =
  fixes status :: "'b \<Rightarrow> u16 \<Rightarrow> u16 \<Rightarrow> bool option"
    and get_packet :: "'b \<Rightarrow> int \<Rightarrow> bool \<Rightarrow> (bool \<times> 'b) option"
    and count :: "'b \<Rightarrow> int option"
    and win :: "'b \<Rightarrow> nat set"
    and ok :: "'b \<Rightarrow> bool"
  assumes get_packet_win: "ok b \<Longrightarrow> d \<noteq> 64 \<Longrightarrow>
      \<exists>b'. get_packet b d m = Some (d \<ge> 0 \<or> d < - 64, b') \<and> ok b' \<and>
        win b' = get_packet_window d m (win b)"
    and count_win: "ok b \<Longrightarrow> count b = Some (int (card (win b)))"
    and status_win: "ok b \<Longrightarrow> cur \<le> newest \<Longrightarrow>
      status b newest cur = Some (unat (newest - cur) < 64 \<and> unat (newest - cur) \<in> win b)"
    and win_bounded: "ok b \<Longrightarrow> win b \<subseteq> {..<64}"
begin

lemma count_bounds: "ok b \<Longrightarrow> \<exists>c. count b = Some c \<and> 0 \<le> c \<and> c \<le> 64"
  using card_mono [OF _ win_bounded [of b]] by (auto simp: count_win)

text \<open>A packet that is marked and whose number is new is known afterwards.\<close>

lemma marked_is_known:
  assumes "ok b" "d \<noteq> 64" "d \<ge> 0 \<or> d < - 64"
  shows "\<exists>b'. get_packet b d True = Some (True, b') \<and> ok b' \<and> status b' s s = Some True"
  using get_packet_win [OF assms(1,2), of True] assms(3)
  by (auto simp: status_win get_packet_window_def)

text \<open>
  While the window moves forward by \<open>k\<close>, every other number keeps its status as long as it is
  still inside of the window.
\<close>

lemma status_moves:
  assumes "ok b" "0 < k" "k < 64" "x \<le> newest" "unat newest + k < 65536"
  shows "\<exists>b'. get_packet b (int k) m = Some (True, b') \<and> ok b' \<and>
    status b' (newest + of_nat k) x =
      Some (unat (newest - x) + k < 64 \<and> status b newest x = Some True)"
proof -
  obtain b' where b': "get_packet b (int k) m = Some (True, b')" "ok b'"
    "win b' = get_packet_window (int k) m (win b)"
    using get_packet_win [OF assms(1), of "int k" m] assms(2,3) by auto
  have u: "unat (newest + of_nat k) = unat newest + k"
    using assms(5) by (simp add: unat_word_ariths unat_of_nat)
  have le: "x \<le> newest + of_nat k" using assms(4) u by (simp add: word_le_nat_alt)
  have diff: "unat (newest + of_nat k - x) = unat (newest - x) + k"
    using assms(4) le u by (simp add: unat_sub word_le_nat_alt)
  show ?thesis using b' assms le
    by (auto simp: status_win diff get_packet_window_def shift_set_def)
qed

end

lemma window_laws_32: "seq_window get_bit_status bit_get_packet bit_packet_count window
    (\<lambda>bs :: 32 word list. length bs = 2)"
proof (unfold_locales, goal_cases)
  case (1 b d m)
  then show ?case by (rule bit_get_packet_32)
qed (simp_all add: bit_packet_count_32 get_bit_status_32 window_bound)

interpretation win32: seq_window get_bit_status bit_get_packet bit_packet_count window
    "\<lambda>bs :: 32 word list. length bs = 2"
  by (rule window_laws_32)

section \<open>Properties\<close>

text \<open>
  \<open>get_bit_status\<close> on an ILP32 target, on every branch. A number outside of the window is
  never reported as received; inside of it the answer is the bit of the window; and when the
  16 bit sequence number has wrapped around between \<open>curr_seqno\<close> and \<open>last_seqno\<close>, the word
  index, computed from the unreduced difference, is outside of the array.
\<close>

theorem get_bit_status_spec:
  assumes "length bs = 2"
  shows "get_bit_status (bs :: 32 word list) last_seqno curr_seqno =
    (if unat (last_seqno - curr_seqno) < 64
     then if curr_seqno \<le> last_seqno
          then Some (unat (last_seqno - curr_seqno) \<in> window bs)
          else None
     else Some False)"
  using assms by (rule get_bit_status_32)

theorem get_bit_status_spec_witness:
  "get_bit_status [5, 0 :: 32 word] 10 8 = Some True \<and>
   get_bit_status [5, 0 :: 32 word] 1 0xFFFF = None"
  using get_bit_status_spec [of "[5, 0]" 10 8] get_bit_status_spec [of "[5, 0]" 1 "0xFFFF"]
  by (simp add: window_pair bit_numeral_rec word_le_nat_alt)

text \<open>
  C26: \<open>bit_get_packet\<close> implements the sliding window, for every distance but 64: an old packet
  within the window is marked without moving it, a distance beyond the window in either direction
  clears it, and a new packet moves all marks up by the distance; the result says whether the
  number is new.
\<close>

theorem bit_get_packet_refines:
  assumes "length bs = 2" "seq_num_diff \<noteq> 64"
  shows "\<exists>bs'. bit_get_packet (bs :: 32 word list) seq_num_diff set_mark =
      Some (seq_num_diff \<ge> 0 \<or> seq_num_diff < - 64, bs') \<and> length bs' = 2 \<and>
      window bs' = get_packet_window seq_num_diff set_mark (window bs)"
  using assms by (rule win32.get_packet_win)

theorem bit_get_packet_refines_witness:
  "\<exists>bs'. bit_get_packet [1, 0 :: 32 word] 40 True = Some (True, bs') \<and> window bs' = {0, 40}"
  using bit_get_packet_refines [of "[1, 0]" 40 True]
  by (auto simp: get_packet_window_def shift_set_def)

text \<open>
  At the distance of exactly one window, which \<open>bit_get_packet\<close> takes as a shift, the first
  word \<open>bit_shift\<close> reads lies before the array, on both data models.
\<close>

theorem bit_get_packet_window_distance:
  assumes "length bs = 2" "length cs = 1"
  shows "bit_get_packet (bs :: 32 word list) 64 set_mark = None \<and>
    bit_get_packet (cs :: 64 word list) 64 set_mark = None"
  using assms bit_get_packet_64_undefined [OF assms(1), of set_mark]
  by (simp add: bit_get_packet_def TQ_LOCAL_WINDOW_SIZE_def bit_shift_def bit_shift_loop.simps
      array_get_def)

theorem bit_get_packet_window_distance_witness:
  "bit_get_packet [1, 0 :: 32 word] 64 True = None \<and> bit_get_packet [1 :: 64 word] 64 True = None"
  using bit_get_packet_window_distance [of "[1, 0]" "[1]" True] by simp

text \<open>
  C32: \<open>bit_packet_count\<close> is the number of marked positions and hence at most the window size.
\<close>

theorem bit_packet_count_card:
  assumes "length bs = 2"
  shows "bit_packet_count (bs :: 32 word list) = Some (int (card (window bs))) \<and>
    card (window bs) \<le> 64"
  using win32.count_win [OF assms] card_window_le [OF assms] by simp

theorem bit_packet_count_card_witness: "bit_packet_count [1, 1 :: 32 word] = Some 2"
proof -
  have "window [1, 1 :: 32 word] = {0, 32}"
    by (auto simp: window_pair bit_1_iff)
  then show ?thesis using bit_packet_count_card [of "[1, 1]"] by simp
qed

text \<open>
  On an LP64 target the mask \<open>1 << word_offset\<close> is computed in 32 bits: positions from 32
  on are undefined, and marking position 31 marks all the positions above it too.
\<close>

theorem bit_mark_lp64:
  "(\<forall>n. 32 \<le> n \<and> n < 64 \<longrightarrow> bit_mark [w :: 64 word] n = None) \<and>
   bit_mark [0 :: 64 word] 31 = Some [0xFFFFFFFF80000000]"
  by (simp add: bit_mark_def TQ_LOCAL_WINDOW_SIZE_def sdiv_nonneg smod_nonneg int_one_shl_def
      signed_take_bit_eq_take_bit_shift take_bit_eq_mod)

theorem bit_mark_lp64_witness: "bit_mark [1 :: 64 word] 40 = None"
  using bit_mark_lp64 [of 1] by simp

end
