(* ===== verification/Ring_Buffer.thy ===== *)
theory Ring_Buffer
  imports Bat_Prelude
begin

text \<open>
  The global TQ window of a neighbour, \<open>src/ring_buffer.c\<close>: the last
  \<open>TQ_GLOBAL_WINDOW_SIZE\<close> transmission qualities received via it, and their average over the
  packets that were received (a missed packet is recorded as \<open>0\<close>). The abstract view of the
  buffer is the list of its values, oldest first (\<open>ring_values\<close>).
\<close>

definition TQ_GLOBAL_WINDOW_SIZE :: int where
  "TQ_GLOBAL_WINDOW_SIZE = 10"

definition ring_buffer_set :: "u8 list \<Rightarrow> u8 \<Rightarrow> u8 \<Rightarrow> (u8 list \<times> u8) option" where
  "ring_buffer_set lq_recv lq_index value = do {
     lq_recv \<leftarrow> array_set lq_recv (uint lq_index) value;
     Some (lq_recv, word_of_int ((uint lq_index + 1) mod TQ_GLOBAL_WINDOW_SIZE))
   }"

text \<open>The loop of \<open>ring_buffer_avg\<close>, with its \<open>uint16_t\<close> counters (\<open>acc\<close> is the variable \<open>sum\<close>).\<close>

function ring_buffer_sum :: "u8 list \<Rightarrow> int \<Rightarrow> u16 \<Rightarrow> u16 \<Rightarrow> (u16 \<times> u16) option" where
  "ring_buffer_sum lq_recv i count acc =
     (if i < TQ_GLOBAL_WINDOW_SIZE
      then do {
        v \<leftarrow> array_get lq_recv i;
        (if v \<noteq> 0 then ring_buffer_sum lq_recv (i + 1) (count + 1) (acc + ucast v)
         else ring_buffer_sum lq_recv (i + 1) count acc)
      }
      else Some (count, acc))"
  by pat_completeness auto
termination
  by (relation "measure (\<lambda>(xs, i, c, s). nat (TQ_GLOBAL_WINDOW_SIZE - i))") auto

declare ring_buffer_sum.simps [simp del]

definition ring_buffer_avg :: "u8 list \<Rightarrow> u8 option" where
  "ring_buffer_avg lq_recv = do {
     (count, acc) \<leftarrow> ring_buffer_sum lq_recv 0 0 0;
     if count = 0 then Some 0
     else Some (word_of_int (uint acc div uint count))
   }"

section \<open>Abstract view\<close>

definition ring_ok :: "u8 list \<Rightarrow> u8 \<Rightarrow> bool" where
  "ring_ok lq_recv lq_index \<longleftrightarrow> length lq_recv = 10 \<and> unat lq_index < 10"

definition ring_values :: "u8 list \<Rightarrow> u8 \<Rightarrow> u8 list" where
  "ring_values lq_recv lq_index = drop (unat lq_index) lq_recv @ take (unat lq_index) lq_recv"

definition nonzero_values :: "u8 list \<Rightarrow> nat list" where
  "nonzero_values vs = map unat (filter (\<lambda>v. v \<noteq> 0) vs)"

lemma ring_index_step:
  assumes "unat i < 10"
  shows "unat (word_of_int ((uint (i :: u8) + 1) mod TQ_GLOBAL_WINDOW_SIZE) :: u8) =
    (if unat i = 9 then 0 else Suc (unat i))"
proof -
  obtain k where k: "unat i = k" by simp
  then have i: "uint i = int k" by (simp only: uint_nat)
  have "(int k + 1) mod 10 = (if k = 9 then 0 else int k + 1)"
    using assms k by auto
  then show ?thesis using assms k
    by (auto simp: TQ_GLOBAL_WINDOW_SIZE_def i unsigned_of_int take_bit_eq_mod nat_add_distrib)
qed

lemma ring_buffer_set_values:
  assumes "ring_ok xs i"
  shows "\<exists>ys j. ring_buffer_set xs i v = Some (ys, j) \<and> ring_ok ys j \<and>
    ring_values ys j = tl (ring_values xs i) @ [v]"
proof -
  define k where "k = unat i"
  have k: "k < 10" "length xs = 10"
    using assms by (simp_all add: ring_ok_def k_def)
  have ui: "uint i = int k" by (simp only: uint_nat k_def)
  define j where "j = (word_of_int ((uint i + 1) mod TQ_GLOBAL_WINDOW_SIZE) :: u8)"
  have j: "unat j = (if k = 9 then 0 else Suc k)"
    using ring_index_step [of i] k by (simp add: j_def k_def)
  have set: "ring_buffer_set xs i v = Some (xs[k := v], j)"
    using k by (simp add: ring_buffer_set_def j_def ui)
  have xs: "xs = take k xs @ xs ! k # drop (Suc k) xs"
    using k by (simp add: id_take_nth_drop)
  have upd: "xs[k := v] = take k xs @ v # drop (Suc k) xs"
    using k by (simp add: upd_conv_take_nth_drop)
  have "ring_values (xs[k := v]) j = tl (drop k xs) @ take k xs @ [v]"
  proof (cases "k = 9")
    case True
    then have "drop (Suc k) xs = []" using k by simp
    then show ?thesis using True k j upd by (simp add: ring_values_def drop_Suc tl_drop)
  next
    case False
    then have "take (Suc k) (xs[k := v]) = take k xs @ [v]"
      using k by (simp add: upd take_Suc_conv_app_nth)
    moreover have "drop (Suc k) (xs[k := v]) = tl (drop k xs)"
      using k by (simp add: upd drop_Suc tl_drop)
    ultimately show ?thesis using False j by (simp add: ring_values_def)
  qed
  moreover have "drop k xs \<noteq> []" using k by simp
  ultimately show ?thesis using k j set
    by (auto simp: ring_ok_def ring_values_def k_def [symmetric])
qed

lemma nonzero_values_Cons:
  "nonzero_values (v # vs) = (if v = 0 then nonzero_values vs else unat v # nonzero_values vs)"
  by (simp add: nonzero_values_def)

lemma ring_buffer_sum_eq:
  assumes "length xs = 10" "i \<le> 10"
  shows "ring_buffer_sum xs (int i) c s =
    Some (c + of_nat (length (nonzero_values (drop i xs))), s + of_nat (sum_list (nonzero_values (drop i xs))))"
  using assms(2)
proof (induction "10 - i" arbitrary: i c s)
  case 0
  then show ?case
    by (simp add: ring_buffer_sum.simps TQ_GLOBAL_WINDOW_SIZE_def nonzero_values_def assms(1))
next
  case (Suc n)
  then have i: "i < 10" "n = 10 - Suc i" by simp_all
  have d: "drop i xs = xs ! i # drop (Suc i) xs"
    using i assms(1) by (simp add: Cons_nth_drop_Suc)
  have "ring_buffer_sum xs (int i) c s =
      (if xs ! i = 0 then ring_buffer_sum xs (int (Suc i)) c s
       else ring_buffer_sum xs (int (Suc i)) (c + 1) (s + ucast (xs ! i)))"
    using i assms(1)
    by (simp add: ring_buffer_sum.simps [of xs "int i"] TQ_GLOBAL_WINDOW_SIZE_def add.commute)
  also have "\<dots> = Some (c + of_nat (length (nonzero_values (drop i xs))),
      s + of_nat (sum_list (nonzero_values (drop i xs))))"
    using Suc.hyps(1) [OF i(2)] i(1) by (simp add: d nonzero_values_Cons add.assoc)
  finally show ?case .
qed

lemma sum_list_le_length: "(\<And>x. x \<in> set xs \<Longrightarrow> x \<le> (b :: nat)) \<Longrightarrow> sum_list xs \<le> length xs * b"
  by (induction xs) (auto simp: add_mono)

lemma length_le_sum_list: "(\<And>x. x \<in> set xs \<Longrightarrow> (b :: nat) \<le> x) \<Longrightarrow> length xs * b \<le> sum_list xs"
  by (induction xs) (auto simp: add_mono)

lemma nonzero_values_bound: "x \<in> set (nonzero_values vs) \<Longrightarrow> 0 < x \<and> x \<le> 255"
  by (auto simp: nonzero_values_def unat_gt_0 unat_u8_le)

lemma ring_buffer_avg_eq:
  assumes "length xs = 10"
  shows "ring_buffer_avg xs = Some (of_nat (sum_list (nonzero_values xs) div length (nonzero_values xs)))"
proof -
  define n where "n = length (nonzero_values xs)"
  define t where "t = sum_list (nonzero_values xs)"
  have n: "n \<le> 10" using assms length_filter_le [of _ xs] by (auto simp: n_def nonzero_values_def)
  have "t \<le> n * 255"
    unfolding t_def n_def by (rule sum_list_le_length) (simp add: nonzero_values_bound)
  with n have t: "t < 65536" by linarith
  have sum: "ring_buffer_sum xs 0 0 0 = Some (of_nat n, of_nat t)"
    using ring_buffer_sum_eq [OF assms, of 0 0 0] by (simp add: n_def t_def)
  have un: "uint (of_nat n :: u16) = int n" "uint (of_nat t :: u16) = int t"
    using n t by (simp_all add: unsigned_of_nat take_bit_nat_eq_self uint_nat unat_of_nat)
  have "(of_nat n :: u16) = 0 \<longleftrightarrow> n = 0"
    using n unat_of_nat_id [where 'w = 16, of n] unat_eq_zero [of "of_nat n :: u16"] by simp
  then show ?thesis
    using un by (simp add: ring_buffer_avg_def sum n_def [symmetric] t_def [symmetric] zdiv_int [symmetric])
qed

text \<open>The average of a non-empty list lies between its extremes.\<close>

lemma list_avg_bounds:
  assumes "xs \<noteq> []" "\<And>x. x \<in> set xs \<Longrightarrow> lo \<le> x \<and> x \<le> (hi :: nat)"
  shows "lo \<le> sum_list xs div length xs \<and> sum_list xs div length xs \<le> hi"
proof
  show "lo \<le> sum_list xs div length xs"
    using assms length_le_sum_list [of xs lo] by (simp add: less_eq_div_iff_mult_less_eq mult.commute)
  have "sum_list xs div length xs \<le> (length xs * hi) div length xs"
    by (rule div_le_mono) (simp add: assms(2) sum_list_le_length)
  then show "sum_list xs div length xs \<le> hi" using assms(1) by simp
qed

lemma ring_buffer_avg_bounds:
  assumes "length xs = 10" "v \<in> set xs" "v \<noteq> 0"
    "\<And>x. x \<in> set (nonzero_values xs) \<Longrightarrow> lo \<le> x \<and> x \<le> hi" "hi \<le> 255"
  shows "\<exists>a. ring_buffer_avg xs = Some a \<and> lo \<le> unat a \<and> unat a \<le> hi"
proof -
  have "nonzero_values xs \<noteq> []" using assms(2,3) by (auto simp: nonzero_values_def filter_empty_conv)
  note b = list_avg_bounds [OF this assms(4)]
  then have "unat (of_nat (sum_list (nonzero_values xs) div length (nonzero_values xs)) :: u8) =
      sum_list (nonzero_values xs) div length (nonzero_values xs)"
    using assms(5) by (intro unat_of_nat_id) simp
  with b show ?thesis by (auto simp: ring_buffer_avg_eq assms(1))
qed

section \<open>Properties\<close>

text \<open>
  \<open>ring_buffer_set\<close> keeps the buffer well-formed and drops the oldest value for the new one,
  so that the buffer always holds the last \<open>TQ_GLOBAL_WINDOW_SIZE\<close> values.
\<close>

theorem ring_buffer_set_fifo:
  assumes "ring_ok lq_recv lq_index"
  shows "\<exists>recv' index'. ring_buffer_set lq_recv lq_index value = Some (recv', index') \<and>
    ring_ok recv' index' \<and> ring_values recv' index' = tl (ring_values lq_recv lq_index) @ [value]"
  using assms by (rule ring_buffer_set_values)

theorem ring_buffer_set_fifo_witness:
  "\<exists>recv' index'. ring_buffer_set [1, 2, 3, 4, 5, 6, 7, 8, 9, 10] 9 77 = Some (recv', index') \<and>
    ring_values recv' index' = [1, 2, 3, 4, 5, 6, 7, 8, 9, 77]"
  using ring_buffer_set_fifo [of "[1, 2, 3, 4, 5, 6, 7, 8, 9, 10]" 9 77]
  by (auto simp: ring_ok_def ring_values_def)

text \<open>
  \<open>ring_buffer_avg\<close> is the integer average of the values that are not zero (the division is
  never by zero and nothing overflows), it lies between the smallest and the largest of them, and
  it is zero exactly when there is none.
\<close>

theorem ring_buffer_avg_spec:
  assumes "length lq_recv = 10"
  shows "\<exists>a. ring_buffer_avg lq_recv = Some a \<and>
    unat a = sum_list (nonzero_values lq_recv) div length (nonzero_values lq_recv) \<and>
    (a = 0 \<longleftrightarrow> set lq_recv \<subseteq> {0}) \<and>
    (\<forall>lo hi. (\<forall>v \<in> set lq_recv. v \<noteq> 0 \<longrightarrow> lo \<le> unat v \<and> unat v \<le> hi) \<and> a \<noteq> 0 \<longrightarrow>
      lo \<le> unat a \<and> unat a \<le> hi)"
proof (cases "nonzero_values lq_recv = []")
  case True
  then show ?thesis
    by (auto simp: ring_buffer_avg_eq assms nonzero_values_def filter_empty_conv)
next
  case False
  define q where "q = sum_list (nonzero_values lq_recv) div length (nonzero_values lq_recv)"
  have q: "1 \<le> q \<and> q \<le> 255"
    unfolding q_def using False by (rule list_avg_bounds) (auto dest: nonzero_values_bound)
  then have u: "unat (of_nat q :: u8) = q" by (intro unat_of_nat_id) simp
  have "lo \<le> q \<and> q \<le> hi" if "\<forall>v \<in> set lq_recv. v \<noteq> 0 \<longrightarrow> lo \<le> unat v \<and> unat v \<le> hi" for lo hi
    unfolding q_def using False that by (intro list_avg_bounds) (auto simp: nonzero_values_def)
  moreover have "(of_nat q :: u8) \<noteq> 0" using u q by auto
  moreover have "\<not> set lq_recv \<subseteq> {0}" using False by (auto simp: nonzero_values_def filter_empty_conv)
  ultimately show ?thesis
    using u by (auto simp: ring_buffer_avg_eq assms q_def [symmetric])
qed

theorem ring_buffer_avg_spec_witness:
  "map_option unat (ring_buffer_avg [0, 200, 0, 100, 0, 0, 0, 0, 0, 255]) = Some 185"
  using ring_buffer_avg_spec [of "[0, 200, 0, 100, 0, 0, 0, 0, 0, 255]"]
  by (auto simp: nonzero_values_def)

end
