(* ===== verification/List_Batman.thy ===== *)
theory List_Batman
  imports Bat_Prelude
begin

text \<open>
  The intrusive singly linked lists of \<open>src/list-batman.c\<close> and \<open>src/list-batman.h\<close>, on an
  explicit memory: \<open>nxt\<close> is the field \<open>next\<close> of every node (and of every head, whose first
  field it is), \<open>prv\<close> the field \<open>prev\<close> of the heads, which points to the last node. An
  address is a natural number, \<open>0\<close> is \<open>NULL\<close>.

  \<open>list_repr m h xs\<close> says that the head \<open>h\<close> represents the list \<open>xs\<close> of node addresses.
  The lemmas show that every operation implements the list operation it stands for, so that the
  other components can treat \<open>if_list\<close>, \<open>forw_list\<close>, \<open>gw_list\<close> and the neighbour lists as
  lists. One lemma is about what the code really does when it passes the head of the list as
  the predecessor of an entry that is not the first one.
\<close>

record list_mem =
  nxt :: "nat \<Rightarrow> nat"
  prv :: "nat \<Rightarrow> nat"

abbreviation NULL :: nat where
  "NULL \<equiv> 0"

section \<open>Operations\<close>

definition INIT_LIST_HEAD :: "nat \<Rightarrow> list_mem \<Rightarrow> list_mem" where
  "INIT_LIST_HEAD ptr m = m\<lparr>nxt := (nxt m)(ptr := ptr)\<rparr>"

definition INIT_LIST_HEAD_FIRST :: "nat \<Rightarrow> list_mem \<Rightarrow> list_mem" where
  "INIT_LIST_HEAD_FIRST ptr m = m\<lparr>nxt := (nxt m)(ptr := ptr), prv := (prv m)(ptr := ptr)\<rparr>"

definition list_add_between :: "nat \<Rightarrow> nat \<Rightarrow> nat \<Rightarrow> list_mem \<Rightarrow> list_mem" where
  "list_add_between new prev next m =
     (let m = m\<lparr>nxt := (nxt m)(new := next)\<rparr>
      in m\<lparr>nxt := (nxt m)(prev := new)\<rparr>)"

definition list_add :: "nat \<Rightarrow> nat \<Rightarrow> list_mem \<Rightarrow> list_mem" where
  "list_add new head m =
     (let m = list_add_between new head (nxt m head) m
      in if prv m head = head then m\<lparr>prv := (prv m)(head := new)\<rparr> else m)"

definition list_add_tail :: "nat \<Rightarrow> nat \<Rightarrow> list_mem \<Rightarrow> list_mem" where
  "list_add_tail new head m =
     (let m = list_add_between new (prv m head) head m
      in m\<lparr>prv := (prv m)(head := new)\<rparr>)"

definition list_add_before :: "nat \<Rightarrow> nat \<Rightarrow> nat \<Rightarrow> list_mem \<Rightarrow> list_mem" where
  "list_add_before prev_node next_node new_node m =
     (let m = m\<lparr>nxt := (nxt m)(prev_node := new_node)\<rparr>
      in m\<lparr>nxt := (nxt m)(new_node := next_node)\<rparr>)"

definition list_del_between :: "nat \<Rightarrow> nat \<Rightarrow> list_mem \<Rightarrow> list_mem" where
  "list_del_between prev next m = m\<lparr>nxt := (nxt m)(prev := next)\<rparr>"

definition list_del :: "nat \<Rightarrow> nat \<Rightarrow> nat \<Rightarrow> list_mem \<Rightarrow> list_mem" where
  "list_del prev_entry entry head m =
     (let m = (if prv m head = entry then m\<lparr>prv := (prv m)(head := prev_entry)\<rparr> else m);
          m = list_del_between prev_entry (nxt m entry) m
      in m\<lparr>nxt := (nxt m)(entry := NULL)\<rparr>)"

definition list_empty :: "nat \<Rightarrow> list_mem \<Rightarrow> bool" where
  "list_empty head m \<longleftrightarrow> nxt m head = head"

text \<open>The addresses that \<open>list_for_each\<close> visits from \<open>pos\<close> on: \<^term>\<open>None\<close> if it does not end.\<close>

partial_function (option) list_for_each :: "list_mem \<Rightarrow> nat \<Rightarrow> nat \<Rightarrow> nat list option" where
  "list_for_each m head pos =
     (if pos = head then Some []
      else do { ps \<leftarrow> list_for_each m head (nxt m pos); Some (pos # ps) })"

section \<open>Representation\<close>

fun path :: "(nat \<Rightarrow> nat) \<Rightarrow> nat \<Rightarrow> nat list \<Rightarrow> nat \<Rightarrow> bool" where
  "path f x [] z \<longleftrightarrow> f x = z"
| "path f x (y # ys) z \<longleftrightarrow> f x = y \<and> path f y ys z"

definition list_repr :: "list_mem \<Rightarrow> nat \<Rightarrow> nat list \<Rightarrow> bool" where
  "list_repr m h xs \<longleftrightarrow>
     distinct (h # xs) \<and> NULL \<notin> set (h # xs) \<and> prv m h = last (h # xs) \<and> path (nxt m) h xs h"

lemma path_append: "path f x (xs @ y # ys) z \<longleftrightarrow> path f x xs y \<and> path f y ys z"
  by (induction f x xs y rule: path.induct) auto

lemma path_upd [simp]: "a \<notin> set (x # xs) \<Longrightarrow> path (f(a := v)) x xs z \<longleftrightarrow> path f x xs z"
  by (induction f x xs z rule: path.induct) auto

lemma path_last: "path f x xs z \<Longrightarrow> f (last (x # xs)) = z"
  by (induction f x xs z rule: path.induct) auto

text \<open>Redirecting the last node of a path.\<close>

lemma path_set_last:
  "path f x xs z \<Longrightarrow> distinct (x # xs) \<Longrightarrow> path (f(last (x # xs) := z')) x xs z'"
  by (induction f x xs z rule: path.induct) auto

lemma list_repr_init: "h \<noteq> NULL \<Longrightarrow> list_repr (INIT_LIST_HEAD_FIRST h m) h []"
  by (simp add: list_repr_def INIT_LIST_HEAD_FIRST_def)

text \<open>What each operation writes to the two fields.\<close>

lemma list_add_fields [simp]:
  "nxt (list_add new h m) = (nxt m)(new := nxt m h, h := new)"
  "prv (list_add new h m) = (if prv m h = h then (prv m)(h := new) else prv m)"
  by (simp_all add: list_add_def list_add_between_def Let_def)

lemma list_add_tail_fields [simp]:
  "nxt (list_add_tail new h m) = (nxt m)(new := h, prv m h := new)"
  "prv (list_add_tail new h m) = (prv m)(h := new)"
  by (simp_all add: list_add_tail_def list_add_between_def Let_def)

lemma list_add_before_fields [simp]:
  "nxt (list_add_before p n new m) = (nxt m)(p := new, new := n)"
  "prv (list_add_before p n new m) = prv m"
  by (simp_all add: list_add_before_def Let_def)

lemma list_del_fields [simp]:
  "nxt (list_del p e h m) = (nxt m)(p := nxt m e, e := NULL)"
  "prv (list_del p e h m) = (if prv m h = e then (prv m)(h := p) else prv m)"
  by (simp_all add: list_del_def list_del_between_def Let_def)

lemma last_mem: "last (x # xs) \<in> set (x # xs)"
  by (rule last_in_set) simp

lemma last_eq_first: "distinct (x # xs) \<Longrightarrow> last (x # xs) = x \<longleftrightarrow> xs = []"
  using last_mem [of x xs] by (cases xs) auto

lemma list_repr_add:
  assumes "list_repr m h xs" "new \<notin> set (h # xs)" "new \<noteq> NULL"
  shows "list_repr (list_add new h m) h (new # xs)"
proof (cases xs)
  case Nil
  with assms show ?thesis by (simp add: list_repr_def)
next
  case (Cons y ys)
  with assms have "last ys \<noteq> h" if "ys \<noteq> []" using last_in_set [OF that] by (auto simp: list_repr_def)
  with Cons assms show ?thesis by (auto simp: list_repr_def)
qed

lemma list_repr_add_tail:
  assumes "list_repr m h xs" "new \<notin> set (h # xs)" "new \<noteq> NULL"
  shows "list_repr (list_add_tail new h m) h (xs @ [new])"
proof -
  have new: "new \<noteq> last (h # xs)" using assms(2) last_mem [of h xs] by blast
  have "path ((nxt m)(new := h)) h xs h" using assms by (simp add: list_repr_def)
  then have "path ((nxt m)(new := h, last (h # xs) := new)) h xs new"
    using assms(1) by (intro path_set_last) (simp_all add: list_repr_def)
  with assms new show ?thesis
    by (simp add: list_repr_def path_append [of _ _ _ _ "[]"])
qed

lemma list_repr_add_before:
  assumes "list_repr m h (as @ b # bs)" "new \<notin> set (h # as @ b # bs)" "new \<noteq> NULL"
  shows "list_repr (list_add_before (last (h # as)) b new m) h (as @ new # b # bs)"
proof -
  define p where "p = last (h # as)"
  have dist: "distinct (h # as)" and nb: "p \<notin> set (b # bs)"
    using assms(1) last_mem [of h as] unfolding list_repr_def p_def by auto
  have new: "new \<noteq> p" using assms(2) last_mem [of h as] unfolding p_def by auto
  have paths: "path (nxt m) h as b" "path (nxt m) b bs h"
    using assms(1) by (simp_all add: list_repr_def path_append)
  have "path ((nxt m)(p := new)) h as new" using paths(1) dist unfolding p_def by (rule path_set_last)
  then have "path ((nxt m)(p := new, new := b)) h as new"
    using assms(2) by simp
  moreover have "path ((nxt m)(p := new, new := b)) b bs h"
    using paths(2) nb assms(2) by simp
  ultimately show ?thesis using assms new
    unfolding p_def [symmetric] by (simp add: list_repr_def path_append)
qed

lemma list_repr_del:
  assumes "list_repr m h (as @ e # bs)"
  shows "list_repr (list_del (last (h # as)) e h m) h (as @ bs)"
proof -
  define p where "p = last (h # as)"
  have dist: "distinct (h # as)" and e: "e \<notin> set (h # as @ bs)" and nb: "p \<notin> set (e # bs)"
    using assms last_mem [of h as] unfolding list_repr_def p_def by auto
  have paths: "path (nxt m) h as e" "path (nxt m) e bs h"
    using assms by (simp_all add: list_repr_def path_append)
  have joined: "path ((nxt m)(p := nxt m e)) h (as @ bs) h"
  proof (cases bs)
    case Nil
    then show ?thesis using path_set_last [OF paths(1) dist, of h] paths(2) by (simp add: p_def)
  next
    case (Cons c cs)
    with paths nb show ?thesis
      using path_set_last [OF paths(1) dist, of c] by (simp add: path_append p_def)
  qed
  have "prv m h = last (e # bs)" "distinct (e # bs)" using assms by (simp_all add: list_repr_def)
  then have "prv m h = e \<longleftrightarrow> bs = []" by (simp only: last_eq_first)
  with assms joined e show ?thesis
    unfolding p_def [symmetric] by (cases "bs = []") (auto simp: list_repr_def p_def)
qed

text \<open>
  Unlinking an entry with the head given as its predecessor unlinks everything before it as well.
\<close>

lemma list_repr_del_head:
  assumes "list_repr m h (as @ e # bs)"
  shows "list_repr (list_del h e h m) h bs"
proof -
  have e: "e \<notin> set (h # bs)" and hb: "h \<notin> set (e # bs)" using assms by (auto simp: list_repr_def)
  have path: "path (nxt m) e bs h" using assms by (simp add: list_repr_def path_append)
  have "path ((nxt m)(h := nxt m e)) h bs h"
    using path hb by (cases bs) auto
  moreover have "prv m h = last (e # bs)" "distinct (e # bs)" using assms by (simp_all add: list_repr_def)
  then have "prv m h = e \<longleftrightarrow> bs = []" by (simp only: last_eq_first)
  ultimately show ?thesis using assms e by (cases "bs = []") (auto simp: list_repr_def)
qed

text \<open>Another list is not touched.\<close>

lemma list_repr_other:
  assumes "list_repr m k ys" "\<And>x. x \<in> set (k # ys) \<Longrightarrow> nxt m' x = nxt m x" "prv m' k = prv m k"
  shows "list_repr m' k ys"
proof -
  have "path f' x xs z" if "path f x xs z" "\<And>y. y \<in> set (x # xs) \<Longrightarrow> f' y = f y" for f f' :: "nat \<Rightarrow> nat" and x xs z
    using that by (induction f x xs z rule: path.induct) auto
  from this [of "nxt m" k ys k "nxt m'"] assms show ?thesis by (simp add: list_repr_def)
qed

lemma list_repr_empty: "list_repr m h xs \<Longrightarrow> list_empty h m \<longleftrightarrow> xs = []"
  by (cases xs) (auto simp: list_repr_def list_empty_def)

lemma list_for_each_path:
  "path (nxt m) x xs h \<Longrightarrow> h \<notin> set xs \<Longrightarrow> list_for_each m h (nxt m x) = Some xs"
  by (induction xs arbitrary: x) (simp_all add: list_for_each.simps [of m h])

lemma list_repr_for_each: "list_repr m h xs \<Longrightarrow> list_for_each m h (nxt m h) = Some xs"
  by (simp add: list_repr_def list_for_each_path)

section \<open>Contract\<close>

text \<open>The list that a head stands for, and what each operation does to it.\<close>

locale linked_list =
  fixes repr :: "'m \<Rightarrow> nat \<Rightarrow> nat list \<Rightarrow> bool"
    and add :: "nat \<Rightarrow> nat \<Rightarrow> 'm \<Rightarrow> 'm"
    and add_tail :: "nat \<Rightarrow> nat \<Rightarrow> 'm \<Rightarrow> 'm"
    and empty :: "nat \<Rightarrow> 'm \<Rightarrow> bool"
  assumes repr_distinct: "repr m h xs \<Longrightarrow> distinct (h # xs)"
    and repr_add: "repr m h xs \<Longrightarrow> x \<notin> set (h # xs) \<Longrightarrow> x \<noteq> NULL \<Longrightarrow> repr (add x h m) h (x # xs)"
    and repr_add_tail:
      "repr m h xs \<Longrightarrow> x \<notin> set (h # xs) \<Longrightarrow> x \<noteq> NULL \<Longrightarrow> repr (add_tail x h m) h (xs @ [x])"
    and repr_empty: "repr m h xs \<Longrightarrow> empty h m \<longleftrightarrow> xs = []"
begin

text \<open>Appending several entries.\<close>

lemma add_tails:
  "repr m h xs \<Longrightarrow> distinct ys \<Longrightarrow> set ys \<inter> set (h # xs) = {} \<Longrightarrow> NULL \<notin> set ys \<Longrightarrow>
   repr (fold (\<lambda>y. add_tail y h) ys m) h (xs @ ys)"
proof (induction ys arbitrary: m xs)
  case (Cons y ys)
  then have "repr (add_tail y h m) h (xs @ [y])" by (intro repr_add_tail) auto
  then have "repr (fold (\<lambda>y. add_tail y h) ys (add_tail y h m)) h ((xs @ [y]) @ ys)"
    using Cons.prems by (intro Cons.IH) auto
  then show ?case by simp
qed simp

end

text \<open>The lists of \<open>list-batman.c\<close>, where an entry is unlinked with its predecessor.\<close>

locale intrusive_list = linked_list +
  fixes add_before :: "nat \<Rightarrow> nat \<Rightarrow> nat \<Rightarrow> 'm \<Rightarrow> 'm"
    and del :: "nat \<Rightarrow> nat \<Rightarrow> nat \<Rightarrow> 'm \<Rightarrow> 'm"
  assumes repr_add_before:
      "repr m h (as @ b # bs) \<Longrightarrow> x \<notin> set (h # as @ b # bs) \<Longrightarrow> x \<noteq> NULL \<Longrightarrow>
       repr (add_before (last (h # as)) b x m) h (as @ x # b # bs)"
    and repr_del: "repr m h (as @ e # bs) \<Longrightarrow> repr (del (last (h # as)) e h m) h (as @ bs)"
    and repr_del_head: "repr m h (as @ e # bs) \<Longrightarrow> repr (del h e h m) h bs"
begin

text \<open>
  The shutdown loops of the program (\<open>batman\<close>, \<open>purge_orig\<close>, \<open>restore_defaults\<close>,
  \<open>cleanup\<close>) unlink the entries from the front, and leave an empty list.
\<close>

lemma drain_suffix: "repr m h (xs @ ys) \<Longrightarrow> repr (fold (\<lambda>x. del h x h) xs m) h ys"
proof (induction xs arbitrary: m)
  case (Cons x xs)
  then have "repr (del h x h m) h (xs @ ys)" using repr_del_head [of m h "[]" x "xs @ ys"] by simp
  then show ?case using Cons.IH by simp
qed simp

lemma drain: "repr m h xs \<Longrightarrow> repr (fold (\<lambda>x. del h x h) xs m) h [] \<and> empty h (fold (\<lambda>x. del h x h) xs m)"
  using drain_suffix [of m h xs "[]"] repr_empty by auto

end

interpretation blist: intrusive_list list_repr list_add list_add_tail list_empty list_add_before list_del
proof
  show "list_repr m h xs \<Longrightarrow> distinct (h # xs)" for m h xs by (simp add: list_repr_def)
qed (simp_all add: list_repr_add list_repr_add_tail list_repr_empty list_repr_add_before list_repr_del list_repr_del_head del: last.simps)

section \<open>Properties\<close>

text \<open>
  C30: the pointer operations of \<open>list-batman.c\<close> implement lists. From a well-formed head of any list,
  the empty one included, inserting at the front and at the back gives a well-formed head of the longer
  list; \<open>list_empty\<close> tells whether the list is empty, and \<open>list_for_each\<close> visits exactly the list. At any
  entry, inserting before it and unlinking it with its true predecessor give the expected list, and the
  entry that is unlinked points to nothing. No other list is touched. \<open>INIT_LIST_HEAD_FIRST\<close> makes a
  head of the empty list.
\<close>

theorem list_ops_refine:
  assumes "list_repr m h xs" "list_repr m k ys" "set (h # xs) \<inter> set (k # ys) = {}" "new \<notin> set (h # xs) \<union> set (k # ys)" "new \<noteq> NULL"
  shows "list_repr (list_add new h m) h (new # xs) \<and> list_repr (list_add new h m) k ys \<and>
    list_repr (list_add_tail new h m) h (xs @ [new]) \<and> list_repr (list_add_tail new h m) k ys \<and>
    (list_empty h m \<longleftrightarrow> xs = []) \<and> list_for_each m h (nxt m h) = Some xs \<and>
    (\<forall>as b bs. xs = as @ b # bs \<longrightarrow>
       list_repr (list_add_before (last (h # as)) b new m) h (as @ new # b # bs) \<and>
       list_repr (list_add_before (last (h # as)) b new m) k ys \<and>
       list_repr (list_del (last (h # as)) b h m) h (as @ bs) \<and> list_repr (list_del (last (h # as)) b h m) k ys \<and>
       nxt (list_del (last (h # as)) b h m) b = NULL) \<and>
    list_repr (INIT_LIST_HEAD_FIRST h m) h []"
proof -
  have h: "new \<notin> set (h # xs)" "h \<noteq> NULL" "prv m h = last (h # xs)" using assms(1,4) by (simp_all add: list_repr_def)
  have mem: "prv m h \<in> set (h # xs)" using last_mem [of h xs] h(3) by simp
  have add: "list_repr (list_add new h m) k ys"
    by (rule list_repr_other [OF assms(2)]) (use assms(3,4) in auto)
  have tail: "list_repr (list_add_tail new h m) k ys"
    by (rule list_repr_other [OF assms(2)]) (use assms(3,4) mem in auto)
  have at: "list_repr (list_add_before (last (h # as)) b new m) h (as @ new # b # bs) \<and>
       list_repr (list_add_before (last (h # as)) b new m) k ys \<and>
       list_repr (list_del (last (h # as)) b h m) h (as @ bs) \<and> list_repr (list_del (last (h # as)) b h m) k ys \<and>
       nxt (list_del (last (h # as)) b h m) b = NULL" if xs: "xs = as @ b # bs" for as b bs
  proof -
    have m: "last (h # as) \<in> set (h # xs)" using last_mem [of h as] by (auto simp: xs)
    have "list_repr (list_add_before (last (h # as)) b new m) k ys"
      by (rule list_repr_other [OF assms(2)]) (use assms(3,4) m in auto)
    moreover have "list_repr (list_del (last (h # as)) b h m) k ys"
      by (rule list_repr_other [OF assms(2)]) (use assms(3) m xs in auto)
    moreover have "nxt (list_del (last (h # as)) b h m) b = NULL" by simp
    ultimately show ?thesis
      using blist.repr_add_before [OF assms(1) [unfolded xs], of new] blist.repr_del [OF assms(1) [unfolded xs]] h(1) assms(5)
      by (simp add: xs)
  qed
  show ?thesis
    using blist.repr_add [OF assms(1) h(1) assms(5)] blist.repr_add_tail [OF assms(1) h(1) assms(5)] blist.repr_empty [OF assms(1)]
      list_repr_for_each [OF assms(1)] list_repr_init [OF h(2), of m] add tail at by blast
qed

text \<open>An example: a head at address 1 with the entries 2 and 3, and the head of an empty list at 5.\<close>

definition two_entries :: list_mem where
  "two_entries = \<lparr>nxt = (\<lambda>_. 0)(1 := 2, 2 := 3, 3 := 1, 5 := 5), prv = (\<lambda>_. 0)(1 := 3, 5 := 5)\<rparr>"

lemma two_entries_repr: "list_repr two_entries 1 [2, 3]" "list_repr two_entries 5 []"
  by (simp_all add: two_entries_def list_repr_def)

theorem list_ops_refine_witness:
  "list_repr (list_add_before 2 3 4 two_entries) 1 [2, 4, 3] \<and> list_repr (list_del 2 3 1 two_entries) 1 [2] \<and>
   list_repr (list_add 4 5 two_entries) 5 [4] \<and> list_empty 5 two_entries \<and> \<not> list_empty 1 two_entries"
proof -
  have d: "set ((1 :: nat) # [2, 3]) \<inter> set ((5 :: nat) # []) = {}" "set ((5 :: nat) # []) \<inter> set ((1 :: nat) # [2, 3]) = {}"
      "4 \<notin> set ((1 :: nat) # [2, 3]) \<union> set ((5 :: nat) # [])" "4 \<notin> set ((5 :: nat) # []) \<union> set ((1 :: nat) # [2, 3])" "(4 :: nat) \<noteq> NULL" by simp_all
  have "list_repr (list_add_before 2 3 4 two_entries) 1 [2, 4, 3] \<and> list_repr (list_del 2 3 1 two_entries) 1 [2] \<and> \<not> list_empty 1 two_entries"
    using list_ops_refine [OF two_entries_repr d(1,3,5)] by (auto dest!: spec [of _ "[2]"])
  moreover have "list_repr (list_add 4 5 two_entries) 5 [4] \<and> list_empty 5 two_entries"
    using list_ops_refine [OF two_entries_repr(2,1) d(2,4,5)] by blast
  ultimately show ?thesis by blast
qed

text \<open>
  Unlinking an entry with the head of the list given as its predecessor also drops every
  entry in front of it. This is what \<open>unix_listen\<close> does when a client that is not the first one
  closes its connection, since \<open>prev_list_head_unix\<close> is the head in every iteration.
\<close>

theorem list_del_head_drops_prefix:
  assumes "list_repr m h (as @ e # bs)"
  shows "list_repr (list_del h e h m) h bs \<and>
    list_for_each (list_del h e h m) h (nxt (list_del h e h m) h) = Some bs"
  using blist.repr_del_head [OF assms] list_repr_for_each by blast

theorem list_del_head_drops_prefix_witness:
  "list_for_each (list_del 1 3 1 two_entries) 1 (nxt (list_del 1 3 1 two_entries) 1) = Some []"
  using list_del_head_drops_prefix [of two_entries 1 "[2]" 3 "[]"] two_entries_repr by simp

end
