(* ===== verification/DList_Batman.thy ===== *)
theory DList_Batman
  imports List_Batman
begin

text \<open>
  The doubly linked lists of \<open>src/dlist.h\<close>, on the memory of \<open>List_Batman\<close>: \<open>nxt\<close> and \<open>prv\<close> are the
  two fields of every \<open>struct dlist_head\<close>, of heads and of entries. \<open>dl_repr m h xs\<close> says that the head
  \<open>h\<close> represents the list \<open>xs\<close> in both directions. The lemmas show that every operation of the header
  implements the list operation it stands for; the translation table relies on this when it treats
  \<open>hna_list\<close> and the lists of the originators as lists.
\<close>

section \<open>Operations\<close>

definition INIT_DLIST_HEAD :: "nat \<Rightarrow> list_mem \<Rightarrow> list_mem" where
  "INIT_DLIST_HEAD ptr m = m\<lparr>nxt := (nxt m)(ptr := ptr), prv := (prv m)(ptr := ptr)\<rparr>"

definition dl_add_between :: "nat \<Rightarrow> nat \<Rightarrow> nat \<Rightarrow> list_mem \<Rightarrow> list_mem" where
  "dl_add_between new prev next m =
     (let m = m\<lparr>prv := (prv m)(next := new)\<rparr>;
          m = m\<lparr>nxt := (nxt m)(new := next)\<rparr>;
          m = m\<lparr>prv := (prv m)(new := prev)\<rparr>
      in m\<lparr>nxt := (nxt m)(prev := new)\<rparr>)"

definition dl_add :: "nat \<Rightarrow> nat \<Rightarrow> list_mem \<Rightarrow> list_mem" where
  "dl_add new head m = dl_add_between new head (nxt m head) m"

definition dl_add_tail :: "nat \<Rightarrow> nat \<Rightarrow> list_mem \<Rightarrow> list_mem" where
  "dl_add_tail new head m = dl_add_between new (prv m head) head m"

definition dl_del_between :: "nat \<Rightarrow> nat \<Rightarrow> list_mem \<Rightarrow> list_mem" where
  "dl_del_between prev next m =
     (let m = m\<lparr>prv := (prv m)(next := prev)\<rparr> in m\<lparr>nxt := (nxt m)(prev := next)\<rparr>)"

definition dl_del :: "nat \<Rightarrow> list_mem \<Rightarrow> list_mem" where
  "dl_del entry m =
     (let m = dl_del_between (prv m entry) (nxt m entry) m
      in m\<lparr>nxt := (nxt m)(entry := NULL), prv := (prv m)(entry := NULL)\<rparr>)"

definition dl_add_before :: "nat \<Rightarrow> nat \<Rightarrow> nat \<Rightarrow> list_mem \<Rightarrow> list_mem" where
  "dl_add_before dlist pos_node new_node m =
     (let m = (if prv m pos_node \<noteq> NULL then m\<lparr>nxt := (nxt m)(prv m pos_node := new_node)\<rparr>
               else m\<lparr>nxt := (nxt m)(dlist := new_node)\<rparr>);
          m = m\<lparr>prv := (prv m)(new_node := prv m pos_node)\<rparr>;
          m = m\<lparr>nxt := (nxt m)(new_node := pos_node)\<rparr>
      in m\<lparr>prv := (prv m)(pos_node := new_node)\<rparr>)"

definition dl_del_init :: "nat \<Rightarrow> list_mem \<Rightarrow> list_mem" where
  "dl_del_init entry m = INIT_DLIST_HEAD entry (dl_del_between (prv m entry) (nxt m entry) m)"

definition dl_move :: "nat \<Rightarrow> nat \<Rightarrow> list_mem \<Rightarrow> list_mem" where
  "dl_move dlist head m = dl_add dlist head (dl_del_between (prv m dlist) (nxt m dlist) m)"

definition dl_move_tail :: "nat \<Rightarrow> nat \<Rightarrow> list_mem \<Rightarrow> list_mem" where
  "dl_move_tail dlist head m = dl_add_tail dlist head (dl_del_between (prv m dlist) (nxt m dlist) m)"

definition dl_empty :: "nat \<Rightarrow> list_mem \<Rightarrow> bool" where
  "dl_empty head m \<longleftrightarrow> nxt m head = head"

definition dl_splice_between :: "nat \<Rightarrow> nat \<Rightarrow> list_mem \<Rightarrow> list_mem" where
  "dl_splice_between dlist head m =
     (let first = nxt m dlist; end = prv m dlist; at = nxt m head;
          m = m\<lparr>prv := (prv m)(first := head)\<rparr>;
          m = m\<lparr>nxt := (nxt m)(head := first)\<rparr>;
          m = m\<lparr>nxt := (nxt m)(end := at)\<rparr>
      in m\<lparr>prv := (prv m)(at := end)\<rparr>)"

definition dl_splice :: "nat \<Rightarrow> nat \<Rightarrow> list_mem \<Rightarrow> list_mem" where
  "dl_splice dlist head m = (if \<not> dl_empty dlist m then dl_splice_between dlist head m else m)"

definition dl_splice_init :: "nat \<Rightarrow> nat \<Rightarrow> list_mem \<Rightarrow> list_mem" where
  "dl_splice_init dlist head m =
     (if \<not> dl_empty dlist m then INIT_DLIST_HEAD dlist (dl_splice_between dlist head m) else m)"

text \<open>The addresses that the two loops visit: \<^term>\<open>None\<close> if a loop does not end.\<close>

partial_function (option) dl_for_each :: "list_mem \<Rightarrow> nat \<Rightarrow> nat \<Rightarrow> nat list option" where
  "dl_for_each m head pos =
     (if pos = head then Some []
      else do { ps \<leftarrow> dl_for_each m head (nxt m pos); Some (pos # ps) })"

partial_function (option) dl_for_each_prev :: "list_mem \<Rightarrow> nat \<Rightarrow> nat \<Rightarrow> nat list option" where
  "dl_for_each_prev m head pos =
     (if pos = head then Some []
      else do { ps \<leftarrow> dl_for_each_prev m head (prv m pos); Some (pos # ps) })"

section \<open>Representation\<close>

text \<open>Neighbours in a list point to each other.\<close>

fun linked :: "list_mem \<Rightarrow> nat list \<Rightarrow> bool" where
  "linked m (x # y # zs) \<longleftrightarrow> nxt m x = y \<and> prv m y = x \<and> linked m (y # zs)"
| "linked m zs \<longleftrightarrow> True"

definition dl_repr :: "list_mem \<Rightarrow> nat \<Rightarrow> nat list \<Rightarrow> bool" where
  "dl_repr m h xs \<longleftrightarrow> distinct (h # xs) \<and> NULL \<notin> set (h # xs) \<and> linked m (h # xs @ [h])"

lemma linked_append: "linked m (us @ p # n # vs) \<longleftrightarrow> linked m (us @ [p]) \<and> nxt m p = n \<and> prv m n = p \<and> linked m (n # vs)"
  by (induction m us rule: linked.induct) auto

lemma linked_cong:
  "(\<And>x. x \<in> set (butlast zs) \<Longrightarrow> nxt m' x = nxt m x) \<Longrightarrow> (\<And>x. x \<in> set (tl zs) \<Longrightarrow> prv m' x = prv m x) \<Longrightarrow> linked m' zs = linked m zs"
proof (induction m zs rule: linked.induct)
  case (1 m x y zs)
  have "linked m' (y # zs) = linked m (y # zs)" using 1(2,3) by (intro 1(1)) (auto dest: list.set_sel(2) split: if_splits)
  with 1(2) [of x] 1(3) [of y] show ?case by simp
qed auto

text \<open>The two nodes around a position of the list.\<close>

lemma around:
  obtains us vs where "h # as = us @ [last (h # as)]" "bs @ [h] = hd (bs @ [h]) # vs" "us = butlast (h # as)" "vs = tl (bs @ [h])"
proof
  show "h # as = butlast (h # as) @ [last (h # as)]" by simp
  show "bs @ [h] = hd (bs @ [h]) # tl (bs @ [h])" by simp
qed simp_all

lemma dl_repr_split:
  assumes "p = last (h # as)" "n = hd (bs @ [h])"
  shows "linked m (h # as @ bs @ [h]) \<longleftrightarrow> linked m (h # as) \<and> nxt m p = n \<and> prv m n = p \<and> linked m (bs @ [h])"
proof -
  obtain us vs where uv: "h # as = us @ [p]" "bs @ [h] = n # vs" using around [of h as bs] assms by metis
  have "h # as @ bs @ [h] = us @ p # n # vs" using uv by (metis append.assoc append_Cons append_Nil)
  then show ?thesis unfolding uv by (simp only: linked_append)
qed

text \<open>Inserting an entry, and unlinking one, at any position.\<close>

lemma dl_repr_insert:
  assumes "dl_repr m h (as @ bs)" "x \<notin> set (h # as @ bs)" "x \<noteq> NULL" "p = last (h # as)" "n = hd (bs @ [h])"
    and "nxt m' = (nxt m)(x := n, p := x)" "prv m' = (prv m)(n := x, x := p)"
  shows "dl_repr m' h (as @ x # bs)"
proof -
  have dist: "distinct (h # as @ bs)" and l: "linked m (h # as)" "linked m (bs @ [h])"
    using assms(1) dl_repr_split [OF assms(4,5), of m] by (simp_all add: dl_repr_def)
  have p: "p \<in> set (h # as)" using assms(4) by auto
  have n: "n \<in> set (bs @ [h])" using assms(5) by (cases bs) auto
  have "n \<notin> set as" using n dist by auto
  moreover have "p \<notin> set (butlast (h # as))"
  proof -
    have "distinct (butlast (h # as) @ [p])" using dist assms(4) by (metis append_butlast_last_id distinct_append append_Cons list.distinct(1))
    then show ?thesis by simp
  qed
  ultimately have l1: "linked m' (h # as) = linked m (h # as)"
    using assms(2,6,7) by (intro linked_cong) (auto dest: in_set_butlastD split: if_splits)
  have "n \<notin> set (tl (bs @ [h]))" "x \<notin> set (tl (bs @ [h]))" using dist assms(2,5) by (cases bs; auto)+
  moreover have "p \<notin> set bs" using p dist by auto
  ultimately have l2: "linked m' (bs @ [h]) = linked m (bs @ [h])"
    using assms(2,6,7) by (intro linked_cong) (auto dest: list.set_sel(2) simp: butlast_append split: if_splits)
  have ne: "x \<noteq> p" "x \<noteq> n" using p n assms(2) by auto
  have "linked m' (h # as @ (x # bs) @ [h])"
  proof (subst dl_repr_split [OF assms(4), of x])
    show "linked m' (h # as) \<and> nxt m' p = x \<and> prv m' x = p \<and> linked m' ((x # bs) @ [h])"
      using l l1 l2 ne assms(5-7) by (cases bs) auto
  qed simp
  then show ?thesis using assms(1-3) by (auto simp: dl_repr_def)
qed

lemma dl_repr_around:
  assumes "dl_repr m h (as @ e # bs)"
  shows "prv m e = last (h # as) \<and> nxt m e = hd (bs @ [h])"
proof -
  have "linked m (h # as @ (e # bs) @ [h])" using assms by (simp add: dl_repr_def)
  then have "prv m e = last (h # as)" "linked m (e # bs @ [h])" by (subst (asm) dl_repr_split [OF refl refl]; simp)+
  then show ?thesis by (cases bs) auto
qed

lemma dl_repr_unlink:
  assumes "dl_repr m h (as @ e # bs)" "p = prv m e" "n = nxt m e"
    and "\<And>x. x \<noteq> e \<Longrightarrow> nxt m' x = ((nxt m)(p := n)) x" "\<And>x. x \<noteq> e \<Longrightarrow> prv m' x = ((prv m)(n := p)) x"
  shows "dl_repr m' h (as @ bs)"
proof -
  have dist: "distinct (h # as @ e # bs)" and pn: "p = last (h # as)" "n = hd (bs @ [h])"
    using assms(1) dl_repr_around [OF assms(1)] assms(2,3) by (simp_all add: dl_repr_def)
  have "linked m (h # as @ (e # bs) @ [h])" using assms(1) by (simp add: dl_repr_def)
  then have l: "linked m (h # as)" "linked m (e # bs @ [h])" by (subst (asm) dl_repr_split [OF refl refl]; simp)+
  have l2: "linked m (bs @ [h])" using l(2) by (cases bs) auto
  have p: "p \<in> set (h # as)" using pn(1) by auto
  have n: "n \<in> set (bs @ [h])" using pn(2) by (cases bs) auto
  have "n \<notin> set as" using n dist by auto
  moreover have "p \<notin> set (butlast (h # as))"
  proof -
    have "distinct (butlast (h # as) @ [p])" using dist pn(1) by (metis append_butlast_last_id distinct_append append_Cons list.distinct(1))
    then show ?thesis by simp
  qed
  ultimately have pn': "n \<notin> set as" "p \<notin> set (butlast (h # as))" by blast+
  have nx: "nxt m' x = nxt m x" if "x \<noteq> e" "x \<noteq> p" for x using assms(4) that by simp
  have pv: "prv m' x = prv m x" if "x \<noteq> e" "x \<noteq> n" for x using assms(5) that by simp
  have "linked m' (h # as) = linked m (h # as)"
  proof (rule linked_cong)
    fix x
    assume x: "x \<in> set (butlast (h # as))"
    then have "x \<in> set (h # as)" by (rule in_set_butlastD)
    with x dist pn'(2) show "nxt m' x = nxt m x" by (intro nx) auto
  next
    fix x
    assume "x \<in> set (tl (h # as))"
    with dist pn'(1) show "prv m' x = prv m x" by (intro pv) auto
  qed
  moreover have "linked m' (bs @ [h]) = linked m (bs @ [h])"
  proof (rule linked_cong)
    fix x
    assume "x \<in> set (butlast (bs @ [h]))"
    with p dist show "nxt m' x = nxt m x" by (intro nx) auto
  next
    fix x
    assume x: "x \<in> set (tl (bs @ [h]))"
    then have "x \<noteq> n" "x \<in> set (bs @ [h])" using dist pn(2) by (cases bs; auto)+
    with dist show "prv m' x = prv m x" by (intro pv) auto
  qed
  ultimately have "linked m' (h # as)" "linked m' (bs @ [h])" using l(1) l2 by simp_all
  moreover have "p \<noteq> e" "n \<noteq> e" using p n dist by auto
  ultimately have "linked m' (h # as @ bs @ [h])"
    by (simp add: dl_repr_split [OF pn] assms(4,5))
  with assms(1) show ?thesis by (auto simp: dl_repr_def)
qed

section \<open>The operations\<close>

lemma dl_repr_init: "h \<noteq> NULL \<Longrightarrow> dl_repr (INIT_DLIST_HEAD h m) h []"
  by (simp add: dl_repr_def INIT_DLIST_HEAD_def)

text \<open>What the head points to.\<close>

lemma dl_repr_ends:
  assumes "dl_repr m h xs"
  shows "nxt m h = hd (xs @ [h])" "prv m h = last (h # xs)"
proof -
  have "linked m (h # [] @ xs @ [h])" "linked m (h # xs @ [] @ [h])" using assms by (simp_all add: dl_repr_def)
  from this [unfolded dl_repr_split [OF refl refl]] show "nxt m h = hd (xs @ [h])" "prv m h = last (h # xs)" by simp_all
qed

lemma dl_add_between_repr:
  "dl_repr m h (as @ bs) \<Longrightarrow> x \<notin> set (h # as @ bs) \<Longrightarrow> x \<noteq> NULL \<Longrightarrow> p = last (h # as) \<Longrightarrow> n = hd (bs @ [h]) \<Longrightarrow>
   dl_repr (dl_add_between x p n m) h (as @ x # bs)"
  by (erule dl_repr_insert) (simp_all add: dl_add_between_def Let_def)

lemma dl_repr_add: "dl_repr m h xs \<Longrightarrow> x \<notin> set (h # xs) \<Longrightarrow> x \<noteq> NULL \<Longrightarrow> dl_repr (dl_add x h m) h (x # xs)"
  using dl_add_between_repr [of m h "[]" xs x h "nxt m h"] dl_repr_ends(1) [of m h xs] by (simp add: dl_add_def)

lemma dl_repr_add_tail: "dl_repr m h xs \<Longrightarrow> x \<notin> set (h # xs) \<Longrightarrow> x \<noteq> NULL \<Longrightarrow> dl_repr (dl_add_tail x h m) h (xs @ [x])"
  using dl_add_between_repr [of m h xs "[]" x "prv m h" h] dl_repr_ends(2) [of m h xs] by (simp add: dl_add_tail_def)

lemma dl_repr_add_before:
  assumes "dl_repr m h (as @ b # bs)" "x \<notin> set (h # as @ b # bs)" "x \<noteq> NULL"
  shows "dl_repr (dl_add_before h b x m) h (as @ x # b # bs)"
proof -
  have p: "prv m b = last (h # as)" using dl_repr_around [OF assms(1)] by simp
  moreover have "last (h # as) \<in> set (h # as)" by (rule last_in_set) simp
  moreover have "NULL \<notin> set (h # as)" using assms(1) by (auto simp: dl_repr_def)
  ultimately have "prv m b \<noteq> NULL" by metis
  then have "nxt (dl_add_before h b x m) = (nxt m)(x := b, prv m b := x)" "prv (dl_add_before h b x m) = (prv m)(b := x, x := prv m b)"
    using p assms(2) \<open>last (h # as) \<in> set (h # as)\<close> by (auto simp: dl_add_before_def Let_def fun_eq_iff)
  from dl_repr_insert [OF assms p _ this] show ?thesis by simp
qed

lemma dl_del_fields [simp]:
  "nxt (dl_del_between p n m) = (nxt m)(p := n)" "prv (dl_del_between p n m) = (prv m)(n := p)"
  "nxt (dl_del e m) = (nxt m)(prv m e := nxt m e, e := NULL)" "prv (dl_del e m) = (prv m)(nxt m e := prv m e, e := NULL)"
  "nxt (dl_del_init e m) = (nxt m)(prv m e := nxt m e, e := e)" "prv (dl_del_init e m) = (prv m)(nxt m e := prv m e, e := e)"
  by (simp_all add: dl_del_def dl_del_init_def INIT_DLIST_HEAD_def dl_del_between_def Let_def)

lemma dl_repr_del: "dl_repr m h (as @ e # bs) \<Longrightarrow> dl_repr (dl_del e m) h (as @ bs)"
  by (rule dl_repr_unlink [OF _ refl refl]) auto

lemma dl_repr_del_init: "dl_repr m h (as @ e # bs) \<Longrightarrow> dl_repr (dl_del_init e m) h (as @ bs) \<and> dl_repr (dl_del_init e m) e []"
proof
  assume r: "dl_repr m h (as @ e # bs)"
  then show "dl_repr (dl_del_init e m) h (as @ bs)"
    by (rule dl_repr_unlink [OF _ refl refl]) auto
  show "dl_repr (dl_del_init e m) e []" using r unfolding dl_del_init_def by (intro dl_repr_init) (auto simp: dl_repr_def)
qed

text \<open>Unlinking without touching the fields of the entry, and moving an entry.\<close>

lemma dl_repr_cut: "dl_repr m h (as @ e # bs) \<Longrightarrow> dl_repr (dl_del_between (prv m e) (nxt m e) m) h (as @ bs)"
  by (rule dl_repr_unlink [OF _ refl refl]) auto

text \<open>Another list is not touched.\<close>

lemma dl_repr_other:
  assumes "dl_repr m h xs" "\<And>x. x \<in> set (h # xs) \<Longrightarrow> nxt m' x = nxt m x \<and> prv m' x = prv m x"
  shows "dl_repr m' h xs"
proof -
  have "linked m' (h # xs @ [h]) = linked m (h # xs @ [h])"
    by (rule linked_cong) (use assms(2) in \<open>auto simp: butlast_append split: if_splits\<close>)
  with assms(1) show ?thesis by (simp add: dl_repr_def)
qed

lemma dl_repr_add_other:
  assumes "dl_repr m k ys" "dl_repr m h xs" "set (h # xs) \<inter> set (k # ys) = {}" "x \<notin> set (k # ys)"
  shows "dl_repr (dl_add x h m) k ys" "dl_repr (dl_add_tail x h m) k ys"
proof -
  have "nxt m h \<in> set (h # xs)" "prv m h \<in> set (h # xs)"
    unfolding dl_repr_ends [OF assms(2)] using last_in_set [of "h # xs"] by (cases xs; simp)+
  then have ne: "w \<noteq> x" "w \<noteq> h" "w \<noteq> nxt m h" "w \<noteq> prv m h" if "w \<in> set (k # ys)" for w using assms(3,4) that by auto
  show "dl_repr (dl_add x h m) k ys"
    by (rule dl_repr_other [OF assms(1)]) (use ne in \<open>simp add: dl_add_def dl_add_between_def Let_def\<close>)
  show "dl_repr (dl_add_tail x h m) k ys"
    by (rule dl_repr_other [OF assms(1)]) (use ne in \<open>simp add: dl_add_tail_def dl_add_between_def Let_def\<close>)
qed

lemma dl_repr_move:
  assumes "dl_repr m h (as @ e # bs)" "dl_repr m k ys" "set (h # as @ e # bs) \<inter> set (k # ys) = {}"
  shows "dl_repr (dl_move e k m) k (e # ys) \<and> dl_repr (dl_move_tail e k m) k (ys @ [e]) \<and>
    dl_repr (dl_move e k m) h (as @ bs) \<and> dl_repr (dl_move_tail e k m) h (as @ bs)"
proof -
  let ?m = "dl_del_between (prv m e) (nxt m e) m"
  have "last (h # as) \<in> set (h # as)" by (rule last_in_set) simp
  moreover have "hd (bs @ [h]) \<in> set (bs @ [h])" by (rule hd_in_set) simp
  ultimately have "prv m e \<notin> set (k # ys)" "nxt m e \<notin> set (k # ys)" using assms(3) dl_repr_around [OF assms(1)] by auto
  then have k: "dl_repr ?m k ys" by (intro dl_repr_other [OF assms(2)]) auto
  have "e \<notin> set (k # ys)" "e \<noteq> NULL" using assms(1,3) by (auto simp: dl_repr_def)
  moreover have "set (k # ys) \<inter> set (h # as @ bs) = {}" "e \<notin> set (h # as @ bs)" using assms(1,3) by (auto simp: dl_repr_def)
  note dl_repr_add_other [OF dl_repr_cut [OF assms(1)] k this]
  ultimately show ?thesis using dl_repr_add [OF k] dl_repr_add_tail [OF k] by (simp add: dl_move_def dl_move_tail_def)
qed

lemma dl_repr_empty: "dl_repr m h xs \<Longrightarrow> dl_empty h m \<longleftrightarrow> xs = []"
proof -
  assume r: "dl_repr m h xs"
  have "hd (xs @ [h]) = h \<longleftrightarrow> xs = []" using r by (cases xs) (auto simp: dl_repr_def)
  then show ?thesis using dl_repr_ends(1) [OF r] by (simp add: dl_empty_def)
qed

lemma linked_glue:
  "linked m (us @ [p]) \<Longrightarrow> nxt m p = n \<Longrightarrow> prv m n = p \<Longrightarrow> linked m (n # vs) \<Longrightarrow> linked m (us @ p # n # vs)"
  by (simp add: linked_append)

lemma dl_repr_splice:
  assumes "dl_repr m l xs" "dl_repr m h ys" "set (l # xs) \<inter> set (h # ys) = {}"
  shows "dl_repr (dl_splice_init l h m) h (xs @ ys) \<and> dl_repr (dl_splice_init l h m) l [] \<and> dl_repr (dl_splice l h m) h (xs @ ys)"
proof (cases "xs = []")
  case True
  then have "dl_empty l m" using dl_repr_empty [OF assms(1)] by simp
  with True assms(1,2) show ?thesis by (simp add: dl_splice_init_def dl_splice_def)
next
  case False
  then have ne: "\<not> dl_empty l m" using dl_repr_empty [OF assms(1)] by simp
  define a where "a = hd xs"
  define z where "z = last xs"
  define n where "n = hd (ys @ [h])"
  have ends: "nxt m l = a" "prv m l = z" "nxt m h = n"
    using dl_repr_ends [OF assms(1)] dl_repr_ends(1) [OF assms(2)] False by (simp_all add: a_def z_def n_def)
  have dist: "distinct (l # xs)" "distinct (h # ys)" using assms(1,2) by (simp_all add: dl_repr_def)
  have mem: "a \<in> set xs" "z \<in> set xs" "n \<in> set (ys @ [h])" using False by (simp_all add: a_def z_def n_def hd_in_set del: set_append)
  have "linked m (l # [] @ xs @ [l])" "linked m (l # xs @ [] @ [l])" using assms(1) by (simp_all add: dl_repr_def)
  from this [unfolded dl_repr_split [OF refl refl]] have lx: "linked m (l # xs)" by simp
  then have x: "linked m xs" using False by (cases xs) auto
  have "linked m (h # [] @ ys @ [h])" using assms(2) by (simp add: dl_repr_def)
  from this [unfolded dl_repr_split [OF refl refl]] have y: "linked m (ys @ [h])" by simp
  have goal: "dl_repr m' h (xs @ ys)"
    if f: "\<And>w. w \<noteq> l \<Longrightarrow> nxt m' w = ((nxt m)(h := a, z := n)) w" "\<And>w. w \<noteq> l \<Longrightarrow> prv m' w = ((prv m)(a := h, n := z)) w" for m'
  proof -
    have "linked m' xs = linked m xs"
    proof (rule linked_cong)
      fix w
      assume w: "w \<in> set (butlast xs)"
      have "distinct (butlast xs @ [z])" using dist(1) False by (simp add: z_def)
      with w have "w \<noteq> z" "w \<in> set xs" by (auto dest: in_set_butlastD)
      with assms(3) dist show "nxt m' w = nxt m w" by (subst f(1)) auto
    next
      fix w
      assume w: "w \<in> set (tl xs)"
      then have "w \<noteq> a" "w \<in> set xs" using dist(1) False by (cases xs; auto simp: a_def)+
      with assms(3) dist mem(3) show "prv m' w = prv m w" by (subst f(2)) auto
    qed
    moreover have "linked m' (ys @ [h]) = linked m (ys @ [h])"
    proof (rule linked_cong)
      fix w
      assume "w \<in> set (butlast (ys @ [h]))"
      with assms(3) dist mem(2) show "nxt m' w = nxt m w" by (subst f(1)) auto
    next
      fix w
      assume w: "w \<in> set (tl (ys @ [h]))"
      then have "w \<noteq> n" "w \<in> set (ys @ [h])" using dist(2) by (cases ys; auto simp: n_def)+
      with assms(3) mem(1) show "prv m' w = prv m w" by (subst f(2)) auto
    qed
    ultimately have l: "linked m' xs" "linked m' (ys @ [h])" using x y by simp_all
    have hz: "h \<noteq> l" "z \<noteq> l" "a \<noteq> l" "n \<noteq> l" "h \<noteq> z" "a \<noteq> n" using assms(3) dist mem by auto
    have p: "nxt m' h = a" "prv m' a = h" "nxt m' z = n" "prv m' n = z" using hz f by simp_all
    have "linked m' (h # xs)" using l(1) p False by (cases xs) (auto simp: a_def)
    then have "linked m' (h # xs @ ys @ [h])" using p l(2) False
      by (subst dl_repr_split [of z h xs n]) (simp_all add: z_def n_def)
    with assms dist show ?thesis by (auto simp: dl_repr_def)
  qed
  have "l \<noteq> NULL" using assms(1) by (simp add: dl_repr_def)
  then have "dl_repr (dl_splice_init l h m) l []" using ne by (simp add: dl_splice_init_def dl_repr_init)
  moreover have "dl_repr (dl_splice_init l h m) h (xs @ ys)" "dl_repr (dl_splice l h m) h (xs @ ys)"
    using ne ends by (auto simp: dl_splice_init_def dl_splice_def dl_splice_between_def INIT_DLIST_HEAD_def Let_def intro!: goal)
  ultimately show ?thesis by blast
qed

text \<open>The loops visit the list from the front and from the back.\<close>

lemma dl_for_each_linked: "linked m (x # xs @ [h]) \<Longrightarrow> h \<notin> set xs \<Longrightarrow> dl_for_each m h (nxt m x) = Some xs"
  by (induction xs arbitrary: x) (simp_all add: dl_for_each.simps [of m h])

lemma dl_for_each_prev_linked: "linked m (h # xs @ [x]) \<Longrightarrow> h \<notin> set xs \<Longrightarrow> dl_for_each_prev m h (prv m x) = Some (rev xs)"
proof (induction xs arbitrary: x rule: rev_induct)
  case (snoc y ys)
  then have "linked m ((h # ys) @ y # x # [])" by simp
  then have "prv m x = y" "linked m (h # ys @ [y])" by (simp_all only: linked_append) auto
  with snoc show ?case by (simp add: dl_for_each_prev.simps [of m h y])
qed (simp add: dl_for_each_prev.simps)

lemma dl_repr_for_each: "dl_repr m h xs \<Longrightarrow> dl_for_each m h (nxt m h) = Some xs \<and> dl_for_each_prev m h (prv m h) = Some (rev xs)"
  by (simp add: dl_repr_def dl_for_each_linked dl_for_each_prev_linked)

interpretation dlist: linked_list dl_repr dl_add dl_add_tail dl_empty
proof
  show "dl_repr m h xs \<Longrightarrow> distinct (h # xs)" for m h xs by (simp add: dl_repr_def)
qed (simp_all add: dl_repr_add dl_repr_add_tail dl_repr_empty)

section \<open>Loops over the structures\<close>

text \<open>
  The loops over the structures that contain the entries, which the translation table uses:
  \<open>off\<close> is the offset of the entry in the structure, and the address of a structure is an integer,
  because the head of the list lies in no structure. The body gets the memory of the pointers and a
  state of its own. \<open>dlist_for_each_entry_safe\<close> reads the next entry before the body, so the body may
  unlink the entry that it gets.
\<close>

definition dl_entry :: "nat \<Rightarrow> nat \<Rightarrow> int" where
  "dl_entry off ptr = int ptr - int off"

definition dl_member :: "nat \<Rightarrow> int \<Rightarrow> nat" where
  "dl_member off pos = nat (pos + int off)"

partial_function (option) dl_for_each_entry :: "nat \<Rightarrow> list_mem \<Rightarrow> nat \<Rightarrow> int \<Rightarrow> int list option" where
  "dl_for_each_entry off m head pos =
     (if dl_member off pos = head then Some []
      else do { ps \<leftarrow> dl_for_each_entry off m head (dl_entry off (nxt m (dl_member off pos))); Some (pos # ps) })"

partial_function (option) dl_for_each_entry_safe ::
    "nat \<Rightarrow> (int \<Rightarrow> list_mem \<Rightarrow> 's \<Rightarrow> (list_mem \<times> 's) option) \<Rightarrow> nat \<Rightarrow> int \<Rightarrow> int \<Rightarrow> list_mem \<Rightarrow> 's \<Rightarrow> (list_mem \<times> 's) option" where
  "dl_for_each_entry_safe off body head pos n m s =
     (if dl_member off pos = head then Some (m, s)
      else do { (m, s) \<leftarrow> body pos m s; dl_for_each_entry_safe off body head n (dl_entry off (nxt m (dl_member off n))) m s })"

lemma dl_member_entry [simp]: "dl_member off (dl_entry off p) = p"
  by (simp add: dl_member_def dl_entry_def)

lemma dl_for_each_entry_linked:
  "linked m (x # xs @ [h]) \<Longrightarrow> h \<notin> set xs \<Longrightarrow>
   dl_for_each_entry off m h (dl_entry off (nxt m x)) = Some (map (dl_entry off) xs)"
  by (induction xs arbitrary: x) (simp_all add: dl_for_each_entry.simps [of off m h])

lemma dl_repr_for_each_entry:
  "dl_repr m h xs \<Longrightarrow> dl_for_each_entry off m h (dl_entry off (nxt m h)) = Some (map (dl_entry off) xs)"
  by (simp add: dl_repr_def dl_for_each_entry_linked)

text \<open>
  A body that unlinks the entries with a property and leaves the pointers alone otherwise: the loop
  visits every entry once and in order, and the entries without the property stay.
\<close>

lemma dl_for_each_entry_safe_from:
  assumes "\<And>x m s. body (dl_entry off x) m s = Some (if P x then dl_del x m else m, f x s)"
  shows "dl_repr m h (as @ bs) \<Longrightarrow> p = hd (bs @ [h]) \<Longrightarrow> bs \<noteq> [] \<Longrightarrow> n = nxt m p \<Longrightarrow>
    \<exists>m'. dl_for_each_entry_safe off body h (dl_entry off p) (dl_entry off n) m s = Some (m', fold f bs s) \<and>
      dl_repr m' h (as @ filter (\<lambda>x. \<not> P x) bs)"
proof (induction bs arbitrary: as m s p n)
  case (Cons x bs)
  define m1 where "m1 = (if P x then dl_del x m else m)"
  define as1 where "as1 = (if P x then as else as @ [x])"
  have x: "p = x" "x \<noteq> h" using Cons.prems(1,2) by (auto simp: dl_repr_def)
  have n: "n = hd (bs @ [h])" using dl_repr_around [OF Cons.prems(1)] Cons.prems(4) x by simp
  have repr: "dl_repr m1 h (as1 @ bs)" using Cons.prems(1) dl_repr_del [OF Cons.prems(1)] by (simp add: m1_def as1_def)
  have step: "dl_for_each_entry_safe off body h (dl_entry off p) (dl_entry off n) m s =
      dl_for_each_entry_safe off body h (dl_entry off n) (dl_entry off (nxt m1 n)) m1 (f x s)"
    using x by (simp add: dl_for_each_entry_safe.simps [of off body h "dl_entry off x"] assms m1_def)
  show ?case
  proof (cases "bs = []")
    case True
    with n step repr show ?thesis by (simp add: dl_for_each_entry_safe.simps [of off body h "dl_entry off h"] as1_def split: if_splits)
  next
    case False
    from Cons.IH [OF repr n False refl, of "f x s"] step show ?thesis by (auto simp: as1_def split: if_splits)
  qed
qed simp

lemma dl_repr_for_each_entry_safe:
  assumes "dl_repr m h xs" "\<And>x m s. body (dl_entry off x) m s = Some (if P x then dl_del x m else m, f x s)"
  shows "\<exists>m'. dl_for_each_entry_safe off body h (dl_entry off (nxt m h)) (dl_entry off (nxt m (nxt m h))) m s = Some (m', fold f xs s) \<and>
    dl_repr m' h (filter (\<lambda>x. \<not> P x) xs)"
proof (cases "xs = []")
  case True
  with dl_repr_ends(1) [OF assms(1)] assms(1) show ?thesis
    by (simp add: dl_for_each_entry_safe.simps [of off body h "dl_entry off h"])
next
  case False
  from dl_for_each_entry_safe_from [where body = body and off = off and P = P and f = f and as = "[]" and s = s,
      OF assms(2) _ dl_repr_ends(1) [OF assms(1)] False refl] assms(1)
  show ?thesis by simp
qed

section \<open>Property\<close>

text \<open>
  C31: the operations of \<open>dlist.h\<close> implement lists. From well-formed heads of two lists, each of which may
  be empty: adding at both ends gives the longer list and leaves the other one; \<open>dlist_empty\<close> tells
  whether the list is empty; the loops visit it in both directions; joining puts the other list in front,
  and its head represents the empty list when it is initialised. At any entry: adding before it gives the
  longer list, unlinking it gives the shorter one and leaves the other, its fields are \<open>NULL\<close> or those
  of an empty head; moving it takes it out of its list and puts it at the front or the back of the other.
\<close>

theorem dlist_ops_refine:
  assumes "dl_repr m h xs" "dl_repr m k ys" "set (h # xs) \<inter> set (k # ys) = {}" "x \<notin> set (h # xs) \<union> set (k # ys)" "x \<noteq> NULL"
  shows "dl_repr (dl_add x h m) h (x # xs) \<and> dl_repr (dl_add x h m) k ys \<and>
    dl_repr (dl_add_tail x h m) h (xs @ [x]) \<and> dl_repr (dl_add_tail x h m) k ys \<and>
    (dl_empty h m \<longleftrightarrow> xs = []) \<and>
    dl_for_each m h (nxt m h) = Some xs \<and> dl_for_each_prev m h (prv m h) = Some (rev xs) \<and>
    dl_repr (dl_splice k h m) h (ys @ xs) \<and> dl_repr (dl_splice_init k h m) h (ys @ xs) \<and> dl_repr (dl_splice_init k h m) k [] \<and>
    (\<forall>as e bs. xs = as @ e # bs \<longrightarrow>
       dl_repr (dl_add_before h e x m) h (as @ x # e # bs) \<and> dl_repr (dl_add_before h e x m) k ys \<and>
       dl_repr (dl_del e m) h (as @ bs) \<and> dl_repr (dl_del e m) k ys \<and> nxt (dl_del e m) e = NULL \<and> prv (dl_del e m) e = NULL \<and>
       dl_repr (dl_del_init e m) h (as @ bs) \<and> dl_repr (dl_del_init e m) e [] \<and>
       dl_repr (dl_move e k m) h (as @ bs) \<and> dl_repr (dl_move e k m) k (e # ys) \<and>
       dl_repr (dl_move_tail e k m) h (as @ bs) \<and> dl_repr (dl_move_tail e k m) k (ys @ [e])) \<and>
    dl_repr (INIT_DLIST_HEAD h m) h []"
proof -
  have disj: "set (k # ys) \<inter> set (h # xs) = {}" and x: "x \<notin> set (h # xs)" using assms(3,4) by blast+
  have h: "h \<noteq> NULL" using assms(1) by (simp add: dl_repr_def)
  have add: "dl_repr (dl_add x h m) k ys" "dl_repr (dl_add_tail x h m) k ys"
    using dl_repr_add_other [OF assms(2,1,3)] assms(4) by blast+
  have at: "dl_repr (dl_add_before h e x m) h (as @ x # e # bs) \<and> dl_repr (dl_add_before h e x m) k ys \<and>
       dl_repr (dl_del e m) h (as @ bs) \<and> dl_repr (dl_del e m) k ys \<and> nxt (dl_del e m) e = NULL \<and> prv (dl_del e m) e = NULL \<and>
       dl_repr (dl_del_init e m) h (as @ bs) \<and> dl_repr (dl_del_init e m) e [] \<and>
       dl_repr (dl_move e k m) h (as @ bs) \<and> dl_repr (dl_move e k m) k (e # ys) \<and>
       dl_repr (dl_move_tail e k m) h (as @ bs) \<and> dl_repr (dl_move_tail e k m) k (ys @ [e])" if xs: "xs = as @ e # bs" for as e bs
  proof -
    note r = assms(1) [unfolded xs]
    have around: "prv m e \<in> set (h # xs)" "nxt m e \<in> set (h # xs)"
      using dl_repr_around [OF r] last_in_set [of "h # as"] by (auto simp: xs hd_append)
    have ne: "w \<noteq> h" "w \<noteq> e" "w \<noteq> x" "w \<noteq> prv m e" "w \<noteq> nxt m e" if "w \<in> set (k # ys)" for w
      using that disj assms(4) around xs by auto
    have "dl_repr (dl_add_before h e x m) k ys"
      by (rule dl_repr_other [OF assms(2)]) (use ne in \<open>simp add: dl_add_before_def Let_def\<close>)
    moreover have "dl_repr (dl_del e m) k ys"
      by (rule dl_repr_other [OF assms(2)]) (use ne in simp)
    moreover have "nxt (dl_del e m) e = NULL" "prv (dl_del e m) e = NULL" by simp_all
    moreover note dl_repr_add_before [OF r x [unfolded xs] assms(5)] dl_repr_del [OF r] dl_repr_del_init [OF r]
      dl_repr_move [OF r assms(2) assms(3) [unfolded xs]]
    ultimately show ?thesis by (simp only: simp_thms)
  qed
  show ?thesis
    using dlist.repr_add [OF assms(1) x assms(5)] dlist.repr_add_tail [OF assms(1) x assms(5)] add dlist.repr_empty [OF assms(1)]
      dl_repr_for_each [OF assms(1)] dl_repr_splice [OF assms(2,1) disj] at dl_repr_init [OF h] by blast
qed

text \<open>Two lists: head 1 with the entries 2 and 3, and head 4 with the entry 5.\<close>

definition two_lists :: list_mem where
  "two_lists = \<lparr>nxt = (\<lambda>_. 0)(1 := 2, 2 := 3, 3 := 1, 4 := 5, 5 := 4), prv = (\<lambda>_. 0)(1 := 3, 2 := 1, 3 := 2, 4 := 5, 5 := 4)\<rparr>"

theorem dlist_ops_refine_witness:
  "dl_repr (dl_splice_init 4 1 two_lists) 1 [5, 2, 3] \<and> dl_repr (dl_splice_init 4 1 two_lists) 4 [] \<and>
   dl_repr (dl_move 3 4 two_lists) 4 [3, 5] \<and> dl_repr (dl_move 3 4 two_lists) 1 [2] \<and> dl_for_each_prev two_lists 1 (prv two_lists 1) = Some [3, 2]"
proof -
  have r: "dl_repr two_lists 1 [2, 3]" "dl_repr two_lists 4 [5]" by (simp_all add: dl_repr_def two_lists_def)
  have d: "set ((1 :: nat) # [2, 3]) \<inter> set ((4 :: nat) # [5]) = {}" "6 \<notin> set ((1 :: nat) # [2, 3]) \<union> set ((4 :: nat) # [5])" "(6 :: nat) \<noteq> NULL" by simp_all
  from dlist_ops_refine [OF r d] show ?thesis by (auto dest!: spec [of _ "[2]"])
qed

end
