(* ===== verification/Hash.thy ===== *)
theory Hash
  imports Bat_Prelude
begin

text \<open>
  The hash table with overflow buckets of \<open>src/hash.c\<close> and \<open>src/hash.h\<close>.

  A bucket (\<open>struct element_t\<close>) is a pair of its address and of the data it points to; the
  chain that starts at a slot of the table is the list of its buckets in the order of the
  \<open>next\<close> pointers. The two callbacks are fields of the table as in the source. They look only
  at the key of the data they are given (the MAC address at the beginning of the structure), so
  they take keys here, and every operation has a parameter \<open>key\<close> that reads the key of the
  data a bucket points to. The address of a bucket that \<open>debugMalloc\<close> returns is a parameter
  \<open>cell\<close> (\<open>debugMalloc\<close> does not return \<open>NULL\<close>: it exits).

  The abstract view of a table is the map from keys to data (\<open>hash_map\<close>).
\<close>

type_synonym 'd chain = "(nat \<times> 'd) list"

record ('d, 'k) hashtable_t =
  table :: "'d chain list"
  elements :: int
  table_size :: int
  compare_cb :: "'k \<Rightarrow> 'k \<Rightarrow> int"
  choose_cb :: "'k \<Rightarrow> int \<Rightarrow> int"

text \<open>
  The iterator: \<open>bucket\<close> and \<open>prev_bucket\<close> are addresses of buckets, \<open>first_bucket\<close> is the
  slot of the table whose address the source keeps.
\<close>

record hash_it_t =
  index :: int
  bucket :: "nat option"
  prev_bucket :: "nat option"
  first_bucket :: "int option"

section \<open>Operations\<close>

definition hash_init :: "('d, 'k) hashtable_t \<Rightarrow> ('d, 'k) hashtable_t" where
  "hash_init hash = hash\<lparr>elements := 0, table := map (\<lambda>_. []) (table hash)\<rparr>"

text \<open>\<open>hash_new\<close>: the memory of the new table has \<open>size\<close> slots, which \<open>hash_init\<close> clears.\<close>

definition hash_new :: "int \<Rightarrow> ('k \<Rightarrow> 'k \<Rightarrow> int) \<Rightarrow> ('k \<Rightarrow> int \<Rightarrow> int) \<Rightarrow> ('d, 'k) hashtable_t" where
  "hash_new sz cmp chs =
     hash_init \<lparr>table = replicate (nat sz) [], elements = 0, table_size = sz, compare_cb = cmp, choose_cb = chs\<rparr>"

text \<open>\<open>hash_delete\<close>: the data handed to \<open>free_cb\<close>, in the order of the calls.\<close>

definition hash_delete :: "('d, 'k) hashtable_t \<Rightarrow> 'd list" where
  "hash_delete hash = concat (map (map snd) (table hash))"

fun bucket_find :: "('d \<Rightarrow> 'k) \<Rightarrow> ('k \<Rightarrow> 'k \<Rightarrow> int) \<Rightarrow> 'd chain \<Rightarrow> 'k \<Rightarrow> 'd option" where
  "bucket_find key cmp [] k = None"
| "bucket_find key cmp ((a, d) # bs) k =
     (if cmp (key d) k = 0 then Some d else bucket_find key cmp bs k)"

definition hash_find :: "('d \<Rightarrow> 'k) \<Rightarrow> ('d, 'k) hashtable_t \<Rightarrow> 'k \<Rightarrow> 'd option option" where
  "hash_find key hash keydata = do {
     bs \<leftarrow> array_get (table hash) (choose_cb hash keydata (table_size hash));
     Some (bucket_find key (compare_cb hash) bs keydata)
   }"

text \<open>
  The loop of \<open>hash_add\<close> over one chain: \<^term>\<open>None\<close> when an element with the key is there
  already, otherwise the chain with the new bucket at its tail.
\<close>

fun bucket_add :: "('d \<Rightarrow> 'k) \<Rightarrow> ('k \<Rightarrow> 'k \<Rightarrow> int) \<Rightarrow> nat \<Rightarrow> 'd \<Rightarrow> 'd chain \<Rightarrow> 'd chain option" where
  "bucket_add key cmp cell data [] = Some [(cell, data)]"
| "bucket_add key cmp cell data ((a, d) # bs) =
     (if cmp (key d) (key data) = 0 then None
      else map_option (\<lambda>bs. (a, d) # bs) (bucket_add key cmp cell data bs))"

definition hash_add ::
    "('d \<Rightarrow> 'k) \<Rightarrow> nat \<Rightarrow> ('d, 'k) hashtable_t \<Rightarrow> 'd \<Rightarrow> (int \<times> ('d, 'k) hashtable_t) option" where
  "hash_add key cell hash data = do {
     let index = choose_cb hash (key data) (table_size hash);
     bs \<leftarrow> array_get (table hash) index;
     (case bucket_add key (compare_cb hash) cell data bs of
        None \<Rightarrow> Some (- 1, hash)
      | Some bs' \<Rightarrow> do {
          table' \<leftarrow> array_set (table hash) index bs';
          Some (0, hash\<lparr>table := table', elements := elements hash + 1\<rparr>)
        })
   }"

text \<open>
  The bucket at an address: the chain before it, its data and the chain after it; and the slot
  in whose chain it is.
\<close>

fun split_cell :: "nat \<Rightarrow> 'd chain \<Rightarrow> ('d chain \<times> 'd \<times> 'd chain) option" where
  "split_cell p [] = None"
| "split_cell p ((a, d) # bs) =
     (if a = p then Some ([], d, bs)
      else map_option (\<lambda>(as, x, cs). ((a, d) # as, x, cs)) (split_cell p bs))"

fun locate_cell :: "nat \<Rightarrow> 'd chain list \<Rightarrow> (nat \<times> 'd chain \<times> 'd \<times> 'd chain) option" where
  "locate_cell p [] = None"
| "locate_cell p (c # cs) =
     (case split_cell p c of
        Some (as, d, bs) \<Rightarrow> Some (0, as, d, bs)
      | None \<Rightarrow> map_option (\<lambda>(i, r). (Suc i, r)) (locate_cell p cs))"

text \<open>\<open>bucket->next\<close> as an address, for a live bucket.\<close>

definition next_cell :: "('d, 'k) hashtable_t \<Rightarrow> nat \<Rightarrow> nat option option" where
  "next_cell hash p = do {
     (i, as, d, bs) \<leftarrow> locate_cell p (table hash);
     Some (case bs of [] \<Rightarrow> None | (a, _) # _ \<Rightarrow> Some a)
   }"

definition slot_head :: "('d, 'k) hashtable_t \<Rightarrow> int \<Rightarrow> nat option option" where
  "slot_head hash i = do {
     bs \<leftarrow> array_get (table hash) i;
     Some (case bs of [] \<Rightarrow> None | (a, _) # _ \<Rightarrow> Some a)
   }"

definition cell_data :: "('d, 'k) hashtable_t \<Rightarrow> nat \<Rightarrow> 'd option" where
  "cell_data hash p = map_option (\<lambda>(i, as, d, bs). d) (locate_cell p (table hash))"

definition hash_remove_bucket ::
    "('d, 'k) hashtable_t \<Rightarrow> hash_it_t \<Rightarrow> ('d \<times> ('d, 'k) hashtable_t) option" where
  "hash_remove_bucket hash it = do {
     b \<leftarrow> bucket it;
     (i, as, data_save, bs) \<leftarrow> locate_cell b (table hash);
     table' \<leftarrow>
       (case prev_bucket it of
          Some p \<Rightarrow> do {
            (j, ps, pd, _) \<leftarrow> locate_cell p (table hash);
            Some ((table hash)[j := ps @ (p, pd) # bs])
          }
        | None \<Rightarrow>
          (case first_bucket it of
             Some k \<Rightarrow> array_set (table hash) k bs
           | None \<Rightarrow> Some (table hash)));
     Some (data_save, hash\<lparr>table := table', elements := elements hash - 1\<rparr>)
   }"

text \<open>
  \<open>hash_remove\<close>: its loop walks along one chain with the address of the previous bucket. The
  bucket is the first one of its chain when its address is the one in the slot.
\<close>

fun hash_remove_loop ::
    "('d \<Rightarrow> 'k) \<Rightarrow> ('d, 'k) hashtable_t \<Rightarrow> 'k \<Rightarrow> int \<Rightarrow> nat option \<Rightarrow> 'd chain \<Rightarrow>
     ('d option \<times> ('d, 'k) hashtable_t) option" where
  "hash_remove_loop key hash k i prev [] = Some (None, hash)"
| "hash_remove_loop key hash k i prev ((a, d) # bs) =
     (if compare_cb hash (key d) k = 0
      then do {
        h \<leftarrow> slot_head hash i;
        (data, hash) \<leftarrow> hash_remove_bucket hash
          \<lparr>index = i, bucket = Some a, prev_bucket = prev,
           first_bucket = (if Some a = h then Some i else None)\<rparr>;
        Some (Some data, hash)
      }
      else hash_remove_loop key hash k i (Some a) bs)"

definition hash_remove ::
    "('d \<Rightarrow> 'k) \<Rightarrow> ('d, 'k) hashtable_t \<Rightarrow> 'k \<Rightarrow> ('d option \<times> ('d, 'k) hashtable_t) option" where
  "hash_remove key hash k = do {
     let i = choose_cb hash k (table_size hash);
     bs \<leftarrow> array_get (table hash) i;
     hash_remove_loop key hash k i None bs
   }"

text \<open>
  \<open>hash_iterate\<close>. The first part repairs the iterator when its bucket was removed since the last
  call; \<open>Inl\<close> is an early return. \<open>first_bucket\<close> of a new iterator is not initialised, and not
  read before it is set.
\<close>

definition hash_it_new :: hash_it_t where
  "hash_it_new = \<lparr>index = - 1, bucket = None, prev_bucket = None, first_bucket = None\<rparr>"

definition hash_it_repair ::
    "('d, 'k) hashtable_t \<Rightarrow> hash_it_t \<Rightarrow> (hash_it_t + hash_it_t) option" where
  "hash_it_repair hash iter =
     (case bucket iter of
        None \<Rightarrow> Some (Inr iter)
      | Some b \<Rightarrow>
        (case first_bucket iter of
           Some k \<Rightarrow> do {
             f \<leftarrow> slot_head hash k;
             Some (if f \<noteq> Some b
                   then (case f of
                           Some a \<Rightarrow> Inl (iter\<lparr>prev_bucket := None, bucket := Some a,
                                                first_bucket := Some (index iter)\<rparr>)
                         | None \<Rightarrow> Inr (iter\<lparr>bucket := None\<rparr>))
                   else Inr iter)
           }
         | None \<Rightarrow>
           (case prev_bucket iter of
              Some p \<Rightarrow> do {
                n \<leftarrow> next_cell hash p;
                Some (Inr (if n \<noteq> Some b then iter\<lparr>bucket := Some p\<rparr> else iter))
              }
            | None \<Rightarrow> Some (Inr iter))))"

function hash_it_search :: "('d, 'k) hashtable_t \<Rightarrow> hash_it_t \<Rightarrow> hash_it_t option option" where
  "hash_it_search hash iter =
     (if index iter < table_size hash
      then do {
        f \<leftarrow> slot_head hash (index iter);
        (case f of
           Some a \<Rightarrow> Some (Some (iter\<lparr>prev_bucket := None, bucket := Some a,
                                       first_bucket := Some (index iter)\<rparr>))
         | None \<Rightarrow> hash_it_search hash (iter\<lparr>index := index iter + 1\<rparr>))
      }
      else Some None)"
  by pat_completeness auto
termination
  by (relation "measure (\<lambda>(hash, iter). nat (table_size hash - index iter))") auto

declare hash_it_search.simps [simp del]

definition hash_iterate ::
    "('d, 'k) hashtable_t \<Rightarrow> hash_it_t option \<Rightarrow> hash_it_t option option" where
  "hash_iterate hash iter_in = do {
     let iter = (case iter_in of None \<Rightarrow> hash_it_new | Some it \<Rightarrow> it);
     repaired \<leftarrow> hash_it_repair hash iter;
     (case repaired of
        Inl iter \<Rightarrow> Some (Some iter)
      | Inr iter \<Rightarrow> do {
          n \<leftarrow> (case bucket iter of None \<Rightarrow> Some None | Some b \<Rightarrow> next_cell hash b);
          (case n of
             Some a \<Rightarrow> Some (Some (iter\<lparr>prev_bucket := bucket iter, bucket := Some a,
                                         first_bucket := None\<rparr>))
           | None \<Rightarrow> hash_it_search hash (iter\<lparr>index := index iter + 1\<rparr>))
        })
   }"

text \<open>\<open>hash_resize\<close>: the buckets of the new table have the addresses \<open>cell\<close>, \<open>cell + 1\<close>, \<dots>\<close>

fun hash_add_all ::
    "('d \<Rightarrow> 'k) \<Rightarrow> nat \<Rightarrow> ('d, 'k) hashtable_t \<Rightarrow> 'd list \<Rightarrow> ('d, 'k) hashtable_t option" where
  "hash_add_all key cell hash [] = Some hash"
| "hash_add_all key cell hash (d # ds) = do {
     (r, hash) \<leftarrow> hash_add key cell hash d;
     hash_add_all key (Suc cell) hash ds
   }"

definition hash_resize ::
    "('d \<Rightarrow> 'k) \<Rightarrow> nat \<Rightarrow> ('d, 'k) hashtable_t \<Rightarrow> int \<Rightarrow> ('d, 'k) hashtable_t option" where
  "hash_resize key cell hash sz =
     hash_add_all key cell (hash_new sz (compare_cb hash) (choose_cb hash))
       (concat (map (map snd) (table hash)))"

section \<open>Loops over a table\<close>

text \<open>
  The loop of the clients (\<open>purge_orig\<close>, \<open>schedule_own_packet\<close>, \<open>generate_vis_packet\<close>):
  \<open>while (NULL != (hashit = hash_iterate(hash, hashit)))\<close> with a body that works on the data of
  the bucket and a state \<open>s\<close>, and says whether it has called \<open>hash_remove_bucket\<close>. The loop is
  specified by a sweep over the chains.
\<close>

partial_function (option) hash_loop ::
    "('d \<Rightarrow> 's \<Rightarrow> (bool \<times> 's) option) \<Rightarrow> ('d, 'k) hashtable_t \<Rightarrow> hash_it_t option \<Rightarrow> 's \<Rightarrow>
     (('d, 'k) hashtable_t \<times> 's) option" where
  "hash_loop body hash hashit s = do {
     iter \<leftarrow> hash_iterate hash hashit;
     (case iter of
        None \<Rightarrow> Some (hash, s)
      | Some it \<Rightarrow> do {
          b \<leftarrow> bucket it;
          data \<leftarrow> cell_data hash b;
          (remove, s) \<leftarrow> body data s;
          hash \<leftarrow> (if remove then map_option snd (hash_remove_bucket hash it) else Some hash);
          hash_loop body hash (Some it) s
        })
   }"

fun sweep_chain :: "('d \<Rightarrow> 's \<Rightarrow> (bool \<times> 's) option) \<Rightarrow> 'd chain \<Rightarrow> 's \<Rightarrow> ('d chain \<times> 's) option" where
  "sweep_chain body [] s = Some ([], s)"
| "sweep_chain body ((a, d) # bs) s = do {
     (remove, s) \<leftarrow> body d s;
     (bs, s) \<leftarrow> sweep_chain body bs s;
     Some (if remove then bs else (a, d) # bs, s)
   }"

fun sweep_table ::
    "('d \<Rightarrow> 's \<Rightarrow> (bool \<times> 's) option) \<Rightarrow> 'd chain list \<Rightarrow> 's \<Rightarrow> ('d chain list \<times> 's) option" where
  "sweep_table body [] s = Some ([], s)"
| "sweep_table body (c # cs) s = do {
     (c, s) \<leftarrow> sweep_chain body c s;
     (cs, s) \<leftarrow> sweep_table body cs s;
     Some (c # cs, s)
   }"

section \<open>Well-formed tables\<close>

definition hash_entries :: "('d, 'k) hashtable_t \<Rightarrow> 'd list" where
  "hash_entries hash = map snd (concat (table hash))"

definition hash_map :: "('d \<Rightarrow> 'k) \<Rightarrow> ('d, 'k) hashtable_t \<Rightarrow> 'k \<Rightarrow> 'd option" where
  "hash_map key hash k = find (\<lambda>d. key d = k) (hash_entries hash)"

definition hash_ok :: "('d \<Rightarrow> 'k) \<Rightarrow> ('d, 'k) hashtable_t \<Rightarrow> bool" where
  "hash_ok key hash \<longleftrightarrow>
     0 < table_size hash \<and> length (table hash) = nat (table_size hash) \<and>
     elements hash = int (length (hash_entries hash)) \<and>
     distinct (map fst (concat (table hash))) \<and>
     distinct (map key (hash_entries hash)) \<and>
     (\<forall>i < length (table hash). \<forall>d \<in> snd ` set (table hash ! i).
        choose_cb hash (key d) (table_size hash) = int i)"

text \<open>Splitting a list of chains at one slot.\<close>

lemma concat_split:
  "i < length cs \<Longrightarrow> concat cs = concat (take i cs) @ cs ! i @ concat (drop (Suc i) cs)"
  by (metis concat.simps(2) concat_append id_take_nth_drop)

lemma concat_update:
  "i < length cs \<Longrightarrow> concat (cs[i := c]) = concat (take i cs) @ c @ concat (drop (Suc i) cs)"
  by (simp add: upd_conv_take_nth_drop)

lemma find_distinct:
  "distinct (map key ds) \<Longrightarrow> find (\<lambda>d. key d = k) ds = Some d \<longleftrightarrow> d \<in> set ds \<and> key d = k"
  by (induction ds) auto

lemma find_None: "find (\<lambda>d. key d = k) ds = None \<longleftrightarrow> k \<notin> key ` set ds"
  by (auto simp: find_None_iff)

lemma find_append: "find P (xs @ ys) = (case find P xs of None \<Rightarrow> find P ys | Some x \<Rightarrow> Some x)"
  by (induction xs) auto

lemma hash_map_Some:
  "hash_ok key hash \<Longrightarrow> hash_map key hash k = Some d \<longleftrightarrow> d \<in> set (hash_entries hash) \<and> key d = k"
  by (simp add: hash_map_def hash_ok_def find_distinct)

text \<open>
  The laws of the two callbacks: \<open>compare\<close> decides equality of keys and \<open>choose\<close> returns an
  index into a table of the given size. The lemmas of the locale are what the rest of the
  program relies on.
\<close>

locale hash_keys =
  fixes cmp :: "'k \<Rightarrow> 'k \<Rightarrow> int"
    and chs :: "'k \<Rightarrow> int \<Rightarrow> int"
  assumes cmp_0: "cmp a b = 0 \<longleftrightarrow> a = b"
    and chs_range: "0 < n \<Longrightarrow> 0 \<le> chs k n \<and> chs k n < n"
begin

definition uses :: "('d, 'k) hashtable_t \<Rightarrow> bool" where
  "uses hash \<longleftrightarrow> compare_cb hash = cmp \<and> choose_cb hash = chs"

lemma bucket_find_eq: "bucket_find key cmp bs k = find (\<lambda>d. key d = k) (map snd bs)"
  by (induction bs) (auto simp: cmp_0)

lemma bucket_add_eq:
  "bucket_add key cmp cell d bs =
     (if key d \<in> key ` snd ` set bs then None else Some (bs @ [(cell, d)]))"
  by (induction bs) (force simp: cmp_0)+

lemma slot_in_range:
  assumes "hash_ok key hash" "uses hash"
  shows "nat (chs k (table_size hash)) < length (table hash)"
    "array_get (table hash) (chs k (table_size hash)) = Some (table hash ! nat (chs k (table_size hash)))"
  using assms chs_range [of "table_size hash" k] by (auto simp: hash_ok_def)

text \<open>An element with a key is in the chain of the slot of that key.\<close>

lemma key_slot:
  assumes "hash_ok key hash" "uses hash" "d \<in> set (hash_entries hash)"
  shows "d \<in> snd ` set (table hash ! nat (chs (key d) (table_size hash)))"
proof -
  obtain a c where "(a, d) \<in> set c" "c \<in> set (table hash)"
    using assms(3) by (auto simp: hash_entries_def)
  then obtain i where i: "i < length (table hash)" "(a, d) \<in> set (table hash ! i)"
    by (metis in_set_conv_nth)
  then have "chs (key d) (table_size hash) = int i"
    using assms(1,2) unfolding hash_ok_def uses_def by force
  with i show ?thesis by force
qed

lemma slot_entries:
  assumes "i < length (table hash)"
  shows "hash_entries hash = map snd (concat (take i (table hash))) @ map snd (table hash ! i) @
    map snd (concat (drop (Suc i) (table hash)))"
  unfolding hash_entries_def using concat_split [OF assms] by (metis map_append)

lemma slot_subset: "i < length (table hash) \<Longrightarrow> snd ` set (table hash ! i) \<subseteq> set (hash_entries hash)"
  by (auto simp: slot_entries)

lemma slot_find:
  assumes "hash_ok key hash" "uses hash"
  shows "find (\<lambda>d. key d = k) (map snd (table hash ! nat (chs k (table_size hash)))) = hash_map key hash k"
proof -
  define i where "i = nat (chs k (table_size hash))"
  have i: "i < length (table hash)" using slot_in_range [OF assms] by (simp add: i_def)
  have dist: "distinct (map key (map snd (table hash ! i)))"
    using assms(1) i unfolding hash_ok_def by (simp add: slot_entries)
  show ?thesis
  proof (cases "hash_map key hash k")
    case None
    then have "k \<notin> key ` set (hash_entries hash)" by (simp add: hash_map_def find_None)
    then have "k \<notin> key ` set (map snd (table hash ! i))" using slot_subset [OF i] by auto
    with None show ?thesis by (simp add: find_None i_def [symmetric] del: set_map)
  next
    case (Some d)
    then have "d \<in> set (hash_entries hash)" "key d = k" by (simp_all add: hash_map_Some assms(1))
    with key_slot [OF assms, of d] have "d \<in> set (map snd (table hash ! i))" by (simp add: i_def)
    with Some \<open>key d = k\<close> dist show ?thesis
      by (simp only: i_def [symmetric] find_distinct)
  qed
qed

lemma find_is_map:
  assumes "hash_ok key hash" "uses hash"
  shows "hash_find key hash k = Some (hash_map key hash k)"
  using slot_in_range [OF assms, of k] slot_find [OF assms, of k] assms(2)
  by (simp add: hash_find_def uses_def bucket_find_eq)


text \<open>Replacing the chain of one slot by a chain with one more element at its end.\<close>

lemma ok_append_slot:
  assumes "hash_ok key hash" "i < length (table hash)"
    and "cell \<notin> fst ` set (concat (table hash))" "key d \<notin> key ` set (hash_entries hash)"
    and "choose_cb hash (key d) (table_size hash) = int i"
    and h: "h = hash\<lparr>table := (table hash)[i := table hash ! i @ [(cell, d)]],
      elements := elements hash + 1\<rparr>"
  shows "hash_ok key h \<and> set (hash_entries h) = insert d (set (hash_entries hash))"
proof -
  let ?pre = "concat (take i (table hash))" and ?post = "concat (drop (Suc i) (table hash))"
  have old: "concat (table hash) = ?pre @ table hash ! i @ ?post"
    using assms(2) by (rule concat_split)
  have new: "concat (table h) = ?pre @ table hash ! i @ (cell, d) # ?post"
    using assms(2) by (simp add: concat_update h)
  have ent: "set (hash_entries h) = insert d (set (hash_entries hash))"
    unfolding hash_entries_def old new by auto
  have "distinct (map fst (concat (table h)))"
    using assms(1,3) unfolding hash_ok_def old new by auto
  moreover have "distinct (map key (hash_entries h))"
  proof -
    define xs where "xs = map (\<lambda>c. key (snd c)) (?pre @ table hash ! i)"
    define ys where "ys = map (\<lambda>c. key (snd c)) ?post"
    have "map key (hash_entries hash) = xs @ ys" "map key (hash_entries h) = xs @ key d # ys"
      unfolding hash_entries_def old new xs_def ys_def by simp_all
    moreover have "distinct (map key (hash_entries hash))" "key d \<notin> set (map key (hash_entries hash))"
      using assms(1,4) by (simp_all add: hash_ok_def)
    ultimately show ?thesis by simp
  qed
  moreover have "elements h = int (length (hash_entries h))"
  proof -
    have "length (hash_entries h) = Suc (length (hash_entries hash))"
      unfolding hash_entries_def old new by simp
    then show ?thesis using assms(1) by (simp add: hash_ok_def h)
  qed
  ultimately have "hash_ok key h"
    using assms(1,2,5) by (auto simp: hash_ok_def nth_list_update h)
  with ent show ?thesis by simp
qed

lemma map_insert:
  assumes "hash_ok key hash" "hash_ok key hash'" "key d \<notin> key ` set (hash_entries hash)"
    and "set (hash_entries hash') = insert d (set (hash_entries hash))"
  shows "hash_map key hash' = (hash_map key hash)(key d \<mapsto> d)"
proof
  fix k
  show "hash_map key hash' k = ((hash_map key hash)(key d \<mapsto> d)) k"
  proof (cases "hash_map key hash' k")
    case None
    then have "k \<noteq> key d" "k \<notin> key ` set (hash_entries hash)"
      using assms(4) by (auto simp: hash_map_def find_None)
    then have "((hash_map key hash)(key d \<mapsto> d)) k = None" by (simp add: hash_map_def find_None)
    with None show ?thesis by simp
  next
    case (Some e)
    then have "e = d \<or> e \<in> set (hash_entries hash)" "key e = k"
      using assms(4) by (auto simp: hash_map_Some [OF assms(2)])
    then have "((hash_map key hash)(key d \<mapsto> d)) k = Some e"
    proof (cases "e = d")
      case False
      then have e: "e \<in> set (hash_entries hash)" "key e = k"
        using \<open>e = d \<or> e \<in> set (hash_entries hash)\<close> \<open>key e = k\<close> by simp_all
      then have "k \<noteq> key d" using assms(3) by (metis image_eqI)
      with e show ?thesis by (simp add: hash_map_Some [OF assms(1)])
    qed (use \<open>key e = k\<close> in simp)
    with Some show ?thesis by simp
  qed
qed

lemma add_is_update:
  assumes "hash_ok key hash" "uses hash" "cell \<notin> fst ` set (concat (table hash))"
    "hash_map key hash (key d) = None"
  shows "\<exists>hash'. hash_add key cell hash d = Some (0, hash') \<and> hash_ok key hash' \<and> uses hash' \<and>
    table_size hash' = table_size hash \<and> hash_map key hash' = (hash_map key hash)(key d \<mapsto> d) \<and>
    set (hash_entries hash') = insert d (set (hash_entries hash)) \<and>
    fst ` set (concat (table hash')) = insert cell (fst ` set (concat (table hash)))"
proof -
  define i where "i = nat (chs (key d) (table_size hash))"
  have i: "i < length (table hash)" and get: "array_get (table hash) (chs (key d) (table_size hash)) = Some (table hash ! i)"
    using slot_in_range [OF assms(1,2), of "key d"] by (simp_all add: i_def)
  have ii: "chs (key d) (table_size hash) = int i" "0 \<le> chs (key d) (table_size hash)"
    using get by (auto simp: array_simps i_def)
  have fresh: "key d \<notin> key ` set (hash_entries hash)"
    using assms(4) by (simp add: hash_map_def find_None)
  define hash' where "hash' = hash\<lparr>table := (table hash)[i := table hash ! i @ [(cell, d)]], elements := elements hash + 1\<rparr>"
  have "key d \<notin> key ` snd ` set (table hash ! i)" using fresh slot_subset [OF i] by blast
  then have "hash_add key cell hash d = Some (0, hash')"
    using get i ii assms(2)
    by (simp add: hash_add_def uses_def bucket_add_eq hash'_def)
  moreover have ok: "hash_ok key hash'" and ent: "set (hash_entries hash') = insert d (set (hash_entries hash))"
    using ok_append_slot [OF assms(1) i assms(3) fresh _ hash'_def] ii assms(2) by (simp_all add: uses_def)
  moreover have "fst ` set (concat (table hash')) = insert cell (fst ` set (concat (table hash)))"
  proof -
    define P where "P = concat (take i (table hash))"
    define Q where "Q = concat (drop (Suc i) (table hash))"
    have new: "concat (table hash') = P @ (table hash ! i @ [(cell, d)]) @ Q"
      using i by (simp add: hash'_def concat_update P_def Q_def)
    have old: "concat (table hash) = P @ table hash ! i @ Q"
      unfolding P_def Q_def using i by (rule concat_split)
    show ?thesis unfolding old new by auto
  qed
  ultimately show ?thesis
    using map_insert [OF assms(1) ok fresh ent] assms(2) by (auto simp: hash'_def uses_def)
qed

lemma add_present:
  assumes "hash_ok key hash" "uses hash" "hash_map key hash (key d) = Some e"
  shows "hash_add key cell hash d = Some (- 1, hash)"
proof -
  define i where "i = nat (chs (key d) (table_size hash))"
  have "e \<in> set (hash_entries hash)" "key e = key d"
    using assms(3) by (simp_all add: hash_map_Some assms(1))
  then have "key d \<in> key ` snd ` set (table hash ! i)"
    using key_slot [OF assms(1,2), of e] by (metis i_def image_eqI)
  then show ?thesis
    using slot_in_range(2) [OF assms(1,2), of "key d"] assms(2)
    by (simp add: hash_add_def uses_def bucket_add_eq i_def)
qed

end

section \<open>Addresses of buckets\<close>

lemma split_cell_append:
  "p \<notin> fst ` set as \<Longrightarrow> split_cell p (as @ (p, d) # bs) = Some (as, d, bs)"
  by (induction as) auto

lemma split_cell_None: "split_cell p c = None \<longleftrightarrow> p \<notin> fst ` set c"
  by (induction c) (auto split: if_splits)

lemma locate_cell_at:
  "i < length cs \<Longrightarrow> distinct (map fst (concat cs)) \<Longrightarrow> cs ! i = as @ (p, d) # bs \<Longrightarrow>
   locate_cell p cs = Some (i, as, d, bs)"
proof (induction cs arbitrary: i)
  case (Cons c cs)
  show ?case
  proof (cases i)
    case 0
    with Cons.prems show ?thesis by (auto simp: split_cell_append)
  next
    case (Suc j)
    with Cons.prems have j: "j < length cs" "cs ! j = as @ (p, d) # bs" by simp_all
    then have "p \<in> fst ` set (concat cs)"
      by (metis concat_split fst_conv image_eqI in_set_conv_decomp set_append UnCI)
    with Cons.prems(2) have "split_cell p c = None" by (auto simp: split_cell_None)
    with Cons.IH [OF j(1) _ j(2)] Cons.prems(2) Suc show ?thesis by simp
  qed
qed simp

definition last_cell :: "'d chain \<Rightarrow> nat option" where
  "last_cell as = (if as = [] then None else Some (fst (last as)))"

lemma last_cell_simps [simp]: "last_cell [] = None" "last_cell (as @ [(a, d)]) = Some a"
  by (simp_all add: last_cell_def)

text \<open>Removing the bucket an iterator stands at, when the iterator knows its predecessor.\<close>

lemma hash_remove_bucket_eq:
  assumes "i < length (table hash)" "distinct (map fst (concat (table hash)))"
    and "table hash ! i = as @ (b, d) # bs" "bucket it = Some b"
    and "prev_bucket it = last_cell as" "as = [] \<Longrightarrow> first_bucket it = Some (int i)"
  shows "hash_remove_bucket hash it =
    Some (d, hash\<lparr>table := (table hash)[i := as @ bs], elements := elements hash - 1\<rparr>)"
proof (cases as rule: rev_cases)
  case Nil
  then show ?thesis using assms locate_cell_at [OF assms(1-3)] by (simp add: hash_remove_bucket_def)
next
  case (snoc ps q)
  obtain p pd where q: "q = (p, pd)" by fastforce
  have "locate_cell p (table hash) = Some (i, ps, pd, (b, d) # bs)"
    using assms(3) snoc q by (intro locate_cell_at [OF assms(1,2)]) simp
  then show ?thesis using assms(3-5) locate_cell_at [OF assms(1-3)] snoc q
    by (simp add: hash_remove_bucket_def)
qed

lemma hash_remove_loop_absent:
  "(\<And>d. d \<in> snd ` set bs \<Longrightarrow> compare_cb hash (key d) k \<noteq> 0) \<Longrightarrow>
   hash_remove_loop key hash k i prev bs = Some (None, hash)"
  by (induction key hash k i prev bs rule: hash_remove_loop.induct) auto

lemma hash_remove_loop_present:
  assumes "i < length (table hash)" "distinct (map fst (concat (table hash)))"
    and "compare_cb hash (key d) k = 0" "\<And>e. e \<in> snd ` set ys \<Longrightarrow> compare_cb hash (key e) k \<noteq> 0"
    and "table hash ! i = as @ ys @ (b, d) # zs"
  shows "hash_remove_loop key hash k (int i) (last_cell as) (ys @ (b, d) # zs) =
    Some (Some d, hash\<lparr>table := (table hash)[i := as @ ys @ zs], elements := elements hash - 1\<rparr>)"
  using assms(4,5)
proof (induction ys arbitrary: as)
  case Nil
  define it where "it = \<lparr>index = int i, bucket = Some b, prev_bucket = last_cell as,
    first_bucket = (if Some b = (case table hash ! i of [] \<Rightarrow> None | (a, _) # _ \<Rightarrow> Some a)
      then Some (int i) else None)\<rparr>"
  have "hash_remove_bucket hash it =
      Some (d, hash\<lparr>table := (table hash)[i := as @ zs], elements := elements hash - 1\<rparr>)"
    using Nil.prems(2) by (intro hash_remove_bucket_eq [OF assms(1,2)]) (auto simp: it_def)
  then show ?case using assms(1,3) by (simp add: slot_head_def it_def)
next
  case (Cons y ys)
  obtain a e where y: "y = (a, e)" by fastforce
  have "hash_remove_loop key hash k (int i) (last_cell (as @ [(a, e)])) (ys @ (b, d) # zs) =
      Some (Some d, hash\<lparr>table := (table hash)[i := (as @ [(a, e)]) @ ys @ zs], elements := elements hash - 1\<rparr>)"
    using Cons.prems y by (intro Cons.IH) auto
  moreover have "compare_cb hash (key e) k \<noteq> 0" using Cons.prems(1) y by force
  ultimately show ?case by (simp add: y)
qed

text \<open>Taking one bucket out of a chain keeps a table well-formed.\<close>

lemma ok_remove_cell:
  assumes "hash_ok key hash" "i < length (table hash)" "table hash ! i = as @ (b, d) # bs"
    and h: "h = hash\<lparr>table := (table hash)[i := as @ bs], elements := elements hash - 1\<rparr>"
  shows "hash_ok key h \<and> set (hash_entries h) = set (hash_entries hash) - {d} \<and>
    fst ` set (concat (table h)) \<subseteq> fst ` set (concat (table hash)) \<and>
    b \<notin> fst ` set (concat (table h))"
proof -
  define P where "P = concat (take i (table hash)) @ as"
  define Q where "Q = bs @ concat (drop (Suc i) (table hash))"
  have old: "concat (table hash) = P @ (b, d) # Q"
    using concat_split [OF assms(2)] assms(3) by (simp add: P_def Q_def)
  have new: "concat (table h) = P @ Q"
    using assms(2) by (simp add: h concat_update P_def Q_def)
  have dist: "distinct (map fst (concat (table hash)))" "distinct (map key (hash_entries hash))"
    using assms(1) by (simp_all add: hash_ok_def)
  then have "distinct (map fst (concat (table h)))" "distinct (map key (hash_entries h))"
    by (simp_all add: hash_entries_def old new)
  moreover have "length (hash_entries hash) = Suc (length (hash_entries h))"
    by (simp add: hash_entries_def old new)
  then have "elements h = int (length (hash_entries h))"
    using assms(1) by (simp add: hash_ok_def h)
  moreover have "\<forall>j < length (table h). \<forall>e \<in> snd ` set (table h ! j).
      choose_cb h (key e) (table_size h) = int j"
  proof (intro allI impI ballI)
    fix j e assume j: "j < length (table h)" "e \<in> snd ` set (table h ! j)"
    then have "e \<in> snd ` set (table hash ! j)"
      using assms(2,3) by (auto simp: h nth_list_update split: if_splits)
    then show "choose_cb h (key e) (table_size h) = int j"
      using assms(1) j by (auto simp: hash_ok_def h)
  qed
  ultimately have "hash_ok key h" using assms(1) by (simp add: hash_ok_def h)
  moreover have "d \<notin> set (hash_entries h)"
    using dist(2) by (auto simp: hash_entries_def old new)
  then have "set (hash_entries h) = set (hash_entries hash) - {d}"
    by (auto simp: hash_entries_def old new)
  ultimately show ?thesis using dist(1) by (auto simp: old new)
qed

context hash_keys
begin

lemma remove_is_delete:
  assumes "hash_ok key hash" "uses hash"
  shows "\<exists>hash'. hash_remove key hash k = Some (hash_map key hash k, hash') \<and> hash_ok key hash' \<and>
    uses hash' \<and> table_size hash' = table_size hash \<and> hash_map key hash' = (hash_map key hash)(k := None) \<and>
    set (hash_entries hash') = {d \<in> set (hash_entries hash). key d \<noteq> k} \<and>
    fst ` set (concat (table hash')) \<subseteq> fst ` set (concat (table hash))"
proof -
  define i where "i = nat (chs k (table_size hash))"
  have i: "i < length (table hash)" and get: "array_get (table hash) (chs k (table_size hash)) = Some (table hash ! i)"
    using slot_in_range [OF assms, of k] by (simp_all add: i_def)
  have ii: "chs k (table_size hash) = int i" using get by (auto simp: array_simps i_def)
  have cb: "compare_cb hash = cmp" "choose_cb hash = chs" using assms(2) by (simp_all add: uses_def)
  have dist: "distinct (map fst (concat (table hash)))" using assms(1) by (simp add: hash_ok_def)
  show ?thesis
  proof (cases "hash_map key hash k")
    case None
    then have absent: "k \<notin> key ` set (hash_entries hash)" by (simp add: hash_map_def find_None)
    then have "cmp (key d) k \<noteq> 0" if "d \<in> snd ` set (table hash ! i)" for d
      using slot_subset [OF i] that by (auto simp: cmp_0)
    then have "hash_remove key hash k = Some (None, hash)"
      using get by (simp add: hash_remove_def cb ii hash_remove_loop_absent)
    with None absent assms show ?thesis by (auto simp: fun_upd_idem)
  next
    case (Some d)
    then have d: "d \<in> set (hash_entries hash)" "key d = k" by (simp_all add: hash_map_Some assms(1))
    obtain b where "(b, d) \<in> set (table hash ! i)"
      using key_slot [OF assms d(1)] d(2) by (auto simp: i_def)
    then obtain ys zs where chain: "table hash ! i = ys @ (b, d) # zs" by (meson split_list)
    define h where "h = hash\<lparr>table := (table hash)[i := ys @ zs], elements := elements hash - 1\<rparr>"
    note rm = ok_remove_cell [OF assms(1) i chain h_def]
    have uniq: "e = d" if "e \<in> set (hash_entries hash)" "key e = k" for e
      using that d assms(1) by (metis hash_map_Some option.inject)
    have "cmp (key e) k \<noteq> 0" if e: "e \<in> snd ` set ys" for e
    proof
      assume "cmp (key e) k = 0"
      moreover have "e \<in> set (hash_entries hash)" using e slot_subset [OF i] chain by auto
      ultimately have "e = d" using uniq by (simp add: cmp_0)
      moreover have "distinct (map key (hash_entries hash))" using assms(1) by (simp add: hash_ok_def)
      then have "distinct (map key (map snd (table hash ! i)))" using i by (simp only: slot_entries map_append distinct_append)
      ultimately show False using e chain by auto
    qed
    then have "hash_remove_loop key hash k (int i) (last_cell []) (ys @ (b, d) # zs) = Some (Some d, h)"
      using hash_remove_loop_present [OF i dist, of key d k ys "[]" b zs] d(2) chain
      by (simp add: cb cmp_0 h_def)
    then have "hash_remove key hash k = Some (Some d, h)"
      using get chain by (simp add: hash_remove_def cb ii)
    moreover have ent: "set (hash_entries h) = {e \<in> set (hash_entries hash). key e \<noteq> k}"
    proof -
      have "set (hash_entries h) = set (hash_entries hash) - {d}" using rm by (elim conjE)
      then show ?thesis using uniq d(2) by blast
    qed
    moreover have "hash_map key h = (hash_map key hash)(k := None)"
    proof
      fix k'
      have "hash_map key h k' = Some e \<longleftrightarrow> ((hash_map key hash)(k := None)) k' = Some e" for e
        using hash_map_Some [of key h k' e] rm
        by (simp add: ent hash_map_Some [OF assms(1)]) blast
      then show "hash_map key h k' = ((hash_map key hash)(k := None)) k'" by (rule option_eqI)
    qed
    ultimately show ?thesis using rm Some assms(2) by (auto simp: uses_def h_def)
  qed
qed

end

section \<open>Iteration\<close>

text \<open>An iterator that \<open>hash_iterate\<close> returned at the bucket \<open>b\<close> of slot \<open>i\<close>, behind \<open>as\<close>.\<close>

definition it_at :: "nat \<Rightarrow> 'd chain \<Rightarrow> nat \<Rightarrow> hash_it_t \<Rightarrow> bool" where
  "it_at i as b it \<longleftrightarrow> index it = int i \<and> bucket it = Some b \<and> prev_bucket it = last_cell as \<and>
     first_bucket it = (if as = [] then Some (int i) else None)"

text \<open>
  The same iterator at its next use: its bucket is the last one of \<open>as\<close>, or it was removed from
  between \<open>as\<close> and \<open>bs\<close>.
\<close>

definition it_after :: "nat \<Rightarrow> 'd chain \<Rightarrow> 'd chain \<Rightarrow> hash_it_t \<Rightarrow> bool" where
  "it_after i as bs it \<longleftrightarrow>
     (\<exists>xs b d. as = xs @ [(b, d)] \<and> it_at i xs b it) \<or>
     (\<exists>b. b \<notin> fst ` set (as @ bs) \<and> it_at i as b it)"

lemma next_cell_at:
  assumes "i < length (table hash)" "distinct (map fst (concat (table hash)))"
    "table hash ! i = as @ (b, d) # bs"
  shows "next_cell hash b = Some (case bs of [] \<Rightarrow> None | (a, _) # _ \<Rightarrow> Some a)"
  using locate_cell_at [OF assms] by (simp add: next_cell_def)

lemma hash_it_search_fields:
  "index it = index it' \<Longrightarrow> hash_it_search hash it = hash_it_search hash it'"
proof (induction hash it arbitrary: it' rule: hash_it_search.induct)
  case (1 hash it)
  have "hash_it_search hash (it\<lparr>index := index it + 1\<rparr>) = hash_it_search hash (it'\<lparr>index := index it' + 1\<rparr>)"
    if "index it < table_size hash" "slot_head hash (index it) = Some None"
    using that 1 by (metis hash_it_t.select_convs(1) hash_it_t.surjective hash_it_t.update_convs(1))
  then show ?case
    using 1(2) by (subst (1 2) hash_it_search.simps) (cases it; cases it'; auto split: option.splits bind_splits)
qed

text \<open>What the iterator finds next in the rest of its chain.\<close>

lemma hash_iterate_next:
  assumes "i < length (table hash)" "distinct (map fst (concat (table hash)))"
    and "table hash ! i = as @ (a, d) # bs" "it_after i as ((a, d) # bs) it"
  shows "\<exists>it'. hash_iterate hash (Some it) = Some (Some it') \<and> it_at i as a it'"
proof -
  from assms(4) consider
    (kept) xs b e where "as = xs @ [(b, e)]" "it_at i xs b it" |
    (removed) b where "b \<notin> fst ` set (as @ (a, d) # bs)" "it_at i as b it"
    unfolding it_after_def by blast
  then show ?thesis
  proof cases
    case kept
    then have b: "next_cell hash b = Some (Some a)"
      using assms(3) next_cell_at [OF assms(1,2), of xs b e "(a, d) # bs"] by simp
    have "hash_it_repair hash it = Some (Inr it)"
    proof (cases xs rule: rev_cases)
      case Nil
      with kept show ?thesis using assms(1,3)
        by (simp add: hash_it_repair_def it_at_def slot_head_def)
    next
      case (snoc ys q)
      obtain p pd where "q = (p, pd)" by fastforce
      with snoc kept show ?thesis
        using assms(3) next_cell_at [OF assms(1,2), of ys p pd "(b, e) # (a, d) # bs"]
        by (simp add: hash_it_repair_def it_at_def)
    qed
    with b kept show ?thesis by (simp add: hash_iterate_def it_at_def)
  next
    case removed
    then have ab: "a \<noteq> b" by auto
    show ?thesis
    proof (cases as rule: rev_cases)
      case Nil
      with removed ab show ?thesis using assms(1,3)
        by (simp add: hash_iterate_def hash_it_repair_def it_at_def slot_head_def)
    next
      case (snoc ys q)
      obtain p pd where "q = (p, pd)" by fastforce
      with snoc removed ab show ?thesis
        using assms(3) next_cell_at [OF assms(1,2), of ys p pd "(a, d) # bs"]
        by (simp add: hash_iterate_def hash_it_repair_def it_at_def)
    qed
  qed
qed

lemma hash_iterate_end:
  assumes "i < length (table hash)" "distinct (map fst (concat (table hash)))"
    and "table hash ! i = as" "it_after i as [] it"
  shows "hash_iterate hash (Some it) = hash_it_search hash (hash_it_new\<lparr>index := int i + 1\<rparr>)"
proof -
  have srch: "hash_it_search hash (it'\<lparr>index := int i + 1\<rparr>) = hash_it_search hash (hash_it_new\<lparr>index := int i + 1\<rparr>)" for it'
    by (rule hash_it_search_fields) simp
  from assms(4) consider
    (kept) xs b e where "as = xs @ [(b, e)]" "it_at i xs b it" |
    (removed) b where "b \<notin> fst ` set as" "it_at i as b it"
    unfolding it_after_def by auto
  then show ?thesis
  proof cases
    case kept
    then have b: "next_cell hash b = Some None"
      using assms(3) next_cell_at [OF assms(1,2), of xs b e "[]"] by simp
    have "hash_it_repair hash it = Some (Inr it)"
    proof (cases xs rule: rev_cases)
      case Nil
      with kept show ?thesis using assms(1,3)
        by (simp add: hash_it_repair_def it_at_def slot_head_def)
    next
      case (snoc ys q)
      obtain p pd where "q = (p, pd)" by fastforce
      with snoc kept show ?thesis
        using assms(3) next_cell_at [OF assms(1,2), of ys p pd "[(b, e)]"]
        by (simp add: hash_it_repair_def it_at_def)
    qed
    with b kept show ?thesis using srch [of it] by (simp add: hash_iterate_def it_at_def)
  next
    case removed
    show ?thesis
    proof (cases as rule: rev_cases)
      case Nil
      with removed show ?thesis using assms(1,3) srch [of "it\<lparr>bucket := None\<rparr>"]
        by (simp add: hash_iterate_def hash_it_repair_def it_at_def slot_head_def)
    next
      case (snoc ys q)
      obtain p pd where "q = (p, pd)" by fastforce
      with snoc removed show ?thesis
        using assms(3) next_cell_at [OF assms(1,2), of ys p pd "[]"] srch [of "it\<lparr>bucket := Some p\<rparr>"]
        by (simp add: hash_iterate_def hash_it_repair_def it_at_def)
    qed
  qed
qed

lemma hash_it_search_empty:
  assumes "index it = int i" "i < length (table hash)" "length (table hash) = nat (table_size hash)" "table hash ! i = []"
  shows "hash_it_search hash it = hash_it_search hash (hash_it_new\<lparr>index := int i + 1\<rparr>)"
  using assms by (subst hash_it_search.simps) (auto simp: slot_head_def intro!: hash_it_search_fields)

lemma hash_it_search_found:
  assumes "index it = int i" "i < length (table hash)" "length (table hash) = nat (table_size hash)"
    "table hash ! i = (a, d) # bs"
  shows "\<exists>it'. hash_it_search hash it = Some (Some it') \<and> it_at i [] a it'"
  using assms by (subst hash_it_search.simps) (auto simp: slot_head_def it_at_def)

lemma hash_it_search_end:
  assumes "index it = int (length (table hash))" "length (table hash) = nat (table_size hash)"
  shows "hash_it_search hash it = Some None"
  using assms by (subst hash_it_search.simps) auto


text \<open>A table with other chains and the count of elements that goes with them.\<close>

definition set_table :: "('d, 'k) hashtable_t \<Rightarrow> 'd chain list \<Rightarrow> ('d, 'k) hashtable_t" where
  "set_table hash t = hash\<lparr>table := t,
     elements := elements hash - int (length (concat (table hash))) + int (length (concat t))\<rparr>"

definition hash_visit ::
    "('d \<Rightarrow> 's \<Rightarrow> (bool \<times> 's) option) \<Rightarrow> ('d, 'k) hashtable_t \<Rightarrow> 's \<Rightarrow> hash_it_t option \<Rightarrow>
     (('d, 'k) hashtable_t \<times> 's) option" where
  "hash_visit body hash s iter =
     (case iter of
        None \<Rightarrow> Some (hash, s)
      | Some it \<Rightarrow> do {
          b \<leftarrow> bucket it;
          data \<leftarrow> cell_data hash b;
          (remove, s) \<leftarrow> body data s;
          hash \<leftarrow> (if remove then map_option snd (hash_remove_bucket hash it) else Some hash);
          hash_loop body hash (Some it) s
        })"

lemma set_table_simps [simp]:
  "table (set_table hash t) = t" "table_size (set_table hash t) = table_size hash"
  "compare_cb (set_table hash t) = compare_cb hash" "choose_cb (set_table hash t) = choose_cb hash"
  "set_table (set_table hash t) t' = set_table hash t'" "set_table hash (table hash) = hash"
  by (simp_all add: set_table_def)

lemma hash_loop_visit:
  "hash_loop body hash hashit s = Option.bind (hash_iterate hash hashit) (hash_visit body hash s)"
  by (subst hash_loop.simps) (simp add: hash_visit_def [abs_def])

text \<open>Tables whose chains do not share buckets, with the declared number of slots.\<close>

definition table_ok :: "('d, 'k) hashtable_t \<Rightarrow> bool" where
  "table_ok hash \<longleftrightarrow> length (table hash) = nat (table_size hash) \<and> distinct (map fst (concat (table hash)))"

lemma hash_visit_at:
  assumes "table hash = pre @ (as @ (a, d) # bs) # cs" "table_ok hash" "it_at (length pre) as a it"
  shows "hash_visit body hash s (Some it) = do {
      (remove, s) \<leftarrow> body d s;
      hash_loop body (if remove then set_table hash (pre @ (as @ bs) # cs) else hash) (Some it) s
    }"
proof -
  have i: "length pre < length (table hash)" "table hash ! length pre = as @ (a, d) # bs"
    "distinct (map fst (concat (table hash)))"
    using assms(1,2) by (simp_all add: table_ok_def)
  have "cell_data hash a = Some d"
    using locate_cell_at [OF i(1,3,2)] by (simp add: cell_data_def)
  moreover have "hash_remove_bucket hash it = Some (d, set_table hash (pre @ (as @ bs) # cs))"
    using hash_remove_bucket_eq [OF i(1,3,2), of it] assms(1,3)
    by (simp add: it_at_def set_table_def)
  moreover have "bucket it = Some a" using assms(3) by (simp add: it_at_def)
  ultimately show ?thesis by (auto simp: hash_visit_def intro!: bind_option_cong)
qed

lemma table_ok_remove:
  "table hash = pre @ (as @ (a, d) # bs) # cs \<Longrightarrow> table_ok hash \<Longrightarrow>
   table_ok (set_table hash (pre @ (as @ bs) # cs)) \<and> a \<notin> fst ` set (as @ bs)"
  by (auto simp: table_ok_def)

text \<open>The loop from an iterator inside a chain, given what the loop does from the next slot on.\<close>

lemma hash_loop_chain:
  fixes hash :: "('d, 'k) hashtable_t"
  assumes rest: "\<And>(hash :: ('d, 'k) hashtable_t) pre s. table hash = pre @ cs \<Longrightarrow> table_ok hash \<Longrightarrow> length pre = Suc i \<Longrightarrow>
      Option.bind (hash_it_search hash (hash_it_new\<lparr>index := int (length pre)\<rparr>)) (hash_visit body hash s) =
      do { (cs', s) \<leftarrow> sweep_table body cs s; Some (set_table hash (pre @ cs'), s) }"
    and "table hash = pre @ (as @ bs) # cs" "table_ok hash" "length pre = i" "it_after i as bs it"
  shows "hash_loop body hash (Some it) s = do {
      (bs', s) \<leftarrow> sweep_chain body bs s;
      (cs', s) \<leftarrow> sweep_table body cs s;
      Some (set_table hash (pre @ (as @ bs') # cs'), s)
    }"
  using assms(2-)
proof (induction bs arbitrary: hash as it s)
  case Nil
  have "hash_iterate hash (Some it) = hash_it_search hash (hash_it_new\<lparr>index := int i + 1\<rparr>)"
    using Nil.prems by (intro hash_iterate_end) (auto simp: table_ok_def)
  then show ?case
    using rest [of hash "pre @ [as]" s] Nil.prems by (simp add: hash_loop_visit add.commute)
next
  case (Cons c bs)
  obtain a d where c: "c = (a, d)" by fastforce
  have "\<exists>it'. hash_iterate hash (Some it) = Some (Some it') \<and> it_at i as a it'"
    using Cons.prems c by (intro hash_iterate_next [of _ _ _ _ d bs]) (auto simp: table_ok_def)
  then obtain it' where it': "hash_iterate hash (Some it) = Some (Some it')" "it_at i as a it'" by blast
  have kept: "hash_loop body hash (Some it') s' = do {
      (bs', s) \<leftarrow> sweep_chain body bs s'; (cs', s) \<leftarrow> sweep_table body cs s;
      Some (set_table hash (pre @ (as @ (a, d) # bs') # cs'), s) }" for s'
    using Cons.IH [of hash "as @ [(a, d)]" it' s'] Cons.prems it'(2) c by (auto simp: it_after_def)
  have removed: "hash_loop body (set_table hash (pre @ (as @ bs) # cs)) (Some it') s' = do {
      (bs', s) \<leftarrow> sweep_chain body bs s'; (cs', s) \<leftarrow> sweep_table body cs s;
      Some (set_table hash (pre @ (as @ bs') # cs'), s) }" for s'
    using Cons.IH [of "set_table hash (pre @ (as @ bs) # cs)" as it' s'] Cons.prems it'(2) c
      table_ok_remove [of hash pre as a d bs cs] by (auto simp: it_after_def)
  have "hash_loop body hash (Some it) s = hash_visit body hash s (Some it')"
    using it'(1) by (simp add: hash_loop_visit)
  also have "\<dots> = do {
      (remove, s) \<leftarrow> body d s;
      hash_loop body (if remove then set_table hash (pre @ (as @ bs) # cs) else hash) (Some it') s }"
    using Cons.prems it'(2) c by (intro hash_visit_at) auto
  also have "\<dots> = do {
      (remove, s) \<leftarrow> body d s; (bs', s) \<leftarrow> sweep_chain body bs s; (cs', s) \<leftarrow> sweep_table body cs s;
      Some (set_table hash (pre @ (as @ (if remove then bs' else (a, d) # bs')) # cs'), s) }"
    by (auto simp: kept removed intro!: bind_option_cong split: if_splits)
  finally show ?case by (simp add: c split_def bind_assoc)
qed

lemma hash_loop_search:
  fixes hash :: "('d, 'k) hashtable_t"
  shows "table hash = pre @ cs \<Longrightarrow> table_ok hash \<Longrightarrow>
   Option.bind (hash_it_search hash (hash_it_new\<lparr>index := int (length pre)\<rparr>)) (hash_visit body hash s) =
   do { (cs', s) \<leftarrow> sweep_table body cs s; Some (set_table hash (pre @ cs'), s) }"
proof (induction cs arbitrary: hash pre s)
  case Nil
  then show ?case using hash_it_search_end [of "hash_it_new\<lparr>index := int (length pre)\<rparr>" hash]
    by (simp add: table_ok_def hash_visit_def) (metis set_table_simps(6) Nil.prems(1) append_Nil2)
next
  case (Cons c cs)
  show ?case
  proof (cases c)
    case Nil
    then show ?thesis
      using Cons.IH [of hash "pre @ [[]]" s] Cons.prems
        hash_it_search_empty [of "hash_it_new\<lparr>index := int (length pre)\<rparr>" "length pre" hash]
      by (simp add: table_ok_def add.commute split_def)
  next
    case (Cons q bs)
    obtain a d where q: "q = (a, d)" by fastforce
    have tab: "table hash = pre @ ([] @ (a, d) # bs) # cs" using Cons.prems(1) Cons q by simp
    obtain it where it: "hash_it_search hash (hash_it_new\<lparr>index := int (length pre)\<rparr>) = Some (Some it)"
        "it_at (length pre) ([] :: 'd chain) a it"
      using hash_it_search_found [of "hash_it_new\<lparr>index := int (length pre)\<rparr>" "length pre" hash a d bs] tab
        Cons.prems(2) by (auto simp: table_ok_def)
    note chain = hash_loop_chain [of cs "length pre", OF Cons.IH]
    have kept: "hash_loop body hash (Some it) s' = do {
        (bs', s) \<leftarrow> sweep_chain body bs s'; (cs', s) \<leftarrow> sweep_table body cs s;
        Some (set_table hash (pre @ ((a, d) # bs') # cs'), s) }" for s'
      using chain [of hash pre "[(a, d)]" bs it s'] tab Cons.prems(2) it(2) by (auto simp: it_after_def)
    have removed: "hash_loop body (set_table hash (pre @ bs # cs)) (Some it) s' = do {
        (bs', s) \<leftarrow> sweep_chain body bs s'; (cs', s) \<leftarrow> sweep_table body cs s;
        Some (set_table hash (pre @ bs' # cs'), s) }" for s'
      using chain [of "set_table hash (pre @ bs # cs)" pre "[]" bs it s'] tab Cons.prems(2) it(2)
        table_ok_remove [OF tab] by (auto simp: it_after_def)
    have "hash_visit body hash s (Some it) = do {
        (remove, s) \<leftarrow> body d s; (bs', s) \<leftarrow> sweep_chain body bs s; (cs', s) \<leftarrow> sweep_table body cs s;
        Some (set_table hash (pre @ (if remove then bs' else (a, d) # bs') # cs'), s) }"
      using hash_visit_at [OF tab Cons.prems(2) it(2), of body s]
      by (auto simp: kept removed intro!: bind_option_cong split: if_splits)
    with it(1) Cons q show ?thesis by (simp add: split_def bind_assoc)
  qed
qed

lemma hash_loop_sweep:
  assumes "table_ok hash"
  shows "hash_loop body hash None s = do {
    (t, s) \<leftarrow> sweep_table body (table hash) s; Some (set_table hash t, s) }"
proof -
  have "hash_iterate hash None = hash_it_search hash (hash_it_new\<lparr>index := int 0\<rparr>)"
    by (simp add: hash_iterate_def hash_it_repair_def hash_it_new_def)
  then show ?thesis using hash_loop_search [of hash "[]" "table hash" body s] assms
    by (simp add: hash_loop_visit)
qed

section \<open>Printing a table\<close>

text \<open>\<open>hash_debug\<close> prints a line for every slot, with the addresses of its buckets.\<close>

definition hash_debug :: "('d, 'k) hashtable_t \<Rightarrow> (int \<times> nat list) list option" where
  "hash_debug hash = those (map (\<lambda>i. map_option (\<lambda>bs. (i, map fst bs)) (array_get (table hash) i)) [0 .. table_size hash - 1])"

lemma those_Some: "(\<And>x. x \<in> set xs \<Longrightarrow> f x = Some (g x)) \<Longrightarrow> those (map f xs) = Some (map g xs)"
  by (induction xs) auto

lemma hash_debug_lines:
  assumes "hash_ok key hash"
  shows "\<exists>rows. hash_debug hash = Some rows \<and> map fst rows = [0 .. table_size hash - 1] \<and>
    concat (map snd rows) = map fst (concat (table hash)) \<and> distinct (concat (map snd rows)) \<and>
    int (length (concat (map snd rows))) = elements hash"
proof -
  have ok: "0 < table_size hash" "length (table hash) = nat (table_size hash)" "distinct (map fst (concat (table hash)))"
      "elements hash = int (length (concat (table hash)))"
    using assms by (simp_all add: hash_ok_def hash_entries_def)
  let ?rows = "map (\<lambda>i. (i, map fst (table hash ! nat i))) [0 .. table_size hash - 1]"
  have rows: "hash_debug hash = Some ?rows" unfolding hash_debug_def by (rule those_Some) (use ok(1,2) in simp)
  have "map (\<lambda>i. table hash ! nat i) [0 .. table_size hash - 1] = table hash"
    using ok(1,2) by (intro nth_equalityI) simp_all
  moreover have "map snd ?rows = map (map fst) (map (\<lambda>i. table hash ! nat i) [0 .. table_size hash - 1])" by simp
  ultimately have "map snd ?rows = map (map fst) (table hash)" by simp
  then have "concat (map snd ?rows) = map fst (concat (table hash))" by (simp only: map_concat)
  with rows show ?thesis using ok(3,4) by (intro exI [of _ ?rows]) (simp only: length_map, simp add: comp_def)
qed

section \<open>Growing a table\<close>

lemma hash_new_ok: "0 < sz \<Longrightarrow> hash_ok key (hash_new sz cmp chs)"
  by (auto simp: hash_ok_def hash_new_def hash_init_def hash_entries_def)

lemma hash_new_simps [simp]:
  "hash_entries (hash_new sz cmp chs) = []" "concat (table (hash_new sz cmp chs)) = []"
  "table_size (hash_new sz cmp chs) = sz"
  by (auto simp: hash_new_def hash_init_def hash_entries_def)

lemma hash_map_determined:
  assumes "hash_ok key h" "hash_ok key h'" "set (hash_entries h) = set (hash_entries h')"
  shows "hash_map key h = hash_map key h'"
proof
  fix k
  show "hash_map key h k = hash_map key h' k"
    using assms by (intro option_eqI) (simp add: hash_map_Some)
qed

context hash_keys
begin

lemma new_uses [simp]: "uses (hash_new sz cmp chs)"
  by (simp add: uses_def hash_new_def hash_init_def)

lemma add_all:
  assumes "hash_ok key hash" "uses hash" "distinct (map key ds)"
    and "key ` set ds \<inter> key ` set (hash_entries hash) = {}"
    and "fst ` set (concat (table hash)) \<inter> {cell ..< cell + length ds} = {}"
  shows "\<exists>hash'. hash_add_all key cell hash ds = Some hash' \<and> hash_ok key hash' \<and> uses hash' \<and>
    table_size hash' = table_size hash \<and>
    set (hash_entries hash') = set (hash_entries hash) \<union> set ds \<and>
    fst ` set (concat (table hash')) = fst ` set (concat (table hash)) \<union> {cell ..< cell + length ds}"
  using assms
proof (induction ds arbitrary: cell hash)
  case (Cons d ds)
  have "cell \<in> {cell ..< cell + length (d # ds)}" by simp
  then have "cell \<notin> fst ` set (concat (table hash))" using Cons.prems(5) by blast
  moreover have "hash_map key hash (key d) = None" using Cons.prems(4) by (simp add: hash_map_def find_None)
  ultimately obtain h where h: "hash_add key cell hash d = Some (0, h)" "hash_ok key h" "uses h"
      "table_size h = table_size hash" "set (hash_entries h) = insert d (set (hash_entries hash))"
      "fst ` set (concat (table h)) = insert cell (fst ` set (concat (table hash)))"
    using add_is_update [OF Cons.prems(1,2)] by metis
  have "fst ` set (concat (table h)) \<inter> {Suc cell ..< Suc cell + length ds} = {}"
    unfolding h(6) using Cons.prems(5) by (simp del: set_concat) fastforce
  moreover have "key ` set ds \<inter> key ` set (hash_entries h) = {}"
    using Cons.prems(3,4) by (auto simp: h(5))
  ultimately obtain h' where h': "hash_add_all key (Suc cell) h ds = Some h'" "hash_ok key h'" "uses h'"
      "table_size h' = table_size h" "set (hash_entries h') = set (hash_entries h) \<union> set ds"
      "fst ` set (concat (table h')) = fst ` set (concat (table h)) \<union> {Suc cell ..< Suc cell + length ds}"
    using Cons.IH [OF h(2,3), of "Suc cell"] Cons.prems(3) by auto
  have "{cell ..< cell + length (d # ds)} = insert cell {Suc cell ..< Suc cell + length ds}" by auto
  with h h' show ?case by (simp add: insert_commute)
qed simp

lemma resize_same:
  assumes "hash_ok key hash" "uses hash" "0 < sz"
  shows "\<exists>hash'. hash_resize key cell hash sz = Some hash' \<and> hash_ok key hash' \<and> uses hash' \<and>
    table_size hash' = sz \<and> hash_map key hash' = hash_map key hash \<and>
    set (hash_entries hash') = set (hash_entries hash) \<and>
    fst ` set (concat (table hash')) = {cell ..< cell + length (hash_entries hash)}"
proof -
  have ent: "concat (map (map snd) (table hash)) = hash_entries hash"
    by (simp add: hash_entries_def map_concat)
  have "distinct (map key (hash_entries hash))" using assms(1) by (simp add: hash_ok_def)
  then obtain h where h: "hash_add_all key cell (hash_new sz cmp chs) (hash_entries hash) = Some h"
      "hash_ok key h" "uses h" "table_size h = sz" "set (hash_entries h) = set (hash_entries hash)"
      "fst ` set (concat (table h)) = {cell ..< cell + length (hash_entries hash)}"
    using add_all [OF hash_new_ok [OF assms(3)] new_uses, of key "hash_entries hash" cell] by auto
  have "hash_resize key cell hash sz = Some h"
    using h(1) assms(2) by (simp add: hash_resize_def uses_def ent)
  moreover have "hash_map key h = hash_map key hash"
    using hash_map_determined [OF h(2) assms(1) h(5)] .
  ultimately show ?thesis using h by blast
qed

end

lemma hash_map_cong:
  "(\<And>d. d \<in> set (hash_entries hash) \<Longrightarrow> key d = key' d) \<Longrightarrow> hash_map key hash = hash_map key' hash"
  by (rule ext) (auto simp: hash_map_def intro: find_cong)

lemma hash_ok_cong:
  assumes "\<And>d. d \<in> set (hash_entries hash) \<Longrightarrow> key d = key' d"
  shows "hash_ok key hash = hash_ok key' hash"
proof -
  have "map key (hash_entries hash) = map key' (hash_entries hash)" using assms by simp
  moreover have "key d = key' d" if "i < length (table hash)" "d \<in> snd ` set (table hash ! i)" for i d
  proof (rule assms)
    have "table hash ! i \<in> set (table hash)" using that by simp
    then show "d \<in> set (hash_entries hash)" using that(2) by (auto simp: hash_entries_def)
  qed
  ultimately show ?thesis unfolding hash_ok_def by metis
qed

lemma sweep_chain_filter:
  "sweep_chain (\<lambda>d seen. Some (P d, seen @ [d])) c s = Some (filter (\<lambda>(a, d). \<not> P d) c, s @ map snd c)"
  by (induction c arbitrary: s) auto

lemma sweep_table_filter:
  "sweep_table (\<lambda>d seen. Some (P d, seen @ [d])) t s =
     Some (map (filter (\<lambda>(a, d). \<not> P d)) t, s @ map snd (concat t))"
  by (induction t arbitrary: s) (auto simp: sweep_chain_filter)

text \<open>A table from which the data that satisfy a predicate were taken out.\<close>

definition without :: "('d \<Rightarrow> bool) \<Rightarrow> ('d, 'k) hashtable_t \<Rightarrow> ('d, 'k) hashtable_t" where
  "without P hash = set_table hash (map (filter (\<lambda>(a, d). \<not> P d)) (table hash))"

lemma concat_without [simp]: "concat (table (without P hash)) = filter (\<lambda>(a, d). \<not> P d) (concat (table hash))"
  by (simp add: without_def filter_concat)

lemma entries_without [simp]: "hash_entries (without P hash) = filter (\<lambda>d. \<not> P d) (hash_entries hash)"
  by (simp add: hash_entries_def filter_map o_def split_def)

lemma without_simps [simp]:
  "table_size (without P hash) = table_size hash" "compare_cb (without P hash) = compare_cb hash"
  "choose_cb (without P hash) = choose_cb hash"
  by (simp_all add: without_def set_table_def)

lemma without_ok:
  assumes "hash_ok key hash"
  shows "hash_ok key (without P hash)"
proof -
  have "elements (without P hash) = int (length (hash_entries (without P hash)))"
    using assms by (simp add: hash_ok_def set_table_def without_def hash_entries_def)
  moreover have "distinct (map fst (concat (table (without P hash))))" "distinct (map key (hash_entries (without P hash)))"
    using assms unfolding concat_without entries_without by (simp_all add: hash_ok_def distinct_map_filter)
  moreover have "\<forall>i < length (table (without P hash)). \<forall>d \<in> snd ` set (table (without P hash) ! i).
      choose_cb (without P hash) (key d) (table_size (without P hash)) = int i"
    using assms by (fastforce simp: hash_ok_def without_def)
  ultimately show ?thesis using assms by (simp add: hash_ok_def without_def)
qed

text \<open>A loop that removes some data, with an invariant on what was visited so far.\<close>

lemma sweep_chain_inv:
  assumes "\<And>D d s. d \<in> snd ` set c \<Longrightarrow> d \<notin> D \<Longrightarrow> I D s \<Longrightarrow> \<exists>s'. body d s = Some (P d, s') \<and> I (insert d D) s'"
    and "distinct (map snd c)" "snd ` set c \<inter> D = {}" "I D s"
  shows "\<exists>s'. sweep_chain body c s = Some (filter (\<lambda>(a, d). \<not> P d) c, s') \<and> I (D \<union> snd ` set c) s'"
  using assms
proof (induction c arbitrary: D s)
  case (Cons b c)
  obtain a d where b: "b = (a, d)" by fastforce
  obtain s1 where s1: "body d s = Some (P d, s1)" "I (insert d D) s1" using Cons.prems(1) [of d D s] Cons.prems(3,4) b by auto
  have "\<exists>s'. sweep_chain body c s1 = Some (filter (\<lambda>(a, d). \<not> P d) c, s') \<and> I (insert d D \<union> snd ` set c) s'"
    by (rule Cons.IH [OF _ _ _ s1(2)]) (use Cons.prems b in auto)
  then obtain s' where "sweep_chain body c s1 = Some (filter (\<lambda>(a, d). \<not> P d) c, s')" "I (insert d D \<union> snd ` set c) s'" by blast
  with s1(1) b show ?case by simp
qed simp

lemma sweep_table_inv:
  assumes "\<And>D d s. d \<in> snd ` set (concat t) \<Longrightarrow> d \<notin> D \<Longrightarrow> I D s \<Longrightarrow> \<exists>s'. body d s = Some (P d, s') \<and> I (insert d D) s'"
    and "distinct (map snd (concat t))" "snd ` set (concat t) \<inter> D = {}" "I D s"
  shows "\<exists>s'. sweep_table body t s = Some (map (filter (\<lambda>(a, d). \<not> P d)) t, s') \<and> I (D \<union> snd ` set (concat t)) s'"
  using assms
proof (induction t arbitrary: D s)
  case (Cons c t)
  have step: "\<exists>s'. body d s = Some (P d, s') \<and> I (insert d D) s'" if "d \<in> snd ` set c \<or> d \<in> snd ` set (concat t)" "d \<notin> D" "I D s" for D d s
    by (rule Cons.prems(1) [OF _ that(2,3)]) (use that(1) in auto)
  have c: "\<exists>s'. sweep_chain body c s = Some (filter (\<lambda>(a, d). \<not> P d) c, s') \<and> I (D \<union> snd ` set c) s'"
    by (rule sweep_chain_inv [where I = I and D = D]) (use Cons.prems(2-4) step in auto)
  then obtain s1 where s1: "sweep_chain body c s = Some (filter (\<lambda>(a, d). \<not> P d) c, s1)" "I (D \<union> snd ` set c) s1" by blast
  have "\<exists>s'. sweep_table body t s1 = Some (map (filter (\<lambda>(a, d). \<not> P d)) t, s') \<and> I (D \<union> snd ` set c \<union> snd ` set (concat t)) s'"
  proof (rule Cons.IH [OF _ _ _ s1(2)])
    show "distinct (map snd (concat t))" using Cons.prems(2) by simp
    show "snd ` set (concat t) \<inter> (D \<union> snd ` set c) = {}" using Cons.prems(2,3) by auto
  qed (use step in blast)
  then obtain s' where "sweep_table body t s1 = Some (map (filter (\<lambda>(a, d). \<not> P d)) t, s')"
      "I (D \<union> snd ` set c \<union> snd ` set (concat t)) s'" by blast
  moreover have "D \<union> snd ` set c \<union> snd ` set (concat t) = D \<union> snd ` set (concat (c # t))" by auto
  ultimately show ?case using s1(1) by (simp del: set_concat)
qed simp

lemma hash_loop_inv:
  assumes "hash_ok key hash" "I {} s"
    and "\<And>D d s. d \<in> set (hash_entries hash) \<Longrightarrow> d \<notin> D \<Longrightarrow> I D s \<Longrightarrow> \<exists>s'. body d s = Some (P d, s') \<and> I (insert d D) s'"
  shows "\<exists>s'. hash_loop body hash None s = Some (without P hash, s') \<and> I (set (hash_entries hash)) s'"
proof -
  have ent: "set (hash_entries hash) = snd ` set (concat (table hash))" by (simp add: hash_entries_def del: set_concat)
  have "distinct (map key (hash_entries hash))" using assms(1) by (simp add: hash_ok_def)
  then have "distinct (map snd (concat (table hash)))" unfolding hash_entries_def [symmetric] by (simp add: distinct_map)
  moreover have "table_ok hash" using assms(1) by (simp add: hash_ok_def table_ok_def)
  ultimately show ?thesis
    using sweep_table_inv [of "table hash" I body P "{}" s, OF assms(3) [unfolded ent]] assms(2)
    by (auto simp: hash_loop_sweep without_def ent simp del: set_concat)
qed

text \<open>
  C28: a client loop \<open>while (NULL != (hashit = hash_iterate(hash, hashit)))\<close> that removes the
  current bucket with \<open>hash_remove_bucket\<close> whenever \<open>P\<close> holds of its data returns, has visited
  every element of the table exactly once and in table order, and leaves a well-formed table with
  exactly the elements that do not satisfy \<open>P\<close>.
\<close>

lemma hash_loop_visits_once:
  assumes "hash_ok key hash"
  shows "\<exists>hash'. hash_loop (\<lambda>d seen. Some (P d, seen @ [d])) hash None [] = Some (hash', hash_entries hash) \<and>
    hash_ok key hash' \<and> hash_entries hash' = filter (\<lambda>d. \<not> P d) (hash_entries hash)"
proof -
  have "table_ok hash" using assms by (simp add: hash_ok_def table_ok_def)
  then have "hash_loop (\<lambda>d seen. Some (P d, seen @ [d])) hash None [] = Some (without P hash, hash_entries hash)"
    by (simp add: hash_loop_sweep sweep_table_filter without_def hash_entries_def)
  with without_ok [OF assms, of P] show ?thesis by auto
qed

definition example_hash :: "(nat, nat) hashtable_t" where
  "example_hash = \<lparr>table = [[(10, 4), (11, 2)], [(12, 7)]], elements = 3, table_size = 2,
     compare_cb = (\<lambda>a b. int a - int b), choose_cb = (\<lambda>k n. int k mod n)\<rparr>"

theorem hash_loop_visits_once_witness:
  "\<exists>hash'. hash_loop (\<lambda>d seen. Some (even d, seen @ [d])) example_hash None [] = Some (hash', [4, 2, 7]) \<and>
    hash_ok id hash' \<and> hash_entries hash' = [7]"
proof -
  have "hash_ok id example_hash"
    by (auto simp: hash_ok_def example_hash_def hash_entries_def less_Suc_eq)
  from hash_loop_visits_once [OF this, of even] show ?thesis
    by (simp add: example_hash_def hash_entries_def)
qed

end
