(* ===== verification/Packet.thy ===== *)
theory Packet
  imports Bat_Prelude
begin

text \<open>
  The packet formats of \<open>src/packet.h\<close> and \<open>src/vis-types.h\<close>: one record per packed structure,
  and its layout in memory. The daemon overlays these structures on the bytes it reads from and
  writes to the raw sockets, so the layout is the wire format. The order of the two bytes of a
  \<open>uint16_t\<close> is the one of the host (\<open>le\<close> says that it is little endian); \<open>htons\<close> turns it
  into the network order.
\<close>

definition ETH_P_BATMAN :: u16 where "ETH_P_BATMAN = 0x4305"
definition BAT_PACKET :: u8 where "BAT_PACKET = 1"
definition BAT_ICMP :: u8 where "BAT_ICMP = 2"
definition BAT_UNICAST :: u8 where "BAT_UNICAST = 3"
definition BAT_BCAST :: u8 where "BAT_BCAST = 4"
definition COMPAT_VERSION :: u8 where "COMPAT_VERSION = 6"
definition ECHO_REPLY :: u8 where "ECHO_REPLY = 0"
definition DESTINATION_UNREACHABLE :: u8 where "DESTINATION_UNREACHABLE = 3"
definition ECHO_REQUEST :: u8 where "ECHO_REQUEST = 8"
definition TTL_EXCEEDED :: u8 where "TTL_EXCEEDED = 11"
definition DIRECTLINK :: u8 where "DIRECTLINK = 0x40"

record batman_packet =
  packet_type :: u8
  version :: u8
  flags :: u8
  ttl :: u8
  gwflags :: u8
  tq :: u8
  seqno :: u16
  orig :: mac
  old_orig :: mac
  num_hna :: u8
  pad :: u8

record icmp_packet =
  icmp_packet_type :: u8
  icmp_version :: u8
  msg_type :: u8
  dst :: mac
  icmp_orig :: mac
  icmp_ttl :: u8
  uid :: u8
  icmp_seqno :: u16

record unicast_packet =
  unicast_packet_type :: u8
  unicast_version :: u8
  dest :: mac
  unicast_ttl :: u8

record bcast_packet =
  bcast_packet_type :: u8
  bcast_version :: u8
  bcast_orig :: mac
  bcast_packet_seqno :: u16

record vis_packet =
  gw_class :: u8
  seq_range :: u8
  vis_pad :: "u8 \<times> u8"
  vis_version :: u8
  sender_mac :: mac

record vis_data =
  vis_type :: u8
  vis_value :: u8
  vis_mac :: mac

definition DATA_TYPE_NEIGH :: u8 where "DATA_TYPE_NEIGH = 1"
definition DATA_TYPE_SEC_IF :: u8 where "DATA_TYPE_SEC_IF = 2"
definition DATA_TYPE_HNA :: u8 where "DATA_TYPE_HNA = 3"

section \<open>Layout\<close>

definition lo_byte :: "u16 \<Rightarrow> u8" where "lo_byte v = ucast v"
definition hi_byte :: "u16 \<Rightarrow> u8" where "hi_byte v = ucast (drop_bit 8 v)"
definition u16_of :: "u8 \<Rightarrow> u8 \<Rightarrow> u16" where "u16_of hi lo = push_bit 8 (ucast hi) OR ucast lo"

definition u16_bytes :: "bool \<Rightarrow> u16 \<Rightarrow> u8 list" where
  "u16_bytes le v = (if le then [lo_byte v, hi_byte v] else [hi_byte v, lo_byte v])"

definition u16_read :: "bool \<Rightarrow> u8 \<Rightarrow> u8 \<Rightarrow> u16" where
  "u16_read le a b = (if le then u16_of b a else u16_of a b)"

definition htons :: "bool \<Rightarrow> u16 \<Rightarrow> u16" where
  "htons le v = (if le then u16_of (lo_byte v) (hi_byte v) else v)"

definition bytes_of_batman_packet :: "bool \<Rightarrow> batman_packet \<Rightarrow> u8 list" where
  "bytes_of_batman_packet le p =
     [packet_type p, version p, flags p, ttl p, gwflags p, tq p] @ u16_bytes le (seqno p) @
     mac_bytes (orig p) @ mac_bytes (old_orig p) @ [num_hna p, pad p]"

fun batman_packet_at :: "bool \<Rightarrow> u8 list \<Rightarrow> (batman_packet \<times> u8 list) option" where
  "batman_packet_at le
     (t # v # f # l # g # q # s0 # s1 # a # b # c # d # e # h # a' # b' # c' # d' # e' # h' # n # p # rest) =
     Some (\<lparr>packet_type = t, version = v, flags = f, ttl = l, gwflags = g, tq = q,
       seqno = u16_read le s0 s1, orig = MAC a b c d e h, old_orig = MAC a' b' c' d' e' h',
       num_hna = n, pad = p\<rparr>, rest)"
| "batman_packet_at le _ = None"

definition bytes_of_icmp_packet :: "bool \<Rightarrow> icmp_packet \<Rightarrow> u8 list" where
  "bytes_of_icmp_packet le p =
     [icmp_packet_type p, icmp_version p, msg_type p] @ mac_bytes (dst p) @ mac_bytes (icmp_orig p) @
     [icmp_ttl p, uid p] @ u16_bytes le (icmp_seqno p)"

fun icmp_packet_at :: "bool \<Rightarrow> u8 list \<Rightarrow> (icmp_packet \<times> u8 list) option" where
  "icmp_packet_at le
     (t # v # m # a # b # c # d # e # h # a' # b' # c' # d' # e' # h' # l # u # s0 # s1 # rest) =
     Some (\<lparr>icmp_packet_type = t, icmp_version = v, msg_type = m, dst = MAC a b c d e h,
       icmp_orig = MAC a' b' c' d' e' h', icmp_ttl = l, uid = u, icmp_seqno = u16_read le s0 s1\<rparr>, rest)"
| "icmp_packet_at le _ = None"

definition bytes_of_unicast_packet :: "unicast_packet \<Rightarrow> u8 list" where
  "bytes_of_unicast_packet p =
     [unicast_packet_type p, unicast_version p] @ mac_bytes (dest p) @ [unicast_ttl p]"

fun unicast_packet_at :: "u8 list \<Rightarrow> (unicast_packet \<times> u8 list) option" where
  "unicast_packet_at (t # v # a # b # c # d # e # h # l # rest) =
     Some (\<lparr>unicast_packet_type = t, unicast_version = v, dest = MAC a b c d e h, unicast_ttl = l\<rparr>, rest)"
| "unicast_packet_at _ = None"

definition bytes_of_bcast_packet :: "bool \<Rightarrow> bcast_packet \<Rightarrow> u8 list" where
  "bytes_of_bcast_packet le p =
     [bcast_packet_type p, bcast_version p] @ mac_bytes (bcast_orig p) @ u16_bytes le (bcast_packet_seqno p)"

fun bcast_packet_at :: "bool \<Rightarrow> u8 list \<Rightarrow> (bcast_packet \<times> u8 list) option" where
  "bcast_packet_at le (t # v # a # b # c # d # e # h # s0 # s1 # rest) =
     Some (\<lparr>bcast_packet_type = t, bcast_version = v, bcast_orig = MAC a b c d e h,
       bcast_packet_seqno = u16_read le s0 s1\<rparr>, rest)"
| "bcast_packet_at le _ = None"

definition bytes_of_vis_packet :: "vis_packet \<Rightarrow> u8 list" where
  "bytes_of_vis_packet p =
     [gw_class p, seq_range p, fst (vis_pad p), snd (vis_pad p), vis_version p] @ mac_bytes (sender_mac p)"

definition bytes_of_vis_data :: "vis_data \<Rightarrow> u8 list" where
  "bytes_of_vis_data d = [vis_type d, vis_value d] @ mac_bytes (vis_mac d)"

text \<open>\<open>sizeof\<close> of the packed structures and of \<open>struct ether_header\<close>.\<close>

definition sizeof_batman_packet :: int where "sizeof_batman_packet = 22"
definition sizeof_icmp_packet :: int where "sizeof_icmp_packet = 19"
definition sizeof_unicast_packet :: int where "sizeof_unicast_packet = 9"
definition sizeof_bcast_packet :: int where "sizeof_bcast_packet = 10"
definition sizeof_vis_packet :: int where "sizeof_vis_packet = 11"
definition sizeof_vis_data :: int where "sizeof_vis_data = 8"
definition sizeof_ether_header :: int where "sizeof_ether_header = 14"

definition BATMAN_MAXPACKETSIZE :: int where
  "BATMAN_MAXPACKETSIZE =
     (if sizeof_unicast_packet > sizeof_bcast_packet then sizeof_unicast_packet else sizeof_bcast_packet)"

definition BATMAN_MAXFRAMESIZE :: int where
  "BATMAN_MAXFRAMESIZE = sizeof_ether_header + BATMAN_MAXPACKETSIZE"

section \<open>Bytes of a 16 bit number\<close>

lemma u16_of_bytes [simp]: "u16_of (hi_byte v) (lo_byte v) = v"
proof (rule bit_word_eqI)
  fix n assume "n < LENGTH(16)"
  then have n: "n < 16" by simp
  have "bit (u16_of (hi_byte v) (lo_byte v)) n =
      ((8 \<le> n \<and> bit v (n - 8 + 8) \<and> n - 8 < 8) \<or> (n < 8 \<and> bit v n))"
    using n by (auto simp: u16_of_def hi_byte_def lo_byte_def bit_or_iff bit_push_bit_iff bit_ucast_iff
        bit_drop_bit_eq add.commute)
  also have "\<dots> = bit v n" using n by (cases "n < 8") auto
  finally show "bit (u16_of (hi_byte v) (lo_byte v)) n = bit v n" .
qed

lemma hi_byte_of [simp]: "hi_byte (u16_of a b) = a"
  by (rule bit_word_eqI)
    (auto simp: u16_of_def hi_byte_def bit_or_iff bit_push_bit_iff bit_ucast_iff bit_drop_bit_eq
      dest: bit_imp_le_length)

lemma lo_byte_of [simp]: "lo_byte (u16_of a b) = b"
  by (rule bit_word_eqI)
    (auto simp: u16_of_def lo_byte_def bit_or_iff bit_push_bit_iff bit_ucast_iff dest: bit_imp_le_length)

lemma u16_bytes_cases:
  "u16_bytes le v = [a, b] \<Longrightarrow> u16_read le a b = v"
  by (auto simp: u16_bytes_def u16_read_def split: if_splits)

lemma htons_htons [simp]: "htons le (htons le v) = v"
  by (simp add: htons_def)

lemma u16_bytes_htons [simp]: "u16_bytes le (htons le v) = [hi_byte v, lo_byte v]"
  by (simp add: u16_bytes_def htons_def)

lemma u16_bytes_pair: "\<exists>a b. u16_bytes le v = [a, b] \<and> u16_read le a b = v"
  by (auto simp: u16_bytes_def u16_read_def)

lemma batman_packet_at_bytes [simp]:
  "batman_packet_at le (bytes_of_batman_packet le p @ rest) = Some (p, rest)"
  using u16_bytes_pair [of le "seqno p"]
  by (cases "orig p"; cases "old_orig p") (auto simp: bytes_of_batman_packet_def)

lemma icmp_packet_at_bytes [simp]:
  "icmp_packet_at le (bytes_of_icmp_packet le p @ rest) = Some (p, rest)"
  using u16_bytes_pair [of le "icmp_seqno p"]
  by (cases "dst p"; cases "icmp_orig p") (auto simp: bytes_of_icmp_packet_def)

lemma unicast_packet_at_bytes [simp]:
  "unicast_packet_at (bytes_of_unicast_packet p @ rest) = Some (p, rest)"
  by (cases "dest p") (auto simp: bytes_of_unicast_packet_def)

lemma bcast_packet_at_bytes [simp]:
  "bcast_packet_at le (bytes_of_bcast_packet le p @ rest) = Some (p, rest)"
  using u16_bytes_pair [of le "bcast_packet_seqno p"]
  by (cases "bcast_orig p") (auto simp: bytes_of_bcast_packet_def)

lemma length_u16_bytes [simp]: "length (u16_bytes le v) = 2"
  by (simp add: u16_bytes_def)

lemma packet_lengths [simp]:
  "length (bytes_of_batman_packet le p) = 22" "length (bytes_of_icmp_packet le i) = 19"
  "length (bytes_of_unicast_packet u) = 9" "length (bytes_of_bcast_packet le b) = 10"
  by (simp_all add: bytes_of_batman_packet_def bytes_of_icmp_packet_def bytes_of_unicast_packet_def
      bytes_of_bcast_packet_def)

text \<open>
  A sender that runs \<open>htons\<close> on the sequence number and a receiver that runs \<open>ntohs\<close> on it agree,
  whatever the byte orders of the two hosts are.
\<close>

lemma bytes_network_order:
  "bytes_of_batman_packet le (p\<lparr>seqno := htons le (seqno p)\<rparr>) =
   bytes_of_batman_packet le' (p\<lparr>seqno := htons le' (seqno p)\<rparr>)"
  by (simp add: bytes_of_batman_packet_def)

text \<open>The sizes that the length checks of the receive path use are those of the structures.\<close>

lemma packet_sizes:
  "int (length (bytes_of_batman_packet le p)) = sizeof_batman_packet" "int (length (bytes_of_icmp_packet le i)) = sizeof_icmp_packet"
  "int (length (bytes_of_unicast_packet u)) = sizeof_unicast_packet" "int (length (bytes_of_bcast_packet le b)) = sizeof_bcast_packet"
  by (simp_all add: sizeof_batman_packet_def sizeof_icmp_packet_def sizeof_unicast_packet_def sizeof_bcast_packet_def)

section \<open>Byte orders\<close>

text \<open>
  An originator message whose sequence number the sender puts through \<open>htons\<close> is read back
  unchanged by a receiver that puts it through \<open>ntohs\<close>, for every combination of byte orders.
\<close>

theorem ogm_seqno_network_order:
  "\<exists>q. batman_packet_at le' (bytes_of_batman_packet le (p\<lparr>seqno := htons le (seqno p)\<rparr>) @ rest) = Some (q, rest) \<and>
     q\<lparr>seqno := htons le' (seqno q)\<rparr> = p"
proof (intro exI conjI)
  show "batman_packet_at le' (bytes_of_batman_packet le (p\<lparr>seqno := htons le (seqno p)\<rparr>) @ rest) =
      Some (p\<lparr>seqno := htons le' (seqno p)\<rparr>, rest)"
    unfolding bytes_network_order [of le p le'] by simp
qed simp

end
