(* ===== verification/Bat_State.thy ===== *)
theory Bat_State
  imports Packet Bitarray Ring_Buffer Hash
begin

text \<open>
  The data of the daemon: the structures of \<open>src/batman-adv.h\<close> and \<open>src/trans_table.h\<close> as
  records, its global variables as one record, and the services of the operating system it uses.

  Structures that are allocated and shared by pointers live in partial maps from addresses to
  records, one per structure type. Reading or writing an address that is not in its map (a null
  pointer, a freed object) is undefined behaviour, and the value of the operation is
  \<^term>\<open>None\<close>. Addresses are handed out in increasing order and never again, so a pointer to a
  freed object never points to a younger one by accident.

  The lists of \<open>list-batman.h\<close> and \<open>dlist.h\<close> are lists of addresses (the theory of the pointer
  level of the former proves that its operations implement these lists). The daemon is compiled
  for an ILP32 target: \<open>TYPE_OF_WORD\<close> has 32 bits and a window has two words.

  The clock, the random numbers, the frames that are read from the tap interface and from the raw
  sockets and the results of the writes to the raw sockets are functions that give the answer to
  the first, second, \<dots> request, together with the number of requests so far. What was written is
  in the lists \<open>sent\<close> (raw sockets), \<open>tap_written\<close> and \<open>unix_written\<close>, the latest first.
  \<open>unix_packet\<close> gives the socket of the client with a number.
\<close>

definition JITTER :: int where "JITTER = 100"
definition TTL :: u8 where "TTL = 50"
definition PURGE_TIMEOUT :: u32 where "PURGE_TIMEOUT = 200000"
definition TQ_MAX_VALUE :: int where "TQ_MAX_VALUE = 255"
definition TQ_LOCAL_BIDRECT_SEND_MINIMUM :: int where "TQ_LOCAL_BIDRECT_SEND_MINIMUM = 1"
definition TQ_LOCAL_BIDRECT_RECV_MINIMUM :: int where "TQ_LOCAL_BIDRECT_RECV_MINIMUM = 1"
definition TQ_TOTAL_BIDRECT_LIMIT :: int where "TQ_TOTAL_BIDRECT_LIMIT = 1"
definition TQ_HOP_PENALTY :: int where "TQ_HOP_PENALTY = 10"
definition PACKETS_PER_CYCLE :: nat where "PACKETS_PER_CYCLE = 10"
definition AGE_THRESHOLD :: u32 where "AGE_THRESHOLD = 3600000"
definition VIS_COMPAT_VERSION :: u8 where "VIS_COMPAT_VERSION = 128 OR 20"

definition broadcastAddr :: mac where
  "broadcastAddr = MAC 0xff 0xff 0xff 0xff 0xff 0xff"

definition gw2string :: "string list" where
  "gw2string =
     [''No Gateway'', ''56 KBit (e.g. Modem)'', ''64 KBit (e.g. ISDN)'', ''128 KBit (e.g. double ISDN)'',
      ''256 KBit'', ''512 KBit (e.g. UMTS)'', ''1 MBit'', ''2 MBit'', ''3 MBit'', ''5 MBit'', ''6 MBit'',
      ''>6 MBit'']"

section \<open>Structures\<close>

text \<open>\<open>struct orig_node\<close>. \<open>hna_list\<close> is its list of translation table elements.\<close>

record orig_node =
  o_orig :: mac
  router :: "nat option"
  o_batman_if :: "nat option"
  o_last_valid :: u32
  last_seqno :: u16
  last_bcast_seqno :: u16
  o_num_hna :: int
  o_hna_buff :: "nat option"
  o_hna_list :: "nat list"
  hna_buff_len :: int
  neigh_list :: "nat list"
  o_gwflags :: u8
  bcast_own :: "u32 list"
  bcast_own_sum :: "u8 list"
  tq_own :: u8
  tq_asym_penalty :: int
  last_real_seqno :: u16
  o_last_ttl :: u8
  seq_bits :: "u32 list"

record neigh_node =
  n_addr :: mac
  real_packet_count :: u8
  tq_recv :: "u8 list"
  tq_index :: u8
  tq_avg :: u8
  n_last_ttl :: u8
  n_last_valid :: u32
  real_bits :: "u32 list"
  n_orig_node :: nat
  n_if_incoming :: nat

text \<open>
  \<open>struct forw_node\<close>. The bytes of \<open>pack_buff\<close> are a batman packet (in host byte order) and what
  follows it.
\<close>

record forw_node =
  send_time :: u32
  own :: bool
  pack_head :: batman_packet
  pack_tail :: "u8 list"
  if_outgoing :: "nat option"

record gw_node =
  gw_orig_node :: nat
  unavail_factor :: u16
  last_failure :: u32
  deleted :: u32

record batman_if =
  raw_sock :: int
  if_num :: int
  hw_addr :: mac
  bcast_seqno :: u16
  out :: batman_packet

text \<open>
  \<open>struct trans_element_t\<close>. \<open>list_link\<close> says in which list the element is linked: in none (it
  points to itself after \<open>INIT_DLIST_HEAD\<close>), in the list of the local hosts, in the list of an
  originator, or unlinked with null pointers after \<open>dlist_del\<close>.
\<close>

datatype dlink = Self_linked | In_hna_list | In_orig_list nat | Null_linked

record trans_element_t =
  te_mac :: mac
  te_batman_mac :: mac
  te_age :: u32
  list_link :: dlink

text \<open>Results of a write to a raw socket: success, \<open>EAGAIN\<close> or \<open>ESPIPE\<close>, another error.\<close>

datatype write_result = Written | Try_again | Write_error

record frame =
  f_sock :: int
  f_shost :: mac
  f_dhost :: mac
  f_bytes :: "u8 list"

text \<open>
  Results of reading from the tap interface and from a raw socket. The kernel hands out complete
  ethernet frames: destination, source and what follows them.
\<close>

datatype tap_read = Tap_frame mac mac "u8 list" | Tap_blocked | Tap_espipe | Tap_error

datatype raw_read = Raw_frame mac mac "u8 list" | Raw_blocked | Raw_error

section \<open>Global variables\<close>

record bat_state =
  clock :: "nat \<Rightarrow> u32"
  ticks :: nat
  rands :: "nat \<Rightarrow> nat"
  rolls :: nat
  writes :: "nat \<Rightarrow> write_result"
  written :: nat
  sent :: "frame list"
  tap_reads :: "nat \<Rightarrow> tap_read"
  tap_pos :: nat
  tap_written :: "u8 list list"
  raw_reads :: "int \<Rightarrow> nat \<Rightarrow> raw_read"
  raw_pos :: "int \<Rightarrow> nat"
  unix_packet :: "u8 \<Rightarrow> int option"
  unix_written :: "(int \<times> u8 list) list"
  little_endian :: bool
  brk :: nat
  originator_interval :: int
  gateway_class :: u8
  found_ifs :: u8
  tap_mtu :: int
  curr_time :: u32
  if_heap :: "nat \<rightharpoonup> batman_if"
  if_list :: "nat list"
  orig_heap :: "nat \<rightharpoonup> orig_node"
  neigh_heap :: "nat \<rightharpoonup> neigh_node"
  elem_heap :: "nat \<rightharpoonup> trans_element_t"
  buf_heap :: "nat \<rightharpoonup> u8 list"
  orig_hash :: "(nat, mac) hashtable_t"
  trans_hash :: "(nat, mac) hashtable_t"
  forw_list :: "(nat \<times> forw_node) list"
  gw_list :: "gw_node list"
  hna_changed :: bool
  g_num_hna :: u32
  g_hna_buff :: "u8 list"
  hna_list :: "nat list"
  vis_packet_buff :: "u8 list option"
  vis_packet_size :: u16

section \<open>Access\<close>

definition put_orig :: "nat \<Rightarrow> orig_node \<Rightarrow> bat_state \<Rightarrow> bat_state" where
  "put_orig p n s = s\<lparr>orig_heap := (orig_heap s)(p \<mapsto> n)\<rparr>"

definition put_neigh :: "nat \<Rightarrow> neigh_node \<Rightarrow> bat_state \<Rightarrow> bat_state" where
  "put_neigh p n s = s\<lparr>neigh_heap := (neigh_heap s)(p \<mapsto> n)\<rparr>"

definition put_elem :: "nat \<Rightarrow> trans_element_t \<Rightarrow> bat_state \<Rightarrow> bat_state" where
  "put_elem p n s = s\<lparr>elem_heap := (elem_heap s)(p \<mapsto> n)\<rparr>"

definition put_if :: "nat \<Rightarrow> batman_if \<Rightarrow> bat_state \<Rightarrow> bat_state" where
  "put_if p n s = s\<lparr>if_heap := (if_heap s)(p \<mapsto> n)\<rparr>"

text \<open>The keys that the callbacks of the two hash tables read through the data pointers.\<close>

definition orig_key :: "bat_state \<Rightarrow> nat \<Rightarrow> mac" where
  "orig_key s p = o_orig (the (orig_heap s p))"

definition elem_key :: "bat_state \<Rightarrow> nat \<Rightarrow> mac" where
  "elem_key s p = te_mac (the (elem_heap s p))"

text \<open>\<open>get_time\<close> and \<open>rand_num\<close> of \<open>src/posix.c\<close> over the answers of \<open>times\<close> and \<open>rand\<close>.\<close>

definition get_time :: "bat_state \<Rightarrow> u32 \<times> bat_state" where
  "get_time s = (clock s (ticks s), s\<lparr>ticks := Suc (ticks s)\<rparr>)"

definition rand_num :: "int \<Rightarrow> bat_state \<Rightarrow> int \<times> bat_state" where
  "rand_num limit s =
     (if limit = 0 then (0, s) else (int (rands s (rolls s)) mod limit, s\<lparr>rolls := Suc (rolls s)\<rparr>))"

text \<open>The window of an interface in \<open>bcast_own\<close>: \<open>NUM_WORDS\<close> words from \<open>if_num * NUM_WORDS\<close>.\<close>

definition window_get :: "u32 list \<Rightarrow> int \<Rightarrow> u32 list option" where
  "window_get ws n =
     (let off = n * NUM_WORDS TYPE(32) in
      if 0 \<le> off \<and> off + NUM_WORDS TYPE(32) \<le> int (length ws)
      then Some (take (nat (NUM_WORDS TYPE(32))) (drop (nat off) ws)) else None)"

definition window_put :: "u32 list \<Rightarrow> int \<Rightarrow> u32 list \<Rightarrow> u32 list" where
  "window_put ws n bs =
     (let off = nat (n * NUM_WORDS TYPE(32)) in take off ws @ bs @ drop (off + length bs) ws)"

text \<open>\<open>is_my_mac\<close> of \<open>src/batman-adv.c\<close>.\<close>

fun is_my_mac_in :: "(nat \<rightharpoonup> batman_if) \<Rightarrow> nat list \<Rightarrow> mac \<Rightarrow> bool option" where
  "is_my_mac_in ifs [] addr = Some False"
| "is_my_mac_in ifs (p # ps) addr = do {
     batman_if \<leftarrow> ifs p;
     if memcmp (mac_bytes (hw_addr batman_if)) (mac_bytes addr) = 0 then Some True
     else is_my_mac_in ifs ps addr
   }"

definition is_my_mac :: "mac \<Rightarrow> bat_state \<Rightarrow> bool option" where
  "is_my_mac addr s = is_my_mac_in (if_heap s) (if_list s) addr"

text \<open>The first interface, \<open>(struct batman_if *)if_list.next\<close>.\<close>

definition first_if :: "bat_state \<Rightarrow> (nat \<times> batman_if) option" where
  "first_if s = (case if_list s of [] \<Rightarrow> None | p # _ \<Rightarrow> map_option (\<lambda>i. (p, i)) (if_heap s p))"

section \<open>Facts\<close>

named_theorems state_simps \<open>reading fields of an updated state\<close>

lemmas put_defs = put_orig_def put_neigh_def put_elem_def put_if_def

lemma mac_compare [simp]: "memcmp (mac_bytes a) (mac_bytes b) = 0 \<longleftrightarrow> a = b"
  by (simp add: memcmp_0_iff)

lemma get_time_simps [simp]:
  "fst (get_time s) = clock s (ticks s)" "snd (get_time s) = s\<lparr>ticks := Suc (ticks s)\<rparr>"
  by (simp_all add: get_time_def)

lemma rand_num_bounds: "0 < limit \<Longrightarrow> 0 \<le> fst (rand_num limit s) \<and> fst (rand_num limit s) < limit"
  by (simp add: rand_num_def)

lemma window_get_Some:
  "window_get ws n = Some bs \<Longrightarrow>
     0 \<le> n \<and> 2 * n + 2 \<le> int (length ws) \<and> length bs = 2 \<and> bs = take 2 (drop (2 * nat n) ws)"
  by (auto simp: window_get_def Let_def nat_mult_distrib mult.commute split: if_splits)

lemma window_get_in: "0 \<le> n \<Longrightarrow> 2 * n + 2 \<le> int (length ws) \<Longrightarrow>
   window_get ws n = Some (take 2 (drop (2 * nat n) ws))"
  by (auto simp: window_get_def Let_def nat_mult_distrib mult.commute)

lemma length_window_put [simp]:
  "0 \<le> n \<Longrightarrow> 2 * n + 2 \<le> int (length ws) \<Longrightarrow> length bs = 2 \<Longrightarrow> length (window_put ws n bs) = length ws"
  by (auto simp: window_put_def Let_def)

lemma window_get_put:
  assumes "0 \<le> n" "2 * n + 2 \<le> int (length ws)" "length bs = 2"
  shows "window_get (window_put ws n bs) n = Some bs"
proof -
  have "length (window_put ws n bs) = length ws" using assms by simp
  then have "window_get (window_put ws n bs) n = Some (take 2 (drop (2 * nat n) (window_put ws n bs)))"
    using assms by (intro window_get_in) simp_all
  also have "take 2 (drop (2 * nat n) (window_put ws n bs)) = bs"
    using assms by (simp add: window_put_def Let_def nat_mult_distrib mult.commute)
  finally show ?thesis .
qed

lemma is_my_mac_in_eq:
  assumes "\<And>p. p \<in> set ps \<Longrightarrow> ifs p \<noteq> None"
  shows "is_my_mac_in ifs ps addr = Some (\<exists>p\<in>set ps. hw_addr (the (ifs p)) = addr)"
  using assms
proof (induction ps)
  case (Cons p ps)
  then obtain i where "ifs p = Some i" by force
  with Cons show ?case by auto
qed simp

end
