(* ===== verification/Originator.thy ===== *)
theory Originator
  imports Bat_State
begin

text \<open>
  The table of originators of \<open>src/originator.c\<close>: the callbacks \<open>compare_orig\<close> and
  \<open>choose_orig\<close> of the hash tables, looking up and creating originators and their neighbours.
  The invariant \<open>origs_ok\<close> says that the table is a well-formed map from addresses to live
  originators that is at most a quarter full.
\<close>

section \<open>Operations\<close>

definition compare_orig :: "mac \<Rightarrow> mac \<Rightarrow> int" where
  "compare_orig data1 data2 = memcmp (mac_bytes data1) (mac_bytes data2)"

definition choose_step :: "u8 \<Rightarrow> u32 \<Rightarrow> u32" where
  "choose_step key hash =
     (let hash = hash + ucast key;
          hash = hash + push_bit 10 hash
      in hash XOR drop_bit 6 hash)"

text \<open>The sizes of the tables are positive, so \<open>hash % size\<close> is the remainder of the naturals.\<close>

definition choose_orig :: "mac \<Rightarrow> int \<Rightarrow> int" where
  "choose_orig data sz =
     (let hash = fold choose_step (mac_bytes data) 0;
          hash = hash + push_bit 3 hash;
          hash = hash XOR drop_bit 11 hash;
          hash = hash + push_bit 15 hash
      in uint hash mod sz)"

definition find_orig_node :: "mac \<Rightarrow> bat_state \<Rightarrow> nat option option" where
  "find_orig_node addr s = hash_find (orig_key s) (orig_hash s) addr"

text \<open>A zeroed \<open>struct orig_node\<close> and \<open>struct neigh_node\<close>, as initialised by the code.\<close>

definition new_orig_node :: "mac \<Rightarrow> u8 \<Rightarrow> orig_node" where
  "new_orig_node addr ifs =
     \<lparr>o_orig = addr, router = None, o_batman_if = None, o_last_valid = 0, last_seqno = 0,
      last_bcast_seqno = 0, o_num_hna = 0, o_hna_buff = None, o_hna_list = [], hna_buff_len = 0,
      neigh_list = [], o_gwflags = 0, bcast_own = replicate (unat ifs * nat (NUM_WORDS TYPE(32))) 0,
      bcast_own_sum = replicate (unat ifs) 0, tq_own = 0, tq_asym_penalty = 0, last_real_seqno = 0,
      o_last_ttl = 0, seq_bits = replicate (nat (NUM_WORDS TYPE(32))) 0\<rparr>"

definition new_neigh_node :: "mac \<Rightarrow> nat \<Rightarrow> nat \<Rightarrow> neigh_node" where
  "new_neigh_node neigh orig_neigh_node if_incoming =
     \<lparr>n_addr = neigh, real_packet_count = 0, tq_recv = replicate (nat TQ_GLOBAL_WINDOW_SIZE) 0,
      tq_index = 0, tq_avg = 0, n_last_ttl = 0, n_last_valid = 0,
      real_bits = replicate (nat (NUM_WORDS TYPE(32))) 0, n_orig_node = orig_neigh_node,
      n_if_incoming = if_incoming\<rparr>"

definition get_orig_node :: "mac \<Rightarrow> bat_state \<Rightarrow> (nat \<times> bat_state) option" where
  "get_orig_node addr s = do {
     found \<leftarrow> find_orig_node addr s;
     (case found of
        Some orig_node \<Rightarrow> Some (orig_node, s)
      | None \<Rightarrow> do {
          let orig_node = brk s;
          let s = (put_orig orig_node (new_orig_node addr (found_ifs s)) s)\<lparr>brk := Suc (brk s)\<rparr>;
          (r, h) \<leftarrow> hash_add (orig_key s) (brk s) (orig_hash s) orig_node;
          let s = s\<lparr>orig_hash := h, brk := Suc (brk s)\<rparr>;
          if elements h * 4 > table_size h then do {
            swaphash \<leftarrow> hash_resize (orig_key s) (brk s) h (table_size h * 2);
            Some (orig_node, s\<lparr>orig_hash := swaphash, brk := brk s + nat (elements h)\<rparr>)
          } else Some (orig_node, s)
        })
   }"

definition create_neighbor ::
    "nat \<Rightarrow> nat \<Rightarrow> mac \<Rightarrow> nat \<Rightarrow> bat_state \<Rightarrow> (nat \<times> bat_state) option" where
  "create_neighbor orig_node orig_neigh_node neigh if_incoming s = do {
     let neigh_node = brk s;
     let s = (put_neigh neigh_node (new_neigh_node neigh orig_neigh_node if_incoming) s)\<lparr>brk := Suc (brk s)\<rparr>;
     n \<leftarrow> orig_heap s orig_node;
     Some (neigh_node, put_orig orig_node (n\<lparr>neigh_list := neigh_list n @ [neigh_node]\<rparr>) s)
   }"

text \<open>
  The loop with which \<open>isBidirectionalNeigh\<close> and \<open>update_orig\<close> look for the neighbour with an
  address and an interface: the last one in the list.
\<close>

fun find_neigh :: "bat_state \<Rightarrow> mac \<Rightarrow> nat \<Rightarrow> nat list \<Rightarrow> nat option \<Rightarrow> nat option option" where
  "find_neigh s addr if_incoming [] found = Some found"
| "find_neigh s addr if_incoming (p # ps) found = do {
     n \<leftarrow> neigh_heap s p;
     find_neigh s addr if_incoming ps
       (if compare_orig (n_addr n) addr = 0 \<and> n_if_incoming n = if_incoming then Some p else found)
   }"

section \<open>The hash tables keyed by MAC addresses\<close>

lemma compare_orig_0 [simp]: "compare_orig a b = 0 \<longleftrightarrow> a = b"
  by (simp add: compare_orig_def)

lemma choose_orig_range: "0 < n \<Longrightarrow> 0 \<le> choose_orig k n \<and> choose_orig k n < n"
  by (simp add: choose_orig_def Let_def)

interpretation mac_table: hash_keys compare_orig choose_orig
  by unfold_locales (simp_all add: choose_orig_range)

text \<open>Tables with the callbacks of \<open>originator.c\<close>, and a bound for the addresses in them.\<close>

definition mac_hash_ok :: "(nat \<Rightarrow> mac) \<Rightarrow> nat \<Rightarrow> (nat, mac) hashtable_t \<Rightarrow> bool" where
  "mac_hash_ok key bound hash \<longleftrightarrow>
     hash_ok key hash \<and> compare_cb hash = compare_orig \<and> choose_cb hash = choose_orig \<and>
     (\<forall>c \<in> fst ` set (concat (table hash)). c < bound) \<and> (\<forall>p \<in> set (hash_entries hash). p < bound)"

definition origs_ok :: "bat_state \<Rightarrow> bool" where
  "origs_ok s \<longleftrightarrow>
     mac_hash_ok (orig_key s) (brk s) (orig_hash s) \<and>
     (\<forall>p \<in> set (hash_entries (orig_hash s)). orig_heap s p \<noteq> None) \<and>
     (\<forall>p. orig_heap s p \<noteq> None \<longrightarrow> p < brk s) \<and>
     4 \<le> table_size (orig_hash s) \<and> elements (orig_hash s) * 4 \<le> table_size (orig_hash s)"

text \<open>The originators as a map from addresses to pointers.\<close>

definition orig_map :: "bat_state \<Rightarrow> mac \<rightharpoonup> nat" where
  "orig_map s = hash_map (orig_key s) (orig_hash s)"

lemma mac_table_uses: "mac_table.uses hash \<longleftrightarrow> compare_cb hash = compare_orig \<and> choose_cb hash = choose_orig"
  by (simp add: mac_table.uses_def)

lemma mac_hash_find:
  "mac_hash_ok key b hash \<Longrightarrow> hash_find key hash k = Some (hash_map key hash k)"
  by (rule mac_table.find_is_map) (simp_all add: mac_hash_ok_def mac_table_uses)

lemma mac_hash_add:
  assumes "mac_hash_ok key b hash" "b \<le> cell" "d < b" "hash_map key hash (key d) = None"
  shows "\<exists>hash'. hash_add key cell hash d = Some (0, hash') \<and> mac_hash_ok key (Suc cell) hash' \<and>
    table_size hash' = table_size hash \<and> elements hash' = elements hash + 1 \<and>
    hash_map key hash' = (hash_map key hash)(key d \<mapsto> d) \<and>
    set (hash_entries hash') = insert d (set (hash_entries hash))"
proof -
  have ok: "hash_ok key hash" "mac_table.uses hash" and fresh: "cell \<notin> fst ` set (concat (table hash))"
    using assms(1,2) by (force simp: mac_hash_ok_def mac_table_uses)+
  obtain h where h: "hash_add key cell hash d = Some (0, h)" "hash_ok key h" "mac_table.uses h"
      "table_size h = table_size hash" "hash_map key h = (hash_map key hash)(key d \<mapsto> d)"
      "set (hash_entries h) = insert d (set (hash_entries hash))"
      "fst ` set (concat (table h)) = insert cell (fst ` set (concat (table hash)))"
    using mac_table.add_is_update [OF ok fresh assms(4)] by blast
  have "elements h = elements hash + 1"
    using h(1) by (auto simp: hash_add_def Let_def split: option.splits bind_splits)
  moreover have "mac_hash_ok key (Suc cell) h"
    unfolding mac_hash_ok_def h(6,7) using h(2,3) assms(1-3)
    by (auto simp: mac_hash_ok_def mac_table_uses less_Suc_eq simp del: set_concat)
  ultimately show ?thesis using h by blast
qed

lemma mac_hash_resize:
  assumes "mac_hash_ok key b hash" "b \<le> cell" "0 < sz"
  shows "\<exists>hash'. hash_resize key cell hash sz = Some hash' \<and>
    mac_hash_ok key (cell + nat (elements hash)) hash' \<and>
    table_size hash' = sz \<and> elements hash' = elements hash \<and> hash_map key hash' = hash_map key hash \<and>
    set (hash_entries hash') = set (hash_entries hash)"
proof -
  have ok: "hash_ok key hash" "mac_table.uses hash" using assms(1) by (simp_all add: mac_hash_ok_def mac_table_uses)
  obtain h where h: "hash_resize key cell hash sz = Some h" "hash_ok key h" "mac_table.uses h" "table_size h = sz"
      "hash_map key h = hash_map key hash" "set (hash_entries h) = set (hash_entries hash)"
      "fst ` set (concat (table h)) = {cell ..< cell + length (hash_entries hash)}"
    using mac_table.resize_same [OF ok assms(3)] by blast
  have len: "nat (elements hash) = length (hash_entries hash)" "elements hash = int (length (hash_entries hash))"
    "elements h = int (length (hash_entries h))"
    using ok(1) h(2) by (simp_all add: hash_ok_def)
  have "distinct (hash_entries h)" "distinct (hash_entries hash)"
    using h(2) ok(1) by (auto simp: hash_ok_def distinct_map)
  then have "length (hash_entries h) = length (hash_entries hash)"
    using h(6) by (metis distinct_card)
  then have "elements h = elements hash" using len by simp
  moreover have "mac_hash_ok key (cell + nat (elements hash)) h"
    unfolding mac_hash_ok_def h(6,7) len(1) using h(2,3) assms(1,2)
    by (auto simp: mac_hash_ok_def mac_table_uses simp del: set_concat)
  ultimately show ?thesis using h by blast
qed

lemma mac_hash_ok_cong:
  "(\<And>d. d \<in> set (hash_entries hash) \<Longrightarrow> key d = key' d) \<Longrightarrow> mac_hash_ok key b hash = mac_hash_ok key' b hash"
  unfolding mac_hash_ok_def using hash_ok_cong [of hash key key'] by simp

lemma mac_hash_ok_mono: "mac_hash_ok key b hash \<Longrightarrow> b \<le> b' \<Longrightarrow> mac_hash_ok key b' hash"
  by (auto simp: mac_hash_ok_def intro: less_le_trans)

lemma mac_hash_remove:
  assumes "mac_hash_ok key b hash"
  shows "\<exists>hash'. hash_remove key hash k = Some (hash_map key hash k, hash') \<and> mac_hash_ok key b hash' \<and>
    table_size hash' = table_size hash \<and> hash_map key hash' = (hash_map key hash)(k := None) \<and>
    set (hash_entries hash') = {d \<in> set (hash_entries hash). key d \<noteq> k}"
proof -
  have ok: "hash_ok key hash" "mac_table.uses hash" using assms by (simp_all add: mac_hash_ok_def mac_table_uses)
  obtain h where h: "hash_remove key hash k = Some (hash_map key hash k, h)" "hash_ok key h" "mac_table.uses h"
      "table_size h = table_size hash" "hash_map key h = (hash_map key hash)(k := None)"
      "set (hash_entries h) = {d \<in> set (hash_entries hash). key d \<noteq> k}"
      "fst ` set (concat (table h)) \<subseteq> fst ` set (concat (table hash))"
    using mac_table.remove_is_delete [OF ok] by blast
  then have "mac_hash_ok key b h"
    using assms unfolding mac_hash_ok_def mac_table_uses by blast
  with h show ?thesis by blast
qed

text \<open>Allocating an originator at the next free address does not disturb the table.\<close>

lemma orig_key_put_fresh:
  "p \<noteq> q \<Longrightarrow> orig_key (put_orig p n s) q = orig_key s q"
  by (simp add: orig_key_def put_orig_def)

lemma orig_key_simps [simp]:
  "orig_key (put_orig p n s) p = o_orig n"
  "orig_key (s\<lparr>orig_hash := h\<rparr>) = orig_key s" "orig_key (s\<lparr>brk := b\<rparr>) = orig_key s"
  by (auto simp: orig_key_def put_orig_def)

lemma put_orig_simps [simp]:
  "orig_hash (put_orig p n s) = orig_hash s" "brk (put_orig p n s) = brk s"
  "orig_heap (put_orig p n s) = (orig_heap s)(p \<mapsto> n)"
  "neigh_heap (put_orig p n s) = neigh_heap s" "if_heap (put_orig p n s) = if_heap s"
  "if_list (put_orig p n s) = if_list s"
  by (simp_all add: put_orig_def)

lemma orig_map_Some:
  "origs_ok s \<Longrightarrow> orig_map s a = Some p \<longleftrightarrow>
     p \<in> set (hash_entries (orig_hash s)) \<and> (\<exists>n. orig_heap s p = Some n \<and> o_orig n = a)"
  by (auto simp: orig_map_def origs_ok_def mac_hash_ok_def hash_map_Some orig_key_def)

lemma find_orig_node_eq: "origs_ok s \<Longrightarrow> find_orig_node addr s = Some (orig_map s addr)"
  by (auto simp: find_orig_node_def orig_map_def origs_ok_def mac_hash_find)

lemma get_orig_node_found:
  "origs_ok s \<Longrightarrow> orig_map s addr = Some p \<Longrightarrow> get_orig_node addr s = Some (p, s)"
  by (simp add: get_orig_node_def find_orig_node_eq)

lemma get_orig_node_new:
  assumes "origs_ok s" "orig_map s addr = None"
  shows "\<exists>s'. get_orig_node addr s = Some (brk s, s') \<and> origs_ok s' \<and>
    orig_map s' = (orig_map s)(addr \<mapsto> brk s) \<and>
    (\<exists>h b. brk s < b \<and> s' = (put_orig (brk s) (new_orig_node addr (found_ifs s)) s)\<lparr>orig_hash := h, brk := b\<rparr>)"
proof -
  define p where "p = brk s"
  define s1 where "s1 = (put_orig p (new_orig_node addr (found_ifs s)) s)\<lparr>brk := Suc p\<rparr>"
  let ?H = "orig_hash s"
  have old: "mac_hash_ok (orig_key s) p ?H" "\<And>q. q \<in> set (hash_entries ?H) \<Longrightarrow> q < p"
    and sz: "4 \<le> table_size ?H" "elements ?H * 4 \<le> table_size ?H"
    using assms(1) by (simp_all add: origs_ok_def p_def mac_hash_ok_def)
  have keys: "orig_key s1 q = orig_key s q" if "q \<in> set (hash_entries ?H)" for q
    using old(2) [OF that] by (simp add: s1_def orig_key_put_fresh)
  have new: "orig_key s1 p = addr" by (simp add: s1_def new_orig_node_def)
  have "mac_hash_ok (orig_key s1) p ?H" using old(1) mac_hash_ok_cong [of ?H "orig_key s1"] keys by simp
  then have ok1: "mac_hash_ok (orig_key s1) (Suc p) ?H" by (rule mac_hash_ok_mono) simp
  have map1: "hash_map (orig_key s1) ?H = orig_map s"
    unfolding orig_map_def by (rule hash_map_cong) (simp add: keys)
  obtain h where h: "hash_add (orig_key s1) (Suc p) ?H p = Some (0, h)"
      "mac_hash_ok (orig_key s1) (Suc (Suc p)) h" "table_size h = table_size ?H"
      "elements h = elements ?H + 1" "hash_map (orig_key s1) h = (orig_map s)(addr \<mapsto> p)"
      "set (hash_entries h) = insert p (set (hash_entries ?H))"
    using mac_hash_add [OF ok1, of "Suc p" p] assms(2) by (auto simp: new map1)
  have live: "orig_heap s1 q \<noteq> None" if "q \<in> insert p (set (hash_entries ?H))" for q
    using that assms(1) by (auto simp: s1_def origs_ok_def)
  have heap: "q < Suc (Suc (p + k))" if "orig_heap s1 q \<noteq> None" for q k
    using that assms(1) by (force simp: s1_def origs_ok_def p_def less_Suc_eq split: if_splits)
  show ?thesis
  proof (cases "elements h * 4 > table_size h")
    case False
    define s' where "s' = s1\<lparr>orig_hash := h, brk := Suc (Suc p)\<rparr>"
    have "get_orig_node addr s = Some (p, s')"
      using h(1) False assms
      by (simp add: get_orig_node_def find_orig_node_eq s'_def s1_def p_def Let_def)
    moreover have "origs_ok s'"
      using h False live sz heap [where k = 0] by (auto simp: origs_ok_def s'_def)
    moreover have "orig_map s' = (orig_map s)(addr \<mapsto> p)"
      using h(5) by (simp add: orig_map_def s'_def)
    moreover have "s' = (put_orig (brk s) (new_orig_node addr (found_ifs s)) s)\<lparr>orig_hash := orig_hash s', brk := brk s'\<rparr>"
      "brk s < brk s'"
      by (simp_all add: s'_def s1_def p_def)
    ultimately show ?thesis unfolding p_def by blast
  next
    case True
    obtain h' where h': "hash_resize (orig_key s1) (Suc (Suc p)) h (table_size h * 2) = Some h'"
        "mac_hash_ok (orig_key s1) (Suc (Suc p) + nat (elements h)) h'" "table_size h' = table_size h * 2"
        "elements h' = elements h" "hash_map (orig_key s1) h' = hash_map (orig_key s1) h"
        "set (hash_entries h') = set (hash_entries h)"
      using mac_hash_resize [OF h(2), of "Suc (Suc p)" "table_size h * 2"] h(3) sz by auto
    define s' where "s' = s1\<lparr>orig_hash := h', brk := Suc (Suc p) + nat (elements h)\<rparr>"
    have "get_orig_node addr s = Some (p, s')"
      using h(1) h'(1) True assms
      by (simp add: get_orig_node_def find_orig_node_eq s'_def s1_def p_def Let_def)
    moreover have "origs_ok s'"
      using h h' live sz heap by (auto simp: origs_ok_def s'_def)
    moreover have "orig_map s' = (orig_map s)(addr \<mapsto> p)"
      using h(5) h'(5) by (simp add: orig_map_def s'_def)
    moreover have "s' = (put_orig (brk s) (new_orig_node addr (found_ifs s)) s)\<lparr>orig_hash := orig_hash s', brk := brk s'\<rparr>"
      "brk s < brk s'"
      by (simp_all add: s'_def s1_def p_def)
    ultimately show ?thesis unfolding p_def by blast
  qed
qed

section \<open>Properties\<close>

text \<open>The state in which \<open>batman\<close> starts, with an empty table of 128 slots and two interfaces.\<close>

definition example_packet :: batman_packet where
  "example_packet = \<lparr>packet_type = BAT_PACKET, version = COMPAT_VERSION, flags = 0, ttl = TTL, gwflags = 0,
     tq = 255, seqno = 1, orig = MAC 2 0 0 0 0 1, old_orig = MAC 2 0 0 0 0 1, num_hna = 0, pad = 0\<rparr>"

definition example_state :: bat_state where
  "example_state =
     \<lparr>clock = (\<lambda>_. 5000), ticks = 0, rands = (\<lambda>_. 7), rolls = 0, writes = (\<lambda>_. Written), written = 0,
      sent = [], tap_reads = (\<lambda>_. Tap_blocked), tap_pos = 0, tap_written = [],
      raw_reads = (\<lambda>_ _. Raw_blocked), raw_pos = (\<lambda>_. 0), unix_packet = (\<lambda>_. None), unix_written = [], little_endian = True, brk = 1000, originator_interval = 1000, gateway_class = 0,
      found_ifs = 2, tap_mtu = 1471, curr_time = 5000,
      if_heap = [10 \<mapsto> \<lparr>raw_sock = 3, if_num = 0, hw_addr = MAC 2 0 0 0 0 1, bcast_seqno = 1, out = example_packet\<rparr>,
                 11 \<mapsto> \<lparr>raw_sock = 4, if_num = 1, hw_addr = MAC 2 0 0 0 0 2, bcast_seqno = 1, out = example_packet\<rparr>],
      if_list = [10, 11], orig_heap = Map.empty, neigh_heap = Map.empty, elem_heap = Map.empty,
      buf_heap = Map.empty, orig_hash = hash_new 128 compare_orig choose_orig,
      trans_hash = hash_new 4096 compare_orig choose_orig, forw_list = [], gw_list = [],
      hna_changed = False, g_num_hna = 0, g_hna_buff = [], hna_list = [], vis_packet_buff = None, vis_packet_size = 0\<rparr>"

lemma hash_new_mac_ok: "0 < sz \<Longrightarrow> mac_hash_ok key b (hash_new sz compare_orig choose_orig)"
  by (simp add: mac_hash_ok_def hash_new_ok del: set_concat) (simp add: hash_new_def hash_init_def)

lemma hash_new_elements [simp]: "elements (hash_new sz cmp chs) = 0"
  by (simp add: hash_new_def hash_init_def)

lemma example_origs_ok: "origs_ok example_state"
  by (simp add: origs_ok_def example_state_def hash_new_mac_ok)

text \<open>
  C27: the hash table with the callbacks of \<open>originator.c\<close> is a map from MAC addresses. Looking up
  a key gives the entry of the map, adding an element with a new key updates it at that key and
  counts it, removing a key deletes it and returns the element, and resizing does not change it;
  the table stays well-formed.
\<close>

theorem mac_hash_refines_map:
  assumes "mac_hash_ok key b hash" "b \<le> cell" "d < b" "hash_map key hash (key d) = None" "0 < sz"
  shows "hash_find key hash k = Some (hash_map key hash k) \<and>
    (\<exists>h. hash_add key cell hash d = Some (0, h) \<and> mac_hash_ok key (Suc cell) h \<and>
       elements h = elements hash + 1 \<and> hash_map key h = (hash_map key hash)(key d \<mapsto> d)) \<and>
    (\<exists>h. hash_remove key hash k = Some (hash_map key hash k, h) \<and> mac_hash_ok key b h \<and>
       hash_map key h = (hash_map key hash)(k := None)) \<and>
    (\<exists>h. hash_resize key cell hash sz = Some h \<and> mac_hash_ok key (cell + nat (elements hash)) h \<and>
       table_size h = sz \<and> hash_map key h = hash_map key hash)"
  using mac_hash_find [OF assms(1), of k] mac_hash_add [OF assms(1-4)] mac_hash_remove [OF assms(1), of k]
    mac_hash_resize [OF assms(1,2,5)] by blast

theorem mac_hash_refines_map_witness:
  "\<exists>h. hash_add (\<lambda>_. MAC 2 0 0 0 0 9) 20 (hash_new 128 compare_orig choose_orig) (5 :: nat) = Some (0, h) \<and>
     hash_map (\<lambda>_. MAC 2 0 0 0 0 9) h = [MAC 2 0 0 0 0 9 \<mapsto> 5]"
proof -
  have "hash_map key (hash_new 128 compare_orig choose_orig) = Map.empty" for key :: "nat \<Rightarrow> mac"
    by (rule ext) (simp add: hash_map_def)
  then show ?thesis
    using mac_hash_refines_map [OF hash_new_mac_ok [of 128 "\<lambda>_. MAC 2 0 0 0 0 9" 10], of 20 5 1 "MAC 2 0 0 0 0 9"] by auto
qed

text \<open>
  C25: \<open>get_orig_node\<close> finds or creates. It always returns a live originator with the given
  address, keeps the table well-formed and at most a quarter full (so the resize happens in time),
  changes nothing when the originator was known, and otherwise allocates one zeroed node and adds
  it to the table without disturbing the entry of any other address.
\<close>

theorem get_orig_node_spec:
  assumes "origs_ok s"
  shows "\<exists>p s'. get_orig_node addr s = Some (p, s') \<and> origs_ok s' \<and>
    orig_map s' = (orig_map s)(addr \<mapsto> p) \<and> (\<exists>n. orig_heap s' p = Some n \<and> o_orig n = addr) \<and>
    (if orig_map s addr = None
     then orig_heap s p = None \<and> orig_heap s' = (orig_heap s)(p \<mapsto> new_orig_node addr (found_ifs s))
     else s' = s)"
proof (cases "orig_map s addr")
  case None
  from get_orig_node_new [OF assms this] obtain s' h b where
    s': "get_orig_node addr s = Some (brk s, s')" "origs_ok s'" "orig_map s' = (orig_map s)(addr \<mapsto> brk s)"
      "s' = (put_orig (brk s) (new_orig_node addr (found_ifs s)) s)\<lparr>orig_hash := h, brk := b\<rparr>"
    by blast
  have "orig_heap s (brk s) = None" using assms by (auto simp: origs_ok_def)
  moreover have "orig_heap s' = (orig_heap s)(brk s \<mapsto> new_orig_node addr (found_ifs s))"
    using s'(4) by simp
  moreover have "o_orig (new_orig_node addr (found_ifs s)) = addr" by (simp add: new_orig_node_def)
  ultimately show ?thesis using s'(1-3) None by auto
next
  case (Some p)
  then have "\<exists>n. orig_heap s p = Some n \<and> o_orig n = addr" using orig_map_Some [OF assms] by blast
  with Some show ?thesis using get_orig_node_found [OF assms Some] assms by (auto simp: fun_upd_idem)
qed

theorem get_orig_node_spec_witness:
  "\<exists>p s'. get_orig_node (MAC 2 0 0 0 0 9) example_state = Some (p, s') \<and>
     orig_map s' = [MAC 2 0 0 0 0 9 \<mapsto> p] \<and> orig_heap s' = [p \<mapsto> new_orig_node (MAC 2 0 0 0 0 9) 2]"
proof -
  have "orig_map example_state = Map.empty"
    by (rule ext) (simp add: orig_map_def hash_map_def example_state_def)
  then show ?thesis
    using get_orig_node_spec [OF example_origs_ok, of "MAC 2 0 0 0 0 9"]
    by (auto simp: example_state_def)
qed

end
