(* ===== verification/Trans_Table.thy ===== *)
theory Trans_Table
  imports Originator
begin

text \<open>
  The translation table of \<open>src/trans_table.c\<close>: which originator serves which payload MAC address,
  the list of the local hosts (HNA) that are announced, and the lists of the hosts that each
  originator announces.

  The functional behaviour is given by \<open>host_map\<close>, the map from payload addresses to the address
  of the originator that serves them.
\<close>

section \<open>Operations\<close>

definition bcast_addr :: mac where "bcast_addr = MAC 0xFF 0xFF 0xFF 0xFF 0xFF 0xFF"
definition zero_addr :: mac where "zero_addr = MAC 0 0 0 0 0 0"

text \<open>
  \<open>dlist_del\<close> and \<open>dlist_add\<close> on the link of an element. Unlinking writes to the neighbours in
  the list, one of which may be the head in a \<open>struct orig_node\<close>. An element that is added to a
  list is not in another one.
\<close>

definition dlist_del :: "nat \<Rightarrow> bat_state \<Rightarrow> bat_state option" where
  "dlist_del p s = do {
     elem \<leftarrow> elem_heap s p;
     let s' = put_elem p (elem\<lparr>list_link := Null_linked\<rparr>) s;
     (case list_link elem of
        Self_linked \<Rightarrow> Some s'
      | In_hna_list \<Rightarrow> Some (s'\<lparr>hna_list := filter (\<lambda>q. q \<noteq> p) (hna_list s)\<rparr>)
      | In_orig_list h \<Rightarrow> do {
          n \<leftarrow> orig_heap s h;
          Some (put_orig h (n\<lparr>o_hna_list := filter (\<lambda>q. q \<noteq> p) (o_hna_list n)\<rparr>) s')
        }
      | Null_linked \<Rightarrow> None)
   }"

definition dlist_add_hna :: "nat \<Rightarrow> bat_state \<Rightarrow> bat_state option" where
  "dlist_add_hna p s = do {
     elem \<leftarrow> elem_heap s p;
     if list_link elem = Self_linked
     then Some ((put_elem p (elem\<lparr>list_link := In_hna_list\<rparr>) s)\<lparr>hna_list := p # hna_list s\<rparr>)
     else None
   }"

definition dlist_add_orig :: "nat \<Rightarrow> nat \<Rightarrow> bat_state \<Rightarrow> bat_state option" where
  "dlist_add_orig p h s = do {
     elem \<leftarrow> elem_heap s p;
     n \<leftarrow> orig_heap s h;
     if list_link elem = Self_linked
     then Some (put_orig h (n\<lparr>o_hna_list := p # o_hna_list n\<rparr>) (put_elem p (elem\<lparr>list_link := In_orig_list h\<rparr>) s))
     else None
   }"

definition free_elem :: "nat \<Rightarrow> bat_state \<Rightarrow> bat_state" where
  "free_elem p s = s\<lparr>elem_heap := (elem_heap s)(p := None)\<rparr>"

definition trans_remove :: "nat \<Rightarrow> bat_state \<Rightarrow> bat_state option" where
  "trans_remove p s = do {
     elem \<leftarrow> elem_heap s p;
     (r, h) \<leftarrow> hash_remove (elem_key s) (trans_hash s) (te_mac elem);
     Some (s\<lparr>trans_hash := h\<rparr>)
   }"

text \<open>The addresses that are never entered: broadcast, zero and IPv4 multicast.\<close>

definition ignored_mac :: "mac \<Rightarrow> bool" where
  "ignored_mac m \<longleftrightarrow> memcmp (mac_bytes m) (mac_bytes bcast_addr) = 0 \<or>
     memcmp (mac_bytes m) (mac_bytes zero_addr) = 0 \<or>
     (case m of MAC a b c d _ _ \<Rightarrow> a = 0x01 \<and> b = 0x00 \<and> c = 0x5e \<and> d AND 0x80 = 0)"

definition transtable_add :: "mac \<Rightarrow> mac \<Rightarrow> bat_state \<Rightarrow> (int \<times> bat_state) option" where
  "transtable_add m batman_mac s =
     (if ignored_mac m then Some (- 1, s)
      else do {
        found \<leftarrow> hash_find (elem_key s) (trans_hash s) m;
        (found, s) \<leftarrow>
          (case found of
             None \<Rightarrow> Some (None, s)
           | Some p \<Rightarrow> do {
               elem \<leftarrow> elem_heap s p;
               if memcmp (mac_bytes batman_mac) (mac_bytes (te_batman_mac elem)) \<noteq> 0
               then do {
                 s \<leftarrow> dlist_del p s;
                 s \<leftarrow> trans_remove p s;
                 my \<leftarrow> is_my_mac (te_batman_mac elem) s;
                 let s = (if my then s\<lparr>hna_changed := True\<rparr> else s);
                 Some (None, free_elem p s)
               }
               else Some (Some p, s)
             });
        (case found of
           Some p \<Rightarrow> Some (- 1, s)
         | None \<Rightarrow> do {
             let p = brk s;
             let s = (put_elem p \<lparr>te_mac = m, te_batman_mac = batman_mac, te_age = curr_time s,
                                  list_link = Self_linked\<rparr> s)\<lparr>brk := Suc (brk s)\<rparr>;
             (r, h) \<leftarrow> hash_add (elem_key s) (brk s) (trans_hash s) p;
             Some (0, s\<lparr>trans_hash := h, brk := Suc (brk s)\<rparr>)
           })
      })"

definition transtable_search :: "mac \<Rightarrow> bat_state \<Rightarrow> mac option option" where
  "transtable_search m s = do {
     found \<leftarrow> hash_find (elem_key s) (trans_hash s) m;
     (case found of
        None \<Rightarrow> Some None
      | Some p \<Rightarrow> do { elem \<leftarrow> elem_heap s p; Some (Some (te_batman_mac elem)) })
   }"

definition hna_del :: "nat \<Rightarrow> bat_state \<Rightarrow> bat_state option" where
  "hna_del p s = do {
     s \<leftarrow> dlist_del p s;
     s \<leftarrow> trans_remove p s;
     Some (free_elem p s)
   }"

definition hna_add :: "mac \<Rightarrow> mac \<Rightarrow> bat_state \<Rightarrow> bat_state option" where
  "hna_add m mymac s = do {
     found \<leftarrow> hash_find (elem_key s) (trans_hash s) m;
     (found, s) \<leftarrow>
       (case found of
          None \<Rightarrow> Some (None, s)
        | Some p \<Rightarrow> do {
            elem \<leftarrow> elem_heap s p;
            my \<leftarrow> is_my_mac (te_batman_mac elem) s;
            if my then Some (Some p, put_elem p (elem\<lparr>te_age := curr_time s\<rparr>) s)
            else do { s \<leftarrow> hna_del p s; Some (None, s) }
          });
     (case found of
        Some p \<Rightarrow> Some s
      | None \<Rightarrow> do {
          (r, s) \<leftarrow> transtable_add m mymac s;
          found \<leftarrow> hash_find (elem_key s) (trans_hash s) m;
          (case found of
             None \<Rightarrow> Some s
           | Some p \<Rightarrow> do {
               elem \<leftarrow> elem_heap s p;
               let s = put_elem p (elem\<lparr>te_age := curr_time s\<rparr>) s;
               s \<leftarrow> dlist_add_hna p s;
               Some (s\<lparr>hna_changed := True\<rparr>)
             })
        })
   }"

text \<open>\<open>dlist_for_each_entry_safe\<close> with a body that frees the current entry.\<close>

fun hna_remove_list :: "nat list \<Rightarrow> bat_state \<Rightarrow> bat_state option" where
  "hna_remove_list [] s = Some s"
| "hna_remove_list (p # ps) s = do { s \<leftarrow> hna_del p s; hna_remove_list ps s }"

fun hna_purge :: "mac \<Rightarrow> nat list \<Rightarrow> int \<Rightarrow> bat_state \<Rightarrow> (int \<times> bat_state) option" where
  "hna_purge my [] cnt_hna s = Some (cnt_hna, s)"
| "hna_purge my (p # ps) cnt_hna s = do {
     elem \<leftarrow> elem_heap s p;
     if curr_time s - te_age elem > AGE_THRESHOLD \<and> memcmp (mac_bytes (te_mac elem)) (mac_bytes my) \<noteq> 0
     then do {
       s \<leftarrow> hna_del p s;
       hna_purge my ps cnt_hna (s\<lparr>hna_changed := True\<rparr>)
     }
     else hna_purge my ps (cnt_hna + 1) s
   }"

fun hna_bytes :: "bat_state \<Rightarrow> nat list \<Rightarrow> u8 list option" where
  "hna_bytes s [] = Some []"
| "hna_bytes s (p # ps) = do {
     elem \<leftarrow> elem_heap s p;
     rest \<leftarrow> hna_bytes s ps;
     Some (mac_bytes (te_mac elem) @ rest)
   }"

text \<open>
  \<open>hna_update\<close>: the copies of the addresses must fit into the new buffer of \<open>num_hna * 6\<close> bytes.
  \<open>tap_mtu - BATMAN_MAXFRAMESIZE\<close> is unsigned, because \<open>sizeof\<close> is.
\<close>

definition hna_rebuild :: "int \<Rightarrow> bat_state \<Rightarrow> bat_state option" where
  "hna_rebuild cnt_hna s = do {
     let num = (word_of_int cnt_hna :: u32);
     bytes \<leftarrow> hna_bytes s (hna_list s);
     if length bytes \<le> unat (num * 6) then do {
       let space = (word_of_int (tap_mtu s - BATMAN_MAXFRAMESIZE) :: u32) div 6;
       let num = (if num > space \<or> num > 255 then (if space > 255 then 255 else space) else num);
       (i, my) \<leftarrow> first_if s;
       let s = s\<lparr>g_hna_buff := bytes, hna_changed := False, g_num_hna := num\<rparr>;
       Some (put_if i (my\<lparr>out := (out my)\<lparr>num_hna := ucast num\<rparr>\<rparr>) s)
     } else None
   }"

definition hna_update :: "bat_state \<Rightarrow> bat_state option" where
  "hna_update s = do {
     (i, my) \<leftarrow> first_if s;
     (cnt_hna, s) \<leftarrow> hna_purge (hw_addr my) (hna_list s) 0 s;
     if hna_changed s then hna_rebuild cnt_hna s else Some s
   }"

text \<open>\<open>hna_add_buff\<close>: the addresses in the buffer of the originator, six bytes each.\<close>

fun macs_of :: "u8 list \<Rightarrow> mac list" where
  "macs_of (a # b # c # d # e # f # rest) = MAC a b c d e f # macs_of rest"
| "macs_of _ = []"

fun hna_add_hosts :: "nat \<Rightarrow> mac list \<Rightarrow> bat_state \<Rightarrow> bat_state option" where
  "hna_add_hosts orig_node [] s = Some s"
| "hna_add_hosts orig_node (host # hosts) s = do {
     n \<leftarrow> orig_heap s orig_node;
     (r, s) \<leftarrow> transtable_add host (o_orig n) s;
     s \<leftarrow> (if r = 0 then do {
             found \<leftarrow> hash_find (elem_key s) (trans_hash s) host;
             p \<leftarrow> found;
             dlist_add_orig p orig_node s
           } else Some s);
     hna_add_hosts orig_node hosts s
   }"

definition hna_add_buff :: "nat \<Rightarrow> bat_state \<Rightarrow> bat_state option" where
  "hna_add_buff orig_node s = do {
     n \<leftarrow> orig_heap s orig_node;
     b \<leftarrow> o_hna_buff n;
     bytes \<leftarrow> buf_heap s b;
     if hna_buff_len n \<le> int (length bytes)
     then hna_add_hosts orig_node (macs_of (take (nat (hna_buff_len n)) bytes)) s else None
   }"

definition free_buf :: "nat \<Rightarrow> bat_state \<Rightarrow> bat_state option" where
  "free_buf b s = do { _ \<leftarrow> buf_heap s b; Some (s\<lparr>buf_heap := (buf_heap s)(b := None)\<rparr>) }"

text \<open>\<open>hna_del_buff\<close> leaves \<open>hna_buff\<close> pointing to the freed buffer.\<close>

definition hna_del_buff :: "nat \<Rightarrow> bat_state \<Rightarrow> bat_state option" where
  "hna_del_buff orig_node s = do {
     n \<leftarrow> orig_heap s orig_node;
     s \<leftarrow> hna_remove_list (o_hna_list n) s;
     b \<leftarrow> o_hna_buff n;
     s \<leftarrow> free_buf b s;
     n \<leftarrow> orig_heap s orig_node;
     Some (put_orig orig_node (n\<lparr>hna_buff_len := 0\<rparr>) s)
   }"

text \<open>\<open>transtable_init\<close> and \<open>transtable_quit\<close> (which frees every element of the table).\<close>

definition transtable_init :: "bat_state \<Rightarrow> (int \<times> bat_state) option" where
  "transtable_init s = do {
     let s = s\<lparr>hna_list := [], trans_hash := hash_new 4096 compare_orig choose_orig\<rparr>;
     (i, my) \<leftarrow> first_if s;
     s \<leftarrow> hna_add (hw_addr my) (hw_addr my) s;
     Some (0, s)
   }"

definition transtable_quit :: "bat_state \<Rightarrow> bat_state" where
  "transtable_quit s = fold free_elem (hash_delete (trans_hash s)) s"

section \<open>Invariant\<close>

definition ifs_ok :: "bat_state \<Rightarrow> bool" where
  "ifs_ok s \<longleftrightarrow> if_list s \<noteq> [] \<and> (\<forall>p \<in> set (if_list s). if_heap s p \<noteq> None)"

text \<open>An element is in the list that its link names and in no other, and every list is live.\<close>

definition links_ok :: "bat_state \<Rightarrow> bool" where
  "links_ok s \<longleftrightarrow>
     distinct (hna_list s) \<and>
     (\<forall>p. p \<in> set (hna_list s) \<longleftrightarrow> map_option list_link (elem_heap s p) = Some In_hna_list) \<and>
     (\<forall>h n. orig_heap s h = Some n \<longrightarrow> distinct (o_hna_list n) \<and>
        (\<forall>p. p \<in> set (o_hna_list n) \<longleftrightarrow> map_option list_link (elem_heap s p) = Some (In_orig_list h))) \<and>
     (\<forall>p e. elem_heap s p = Some e \<longrightarrow> list_link e \<noteq> Null_linked \<and>
        (\<forall>h. list_link e = In_orig_list h \<longrightarrow> orig_heap s h \<noteq> None))"

definition trans_ok :: "bat_state \<Rightarrow> bool" where
  "trans_ok s \<longleftrightarrow>
     mac_hash_ok (elem_key s) (brk s) (trans_hash s) \<and>
     set (hash_entries (trans_hash s)) = dom (elem_heap s) \<and>
     (\<forall>p e. elem_heap s p = Some e \<longrightarrow> \<not> ignored_mac (te_mac e)) \<and>
     links_ok s \<and> ifs_ok s"

definition host_map :: "bat_state \<Rightarrow> mac \<rightharpoonup> mac" where
  "host_map s m = map_option (\<lambda>p. te_batman_mac (the (elem_heap s p))) (hash_map (elem_key s) (trans_hash s) m)"

lemma trans_map_Some:
  assumes "trans_ok s"
  shows "hash_map (elem_key s) (trans_hash s) m = Some p \<longleftrightarrow> (\<exists>e. elem_heap s p = Some e \<and> te_mac e = m)"
proof -
  have "hash_ok (elem_key s) (trans_hash s)" "set (hash_entries (trans_hash s)) = dom (elem_heap s)"
    using assms by (simp_all add: trans_ok_def mac_hash_ok_def)
  then show ?thesis by (auto simp: hash_map_Some elem_key_def)
qed

lemma host_map_Some:
  "trans_ok s \<Longrightarrow> host_map s m = Some b \<longleftrightarrow>
     (\<exists>p e. elem_heap s p = Some e \<and> te_mac e = m \<and> te_batman_mac e = b)"
  by (auto simp: host_map_def trans_map_Some) blast

text \<open>Two elements with the same address are the same.\<close>

lemma elem_unique:
  "trans_ok s \<Longrightarrow> elem_heap s p = Some e \<Longrightarrow> elem_heap s q = Some f \<Longrightarrow> te_mac e = te_mac f \<Longrightarrow> p = q"
  using trans_map_Some [of s "te_mac e" p] trans_map_Some [of s "te_mac e" q] by auto

lemma elem_below: "trans_ok s \<Longrightarrow> elem_heap s p = Some e \<Longrightarrow> p < brk s"
  by (auto simp: trans_ok_def mac_hash_ok_def)

section \<open>Taking an element out\<close>

definition unlinked :: "nat \<Rightarrow> bat_state \<Rightarrow> bat_state" where
  "unlinked p s = s\<lparr>hna_list := filter (\<lambda>q. q \<noteq> p) (hna_list s),
     orig_heap := (\<lambda>h. map_option (\<lambda>n. n\<lparr>o_hna_list := filter (\<lambda>q. q \<noteq> p) (o_hna_list n)\<rparr>) (orig_heap s h))\<rparr>"

text \<open>The state after the element \<open>p\<close> was unlinked, removed from the table, and freed.\<close>

definition elem_deleted :: "nat \<Rightarrow> (nat, mac) hashtable_t \<Rightarrow> bat_state \<Rightarrow> bat_state" where
  "elem_deleted p h s = (unlinked p s)\<lparr>elem_heap := (elem_heap s)(p := None), trans_hash := h\<rparr>"

lemma filter_absent: "p \<notin> set xs \<Longrightarrow> filter (\<lambda>q. q \<noteq> p) xs = xs"
  by (induction xs) auto

lemma o_hna_list_idem: "p \<notin> set (o_hna_list n) \<Longrightarrow> n\<lparr>o_hna_list := filter (\<lambda>q. q \<noteq> p) (o_hna_list n)\<rparr> = n"
  by (simp add: filter_absent)

lemma unlinked_orig_heap:
  assumes "links_ok s" "elem_heap s p = Some e"
  shows "orig_heap (unlinked p s) =
    (case list_link e of
       In_orig_list h \<Rightarrow> (case orig_heap s h of None \<Rightarrow> orig_heap s
         | Some n \<Rightarrow> (orig_heap s)(h \<mapsto> n\<lparr>o_hna_list := filter (\<lambda>q. q \<noteq> p) (o_hna_list n)\<rparr>))
     | _ \<Rightarrow> orig_heap s)"
proof -
  have "map_option (\<lambda>n. n\<lparr>o_hna_list := filter (\<lambda>q. q \<noteq> p) (o_hna_list n)\<rparr>) (orig_heap s h) = orig_heap s h"
    if "list_link e \<noteq> In_orig_list h" for h
  proof (cases "orig_heap s h")
    case (Some n)
    then have "p \<notin> set (o_hna_list n)" using assms that by (auto simp: links_ok_def)
    with Some show ?thesis by (simp add: filter_absent)
  qed simp
  then have "orig_heap (unlinked p s) x =
      (if list_link e = In_orig_list x
       then map_option (\<lambda>n. n\<lparr>o_hna_list := filter (\<lambda>q. q \<noteq> p) (o_hna_list n)\<rparr>) (orig_heap s x)
       else orig_heap s x)" for x
    by (simp add: unlinked_def)
  then show ?thesis
    by (auto simp: fun_eq_iff split: dlink.splits option.splits)
qed

lemma unlinked_hna_list:
  "links_ok s \<Longrightarrow> elem_heap s p = Some e \<Longrightarrow> list_link e \<noteq> In_hna_list \<Longrightarrow> hna_list (unlinked p s) = hna_list s"
  by (auto simp: unlinked_def links_ok_def intro!: filter_absent)

lemma dlist_del_eq:
  assumes "links_ok s" "elem_heap s p = Some e"
  shows "dlist_del p s = Some (put_elem p (e\<lparr>list_link := Null_linked\<rparr>) (unlinked p s))"
proof (cases "list_link e")
  case Self_linked
  then have "unlinked p s = s"
    using unlinked_orig_heap [OF assms] unlinked_hna_list [OF assms] by (simp add: unlinked_def)
  with Self_linked assms(2) show ?thesis by (simp add: dlist_del_def Let_def)
next
  case In_hna_list
  then have "unlinked p s = s\<lparr>hna_list := filter (\<lambda>q. q \<noteq> p) (hna_list s)\<rparr>"
    using unlinked_orig_heap [OF assms] by (simp add: unlinked_def)
  with In_hna_list assms(2) show ?thesis by (simp add: dlist_del_def put_elem_def Let_def)
next
  case (In_orig_list h)
  then obtain n where n: "orig_heap s h = Some n" using assms by (force simp: links_ok_def)
  then have "unlinked p s = put_orig h (n\<lparr>o_hna_list := filter (\<lambda>q. q \<noteq> p) (o_hna_list n)\<rparr>) s"
    using unlinked_orig_heap [OF assms] unlinked_hna_list [OF assms] In_orig_list
    by (simp add: unlinked_def put_orig_def)
  with In_orig_list n assms(2) show ?thesis by (simp add: dlist_del_def put_defs Let_def)
next
  case Null_linked
  then show ?thesis using assms by (auto simp: links_ok_def)
qed

lemma links_ok_deleted:
  assumes "links_ok s" "elem_heap s p = Some e"
  shows "links_ok (elem_deleted p h s)"
  using assms(1) by (auto simp: links_ok_def elem_deleted_def unlinked_def split: if_splits)

lemma deleted_key: "q \<noteq> p \<Longrightarrow> elem_key (elem_deleted p h s) q = elem_key s q"
  by (simp add: elem_key_def elem_deleted_def)

lemma trans_remove_eq:
  assumes "trans_ok s" "elem_heap s p = Some e"
  shows "\<exists>h. trans_remove p (put_elem p (e\<lparr>list_link := Null_linked\<rparr>) (unlinked p s)) =
      Some ((put_elem p (e\<lparr>list_link := Null_linked\<rparr>) (unlinked p s))\<lparr>trans_hash := h\<rparr>) \<and>
    trans_ok (elem_deleted p h s) \<and> host_map (elem_deleted p h s) = (host_map s)(te_mac e := None)"
proof -
  let ?s1 = "put_elem p (e\<lparr>list_link := Null_linked\<rparr>) (unlinked p s)"
  have key: "elem_key ?s1 = elem_key s"
    using assms(2) by (auto simp: elem_key_def put_elem_def unlinked_def fun_eq_iff)
  have ok: "mac_hash_ok (elem_key s) (brk s) (trans_hash s)" using assms(1) by (simp add: trans_ok_def)
  obtain h where h: "hash_remove (elem_key s) (trans_hash s) (te_mac e) =
      Some (hash_map (elem_key s) (trans_hash s) (te_mac e), h)" "mac_hash_ok (elem_key s) (brk s) h"
      "hash_map (elem_key s) h = (hash_map (elem_key s) (trans_hash s))(te_mac e := None)"
      "set (hash_entries h) = {d \<in> set (hash_entries (trans_hash s)). elem_key s d \<noteq> te_mac e}"
    using mac_hash_remove [OF ok] by blast
  have ent: "set (hash_entries h) = dom (elem_heap s) - {p}"
  proof -
    have "set (hash_entries (trans_hash s)) = dom (elem_heap s)" using assms(1) by (simp add: trans_ok_def)
    moreover have "elem_key s q = te_mac e \<longleftrightarrow> q = p" if "elem_heap s q = Some f" for q f
      using elem_unique [OF assms(1) that assms(2)] that assms(2) by (auto simp: elem_key_def)
    ultimately show ?thesis unfolding h(4) by auto
  qed
  let ?d = "elem_deleted p h s"
  have keys: "elem_key ?d q = elem_key s q" if "q \<in> set (hash_entries h)" for q
    using that ent by (auto intro: deleted_key)
  have fields: "trans_hash ?d = h" "brk ?d = brk s" "elem_heap ?d = (elem_heap s)(p := None)"
      "if_heap ?d = if_heap s" "if_list ?d = if_list s"
    by (simp_all add: elem_deleted_def unlinked_def)
  have "trans_ok ?d"
    unfolding trans_ok_def ifs_ok_def fields
    using assms h(2) ent links_ok_deleted [OF _ assms(2), of h] mac_hash_ok_cong [of h "elem_key ?d", OF keys]
    by (simp add: trans_ok_def ifs_ok_def) 
  moreover have "host_map ?d = (host_map s)(te_mac e := None)"
  proof
    fix m
    have "hash_map (elem_key ?d) h m = ((hash_map (elem_key s) (trans_hash s))(te_mac e := None)) m"
      using hash_map_cong [of h "elem_key ?d", OF keys] h(3) by simp
    moreover have "q \<noteq> p" if "hash_map (elem_key s) (trans_hash s) m = Some q" "m \<noteq> te_mac e" for q
      using that assms by (auto simp: trans_map_Some)
    ultimately show "host_map ?d m = ((host_map s)(te_mac e := None)) m"
      by (cases "hash_map (elem_key s) (trans_hash s) m")
        (auto simp: host_map_def elem_deleted_def unlinked_def)
  qed
  moreover have "trans_remove p ?s1 = Some (?s1\<lparr>trans_hash := h\<rparr>)"
  proof -
    have "elem_heap ?s1 p = Some (e\<lparr>list_link := Null_linked\<rparr>)" "trans_hash ?s1 = trans_hash s"
      by (simp_all add: put_elem_def unlinked_def)
    then show ?thesis using h(1) by (simp add: trans_remove_def key)
  qed
  ultimately show ?thesis by blast
qed

lemma free_elem_deleted:
  "free_elem p ((put_elem p x (unlinked p s))\<lparr>trans_hash := h\<rparr>) = elem_deleted p h s"
  by (simp add: free_elem_def put_elem_def elem_deleted_def unlinked_def)

lemma hna_del_eq:
  assumes "trans_ok s" "elem_heap s p = Some e"
  shows "\<exists>h. hna_del p s = Some (elem_deleted p h s) \<and> trans_ok (elem_deleted p h s) \<and>
    host_map (elem_deleted p h s) = (host_map s)(te_mac e := None)"
proof -
  have "links_ok s" using assms(1) by (simp add: trans_ok_def)
  then show ?thesis
    using trans_remove_eq [OF assms] dlist_del_eq [OF _ assms(2)] by (auto simp: hna_del_def free_elem_deleted)
qed

section \<open>Frame\<close>

text \<open>
  What the operations of the translation table leave alone: everything but the elements, their
  table and lists, and the announcement buffer.
\<close>

definition bare :: "orig_node \<Rightarrow> orig_node" where
  "bare n = n\<lparr>o_hna_list := []\<rparr>"

definition trans_frame :: "bat_state \<Rightarrow> bat_state \<Rightarrow> bool" where
  "trans_frame s s' \<longleftrightarrow> brk s \<le> brk s' \<and> orig_hash s' = orig_hash s \<and> neigh_heap s' = neigh_heap s \<and>
     if_heap s' = if_heap s \<and> if_list s' = if_list s \<and> forw_list s' = forw_list s \<and> gw_list s' = gw_list s \<and>
     buf_heap s' = buf_heap s \<and> curr_time s' = curr_time s \<and> tap_mtu s' = tap_mtu s \<and> found_ifs s' = found_ifs s \<and>
     g_num_hna s' = g_num_hna s \<and> g_hna_buff s' = g_hna_buff s \<and> originator_interval s' = originator_interval s \<and>
     little_endian s' = little_endian s \<and> tap_written s' = tap_written s \<and> writes s' = writes s \<and> sent s' = sent s \<and>
     (\<forall>h. map_option bare (orig_heap s' h) = map_option bare (orig_heap s h))"

lemma trans_frame_refl [simp, intro]: "trans_frame s s"
  by (simp add: trans_frame_def)

lemma trans_frame_trans: "trans_frame s t \<Longrightarrow> trans_frame t u \<Longrightarrow> trans_frame s u"
  by (auto simp: trans_frame_def)

lemma trans_frame_orig:
  assumes "trans_frame s s'" "orig_heap s h = Some n"
  shows "\<exists>l. orig_heap s' h = Some (n\<lparr>o_hna_list := l\<rparr>)"
proof -
  have "map_option bare (orig_heap s' h) = map_option bare (orig_heap s h)"
    using assms(1) by (simp add: trans_frame_def)
  then obtain n' where n': "orig_heap s' h = Some n'" "bare n' = bare n" using assms(2) by auto
  then have "n' = n\<lparr>o_hna_list := o_hna_list n'\<rparr>" by (cases n; cases n') (simp add: bare_def)
  with n'(1) show ?thesis by metis
qed

lemma trans_frame_deleted: "trans_frame s (elem_deleted p h s)"
  by (auto simp: trans_frame_def elem_deleted_def unlinked_def bare_def [abs_def] option.map_comp o_def)

lemma trans_frame_simps [simp]:
  "trans_frame s (s'\<lparr>hna_changed := b\<rparr>) = trans_frame s s'"
  "trans_frame s (put_elem p e s') = trans_frame s s'"
  "trans_frame s (s'\<lparr>trans_hash := h\<rparr>) = trans_frame s s'"
  "trans_frame s (s'\<lparr>hna_list := l\<rparr>) = trans_frame s s'"
  by (simp_all add: trans_frame_def put_elem_def)

section \<open>Putting an element in\<close>

definition new_elem :: "mac \<Rightarrow> mac \<Rightarrow> bat_state \<Rightarrow> trans_element_t" where
  "new_elem m b s = \<lparr>te_mac = m, te_batman_mac = b, te_age = curr_time s, list_link = Self_linked\<rparr>"

definition elem_added :: "mac \<Rightarrow> mac \<Rightarrow> (nat, mac) hashtable_t \<Rightarrow> bat_state \<Rightarrow> bat_state" where
  "elem_added m b h s = (put_elem (brk s) (new_elem m b s) s)\<lparr>brk := Suc (Suc (brk s)), trans_hash := h\<rparr>"

lemma links_ok_added:
  assumes "links_ok s" "elem_heap s (brk s) = None"
  shows "links_ok (elem_added m b h s)"
proof -
  have fields: "hna_list (elem_added m b h s) = hna_list s" "orig_heap (elem_added m b h s) = orig_heap s"
    "elem_heap (elem_added m b h s) = (elem_heap s)(brk s \<mapsto> new_elem m b s)"
    by (simp_all add: elem_added_def put_elem_def)
  have link: "map_option list_link (elem_heap (elem_added m b h s) q) = Some l \<longleftrightarrow>
      map_option list_link (elem_heap s q) = Some l" if "l \<noteq> Self_linked" for q l
    using that assms(2) by (auto simp: fields new_elem_def)
  show ?thesis
    unfolding links_ok_def link [OF dlink.distinct(1) [symmetric]] link [OF dlink.distinct(3) [symmetric]] fields(1,2)
    using assms(1) by (auto simp: links_ok_def fields(3) new_elem_def split: if_splits)
qed

lemma hash_add_elem:
  assumes "trans_ok s" "host_map s m = None" "\<not> ignored_mac m"
  shows "\<exists>h. hash_add (elem_key (put_elem (brk s) (new_elem m b s) s)) (Suc (brk s)) (trans_hash s) (brk s) = Some (0, h) \<and>
    trans_ok (elem_added m b h s) \<and> host_map (elem_added m b h s) = (host_map s)(m \<mapsto> b)"
proof -
  define p where "p = brk s"
  define e where "e = new_elem m b s"
  define key where "key = elem_key (put_elem p e s)"
  have p: "elem_heap s p = None" using elem_below [OF assms(1)] by (force simp: p_def)
  have keyp: "key p = m" by (simp add: key_def elem_key_def put_elem_def e_def new_elem_def)
  have keys: "key q = elem_key s q" if "q \<in> set (hash_entries (trans_hash s))" for q
    using that assms(1) p by (auto simp: key_def elem_key_def put_elem_def trans_ok_def)
  have "mac_hash_ok (elem_key s) p (trans_hash s)" using assms(1) by (simp add: trans_ok_def p_def)
  then have "mac_hash_ok key p (trans_hash s)" using mac_hash_ok_cong [of "trans_hash s" key, OF keys] by simp
  then have ok: "mac_hash_ok key (Suc p) (trans_hash s)" by (rule mac_hash_ok_mono) simp
  have map: "hash_map key (trans_hash s) = hash_map (elem_key s) (trans_hash s)"
    by (rule hash_map_cong [OF keys])
  have "hash_map key (trans_hash s) (key p) = None"
    using assms(2) by (simp add: map keyp host_map_def)
  from mac_hash_add [OF ok order_refl lessI this] obtain h where
    h: "hash_add key (Suc p) (trans_hash s) p = Some (0, h)" "mac_hash_ok key (Suc (Suc p)) h"
      "hash_map key h = (hash_map (elem_key s) (trans_hash s))(m \<mapsto> p)"
      "set (hash_entries h) = insert p (set (hash_entries (trans_hash s)))"
    by (auto simp: keyp map)
  let ?a = "elem_added m b h s"
  have fields: "trans_hash ?a = h" "brk ?a = Suc (Suc p)" "elem_heap ?a = (elem_heap s)(p \<mapsto> e)"
      "elem_key ?a = key" "if_heap ?a = if_heap s" "if_list ?a = if_list s"
    by (auto simp: elem_added_def put_elem_def p_def e_def key_def elem_key_def fun_eq_iff)
  have "trans_ok ?a"
    unfolding trans_ok_def ifs_ok_def fields
    using assms(1,3) h(2,4) links_ok_added [of s m b h] p
    by (auto simp: trans_ok_def ifs_ok_def p_def e_def new_elem_def)
  moreover have "host_map ?a = (host_map s)(m \<mapsto> b)"
  proof
    fix k
    have "q \<noteq> p" if "hash_map (elem_key s) (trans_hash s) k = Some q" for q
      using that p by (auto simp: trans_map_Some [OF assms(1)])
    then show "host_map ?a k = ((host_map s)(m \<mapsto> b)) k"
      by (cases "hash_map (elem_key s) (trans_hash s) k")
        (auto simp: host_map_def fields h(3) e_def new_elem_def)
  qed
  ultimately show ?thesis using h(1) by (auto simp: key_def p_def e_def)
qed

lemma trans_frame_added: "trans_frame s (elem_added m b h s)"
  by (simp add: trans_frame_def elem_added_def put_elem_def)

lemma is_my_mac_defined:
  "ifs_ok s \<Longrightarrow> is_my_mac a s = Some (\<exists>p\<in>set (if_list s). hw_addr (the (if_heap s p)) = a)"
  unfolding is_my_mac_def by (rule is_my_mac_in_eq) (simp add: ifs_ok_def)

definition my_mac :: "bat_state \<Rightarrow> mac \<Rightarrow> bool" where
  "my_mac s a \<longleftrightarrow> (\<exists>p\<in>set (if_list s). hw_addr (the (if_heap s p)) = a)"

lemma trans_ok_changed [simp]:
  "trans_ok (s\<lparr>hna_changed := b\<rparr>) = trans_ok s" "host_map (s\<lparr>hna_changed := b\<rparr>) = host_map s"
  by (simp_all add: trans_ok_def links_ok_def ifs_ok_def elem_key_def [abs_def] host_map_def [abs_def])

lemma trans_find: "trans_ok s \<Longrightarrow> hash_find (elem_key s) (trans_hash s) m = Some (hash_map (elem_key s) (trans_hash s) m)"
  by (rule mac_hash_find [of _ "brk s"]) (simp add: trans_ok_def)

lemma trans_find_None: "hash_map (elem_key s) (trans_hash s) m = None \<longleftrightarrow> host_map s m = None"
  by (simp add: host_map_def)

lemma transtable_search_eq:
  assumes "trans_ok s"
  shows "transtable_search m s = Some (host_map s m)"
proof (cases "hash_map (elem_key s) (trans_hash s) m")
  case (Some p)
  then obtain e where "elem_heap s p = Some e" using trans_map_Some [OF assms] by blast
  with Some show ?thesis by (simp add: transtable_search_def trans_find [OF assms] host_map_def)
qed (simp add: transtable_search_def trans_find [OF assms] host_map_def)

text \<open>The second half of \<open>transtable_add\<close>, from a table without the address.\<close>

lemma transtable_add_absent:
  assumes "trans_ok s" "host_map s m = None" "\<not> ignored_mac m"
  shows "\<exists>h. transtable_add m b s = Some (0, elem_added m b h s) \<and> trans_ok (elem_added m b h s) \<and>
    host_map (elem_added m b h s) = (host_map s)(m \<mapsto> b)"
proof -
  obtain h where h: "hash_add (elem_key (put_elem (brk s) (new_elem m b s) s)) (Suc (brk s)) (trans_hash s) (brk s) = Some (0, h)"
    "trans_ok (elem_added m b h s)" "host_map (elem_added m b h s) = (host_map s)(m \<mapsto> b)"
    using hash_add_elem [OF assms] by blast
  have "hash_map (elem_key s) (trans_hash s) m = None" using assms(2) by (simp add: trans_find_None)
  moreover have "elem_key (s'\<lparr>brk := x\<rparr>) = elem_key s'" for s' x by (simp add: elem_key_def fun_eq_iff)
  moreover have "put_elem q x s = s\<lparr>elem_heap := (elem_heap s)(q \<mapsto> x)\<rparr>" for q x by (simp add: put_elem_def)
  ultimately have "transtable_add m b s = Some (0, elem_added m b h s)"
    using h(1) assms(3)
    by (simp add: transtable_add_def trans_find [OF assms(1)] new_elem_def elem_added_def Let_def)
  with h show ?thesis by blast
qed

lemma transtable_add_moved:
  assumes "trans_ok s" "elem_heap s p = Some e" "te_batman_mac e \<noteq> b" "\<not> ignored_mac (te_mac e)"
  shows "\<exists>h d. d = (elem_deleted p h s)\<lparr>hna_changed := hna_changed s \<or> my_mac s (te_batman_mac e)\<rparr> \<and>
    transtable_add (te_mac e) b s = transtable_add (te_mac e) b d \<and> trans_ok d \<and>
    host_map d = (host_map s)(te_mac e := None)"
proof -
  let ?s1 = "put_elem p (e\<lparr>list_link := Null_linked\<rparr>) (unlinked p s)"
  obtain h where h: "trans_remove p ?s1 = Some (?s1\<lparr>trans_hash := h\<rparr>)"
      "trans_ok (elem_deleted p h s)" "host_map (elem_deleted p h s) = (host_map s)(te_mac e := None)"
    using trans_remove_eq [OF assms(1,2)] by blast
  define d where "d = (elem_deleted p h s)\<lparr>hna_changed := hna_changed s \<or> my_mac s (te_batman_mac e)\<rparr>"
  have d: "trans_ok d" "host_map d = (host_map s)(te_mac e := None)"
    using h by (simp_all add: d_def)
  have del: "dlist_del p s = Some ?s1"
    using assms(1,2) by (simp add: dlist_del_eq trans_ok_def)
  have find: "hash_find (elem_key s) (trans_hash s) (te_mac e) = Some (Some p)"
    using trans_find [OF assms(1)] trans_map_Some [OF assms(1)] assms(2) by auto
  have "ifs_ok (?s1\<lparr>trans_hash := h\<rparr>)"
    using assms(1) by (simp add: trans_ok_def ifs_ok_def put_elem_def unlinked_def)
  then have "is_my_mac (te_batman_mac e) (?s1\<lparr>trans_hash := h\<rparr>) = Some (my_mac s (te_batman_mac e))"
    by (simp add: is_my_mac_defined my_mac_def put_elem_def unlinked_def)
  moreover have "free_elem p (if my_mac s (te_batman_mac e) then (?s1\<lparr>trans_hash := h\<rparr>)\<lparr>hna_changed := True\<rparr>
      else ?s1\<lparr>trans_hash := h\<rparr>) = d"
    by (simp add: d_def free_elem_def put_elem_def elem_deleted_def unlinked_def)
  moreover have "hash_find (elem_key d) (trans_hash d) (te_mac e) = Some None"
    using trans_find [OF d(1)] trans_find_None [of d] d(2) by simp
  ultimately have "transtable_add (te_mac e) b s = transtable_add (te_mac e) b d"
    using assms(2-4) find del h(1) by (simp add: transtable_add_def Let_def)
  with d show ?thesis by (auto simp: d_def)
qed

lemma transtable_add_eq:
  assumes "trans_ok s" "\<not> ignored_mac m"
  shows "\<exists>s'. transtable_add m b s = Some (if host_map s m = Some b then - 1 else 0, s') \<and> trans_ok s' \<and>
    trans_frame s s' \<and> host_map s' = (host_map s)(m \<mapsto> b) \<and>
    (hna_changed s' \<longleftrightarrow> hna_changed s \<or> (\<exists>old. host_map s m = Some old \<and> old \<noteq> b \<and> my_mac s old)) \<and>
    (if host_map s m = Some b then s' = s
     else \<exists>p e. elem_heap s' p = Some e \<and> te_mac e = m \<and> list_link e = Self_linked)"
proof (cases "hash_map (elem_key s) (trans_hash s) m")
  case None
  then have "host_map s m = None" by (simp add: trans_find_None)
  moreover obtain h where "transtable_add m b s = Some (0, elem_added m b h s)" "trans_ok (elem_added m b h s)"
      "host_map (elem_added m b h s) = (host_map s)(m \<mapsto> b)"
    using transtable_add_absent [OF assms(1) \<open>host_map s m = None\<close> assms(2)] by blast
  moreover have "hna_changed (elem_added m b h s) = hna_changed s"
      "elem_heap (elem_added m b h s) (brk s) = Some (new_elem m b s)"
    by (simp_all add: elem_added_def put_elem_def)
  moreover have "te_mac (new_elem m b s) = m" "list_link (new_elem m b s) = Self_linked"
    by (simp_all add: new_elem_def)
  ultimately show ?thesis using trans_frame_added by auto
next
  case (Some p)
  then obtain e where e: "elem_heap s p = Some e" "te_mac e = m" using trans_map_Some [OF assms(1)] by blast
  then have host: "host_map s m = Some (te_batman_mac e)" using Some by (simp add: host_map_def)
  show ?thesis
  proof (cases "te_batman_mac e = b")
    case True
    then have "transtable_add m b s = Some (- 1, s)"
      using assms(2) Some e by (simp add: transtable_add_def trans_find [OF assms(1)])
    with True host assms(1) show ?thesis by (auto simp: fun_upd_idem)
  next
    case False
    obtain h d where d: "d = (elem_deleted p h s)\<lparr>hna_changed := hna_changed s \<or> my_mac s (te_batman_mac e)\<rparr>"
        "transtable_add m b s = transtable_add m b d" "trans_ok d" "host_map d = (host_map s)(m := None)"
      using transtable_add_moved [OF assms(1) e(1) False] assms(2) e(2) by auto
    obtain h' where h': "transtable_add m b d = Some (0, elem_added m b h' d)" "trans_ok (elem_added m b h' d)"
        "host_map (elem_added m b h' d) = (host_map d)(m \<mapsto> b)"
      using transtable_add_absent [OF d(3) _ assms(2)] d(4) by fastforce
    have "trans_frame s d" using trans_frame_deleted d(1) by simp
    then have "trans_frame s (elem_added m b h' d)" using trans_frame_added trans_frame_trans by blast
    moreover have "hna_changed (elem_added m b h' d) = hna_changed d"
        "elem_heap (elem_added m b h' d) (brk d) = Some (new_elem m b d)"
      by (simp_all add: elem_added_def put_elem_def)
    moreover have "te_mac (new_elem m b d) = m" "list_link (new_elem m b d) = Self_linked"
      by (simp_all add: new_elem_def)
    ultimately show ?thesis using d h' False host by auto
  qed
qed

section \<open>Lists of elements\<close>

text \<open>Changing the age or the link of an element does not change the table.\<close>

lemma trans_ok_relink:
  assumes "trans_ok s" "elem_heap s p = Some e" "te_mac e' = te_mac e" "te_batman_mac e' = te_batman_mac e"
    and s': "elem_heap s' = (elem_heap s)(p \<mapsto> e')" "trans_hash s' = trans_hash s" "brk s' = brk s"
    and "links_ok s'" "ifs_ok s'"
  shows "trans_ok s' \<and> host_map s' = host_map s"
proof -
  have key: "elem_key s' = elem_key s"
    using assms(2,3) s'(1) by (auto simp: elem_key_def fun_eq_iff)
  have dom: "dom (elem_heap s') = dom (elem_heap s)" using assms(2) s'(1) by auto
  have "trans_ok s'"
    using assms by (auto simp: trans_ok_def key dom)
  moreover have "host_map s' = host_map s"
    using assms(2,4) s'(1) by (auto simp: host_map_def fun_eq_iff key s'(2) option.map_comp intro!: map_option_cong)
  ultimately show ?thesis by simp
qed

lemma links_ok_put_same:
  "links_ok s \<Longrightarrow> elem_heap s p = Some e \<Longrightarrow> list_link e' = list_link e \<Longrightarrow> links_ok (put_elem p e' s)"
proof -
  assume a: "links_ok s" "elem_heap s p = Some e" "list_link e' = list_link e"
  have "map_option list_link (elem_heap (put_elem p e' s) q) = map_option list_link (elem_heap s q)" for q
    using a by (simp add: put_elem_def)
  moreover have "hna_list (put_elem p e' s) = hna_list s" "orig_heap (put_elem p e' s) = orig_heap s"
    by (simp_all add: put_elem_def)
  ultimately show "links_ok (put_elem p e' s)"
    using a unfolding links_ok_def by (auto simp: put_elem_def split: if_splits)
qed

lemma links_ok_fields:
  "hna_list s' = hna_list s \<Longrightarrow> orig_heap s' = orig_heap s \<Longrightarrow> elem_heap s' = elem_heap s \<Longrightarrow> links_ok s' = links_ok s"
  by (simp add: links_ok_def)

lemma set_age_eq:
  assumes "trans_ok s" "elem_heap s p = Some e"
  shows "trans_ok (put_elem p (e\<lparr>te_age := t\<rparr>) s) \<and> host_map (put_elem p (e\<lparr>te_age := t\<rparr>) s) = host_map s"
proof (rule trans_ok_relink [OF assms])
  show "links_ok (put_elem p (e\<lparr>te_age := t\<rparr>) s)"
    using assms by (intro links_ok_put_same [OF _ assms(2)]) (simp_all add: trans_ok_def)
  show "ifs_ok (put_elem p (e\<lparr>te_age := t\<rparr>) s)"
    using assms(1) by (simp add: trans_ok_def ifs_ok_def put_elem_def)
qed (simp_all add: put_elem_def)

lemma dlist_add_hna_eq:
  assumes "trans_ok s" "elem_heap s p = Some e" "list_link e = Self_linked"
    and s': "s' = (put_elem p (e\<lparr>list_link := In_hna_list\<rparr>) s)\<lparr>hna_list := p # hna_list s\<rparr>"
  shows "dlist_add_hna p s = Some s' \<and> trans_ok s' \<and> host_map s' = host_map s"
proof -
  have links: "links_ok s" and "ifs_ok s" using assms(1) by (simp_all add: trans_ok_def)
  have p: "p \<notin> set (hna_list s)" "\<And>h n. orig_heap s h = Some n \<Longrightarrow> p \<notin> set (o_hna_list n)"
    using links assms(2,3) by (auto simp: links_ok_def)
  have "links_ok s'"
    using links p by (auto simp: links_ok_def s' put_elem_def split: if_splits)
  moreover have "ifs_ok s'" using \<open>ifs_ok s\<close> by (simp add: ifs_ok_def s' put_elem_def)
  ultimately have "trans_ok s' \<and> host_map s' = host_map s"
    by (intro trans_ok_relink [OF assms(1,2), of "e\<lparr>list_link := In_hna_list\<rparr>"]) (simp_all add: s' put_elem_def)
  then show ?thesis using assms(2,3) by (simp add: dlist_add_hna_def s' put_elem_def)
qed

lemma dlist_add_orig_eq:
  assumes "trans_ok s" "elem_heap s p = Some e" "list_link e = Self_linked" "orig_heap s h = Some n"
    and s': "s' = put_orig h (n\<lparr>o_hna_list := p # o_hna_list n\<rparr>) (put_elem p (e\<lparr>list_link := In_orig_list h\<rparr>) s)"
  shows "dlist_add_orig p h s = Some s' \<and> trans_ok s' \<and> host_map s' = host_map s"
proof -
  have links: "links_ok s" and "ifs_ok s" using assms(1) by (simp_all add: trans_ok_def)
  have p: "p \<notin> set (hna_list s)" "\<And>h n. orig_heap s h = Some n \<Longrightarrow> p \<notin> set (o_hna_list n)"
    using links assms(2,3) by (auto simp: links_ok_def)
  have "links_ok s'"
    using links p assms(4) by (auto simp: links_ok_def s' put_elem_def put_orig_def split: if_splits)
  moreover have "ifs_ok s'" using \<open>ifs_ok s\<close> by (simp add: ifs_ok_def s' put_elem_def put_orig_def)
  ultimately have "trans_ok s' \<and> host_map s' = host_map s"
    by (intro trans_ok_relink [OF assms(1,2), of "e\<lparr>list_link := In_orig_list h\<rparr>"])
      (simp_all add: s' put_elem_def put_orig_def)
  then show ?thesis using assms(2-4) by (simp add: dlist_add_orig_def s' put_elem_def put_orig_def)
qed

lemma trans_frame_put_orig:
  "orig_heap s h = Some n \<Longrightarrow> bare n' = bare n \<Longrightarrow> trans_frame s (put_orig h n' (put_elem p e s))"
  by (auto simp: trans_frame_def put_elem_def put_orig_def)

section \<open>Purging old hosts\<close>

definition stale :: "bat_state \<Rightarrow> mac \<Rightarrow> nat \<Rightarrow> bool" where
  "stale s my p \<longleftrightarrow> (case elem_heap s p of None \<Rightarrow> False
     | Some e \<Rightarrow> curr_time s - te_age e > AGE_THRESHOLD \<and> te_mac e \<noteq> my)"

lemma hna_purge_eq:
  assumes "trans_ok s" "distinct ps" "set ps \<subseteq> dom (elem_heap s)"
  shows "\<exists>s'. hna_purge my ps c s = Some (c + int (length (filter (\<lambda>p. \<not> stale s my p) ps)), s') \<and>
    trans_ok s' \<and> trans_frame s s' \<and> hna_list s' = filter (\<lambda>q. \<not> (q \<in> set ps \<and> stale s my q)) (hna_list s) \<and>
    elem_heap s' = (\<lambda>q. if q \<in> set ps \<and> stale s my q then None else elem_heap s q) \<and>
    hna_changed s' = (hna_changed s \<or> (\<exists>q \<in> set ps. stale s my q)) \<and>
    g_hna_buff s' = g_hna_buff s \<and> g_num_hna s' = g_num_hna s"
  using assms
proof (induction ps arbitrary: c s)
  case (Cons p ps)
  then obtain e where e: "elem_heap s p = Some e" by auto
  have st: "stale s my p \<longleftrightarrow> curr_time s - te_age e > AGE_THRESHOLD \<and> te_mac e \<noteq> my"
    using e by (simp add: stale_def)
  show ?case
  proof (cases "stale s my p")
    case False
    then have "hna_purge my (p # ps) c s = hna_purge my ps (c + 1) s" using e st by auto
    moreover have "(q \<in> set (p # ps) \<and> stale s my q) = (q \<in> set ps \<and> stale s my q)" for q using False by auto
    moreover have "(\<exists>q \<in> set (p # ps). stale s my q) = (\<exists>q \<in> set ps. stale s my q)" using False by auto
    moreover have "c + int (length (filter (\<lambda>p. \<not> stale s my p) (p # ps))) =
        c + 1 + int (length (filter (\<lambda>p. \<not> stale s my p) ps))" using False by simp
    moreover have "distinct ps" "set ps \<subseteq> dom (elem_heap s)" using Cons.prems by auto
    ultimately show ?thesis using Cons.IH [OF Cons.prems(1), of "c + 1"] by presburger
  next
    case True
    obtain h where h: "hna_del p s = Some (elem_deleted p h s)" "trans_ok (elem_deleted p h s)"
      using hna_del_eq [OF Cons.prems(1) e] by blast
    define s1 where "s1 = (elem_deleted p h s)\<lparr>hna_changed := True\<rparr>"
    have s1: "trans_ok s1" "elem_heap s1 = (elem_heap s)(p := None)" "curr_time s1 = curr_time s"
        "hna_list s1 = filter (\<lambda>q. q \<noteq> p) (hna_list s)" "hna_changed s1"
        "g_hna_buff s1 = g_hna_buff s" "g_num_hna s1 = g_num_hna s"
      using h(2) by (simp_all add: s1_def elem_deleted_def unlinked_def)
    have fr: "trans_frame s s1" using trans_frame_deleted by (simp add: s1_def)
    have stale1: "stale s1 my q \<longleftrightarrow> q \<noteq> p \<and> stale s my q" for q
      by (simp add: stale_def s1 split: option.split)
    have "\<exists>s'. hna_purge my ps c s1 = Some (c + int (length (filter (\<lambda>p. \<not> stale s1 my p) ps)), s') \<and>
        trans_ok s' \<and> trans_frame s1 s' \<and> hna_list s' = filter (\<lambda>q. \<not> (q \<in> set ps \<and> stale s1 my q)) (hna_list s1) \<and>
        elem_heap s' = (\<lambda>q. if q \<in> set ps \<and> stale s1 my q then None else elem_heap s1 q) \<and>
        hna_changed s' = (hna_changed s1 \<or> (\<exists>q \<in> set ps. stale s1 my q)) \<and>
        g_hna_buff s' = g_hna_buff s1 \<and> g_num_hna s' = g_num_hna s1"
      using Cons.prems by (intro Cons.IH s1(1)) (auto simp: s1(2))
    then obtain s' where s': "hna_purge my ps c s1 = Some (c + int (length (filter (\<lambda>p. \<not> stale s1 my p) ps)), s')"
        "trans_ok s'" "trans_frame s1 s'" "hna_list s' = filter (\<lambda>q. \<not> (q \<in> set ps \<and> stale s1 my q)) (hna_list s1)"
        "elem_heap s' = (\<lambda>q. if q \<in> set ps \<and> stale s1 my q then None else elem_heap s1 q)" "hna_changed s'"
        "g_hna_buff s' = g_hna_buff s" "g_num_hna s' = g_num_hna s"
      by (auto simp: s1(5,6,7))
    have "hna_purge my (p # ps) c s = hna_purge my ps c s1" using e st True h(1) by (simp add: s1_def)
    moreover have "filter (\<lambda>p. \<not> stale s1 my p) ps = filter (\<lambda>p. \<not> stale s my p) (p # ps)"
      using Cons.prems(2) True by (auto simp: stale1 intro: filter_cong)
    moreover have "hna_list s' = filter (\<lambda>q. \<not> (q \<in> set (p # ps) \<and> stale s my q)) (hna_list s)"
      unfolding s'(4) s1(4) filter_filter using True by (auto simp: stale1 intro: filter_cong)
    moreover have "elem_heap s' = (\<lambda>q. if q \<in> set (p # ps) \<and> stale s my q then None else elem_heap s q)"
      unfolding s'(5) s1(2) using True by (auto simp: stale1)
    ultimately show ?thesis using s' fr True trans_frame_trans by auto
  qed
qed simp

lemma hna_bytes_eq:
  "set ps \<subseteq> dom (elem_heap s) \<Longrightarrow> hna_bytes s ps = Some (concat (map (\<lambda>p. mac_bytes (elem_key s p)) ps))"
  by (induction ps) (auto simp: elem_key_def)

lemma hna_remove_list_eq:
  assumes "trans_ok s" "distinct ps" "set ps \<subseteq> dom (elem_heap s)"
  shows "\<exists>s'. hna_remove_list ps s = Some s' \<and> trans_ok s' \<and> trans_frame s s' \<and>
    elem_heap s' = (elem_heap s) |` (- set ps) \<and>
    (\<forall>h n. orig_heap s h = Some n \<longrightarrow>
       orig_heap s' h = Some (n\<lparr>o_hna_list := filter (\<lambda>q. q \<notin> set ps) (o_hna_list n)\<rparr>))"
  using assms
proof (induction ps arbitrary: s)
  case (Cons p ps)
  then obtain e where e: "elem_heap s p = Some e" by auto
  obtain h where h: "hna_del p s = Some (elem_deleted p h s)" "trans_ok (elem_deleted p h s)"
    using hna_del_eq [OF Cons.prems(1) e] by blast
  let ?d = "elem_deleted p h s"
  have d: "elem_heap ?d = (elem_heap s)(p := None)"
      "\<And>h n. orig_heap s h = Some n \<Longrightarrow> orig_heap ?d h = Some (n\<lparr>o_hna_list := filter (\<lambda>q. q \<noteq> p) (o_hna_list n)\<rparr>)"
    by (simp_all add: elem_deleted_def unlinked_def)
  have "\<exists>s'. hna_remove_list ps ?d = Some s' \<and> trans_ok s' \<and> trans_frame ?d s' \<and>
      elem_heap s' = (elem_heap ?d) |` (- set ps) \<and>
      (\<forall>h n. orig_heap ?d h = Some n \<longrightarrow>
        orig_heap s' h = Some (n\<lparr>o_hna_list := filter (\<lambda>q. q \<notin> set ps) (o_hna_list n)\<rparr>))"
    using Cons.prems by (intro Cons.IH h(2)) (auto simp: d(1))
  then obtain s' where s': "hna_remove_list ps ?d = Some s'" "trans_ok s'" "trans_frame ?d s'"
      "elem_heap s' = (elem_heap ?d) |` (- set ps)"
      "\<And>h n. orig_heap ?d h = Some n \<Longrightarrow>
        orig_heap s' h = Some (n\<lparr>o_hna_list := filter (\<lambda>q. q \<notin> set ps) (o_hna_list n)\<rparr>)"
    by blast
  have "elem_heap s' = (elem_heap s) |` (- set (p # ps))"
    unfolding s'(4) d(1) by (auto simp: restrict_map_def)
  moreover have "orig_heap s' h = Some (n\<lparr>o_hna_list := filter (\<lambda>q. q \<notin> set (p # ps)) (o_hna_list n)\<rparr>)"
    if "orig_heap s h = Some n" for h n
    using s'(5) [OF d(2) [OF that]] by (simp add: filter_filter conj_commute)
  moreover have "trans_frame s s'" using s'(3) trans_frame_deleted trans_frame_trans by blast
  ultimately show ?case using h(1) s'(1,2) by auto
qed (simp add: restrict_map_def filter_True)

text \<open>The map after the hosts of an announcement were assigned to the originator \<open>b\<close>.\<close>

fun assign_hosts :: "mac list \<Rightarrow> mac \<Rightarrow> (mac \<rightharpoonup> mac) \<Rightarrow> (mac \<rightharpoonup> mac)" where
  "assign_hosts [] b f = f"
| "assign_hosts (m # ms) b f = assign_hosts ms b (if ignored_mac m then f else f(m \<mapsto> b))"

lemma hna_add_hosts_eq:
  assumes "trans_ok s" "orig_heap s h = Some n"
  shows "\<exists>s'. hna_add_hosts h ms s = Some s' \<and> trans_ok s' \<and> trans_frame s s' \<and>
    host_map s' = assign_hosts ms (o_orig n) (host_map s)"
  using assms
proof (induction ms arbitrary: s n)
  case (Cons m ms)
  have step: "\<exists>s1 l. (do { (r, s) \<leftarrow> transtable_add m (o_orig n) s;
      if r = 0 then do { found \<leftarrow> hash_find (elem_key s) (trans_hash s) m; p \<leftarrow> found; dlist_add_orig p h s }
      else Some s }) = Some s1 \<and> trans_ok s1 \<and> trans_frame s s1 \<and>
      host_map s1 = (if ignored_mac m then host_map s else (host_map s)(m \<mapsto> o_orig n)) \<and>
      orig_heap s1 h = Some (n\<lparr>o_hna_list := l\<rparr>)"
  proof (cases "ignored_mac m")
    case True
    then have "transtable_add m (o_orig n) s = Some (- 1, s)" by (simp add: transtable_add_def)
    with True Cons.prems show ?thesis by (auto intro!: exI [of _ "o_hna_list n"])
  next
    case False
    obtain t where t: "transtable_add m (o_orig n) s = Some (if host_map s m = Some (o_orig n) then - 1 else 0, t)"
        "trans_ok t" "trans_frame s t" "host_map t = (host_map s)(m \<mapsto> o_orig n)"
        "if host_map s m = Some (o_orig n) then t = s
         else \<exists>p e. elem_heap t p = Some e \<and> te_mac e = m \<and> list_link e = Self_linked"
      using transtable_add_eq [OF Cons.prems(1) False, of "o_orig n"] by blast
    obtain l where l: "orig_heap t h = Some (n\<lparr>o_hna_list := l\<rparr>)"
      using trans_frame_orig [OF t(3) Cons.prems(2)] by blast
    show ?thesis
    proof (cases "host_map s m = Some (o_orig n)")
      case True
      with t False l show ?thesis by auto
    next
      case new: False
      then obtain p e where p: "elem_heap t p = Some e" "te_mac e = m" "list_link e = Self_linked" using t(5) by auto
      then have find: "hash_find (elem_key t) (trans_hash t) m = Some (Some p)"
        using trans_find [OF t(2)] trans_map_Some [OF t(2)] by auto
      define s1 where "s1 = put_orig h ((n\<lparr>o_hna_list := l\<rparr>)\<lparr>o_hna_list := p # l\<rparr>) (put_elem p (e\<lparr>list_link := In_orig_list h\<rparr>) t)"
      have s1: "dlist_add_orig p h t = Some s1" "trans_ok s1" "host_map s1 = host_map t"
        using dlist_add_orig_eq [OF t(2) p(1,3) l, of s1] by (simp_all add: s1_def)
      have "trans_frame t s1"
        unfolding s1_def by (rule trans_frame_put_orig [OF l]) (simp add: bare_def)
      then have "trans_frame s s1" using t(3) trans_frame_trans by blast
      moreover have "orig_heap s1 h = Some (n\<lparr>o_hna_list := p # l\<rparr>)" by (simp add: s1_def)
      ultimately show ?thesis using t(1,4) s1 find new False by auto
    qed
  qed
  then obtain s1 l where s1: "(do { (r, s) \<leftarrow> transtable_add m (o_orig n) s;
      if r = 0 then do { found \<leftarrow> hash_find (elem_key s) (trans_hash s) m; p \<leftarrow> found; dlist_add_orig p h s }
      else Some s }) = Some s1" "trans_ok s1" "trans_frame s s1"
      "host_map s1 = (if ignored_mac m then host_map s else (host_map s)(m \<mapsto> o_orig n))"
      "orig_heap s1 h = Some (n\<lparr>o_hna_list := l\<rparr>)" by blast
  obtain s' where s': "hna_add_hosts h ms s1 = Some s'" "trans_ok s'" "trans_frame s1 s'"
      "host_map s' = assign_hosts ms (o_orig n) (host_map s1)"
    using Cons.IH [OF s1(2,5)] by auto
  have "hna_add_hosts h (m # ms) s = hna_add_hosts h ms s1"
  proof (cases "transtable_add m (o_orig n) s")
    case (Some rs)
    with s1(1) Cons.prems(2) show ?thesis by (cases rs) simp
  qed (use s1(1) in simp)
  with s' s1 show ?case using trans_frame_trans by auto
qed auto

lemma links_ok_orig:
  "links_ok s \<Longrightarrow> orig_heap s h = Some n \<Longrightarrow> distinct (o_hna_list n) \<and>
     (\<forall>p. p \<in> set (o_hna_list n) \<longleftrightarrow> map_option list_link (elem_heap s p) = Some (In_orig_list h))"
  unfolding links_ok_def by blast

lemma trans_ok_fields:
  assumes "elem_heap s' = elem_heap s" "trans_hash s' = trans_hash s" "brk s \<le> brk s'" "hna_list s' = hna_list s"
    "if_list s' = if_list s" "dom (if_heap s') = dom (if_heap s)"
    "\<And>h. map_option o_hna_list (orig_heap s' h) = map_option o_hna_list (orig_heap s h)"
    and ok: "trans_ok s"
  shows "trans_ok s' \<and> host_map s' = host_map s"
proof -
  have key: "elem_key s' = elem_key s" by (simp add: elem_key_def fun_eq_iff assms(1))
  have o: "\<exists>n. orig_heap s h = Some n \<and> o_hna_list n = o_hna_list n'" if "orig_heap s' h = Some n'" for h n'
    using assms(7) [of h] that by (cases "orig_heap s h") auto
  have o': "orig_heap s' h \<noteq> None \<longleftrightarrow> orig_heap s h \<noteq> None" for h
    using assms(7) [of h] by (metis option.map_disc_iff)
  have "links_ok s"  using ok by (simp add: trans_ok_def)
  moreover have "distinct (o_hna_list n') \<and>
      (\<forall>p. p \<in> set (o_hna_list n') \<longleftrightarrow> map_option list_link (elem_heap s p) = Some (In_orig_list h))"
    if "orig_heap s' h = Some n'" for h n'
    using o [OF that] links_ok_orig [OF \<open>links_ok s\<close>] by metis
  ultimately have "links_ok s'"
    unfolding links_ok_def assms(1,4) o' by blast
  moreover have "ifs_ok s'" using ok assms(5,6) by (auto simp: trans_ok_def ifs_ok_def dom_def)
  moreover have "mac_hash_ok (elem_key s) (brk s') (trans_hash s)"
    using ok assms(3) mac_hash_ok_mono by (auto simp: trans_ok_def)
  ultimately have "trans_ok s'" using ok by (simp add: trans_ok_def key assms(1,2))
  then show ?thesis by (auto simp: host_map_def fun_eq_iff key assms(1,2))
qed

lemma put_elem_simps [simp]:
  "hna_list (put_elem p e s) = hna_list s" "orig_heap (put_elem p e s) = orig_heap s"
  "trans_hash (put_elem p e s) = trans_hash s" "brk (put_elem p e s) = brk s"
  by (simp_all add: put_elem_def)

lemma ignored_absent: "trans_ok s \<Longrightarrow> ignored_mac m \<Longrightarrow> host_map s m = None"
  by (cases "host_map s m") (auto simp: host_map_Some trans_ok_def)

lemma hna_add_absent:
  assumes t: "trans_ok t" "host_map t m = None" "\<not> ignored_mac m"
  shows "\<exists>s'. hna_add m mymac t = Some s' \<and> trans_ok s' \<and> trans_frame t s' \<and>
    host_map s' = (host_map t)(m \<mapsto> mymac) \<and> hna_changed s' \<and>
    (\<exists>p. hna_list s' = p # hna_list t \<and> elem_key s' p = m)"
proof -
  obtain h where h: "transtable_add m mymac t = Some (0, elem_added m mymac h t)"
      "trans_ok (elem_added m mymac h t)" "host_map (elem_added m mymac h t) = (host_map t)(m \<mapsto> mymac)"
    using transtable_add_absent [OF t] by blast
  define a where "a = elem_added m mymac h t"
  define p where "p = brk t"
  define e where "e = (new_elem m mymac t)\<lparr>te_age := curr_time a\<rparr>"
  have a: "elem_heap a p = Some (new_elem m mymac t)" by (simp add: a_def p_def elem_added_def put_elem_def)
  have find: "hash_find (elem_key a) (trans_hash a) m = Some (Some p)"
    using trans_find [of a] trans_map_Some [of a m p] h(2) a by (simp add: a_def new_elem_def)
  have aged: "trans_ok (put_elem p e a)" "host_map (put_elem p e a) = host_map a"
    using set_age_eq [OF _ a, of "curr_time a"] h(2) by (simp_all add: a_def e_def)
  define b where "b = (put_elem p (e\<lparr>list_link := In_hna_list\<rparr>) (put_elem p e a))\<lparr>hna_list := p # hna_list a\<rparr>"
  have ep: "elem_heap (put_elem p e a) p = Some e" "list_link e = Self_linked"
    by (simp_all add: put_elem_def e_def new_elem_def)
  have hl: "hna_list (put_elem p e a) = hna_list a" by (simp add: put_elem_def)
  have b: "dlist_add_hna p (put_elem p e a) = Some b" "trans_ok b" "host_map b = host_map a"
    using dlist_add_hna_eq [OF aged(1) ep, of b] aged(2) unfolding b_def hl by simp_all
  have "hash_map (elem_key t) (trans_hash t) m = None" using t(2) by (simp add: trans_find_None)
  then have "hna_add m mymac t = Some (b\<lparr>hna_changed := True\<rparr>)"
    using h(1) find a b(1) by (simp add: hna_add_def trans_find [OF t(1)] a_def [symmetric] e_def Let_def)
  moreover have "trans_frame t b" using trans_frame_added by (simp add: b_def a_def)
  moreover have "elem_key (b\<lparr>hna_changed := True\<rparr>) p = m" "hna_list b = p # hna_list t"
    by (simp_all add: b_def elem_key_def put_elem_def e_def new_elem_def a_def elem_added_def)
  ultimately show ?thesis using b h(3) by (auto simp: a_def)
qed

lemma hna_add_eq:
  assumes "trans_ok s"
  shows "\<exists>s'. hna_add m mymac s = Some s' \<and> trans_ok s' \<and> trans_frame s s' \<and>
    (if ignored_mac m then s' = s
     else if \<exists>old. host_map s m = Some old \<and> my_mac s old then host_map s' = host_map s \<and> hna_list s' = hna_list s
     else host_map s' = (host_map s)(m \<mapsto> mymac) \<and> hna_changed s' \<and> (\<exists>p \<in> set (hna_list s'). elem_key s' p = m))"
proof (cases "ignored_mac m")
  case True
  then have "hash_map (elem_key s) (trans_hash s) m = None"
    using ignored_absent [OF assms] by (simp add: trans_find_None)
  then have "hna_add m mymac s = Some s"
    using True by (simp add: hna_add_def trans_find [OF assms(1)] transtable_add_def)
  with True assms(1) show ?thesis by auto
next
  case ok: False
  show ?thesis
  proof (cases "hash_map (elem_key s) (trans_hash s) m")
    case None
    then have "host_map s m = None" by (simp add: trans_find_None)
    with hna_add_absent [OF assms(1) _ ok, of mymac] ok show ?thesis by auto
  next
    case (Some p)
    then obtain e where e: "elem_heap s p = Some e" "te_mac e = m" using trans_map_Some [OF assms(1)] by blast
    then have host: "host_map s m = Some (te_batman_mac e)" using Some by (simp add: host_map_def)
    have my: "is_my_mac (te_batman_mac e) s = Some (my_mac s (te_batman_mac e))"
      using assms(1) by (simp add: trans_ok_def is_my_mac_defined my_mac_def)
    show ?thesis
    proof (cases "my_mac s (te_batman_mac e)")
      case True
      then have "hna_add m mymac s = Some (put_elem p (e\<lparr>te_age := curr_time s\<rparr>) s)"
        using Some e(1) my by (simp add: hna_add_def trans_find [OF assms(1)])
      with True ok host set_age_eq [OF assms(1) e(1)] show ?thesis by auto
    next
      case False
      obtain h where h: "hna_del p s = Some (elem_deleted p h s)" "trans_ok (elem_deleted p h s)"
          "host_map (elem_deleted p h s) = (host_map s)(m := None)"
        using hna_del_eq [OF assms(1) e(1)] e(2) by blast
      define d where "d = elem_deleted p h s"
      have "host_map d m = None" using h(3) by (simp add: d_def)
      then have "hash_find (elem_key d) (trans_hash d) m = Some None"
        using trans_find [of d] h(2) by (simp add: trans_find_None d_def)
      then have "hna_add m mymac s = hna_add m mymac d"
        using Some e(1) my False h(1) by (simp add: hna_add_def trans_find [OF assms(1)] d_def)
      moreover obtain s' where "hna_add m mymac d = Some s'" "trans_ok s'" "trans_frame d s'"
          "host_map s' = (host_map s)(m \<mapsto> mymac)" "hna_changed s'" "\<exists>p \<in> set (hna_list s'). elem_key s' p = m"
        using hna_add_absent [OF _ \<open>host_map d m = None\<close> ok, of mymac] h(2,3) by (auto simp: d_def)
      moreover have "trans_frame s s'"
        using \<open>trans_frame d s'\<close> trans_frame_trans [OF trans_frame_deleted] unfolding d_def by blast
      ultimately show ?thesis using ok host False by auto
    qed
  qed
qed


lemma hna_del_buff_eq:
  assumes "trans_ok s" "orig_heap s h = Some n" "o_hna_buff n = Some b" "buf_heap s b = Some bytes"
  shows "\<exists>s'. hna_del_buff h s = Some s' \<and> trans_ok s' \<and>
    orig_heap s' h = Some (n\<lparr>o_hna_list := [], hna_buff_len := 0\<rparr>) \<and> buf_heap s' = (buf_heap s)(b := None) \<and>
    elem_heap s' = (elem_heap s) |` (- set (o_hna_list n)) \<and>
    (\<exists>t. trans_frame s t \<and> orig_heap t h = Some (n\<lparr>o_hna_list := []\<rparr>) \<and>
       s' = put_orig h (n\<lparr>o_hna_list := [], hna_buff_len := 0\<rparr>) (t\<lparr>buf_heap := (buf_heap s)(b := None)\<rparr>)) \<and>
    (\<forall>m x. host_map s' m = Some x \<longleftrightarrow> host_map s m = Some x \<and> (\<forall>p \<in> set (o_hna_list n). elem_key s p \<noteq> m))"
proof -
  have links: "links_ok s" using assms(1) by (simp add: trans_ok_def)
  have ps: "distinct (o_hna_list n)" "set (o_hna_list n) \<subseteq> dom (elem_heap s)"
    using links_ok_orig [OF links assms(2)] by auto
  obtain t where t: "hna_remove_list (o_hna_list n) s = Some t" "trans_ok t" "trans_frame s t"
      "elem_heap t = (elem_heap s) |` (- set (o_hna_list n))"
      "orig_heap t h = Some (n\<lparr>o_hna_list := filter (\<lambda>q. q \<notin> set (o_hna_list n)) (o_hna_list n)\<rparr>)"
    using hna_remove_list_eq [OF assms(1) ps] assms(2) by blast
  have nil: "filter (\<lambda>q. q \<notin> set (o_hna_list n)) (o_hna_list n) = []" by (simp add: filter_empty_conv)
  have buf: "buf_heap t = buf_heap s" using t(3) by (simp add: trans_frame_def)
  define u where "u = t\<lparr>buf_heap := (buf_heap t)(b := None)\<rparr>"
  define s' where "s' = put_orig h (n\<lparr>o_hna_list := [], hna_buff_len := 0\<rparr>) u"
  have "hna_del_buff h s = Some s'"
    using assms(2-4) t(1,5) buf nil by (simp add: hna_del_buff_def free_buf_def u_def s'_def)
  moreover have s': "trans_ok s' \<and> host_map s' = host_map t"
  proof (rule trans_ok_fields [OF _ _ _ _ _ _ _ t(2)])
    show "map_option o_hna_list (orig_heap s' k) = map_option o_hna_list (orig_heap t k)" for k
      using t(5) nil by (simp add: s'_def u_def)
  qed (simp_all add: s'_def u_def put_orig_def)
  moreover have "host_map t m = Some x \<longleftrightarrow> host_map s m = Some x \<and> (\<forall>p \<in> set (o_hna_list n). elem_key s p \<noteq> m)" for m x
  proof -
    have "p \<notin> set (o_hna_list n) \<longleftrightarrow> (\<forall>q \<in> set (o_hna_list n). elem_key s q \<noteq> te_mac e)"
      if pe: "elem_heap s p = Some e" for p e
    proof
      assume p: "p \<notin> set (o_hna_list n)"
      show "\<forall>q \<in> set (o_hna_list n). elem_key s q \<noteq> te_mac e"
      proof
        fix q assume q: "q \<in> set (o_hna_list n)"
        then obtain f where f: "elem_heap s q = Some f" using ps(2) by auto
        have "p \<noteq> q" using p q by auto
        then show "elem_key s q \<noteq> te_mac e" using elem_unique [OF assms(1) pe f] f by (auto simp: elem_key_def)
      qed
    qed (use pe in \<open>auto simp: elem_key_def\<close>)
    then show ?thesis
      unfolding host_map_Some [OF t(2)] host_map_Some [OF assms(1)] t(4) restrict_map_def by auto
  qed
  moreover have "\<exists>t. trans_frame s t \<and> orig_heap t h = Some (n\<lparr>o_hna_list := []\<rparr>) \<and>
      s' = put_orig h (n\<lparr>o_hna_list := [], hna_buff_len := 0\<rparr>) (t\<lparr>buf_heap := (buf_heap s)(b := None)\<rparr>)"
    using t(3,5) nil buf by (intro exI [of _ t]) (simp add: s'_def u_def)
  ultimately show ?thesis using t(4) by (simp add: s'_def u_def put_orig_def buf)
qed

text \<open>
  \<open>hna_update\<close>: stale hosts leave the list, and when anything changed the buffer and the number
  of announced hosts are rebuilt.
\<close>

definition hna_space :: "bat_state \<Rightarrow> nat" where
  "hna_space s = unat ((word_of_int (tap_mtu s - BATMAN_MAXFRAMESIZE) :: u32) div 6)"

lemma hna_purge_none:
  "set ps \<subseteq> dom (elem_heap s) \<Longrightarrow> (\<And>p. p \<in> set ps \<Longrightarrow> \<not> stale s my p) \<Longrightarrow>
   hna_purge my ps c s = Some (c + int (length ps), s)"
proof (induction ps arbitrary: c)
  case (Cons p ps)
  then obtain e where e: "elem_heap s p = Some e" by auto
  have "\<not> stale s my p" using Cons.prems(2) by simp
  then have "hna_purge my (p # ps) c s = hna_purge my ps (c + 1) s" using e by (auto simp: stale_def)
  with Cons show ?case by auto
qed simp

lemma num_hna_clamp:
  fixes n :: u32
  assumes "unat space = sp"
  shows "unat (if n > space \<or> n > 255 then (if space > 255 then 255 else space) else n) = min (unat n) (min 255 sp)"
  using assms by (auto simp: word_less_nat_alt min_def)

lemma length_hna_bytes: "length (concat (map (\<lambda>p. mac_bytes (f p)) ps)) = length ps * 6"
  by (induction ps) simp_all

lemma hna_update_eq:
  assumes "trans_ok s" "length (hna_list s) * 6 < 2 ^ 32" "first_if s = Some (i, my)"
    and changed: "hna_changed s \<or> (\<exists>p \<in> set (hna_list s). stale s (hw_addr my) p)"
  shows "\<exists>s'. hna_update s = Some s' \<and> trans_ok s' \<and>
    hna_list s' = filter (\<lambda>p. \<not> stale s (hw_addr my) p) (hna_list s) \<and>
    elem_heap s' = (\<lambda>q. if q \<in> set (hna_list s) \<and> stale s (hw_addr my) q then None else elem_heap s q) \<and>
    \<not> hna_changed s' \<and>
    g_hna_buff s' = concat (map (\<lambda>p. mac_bytes (elem_key s' p)) (hna_list s')) \<and>
    unat (g_num_hna s') = min (length (hna_list s')) (min 255 (hna_space s)) \<and>
    if_heap s' i = Some (my\<lparr>out := (out my)\<lparr>num_hna := ucast (g_num_hna s')\<rparr>\<rparr>) \<and>
    (\<exists>t. trans_frame s t \<and> trans_ok t \<and> s' = put_if i (my\<lparr>out := (out my)\<lparr>num_hna := ucast (g_num_hna s')\<rparr>\<rparr>)
       (t\<lparr>g_hna_buff := g_hna_buff s', hna_changed := False, g_num_hna := g_num_hna s'\<rparr>))"
proof -
  let ?st = "stale s (hw_addr my)"
  have "links_ok s" using assms(1) by (simp add: trans_ok_def)
  then have hl: "distinct (hna_list s)" "set (hna_list s) \<subseteq> dom (elem_heap s)" by (auto simp: links_ok_def)
  obtain t where t: "hna_purge (hw_addr my) (hna_list s) 0 s = Some (int (length (filter (\<lambda>p. \<not> ?st p) (hna_list s))), t)"
      "trans_ok t" "trans_frame s t" "hna_list t = filter (\<lambda>q. \<not> (q \<in> set (hna_list s) \<and> ?st q)) (hna_list s)"
      "elem_heap t = (\<lambda>q. if q \<in> set (hna_list s) \<and> ?st q then None else elem_heap s q)" "hna_changed t"
    using hna_purge_eq [OF assms(1) hl, of "hw_addr my" 0] changed by (simp add: disj_commute) blast
  have hlt: "hna_list t = filter (\<lambda>p. \<not> ?st p) (hna_list s)" unfolding t(4) by (rule filter_cong) auto
  define c where "c = int (length (hna_list t))"
  define num :: u32 where "num = word_of_int c"
  have len: "length (hna_list t) * 6 < 2 ^ 32"
    unfolding hlt by (rule le_less_trans [OF mult_le_mono1 [OF length_filter_le] assms(2)])
  have num: "unat num = length (hna_list t)"
    unfolding num_def c_def using len by (simp add: unat_of_nat_id)
  then have num6: "unat (num * 6) = length (hna_list t) * 6" using len by (simp add: unat_word_ariths)
  have sub: "set (hna_list t) \<subseteq> dom (elem_heap t)" using t(2) by (auto simp: trans_ok_def links_ok_def)
  have fi: "first_if t = Some (i, my)" "tap_mtu t = tap_mtu s"
    using t(3) assms(3) by (simp_all add: first_if_def trans_frame_def split: list.splits)
  define sp where "sp = tap_mtu s - BATMAN_MAXFRAMESIZE"
  define space :: u32 where "space = word_of_int sp div 6"
  define fin where "fin = (if num > space \<or> num > 255 then (if space > 255 then 255 else space) else num)"
  define u where "u = t\<lparr>g_hna_buff := concat (map (\<lambda>p. mac_bytes (elem_key t p)) (hna_list t)), hna_changed := False, g_num_hna := fin\<rparr>"
  define s' where "s' = put_if i (my\<lparr>out := (out my)\<lparr>num_hna := ucast fin\<rparr>\<rparr>) u"
  have "hna_rebuild c t = Some s'"
    using fi num6
    by (simp add: hna_rebuild_def num_def [symmetric] hna_bytes_eq [OF sub] length_hna_bytes sp_def [symmetric]
        space_def [symmetric] fin_def [symmetric] u_def s'_def Let_def)
  then have "hna_update s = Some s'"
    using t(1,6) assms(3) by (simp add: hna_update_def hlt [symmetric] c_def)
  moreover have "if_heap t i \<noteq> None" using fi(1) by (auto simp: first_if_def split: list.splits)
  then have "trans_ok s' \<and> host_map s' = host_map t"
    by (intro trans_ok_fields [OF _ _ _ _ _ _ _ t(2)]) (auto simp: s'_def u_def put_if_def)
  moreover have "elem_key s' = elem_key t" by (simp add: s'_def u_def put_if_def elem_key_def fun_eq_iff)
  moreover have "unat fin = min (length (hna_list t)) (min 255 (hna_space s))"
    unfolding fin_def num [symmetric] by (rule num_hna_clamp) (simp add: space_def sp_def hna_space_def)
  moreover have "\<exists>t. trans_frame s t \<and> trans_ok t \<and> s' = put_if i (my\<lparr>out := (out my)\<lparr>num_hna := ucast (g_num_hna s')\<rparr>\<rparr>)
       (t\<lparr>g_hna_buff := g_hna_buff s', hna_changed := False, g_num_hna := g_num_hna s'\<rparr>)"
    using t(2,3) by (intro exI [of _ t]) (simp add: s'_def u_def put_if_def)
  ultimately show ?thesis
    using t(5) by (simp add: s'_def u_def put_if_def hlt [symmetric])
qed

section \<open>Properties\<close>

lemma example_trans_ok: "trans_ok example_state"
proof -
  have "links_ok example_state" "ifs_ok example_state"
    by (simp_all add: links_ok_def ifs_ok_def example_state_def)
  then show ?thesis by (simp add: trans_ok_def) (simp add: example_state_def hash_new_mac_ok)
qed

text \<open>
  C34: adding a host to the translation table and looking up. \<open>transtable_add\<close> returns in every
  state that satisfies the invariant and keeps it; afterwards the added address is served by the
  given originator and every other address by the one that served it before; broadcast, zero and
  multicast addresses are never entered. The result is 0 exactly when a new element was entered.
\<close>

theorem transtable_add_then_search:
  assumes "trans_ok s"
  shows "\<exists>r s'. transtable_add m b s = Some (r, s') \<and> trans_ok s' \<and>
    (\<forall>k. transtable_search k s' =
       (if k = m \<and> \<not> ignored_mac m then Some (Some b) else transtable_search k s)) \<and>
    (r = 0 \<longleftrightarrow> \<not> ignored_mac m \<and> transtable_search m s \<noteq> Some (Some b))"
proof (cases "ignored_mac m")
  case True
  then have "transtable_add m b s = Some (- 1, s)" by (simp add: transtable_add_def)
  with True assms show ?thesis by simp
next
  case False
  then obtain s' where "transtable_add m b s = Some (if host_map s m = Some b then - 1 else 0, s')" "trans_ok s'"
      "host_map s' = (host_map s)(m \<mapsto> b)"
    using transtable_add_eq [OF assms False, of b] by blast
  with False assms show ?thesis by (simp add: transtable_search_eq)
qed

theorem transtable_add_then_search_witness:
  "\<exists>r s'. transtable_add (MAC 2 0 0 0 0 77) (MAC 2 0 0 0 0 9) example_state = Some (r, s') \<and>
     transtable_search (MAC 2 0 0 0 0 77) s' = Some (Some (MAC 2 0 0 0 0 9))"
proof -
  have "\<not> ignored_mac (MAC 2 0 0 0 0 77)" by (simp add: ignored_mac_def bcast_addr_def zero_addr_def)
  then show ?thesis
    using transtable_add_then_search [OF example_trans_ok, of "MAC 2 0 0 0 0 77" "MAC 2 0 0 0 0 9"] by auto
qed

text \<open>
  A host behind our own tap interface (\<open>hna_add\<close>). The call returns and keeps the invariant.
  A host that is not known as one of ours is assigned to us, whoever served it before, linked into
  the list of local hosts and flagged for announcement; a host that is ours already only has its
  age refreshed; an ignored address changes nothing.
\<close>

theorem hna_add_spec:
  assumes "trans_ok s"
  shows "\<exists>s'. hna_add m mymac s = Some s' \<and> trans_ok s' \<and>
    (if ignored_mac m then s' = s
     else if \<exists>old. host_map s m = Some old \<and> my_mac s old then host_map s' = host_map s \<and> hna_list s' = hna_list s
     else host_map s' = (host_map s)(m \<mapsto> mymac) \<and> hna_changed s' \<and> (\<exists>p \<in> set (hna_list s'). elem_key s' p = m))"
  using hna_add_eq [OF assms, of m mymac] by blast

theorem hna_add_spec_witness:
  "\<exists>s'. hna_add (MAC 2 0 0 0 0 77) (MAC 2 0 0 0 0 1) example_state = Some s' \<and>
     host_map s' (MAC 2 0 0 0 0 77) = Some (MAC 2 0 0 0 0 1) \<and> hna_changed s'"
proof -
  have "\<not> ignored_mac (MAC 2 0 0 0 0 77)" by (simp add: ignored_mac_def bcast_addr_def zero_addr_def)
  moreover have "host_map example_state (MAC 2 0 0 0 0 77) = None"
    by (simp add: host_map_def hash_map_def example_state_def)
  ultimately show ?thesis
    using hna_add_spec [OF example_trans_ok, of "MAC 2 0 0 0 0 77" "MAC 2 0 0 0 0 1"] by auto
qed

text \<open>
  C33: \<open>hna_update\<close> when the local hosts changed or some are too old. Exactly the hosts that were not
  seen for \<open>AGE_THRESHOLD\<close> leave, never our own address; the announcement buffer then holds the
  addresses of the remaining hosts in list order, and the announced number is limited by 255 and by
  what fits into the MTU, and is the \<open>num_hna\<close> of the next originator message.
\<close>

theorem hna_update_spec:
  assumes "trans_ok s" "length (hna_list s) * 6 < 2 ^ 32" "first_if s = Some (i, my)"
    and "hna_changed s \<or> (\<exists>p \<in> set (hna_list s). stale s (hw_addr my) p)"
  shows "\<exists>s'. hna_update s = Some s' \<and> trans_ok s' \<and>
    hna_list s' = filter (\<lambda>p. \<not> stale s (hw_addr my) p) (hna_list s) \<and>
    elem_heap s' = (\<lambda>q. if q \<in> set (hna_list s) \<and> stale s (hw_addr my) q then None else elem_heap s q) \<and>
    \<not> hna_changed s' \<and>
    g_hna_buff s' = concat (map (\<lambda>p. mac_bytes (elem_key s' p)) (hna_list s')) \<and>
    unat (g_num_hna s') = min (length (hna_list s')) (min 255 (hna_space s)) \<and>
    if_heap s' i = Some (my\<lparr>out := (out my)\<lparr>num_hna := ucast (g_num_hna s')\<rparr>\<rparr>)"
  using hna_update_eq [OF assms] by blast

theorem hna_update_spec_witness:
  "\<exists>s s'. hna_add (MAC 2 0 0 0 0 1) (MAC 2 0 0 0 0 1) example_state = Some s \<and> hna_update s = Some s' \<and>
     g_hna_buff s' = [2, 0, 0, 0, 0, 1] \<and> unat (g_num_hna s') = 1"
proof -
  have "\<not> ignored_mac (MAC 2 0 0 0 0 1)" by (simp add: ignored_mac_def bcast_addr_def zero_addr_def)
  moreover have "host_map example_state (MAC 2 0 0 0 0 1) = None"
    by (simp add: host_map_def hash_map_def example_state_def)
  ultimately obtain s p where s: "hna_add (MAC 2 0 0 0 0 1) (MAC 2 0 0 0 0 1) example_state = Some s"
      "trans_ok s" "trans_frame example_state s" "hna_changed s" "hna_list s = [p]" "elem_key s p = MAC 2 0 0 0 0 1"
    using hna_add_absent [OF example_trans_ok, of "MAC 2 0 0 0 0 1" "MAC 2 0 0 0 0 1"]
    by (auto simp: example_state_def)
  let ?my = "\<lparr>raw_sock = 3, if_num = 0, hw_addr = MAC 2 0 0 0 0 1, bcast_seqno = 1, out = example_packet\<rparr>"
  have mtu: "first_if s = Some (10, ?my)" "tap_mtu s = 1471"
    using s(3) by (simp_all add: trans_frame_def first_if_def example_state_def)
  have "\<not> stale s (MAC 2 0 0 0 0 1) p"
    using s(6) by (auto simp: stale_def elem_key_def split: option.split)
  moreover have "hna_space s = 241"
    by (simp add: hna_space_def mtu BATMAN_MAXFRAMESIZE_def BATMAN_MAXPACKETSIZE_def sizeof_ether_header_def
        sizeof_bcast_packet_def sizeof_unicast_packet_def)
  moreover obtain s' where s': "hna_update s = Some s'" "hna_list s' = filter (\<lambda>p. \<not> stale s (MAC 2 0 0 0 0 1) p) (hna_list s)"
      "elem_heap s' = (\<lambda>q. if q \<in> set (hna_list s) \<and> stale s (MAC 2 0 0 0 0 1) q then None else elem_heap s q)"
      "g_hna_buff s' = concat (map (\<lambda>p. mac_bytes (elem_key s' p)) (hna_list s'))"
      "unat (g_num_hna s') = min (length (hna_list s')) (min 255 (hna_space s))"
    using hna_update_spec [OF s(2) _ mtu(1)] s(4,5) by auto
  moreover have "elem_key s' p = MAC 2 0 0 0 0 1"
    using s(6) s'(3) \<open>\<not> stale s (MAC 2 0 0 0 0 1) p\<close> by (simp add: elem_key_def)
  ultimately show ?thesis using s(1,5) by auto
qed

end
