(* ===== verification/Debug_Table.thy ===== *)
theory Debug_Table
  imports Trans_Table
begin

text \<open>
  \<open>debug_orig\<close> of \<open>src/originator.c\<close>: the tables of gateways and originators that the daemon shows the
  clients of the debug levels every second, and the formatting of addresses (\<open>addr_to_string\<close> of
  \<open>src/posix.c\<close>).

  The result is the list of the messages that \<open>debug_output\<close> gets, with their level and the text that
  the format string makes of the arguments. The flag \<open>'\<close> of a conversion groups the digits of a number
  and has no effect on strings. \<open>levels\<close> says for which indices \<open>clients_num\<close> is positive, \<open>if_dev\<close> gives
  the name of an interface, and \<open>rev\<close> is \<open>REVISION_VERSION\<close>.
\<close>

section \<open>Text\<close>

definition nl :: string where "nl = [CHR 0x20, CHR 0x0A]"

definition digit_char :: "nat \<Rightarrow> char" where
  "digit_char n = char_of (if n < 10 then 48 + n else 87 + n)"

fun dec :: "nat \<Rightarrow> string" where
  "dec n = (if n < 10 then [digit_char n] else dec (n div 10) @ [digit_char (n mod 10)])"

declare dec.simps [simp del]

definition hex2 :: "u8 \<Rightarrow> string" where
  "hex2 w = [digit_char (unat w div 16), digit_char (unat w mod 16)]"

definition padl :: "nat \<Rightarrow> string \<Rightarrow> string" where
  "padl n cs = replicate (n - length cs) CHR 0x20 @ cs"

definition padr :: "nat \<Rightarrow> string \<Rightarrow> string" where
  "padr n cs = cs @ replicate (n - length cs) CHR 0x20"

fun addr_to_string :: "mac \<Rightarrow> string" where
  "addr_to_string (MAC a b c d e f) =
     hex2 a @ '':'' @ hex2 b @ '':'' @ hex2 c @ '':'' @ hex2 d @ '':'' @ hex2 e @ '':'' @ hex2 f"

section \<open>The tables\<close>

type_synonym message = "int \<times> string"

record debug_env =
  levels :: "int \<Rightarrow> bool"
  if_dev :: "nat \<Rightarrow> string"
  rev_version :: string

definition version_text :: "debug_env \<Rightarrow> string" where
  "version_text e = ''0.1-beta'' @ (if take 1 (rev_version e) \<noteq> ''0'' then rev_version e else '''')"

definition uptime_text :: "u32 \<Rightarrow> string" where
  "uptime_text t = dec (unat (t div 86400)) @ ''d'' @ padl 2 (dec (unat (t mod 86400 div 3600))) @ ''h'' @
     padl 2 (dec (unat (t mod 3600 div 60))) @ ''m''"

definition quality_text :: "u8 \<Rightarrow> string" where
  "quality_text q = '' ('' @ padl 3 (dec (unat q)) @ '')''"

definition bod :: "int \<Rightarrow> message" where "bod l = (l, ''BOD'' @ nl)"
definition eod :: "int \<Rightarrow> message" where "eod l = (l, ''EOD'' @ nl)"

definition no_gateways :: message where "no_gateways = (2, ''No gateways in range ...'' @ nl)"

definition gateway_head :: "debug_env \<Rightarrow> u32 \<Rightarrow> nat \<times> batman_if \<Rightarrow> message" where
  "gateway_head e uptime x = (case x of (i, my) \<Rightarrow>
     (2, padl 14 ''Gateway'' @ ''     (#/255) '' @ padl 17 ''Nexthop'' @ '' ['' @ padl 10 ''outgoingIF'' @
        ''], gw_class ... [B.A.T.M.A.N. '' @ version_text e @ '', MainIF/IP: '' @ if_dev e i @ ''/'' @ addr_to_string (hw_addr my) @
        '', UT: '' @ uptime_text uptime @ '']'' @ nl))"

text \<open>The table of the gateways, and \<open>batman_count\<close> behind it. The lines of the table are commented out in the code.\<close>

definition debug_gateways :: "debug_env \<Rightarrow> u32 \<Rightarrow> bat_state \<Rightarrow> (message list \<times> u16) option" where
  "debug_gateways e uptime s =
     (if levels e 1 then do {
        x \<leftarrow> first_if s;
        let count = (if gw_list s = [] then 0 else 1);
        Some ([bod 2, gateway_head e uptime x] @
          (if gw_list s = [] then [no_gateways] else if count = 0 then [no_gateways] else []) @ [eod 2], count)
      }
      else Some ([], 0))"

definition columns :: string where
  "columns = ''  '' @ padr 14 ''Originator'' @ '' '' @ padl 16 ''Router'' @ '' (#/255): '' @ padl 20 ''Potential routers''"

definition originator_head :: "debug_env \<Rightarrow> u32 \<Rightarrow> batman_if \<Rightarrow> message" where
  "originator_head e uptime my =
     (1, columns @ ''... [B.A.T.M.A.N. '' @ version_text e @ '', Mac: '' @ addr_to_string (hw_addr my) @
        '', UT: '' @ uptime_text uptime @ '']'' @ nl)"

definition queue_text :: "nat \<times> forw_node \<Rightarrow> message" where
  "queue_text x = (4, ''    '' @ addr_to_string (orig (pack_head (snd x))) @ '' at '' @ dec (unat (send_time (snd x))) @ nl)"

definition no_nodes :: string where "no_nodes = ''No batman nodes in range ...'' @ nl"

definition end_debug :: message where
  "end_debug = (4, replicate 46 CHR ''-'' @ '' END DEBUG'' @ nl)"

definition debug_heads :: "debug_env \<Rightarrow> bat_state \<Rightarrow> message list" where
  "debug_heads e s =
     (if levels e 3 then
        [(4, replicate 18 CHR ''-'' @ '' DEBUG '' @ replicate 18 CHR ''-'' @ nl), (4, ''Forward list'' @ nl)] @
        map queue_text (forw_list s) @ [(4, ''Originator list'' @ nl), (4, columns @ [CHR 0x0A])]
      else [])"

fun debug_neighs :: "nat list \<Rightarrow> bat_state \<Rightarrow> message list option" where
  "debug_neighs [] s = Some []"
| "debug_neighs (q # qs) s = do {
     m \<leftarrow> neigh_heap s q;
     texts \<leftarrow> debug_neighs qs s;
     Some ((1, '' '' @ padl 17 (addr_to_string (n_addr m)) @ quality_text (tq_avg m)) #
           (4, [CHR 0x09, CHR 0x09] @ padl 17 (addr_to_string (n_addr m)) @ quality_text (tq_avg m) @ nl) # texts)
   }"

text \<open>The body of the loop over the table of originators, with \<open>batman_count\<close> and the messages so far.\<close>

definition debug_node :: "bat_state \<Rightarrow> nat \<Rightarrow> u16 \<times> message list \<Rightarrow> (bool \<times> u16 \<times> message list) option" where
  "debug_node s p x = (case x of (count, texts) \<Rightarrow> do {
     n \<leftarrow> orig_heap s p;
     (case router n of
        None \<Rightarrow> Some (False, count, texts)
      | Some r \<Rightarrow> do {
          m \<leftarrow> neigh_heap s r;
          let name = padr 17 (addr_to_string (o_orig n)) @ '' '';
          let via = padl 17 (addr_to_string (n_addr m)) @ quality_text (tq_avg m);
          neighs \<leftarrow> debug_neighs (neigh_list n) s;
          Some (False, count + 1, texts @ [(1, name), (1, via @ '':''), (4, name),
            (4, via @ '', last_valid: '' @ dec (unat (o_last_valid n)) @ '':'' @ nl)] @ neighs @ [(1, [CHR 0x0A])])
        })
   })"

definition debug_originators :: "debug_env \<Rightarrow> u32 \<Rightarrow> u16 \<Rightarrow> bat_state \<Rightarrow> message list option" where
  "debug_originators e uptime count s =
     (if levels e 0 \<or> levels e 3 then do {
        (i, my) \<leftarrow> first_if s;
        (h, count, texts) \<leftarrow> hash_loop (debug_node s) (orig_hash s) None
          (count, [bod 1, originator_head e uptime my] @ debug_heads e s);
        Some (texts @ (if count = 0 then [(1, no_nodes), (4, ''    '' @ no_nodes)] else []) @ [eod 1, end_debug])
      }
      else Some [])"

definition debug_orig :: "debug_env \<Rightarrow> bat_state \<Rightarrow> (message list \<times> bat_state) option" where
  "debug_orig e s = do {
     let (now, s) = get_time s;
     let uptime = now div 1000;
     (gateways, count) \<leftarrow> debug_gateways e uptime s;
     originators \<leftarrow> debug_originators e uptime count s;
     Some (gateways @ originators, s)
   }"

section \<open>Addresses\<close>

lemma digit_char_inj: "m < 16 \<Longrightarrow> n < 16 \<Longrightarrow> digit_char m = digit_char n \<longleftrightarrow> m = n"
  by (auto simp: digit_char_def)

lemma hex2_inj [simp]: "hex2 v = hex2 w \<longleftrightarrow> v = w"
proof
  assume "hex2 v = hex2 w"
  moreover have "unat x < 256" for x :: u8 using unat_u8_le [of x] by simp
  then have "unat x div 16 < 16" for x :: u8 by (simp add: less_mult_imp_div_less)
  ultimately have "unat v div 16 = unat w div 16" "unat v mod 16 = unat w mod 16" by (auto simp: hex2_def digit_char_inj)
  then have "unat v = unat w" by (metis mult_div_mod_eq)
  then show "v = w" by (simp only: word_unat_eq_iff)
qed simp

lemma hex2_shape: "\<exists>x y. hex2 w = [x, y]" by (simp add: hex2_def)

text \<open>The text of an address has 17 characters, and two addresses with the same text are the same.\<close>

lemma addr_to_string_length: "length (addr_to_string a) = 17"
  by (cases a) (simp add: hex2_def)

lemma addr_to_string_inj: "addr_to_string a = addr_to_string b \<longleftrightarrow> a = b"
proof
  assume eq: "addr_to_string a = addr_to_string b"
  obtain a1 a2 a3 a4 a5 a6 b1 b2 b3 b4 b5 b6 where ab: "a = MAC a1 a2 a3 a4 a5 a6" "b = MAC b1 b2 b3 b4 b5 b6" by (metis mac.exhaust)
  have len: "length (hex2 w) = 2" for w by (simp add: hex2_def)
  from eq show "a = b" by (simp add: ab append_eq_append_conv len)
qed simp

section \<open>What the clients see\<close>

lemma sweep_chain_fold:
  "(\<And>d x. d \<in> set (map snd c) \<Longrightarrow> body d x = Some (False, g d x)) \<Longrightarrow> sweep_chain body c x = Some (c, fold g (map snd c) x)"
  by (induction c arbitrary: x) (auto split: prod.splits)

lemma hash_loop_fold:
  assumes "table_ok hash" "\<And>d x. d \<in> set (hash_entries hash) \<Longrightarrow> body d x = Some (False, g d x)"
  shows "hash_loop body hash None x = Some (hash, fold g (hash_entries hash) x)"
proof -
  have "sweep_table body t x = Some (t, fold g (map snd (concat t)) x)"
    if "\<And>d x. d \<in> set (map snd (concat t)) \<Longrightarrow> body d x = Some (False, g d x)" for t x
    using that
  proof (induction t arbitrary: x)
    case (Cons c t)
    have "sweep_chain body c x = Some (c, fold g (map snd c) x)" by (rule sweep_chain_fold) (use Cons.prems in auto)
    moreover have "sweep_table body t y = Some (t, fold g (map snd (concat t)) y)" for y by (rule Cons.IH) (use Cons.prems in auto)
    ultimately show ?case by simp
  qed simp
  from this [of "table hash"] assms(2) show ?thesis by (simp add: hash_loop_sweep [OF assms(1)] hash_entries_def)
qed

definition tables_live :: "bat_state \<Rightarrow> bool" where
  "tables_live s \<longleftrightarrow> (\<forall>p \<in> set (hash_entries (orig_hash s)). \<exists>n. orig_heap s p = Some n \<and>
     (\<forall>q \<in> set (neigh_list n). neigh_heap s q \<noteq> None) \<and> (\<forall>r. router n = Some r \<longrightarrow> r \<in> set (neigh_list n)))"

definition routed :: "bat_state \<Rightarrow> nat \<Rightarrow> bool" where
  "routed s p \<longleftrightarrow> router (the (orig_heap s p)) \<noteq> None"

definition via_text :: "bat_state \<Rightarrow> nat \<Rightarrow> string" where
  "via_text s q = padl 17 (addr_to_string (n_addr (the (neigh_heap s q)))) @ quality_text (tq_avg (the (neigh_heap s q)))"

text \<open>What the clients of level 1 get for an originator: its router, and all its neighbours.\<close>

definition node_texts :: "bat_state \<Rightarrow> nat \<Rightarrow> string list" where
  "node_texts s p = (let n = the (orig_heap s p) in
     [padr 17 (addr_to_string (o_orig n)) @ '' '', via_text s (the (router n)) @ '':''] @
     map (\<lambda>q. '' '' @ via_text s q) (neigh_list n) @ [[CHR 0x0A]])"

definition texts_for :: "int \<Rightarrow> message list \<Rightarrow> string list" where
  "texts_for l ms = map snd (filter (\<lambda>t. fst t = l) ms)"

lemma texts_for_simps [simp]:
  "texts_for l [] = []" "texts_for l ((k, t) # ms) = (if k = l then [t] else []) @ texts_for l ms"
  "texts_for l (ms @ ns) = texts_for l ms @ texts_for l ns"
  by (simp_all add: texts_for_def)

lemma debug_neighs_eq:
  "\<forall>q \<in> set qs. neigh_heap s q \<noteq> None \<Longrightarrow>
   \<exists>ms. debug_neighs qs s = Some ms \<and> texts_for 1 ms = map (\<lambda>q. '' '' @ via_text s q) qs \<and> texts_for 2 ms = []"
  by (induction qs) (auto simp: via_text_def)

lemma debug_node_eq:
  assumes "tables_live s" "p \<in> set (hash_entries (orig_hash s))"
  shows "\<exists>ms. (\<forall>count texts. debug_node s p (count, texts) = Some (False, if routed s p then count + 1 else count, texts @ ms)) \<and>
    texts_for 1 ms = (if routed s p then node_texts s p else []) \<and> texts_for 2 ms = []"
proof -
  obtain n where n: "orig_heap s p = Some n" "\<forall>q \<in> set (neigh_list n). neigh_heap s q \<noteq> None"
      "\<forall>r. router n = Some r \<longrightarrow> r \<in> set (neigh_list n)" using assms by (auto simp: tables_live_def)
  obtain ms where ms: "debug_neighs (neigh_list n) s = Some ms" "texts_for 1 ms = map (\<lambda>q. '' '' @ via_text s q) (neigh_list n)" "texts_for 2 ms = []"
    using debug_neighs_eq [OF n(2)] by blast
  show ?thesis
  proof (cases "router n")
    case None
    with n(1) show ?thesis by (simp add: debug_node_def routed_def)
  next
    case (Some r)
    with n(2,3) obtain m where m: "neigh_heap s r = Some m" by blast
    let ?name = "padr 17 (addr_to_string (o_orig n)) @ '' ''" and ?via = "padl 17 (addr_to_string (n_addr m)) @ quality_text (tq_avg m)"
    show ?thesis using n(1) Some m ms
      by (intro exI [of _ "[(1, ?name), (1, ?via @ '':''), (4, ?name),
            (4, ?via @ '', last_valid: '' @ dec (unat (o_last_valid n)) @ '':'' @ nl)] @ ms @ [(1, [CHR 0x0A])]"])
        (simp add: debug_node_def routed_def node_texts_def via_text_def Let_def)
  qed
qed

lemma debug_nodes_eq:
  assumes "tables_live s" "table_ok (orig_hash s)"
  shows "\<exists>ms. hash_loop (debug_node s) (orig_hash s) None (count, texts) =
      Some (orig_hash s, count + of_nat (length (filter (routed s) (hash_entries (orig_hash s)))), texts @ ms) \<and>
    texts_for 1 ms = concat (map (node_texts s) (filter (routed s) (hash_entries (orig_hash s)))) \<and> texts_for 2 ms = []"
proof -
  obtain f where f: "\<And>p count texts. p \<in> set (hash_entries (orig_hash s)) \<Longrightarrow>
      debug_node s p (count, texts) = Some (False, if routed s p then count + 1 else count, texts @ f p)"
    "\<And>p. p \<in> set (hash_entries (orig_hash s)) \<Longrightarrow> texts_for 1 (f p) = (if routed s p then node_texts s p else []) \<and> texts_for 2 (f p) = []"
    using debug_node_eq [OF assms(1)] by metis
  let ?g = "\<lambda>p (count, texts). (if routed s p then count + 1 else count, texts @ f p)"
  have "hash_loop (debug_node s) (orig_hash s) None (count, texts) = Some (orig_hash s, fold ?g (hash_entries (orig_hash s)) (count, texts))"
    by (rule hash_loop_fold [OF assms(2)]) (use f(1) in auto)
  moreover have "fold ?g ps (count, texts) = (count + of_nat (length (filter (routed s) ps)), texts @ concat (map f ps))" for ps
    by (induction ps arbitrary: count texts) auto
  moreover have "texts_for 1 (concat (map f ps)) = concat (map (node_texts s) (filter (routed s) ps)) \<and> texts_for 2 (concat (map f ps)) = []"
    if "set ps \<subseteq> set (hash_entries (orig_hash s))" for ps
    using that by (induction ps) (auto simp: f(2))
  ultimately show ?thesis by (intro exI [of _ "concat (map f (hash_entries (orig_hash s)))"]) simp
qed

text \<open>\<open>debug_orig\<close> only reads the tables and the clock.\<close>

lemma debug_orig_returns:
  assumes "tables_live s" "table_ok (orig_hash s)" "first_if s = Some x"
  shows "\<exists>ms. debug_orig e s = Some (ms, s\<lparr>ticks := Suc (ticks s)\<rparr>)"
proof -
  define t where "t = s\<lparr>ticks := Suc (ticks s)\<rparr>"
  obtain i my where x: "x = (i, my)" by fastforce
  have t: "tables_live t" "table_ok (orig_hash t)" "first_if t = Some (i, my)"
    using assms by (simp_all add: t_def x tables_live_def) (simp add: first_if_def split: list.splits)
  obtain gs c where "debug_gateways e (clock s (ticks s) div 1000) t = Some (gs, c)"
    using t(3) by (cases "levels e 1") (simp_all add: debug_gateways_def Let_def)
  moreover have "\<exists>os. debug_originators e (clock s (ticks s) div 1000) c t = Some os"
  proof (cases "levels e 0 \<or> levels e 3")
    case True
    obtain count ms where "hash_loop (debug_node t) (orig_hash t) None
        (c, [bod 1, originator_head e (clock s (ticks s) div 1000) my] @ debug_heads e t) = Some (orig_hash t, count, ms)"
      using debug_nodes_eq [OF t(1,2)] by blast
    with True t(3) show ?thesis by (simp add: debug_originators_def)
  qed (simp add: debug_originators_def)
  ultimately show ?thesis by (auto simp: debug_orig_def get_time_def Let_def t_def [symmetric])
qed

section \<open>Property\<close>

text \<open>
  C40: \<open>debug_orig\<close> when the table of originators is live. It returns, and the clients of the first level
  get one line for every originator with a router, in the order of the table: the originator, its
  router and all its neighbours with their qualities, or the line that there is none. That line is
  missing when there are clients of the second level and a gateway is in the list, because the counter
  that is tested counts the table of the gateways as well. The clients of the second level get only the
  head of a table, or the line that there are no gateways.
\<close>

theorem debug_orig_spec:
  assumes "tables_live s" "table_ok (orig_hash s)" "first_if s = Some (i, my)" "length (hash_entries (orig_hash s)) < 65535"
    and "up = clock s (ticks s) div 1000" "nodes = filter (routed s) (hash_entries (orig_hash s))"
  shows "\<exists>ms. debug_orig e s = Some (ms, s\<lparr>ticks := Suc (ticks s)\<rparr>) \<and>
    texts_for 1 ms = (if levels e 0 \<or> levels e 3 then
        [''BOD'' @ nl, snd (originator_head e up my)] @ concat (map (node_texts s) nodes) @
        (if nodes = [] \<and> \<not> (levels e 1 \<and> gw_list s \<noteq> []) then [no_nodes] else []) @ [''EOD'' @ nl]
      else []) \<and>
    texts_for 2 ms = (if levels e 1 then
        [''BOD'' @ nl, snd (gateway_head e up (i, my))] @ (if gw_list s = [] then [snd no_gateways] else []) @ [''EOD'' @ nl]
      else [])"
proof -
  define t where "t = s\<lparr>ticks := Suc (ticks s)\<rparr>"
  have t: "tables_live t" "table_ok (orig_hash t)" "first_if t = Some (i, my)" "routed t = routed s" "node_texts t = node_texts s"
    using assms(1-3) by (simp_all add: t_def tables_live_def routed_def [abs_def] node_texts_def [abs_def] via_text_def)
      (simp add: first_if_def split: list.splits)
  define c :: u16 where "c = (if levels e 1 \<and> gw_list s \<noteq> [] then 1 else 0)"
  have gw: "\<exists>gs. debug_gateways e up t = Some (gs, c) \<and> texts_for 1 gs = [] \<and> texts_for 2 gs = (if levels e 1 then
      [''BOD'' @ nl, snd (gateway_head e up (i, my))] @ (if gw_list s = [] then [snd no_gateways] else []) @ [''EOD'' @ nl] else [])"
    using t(3) by (auto simp: debug_gateways_def c_def t_def bod_def eod_def gateway_head_def no_gateways_def)
  have len: "length nodes < 65535" unfolding assms(6) by (rule le_less_trans [OF length_filter_le assms(4)])
  have "unat (c + of_nat (length nodes)) = unat c + length nodes"
    using len by (auto simp: c_def unat_word_ariths(1) unsigned_of_nat take_bit_nat_eq_self mod_less)
  then have zero: "c + of_nat (length nodes) = 0 \<longleftrightarrow> nodes = [] \<and> \<not> (levels e 1 \<and> gw_list s \<noteq> [])"
    by (simp add: word_unat_eq_iff c_def)
  obtain ms where ms: "hash_loop (debug_node t) (orig_hash t) None (c, [bod 1, originator_head e up my] @ debug_heads e t) =
      Some (orig_hash t, c + of_nat (length nodes), ([bod 1, originator_head e up my] @ debug_heads e t) @ ms)"
      "texts_for 1 ms = concat (map (node_texts s) nodes)" "texts_for 2 ms = []"
    using debug_nodes_eq [OF t(1,2), of c "[bod 1, originator_head e up my] @ debug_heads e t"] t(4,5) by (auto simp: assms(6) t_def)
  have "texts_for 1 (map queue_text fs) = [] \<and> texts_for 2 (map queue_text fs) = []" for fs by (induction fs) (simp_all add: queue_text_def)
  then have heads: "texts_for 1 (debug_heads e t) = [] \<and> texts_for 2 (debug_heads e t) = []" by (simp add: debug_heads_def)
  have "\<exists>os. debug_originators e up c t = Some os \<and> texts_for 2 os = [] \<and> texts_for 1 os = (if levels e 0 \<or> levels e 3 then
        [''BOD'' @ nl, snd (originator_head e up my)] @ concat (map (node_texts s) nodes) @
        (if nodes = [] \<and> \<not> (levels e 1 \<and> gw_list s \<noteq> []) then [no_nodes] else []) @ [''EOD'' @ nl] else [])"
    using t(3) ms heads unfolding debug_originators_def zero [symmetric]
    by (simp add: bod_def eod_def originator_head_def end_debug_def)
  with gw show ?thesis by (auto simp: debug_orig_def get_time_def Let_def t_def [symmetric] assms(5))
qed

theorem debug_orig_spec_witness:
  "\<exists>ms. debug_orig \<lparr>levels = (\<lambda>l. l = 0), if_dev = (\<lambda>_. ''eth0''), rev_version = ''0''\<rparr> example_state =
      Some (ms, example_state\<lparr>ticks := 1\<rparr>) \<and>
    texts_for 1 ms = [''BOD'' @ nl, ''  Originator               Router (#/255):    Potential routers... [B.A.T.M.A.N. 0.1-beta, Mac: 02:00:00:00:00:01, UT: 0d 0h 0m]'' @ nl,
      no_nodes, ''EOD'' @ nl]"
proof -
  let ?e = "\<lparr>levels = (\<lambda>l. l = 0), if_dev = (\<lambda>_. ''eth0''), rev_version = ''0''\<rparr>"
  obtain my where my: "first_if example_state = Some (10, my)" "hw_addr my = MAC 2 0 0 0 0 1" by (simp add: first_if_def example_state_def)
  have e: "hash_entries (orig_hash example_state) = []" "table_ok (orig_hash example_state)"
    by (simp_all add: example_state_def hash_entries_def table_ok_def hash_new_def hash_init_def)
  have head: "snd (originator_head ?e 5 my) = ''  Originator               Router (#/255):    Potential routers... [B.A.T.M.A.N. 0.1-beta, Mac: 02:00:00:00:00:01, UT: 0d 0h 0m]'' @ nl"
    by (simp add: originator_head_def my(2) columns_def padl_def padr_def version_text_def hex2_def digit_char_def uptime_text_def dec.simps)
      code_simp
  have "tables_live example_state" by (simp add: tables_live_def e(1))
  moreover have "5 = clock example_state (ticks example_state) div 1000" by (simp add: example_state_def)
  moreover have t: "ticks example_state = 0" by (simp add: example_state_def)
  ultimately obtain ms where ms: "debug_orig ?e example_state = Some (ms, example_state\<lparr>ticks := Suc 0\<rparr>)"
      "texts_for 1 ms = [''BOD'' @ nl, snd (originator_head ?e 5 my), no_nodes, ''EOD'' @ nl]"
    using debug_orig_spec [of example_state 10 my 5 "[]" ?e] e my(1) by auto
  show ?thesis by (rule exI [of _ ms]) (use ms in \<open>simp only: head One_nat_def simp_thms\<close>)
qed

end
