(* ===== verification/Routes.thy ===== *)
theory Routes
  imports Trans_Table
begin

text \<open>
  \<open>update_routes\<close> and \<open>update_gw_list\<close> of \<open>src/batman-adv.c\<close>: the choice of the next hop of an
  originator together with the hosts it announces, and the list of the gateways.
\<close>

section \<open>Operations\<close>

text \<open>
  The buffer with the received announcement: none, the bytes behind the originator message in the
  receive buffer, or a buffer on the heap (\<open>purge_orig\<close> passes \<open>orig_node->hna_buff\<close>).
\<close>

datatype hna_recv = No_hna | Packet_hna "u8 list" | Heap_hna nat

definition hna_recv_bytes :: "hna_recv \<Rightarrow> int \<Rightarrow> bat_state \<Rightarrow> u8 list option" where
  "hna_recv_bytes src len s = do {
     bytes \<leftarrow> (case src of No_hna \<Rightarrow> None | Packet_hna bs \<Rightarrow> Some bs | Heap_hna b \<Rightarrow> buf_heap s b);
     if 0 \<le> len \<and> len \<le> int (length bytes) then Some (take (nat len) bytes) else None
   }"

definition update_router :: "nat \<Rightarrow> nat option \<Rightarrow> bat_state \<Rightarrow> bat_state option" where
  "update_router orig_node neigh_node s = do {
     n \<leftarrow> orig_heap s orig_node;
     if router n \<noteq> neigh_node then
       if (router n \<noteq> None \<and> neigh_node \<noteq> None) \<or> router n = None then do {
         p \<leftarrow> neigh_node;
         nn \<leftarrow> neigh_heap s p;
         Some (put_orig orig_node (n\<lparr>o_batman_if := Some (n_if_incoming nn), router := neigh_node\<rparr>) s)
       }
       else Some (put_orig orig_node (n\<lparr>router := neigh_node\<rparr>) s)
     else Some s
   }"

text \<open>The new copy of the announcement and the hosts in it.\<close>

definition hna_copy_buff :: "nat \<Rightarrow> hna_recv \<Rightarrow> int \<Rightarrow> bat_state \<Rightarrow> bat_state option" where
  "hna_copy_buff orig_node hna_recv_buff hna_len s = do {
     n \<leftarrow> orig_heap s orig_node;
     let b = brk s;
     bytes \<leftarrow> hna_recv_bytes hna_recv_buff hna_len s;
     let s = s\<lparr>buf_heap := (buf_heap s)(b \<mapsto> bytes), brk := Suc (brk s)\<rparr>;
     hna_add_buff orig_node (put_orig orig_node (n\<lparr>o_hna_buff := Some b, hna_buff_len := hna_len\<rparr>) s)
   }"

definition update_hna :: "nat \<Rightarrow> hna_recv \<Rightarrow> int \<Rightarrow> bat_state \<Rightarrow> bat_state option" where
  "update_hna orig_node hna_recv_buff hna_len s = do {
     n \<leftarrow> orig_heap s orig_node;
     (case (hna_recv_buff, o_hna_buff n) of
        (No_hna, None) \<Rightarrow> Some s
      | (_, None) \<Rightarrow> hna_copy_buff orig_node hna_recv_buff hna_len s
      | (No_hna, Some b) \<Rightarrow> hna_del_buff orig_node s
      | (_, Some b) \<Rightarrow> do {
          changed \<leftarrow>
            (if hna_len \<noteq> hna_buff_len n then Some True
             else do {
               new \<leftarrow> hna_recv_bytes hna_recv_buff hna_len s;
               old \<leftarrow> hna_recv_bytes (Heap_hna b) hna_len s;
               Some (memcmp new old = 0)
             });
          if changed then do {
            s \<leftarrow> hna_del_buff orig_node s;
            hna_copy_buff orig_node hna_recv_buff hna_len s
          }
          else Some s
        })
   }"

definition update_routes :: "nat \<Rightarrow> nat option \<Rightarrow> hna_recv \<Rightarrow> int \<Rightarrow> bat_state \<Rightarrow> bat_state option" where
  "update_routes orig_node neigh_node hna_recv_buff hna_len s = do {
     s \<leftarrow> update_router orig_node neigh_node s;
     update_hna orig_node hna_recv_buff hna_len s
   }"

text \<open>
  \<open>update_gw_list\<close>. The message about a new gateway reads \<open>gw2string[new_gwflags]\<close>.
\<close>

fun gw_update :: "nat \<Rightarrow> u8 \<Rightarrow> u32 \<Rightarrow> gw_node list \<Rightarrow> gw_node list option" where
  "gw_update orig_node new_gwflags now [] = None"
| "gw_update orig_node new_gwflags now (g # gs) =
     (if gw_orig_node g = orig_node
      then Some (g\<lparr>deleted := (if new_gwflags = 0 then now else 0)\<rparr> # gs)
      else map_option (\<lambda>gs. g # gs) (gw_update orig_node new_gwflags now gs))"

definition update_gw_list :: "nat \<Rightarrow> u8 \<Rightarrow> bat_state \<Rightarrow> bat_state option" where
  "update_gw_list orig_node new_gwflags s = do {
     n \<leftarrow> orig_heap s orig_node;
     if \<exists>g \<in> set (gw_list s). gw_orig_node g = orig_node then
       if new_gwflags = 0 then do {
         let (now, s) = get_time s;
         gws \<leftarrow> gw_update orig_node new_gwflags now (gw_list s);
         Some (s\<lparr>gw_list := gws\<rparr>)
       }
       else do {
         gws \<leftarrow> gw_update orig_node new_gwflags 0 (gw_list s);
         Some (put_orig orig_node (n\<lparr>o_gwflags := new_gwflags\<rparr>) (s\<lparr>gw_list := gws\<rparr>))
       }
     else do {
       _ \<leftarrow> array_get gw2string (uint new_gwflags);
       let (now, s) = get_time s;
       Some (s\<lparr>gw_list := gw_list s @ [\<lparr>gw_orig_node = orig_node, unavail_factor = 0, last_failure = now, deleted = 0\<rparr>]\<rparr>)
     }
   }"

section \<open>The announcement of an originator\<close>

text \<open>The map without the hosts of a list of elements.\<close>

definition withdraw_hosts :: "bat_state \<Rightarrow> nat list \<Rightarrow> (mac \<rightharpoonup> mac) \<Rightarrow> (mac \<rightharpoonup> mac)" where
  "withdraw_hosts s ps f m = (if \<exists>p \<in> set ps. elem_key s p = m then None else f m)"

lemma hna_copy_buff_eq:
  assumes "trans_ok s" "orig_heap s p = Some n" "hna_recv_bytes src len s = Some bytes"
  shows "\<exists>s' l. hna_copy_buff p src len s = Some s' \<and> trans_ok s' \<and>
    host_map s' = assign_hosts (macs_of bytes) (o_orig n) (host_map s) \<and>
    orig_heap s' p = Some (n\<lparr>o_hna_buff := Some (brk s), hna_buff_len := len, o_hna_list := l\<rparr>) \<and>
    trans_frame (put_orig p (n\<lparr>o_hna_buff := Some (brk s), hna_buff_len := len\<rparr>)
      (s\<lparr>buf_heap := (buf_heap s)(brk s \<mapsto> bytes), brk := Suc (brk s)\<rparr>)) s'"
proof -
  define n' where "n' = n\<lparr>o_hna_buff := Some (brk s), hna_buff_len := len\<rparr>"
  define t where "t = put_orig p n' (s\<lparr>buf_heap := (buf_heap s)(brk s \<mapsto> bytes), brk := Suc (brk s)\<rparr>)"
  have bytes: "0 \<le> len" "length bytes = nat len"
    using assms(3) by (auto simp: hna_recv_bytes_def bind_eq_Some_conv split: if_splits)
  have t: "trans_ok t \<and> host_map t = host_map s"
    by (rule trans_ok_fields [OF _ _ _ _ _ _ _ assms(1)]) (simp_all add: t_def put_orig_def n'_def assms(2))
  have tp: "orig_heap t p = Some n'" "buf_heap t = (buf_heap s)(brk s \<mapsto> bytes)"
    by (simp_all add: t_def put_orig_def)
  obtain s' where s': "hna_add_hosts p (macs_of bytes) t = Some s'" "trans_ok s'" "trans_frame t s'"
      "host_map s' = assign_hosts (macs_of bytes) (o_orig n') (host_map t)"
    using hna_add_hosts_eq [OF _ tp(1)] t by blast
  obtain l where "orig_heap s' p = Some (n'\<lparr>o_hna_list := l\<rparr>)" using trans_frame_orig [OF s'(3) tp(1)] by blast
  moreover have "hna_copy_buff p src len s = Some s'"
  proof -
    have "hna_copy_buff p src len s = hna_add_buff p t"
      using assms(2,3) by (simp add: hna_copy_buff_def t_def n'_def Let_def)
    also have "\<dots> = Some s'"
      using tp s'(1) bytes by (simp add: hna_add_buff_def n'_def)
    finally show ?thesis .
  qed
  ultimately show ?thesis using s'(2-4) t by (auto simp: n'_def t_def)
qed

text \<open>What the code does with a received announcement, by cases on the one it had before.\<close>

lemma update_hna_eq:
  assumes "trans_ok s" "orig_heap s p = Some n" "0 \<le> len" "len \<le> int (length bs)"
    and old: "\<And>b. o_hna_buff n = Some b \<Longrightarrow> buf_heap s b = Some old \<and> hna_buff_len n = int (length old)"
  shows "\<exists>s'. update_hna p (Packet_hna bs) len s = Some s' \<and> trans_ok s' \<and>
    (\<exists>l b. orig_heap s' p = Some (n\<lparr>o_hna_buff := Some b, hna_buff_len := len, o_hna_list := l\<rparr>)) \<and>
    host_map s' =
      (if o_hna_buff n = None then assign_hosts (macs_of (take (nat len) bs)) (o_orig n) (host_map s)
       else if len = hna_buff_len n \<and> take (nat len) bs \<noteq> old then host_map s
       else assign_hosts (macs_of (take (nat len) bs)) (o_orig n) (withdraw_hosts s (o_hna_list n) (host_map s)))"
proof (cases "o_hna_buff n")
  case None
  have "hna_recv_bytes (Packet_hna bs) len s = Some (take (nat len) bs)"
    using assms(3,4) by (simp add: hna_recv_bytes_def)
  from hna_copy_buff_eq [OF assms(1,2) this] None assms(2) show ?thesis
    by (auto simp: update_hna_def)
next
  case (Some b)
  have recv: "hna_recv_bytes (Packet_hna bs) len t = Some (take (nat len) bs)" for t
    using assms(3,4) by (simp add: hna_recv_bytes_def)
  have b: "buf_heap s b = Some old" "hna_buff_len n = int (length old)" using old [OF Some] by simp_all
  show ?thesis
  proof (cases "len = hna_buff_len n \<and> take (nat len) bs \<noteq> old")
    case True
    then have "length (take (nat len) bs) = length old" using b(2) assms(4) by simp
    then have "memcmp (take (nat len) bs) old \<noteq> 0" using True memcmp_0_iff by blast
    then have "update_hna p (Packet_hna bs) len s = Some s"
      using assms(2) Some b True recv [of s] by (simp add: update_hna_def hna_recv_bytes_def)
    moreover have "\<exists>l b. orig_heap s p = Some (n\<lparr>o_hna_buff := Some b, hna_buff_len := len, o_hna_list := l\<rparr>)"
      using assms(2) True Some by (intro exI [of _ "o_hna_list n"] exI [of _ b]) simp
    ultimately show ?thesis using assms(1) Some True by (elim conjE) simp
  next
    case False
    obtain t where t: "hna_del_buff p s = Some t" "trans_ok t"
        "orig_heap t p = Some (n\<lparr>o_hna_list := [], hna_buff_len := 0\<rparr>)"
        "\<And>m x. host_map t m = Some x \<longleftrightarrow> host_map s m = Some x \<and> (\<forall>q \<in> set (o_hna_list n). elem_key s q \<noteq> m)"
      using hna_del_buff_eq [OF assms(1,2) Some b(1)] by blast
    have hosts: "host_map t = withdraw_hosts s (o_hna_list n) (host_map s)"
    proof
      fix m
      show "host_map t m = withdraw_hosts s (o_hna_list n) (host_map s) m"
        by (rule option_eqI) (auto simp: t(4) withdraw_hosts_def)
    qed
    have "update_hna p (Packet_hna bs) len s = hna_copy_buff p (Packet_hna bs) len t"
      using assms(2) Some b False t(1) recv [of s]
      by (cases "len = hna_buff_len n") (auto simp: update_hna_def hna_recv_bytes_def)
    with hna_copy_buff_eq [OF t(2,3) recv] hosts False Some show ?thesis by fastforce
  qed
qed

lemma update_router_eq:
  assumes "orig_heap s p = Some n" "neigh_heap s q = Some nn"
  shows "update_router p (Some q) s =
    Some (if router n = Some q then s
          else put_orig p (n\<lparr>o_batman_if := Some (n_if_incoming nn), router := Some q\<rparr>) s)"
  using assms by (auto simp: update_router_def)

lemma trans_ok_put_orig:
  assumes "trans_ok s" "orig_heap s p = Some n" "o_hna_list n' = o_hna_list n"
  shows "trans_ok (put_orig p n' s) \<and> host_map (put_orig p n' s) = host_map s"
  by (rule trans_ok_fields [OF _ _ _ _ _ _ _ assms(1)]) (simp_all add: put_orig_def assms(2,3))

lemma elem_key_put_orig [simp]: "elem_key (put_orig p n s) = elem_key s"
  by (simp add: elem_key_def fun_eq_iff put_orig_def)

lemma withdraw_hosts_put_orig [simp]: "withdraw_hosts (put_orig p n s) = withdraw_hosts s"
  by (simp add: withdraw_hosts_def fun_eq_iff)


lemma gw_update_known:
  "\<exists>g \<in> set gs. gw_orig_node g = p \<Longrightarrow>
   \<exists>gs'. gw_update p f now gs = Some gs' \<and> map gw_orig_node gs' = map gw_orig_node gs \<and>
     (\<exists>g \<in> set gs'. gw_orig_node g = p \<and> deleted g = (if f = 0 then now else 0))"
  by (induction gs) fastforce+

lemma update_routes_eq:
  assumes "trans_ok s" "orig_heap s p = Some n" "neigh_heap s q = Some nn" "0 \<le> len" "len \<le> int (length bs)"
    and "\<And>b. o_hna_buff n = Some b \<Longrightarrow> buf_heap s b = Some old \<and> hna_buff_len n = int (length old)"
  shows "\<exists>s' n'. update_routes p (Some q) (Packet_hna bs) len s = Some s' \<and> trans_ok s' \<and>
    orig_heap s' p = Some n' \<and> router n' = Some q \<and> hna_buff_len n' = len \<and>
    o_batman_if n' = (if router n = Some q then o_batman_if n else Some (n_if_incoming nn)) \<and>
    host_map s' =
      (if o_hna_buff n = None then assign_hosts (macs_of (take (nat len) bs)) (o_orig n) (host_map s)
       else if len = hna_buff_len n \<and> take (nat len) bs \<noteq> old then host_map s
       else assign_hosts (macs_of (take (nat len) bs)) (o_orig n) (withdraw_hosts s (o_hna_list n) (host_map s)))"
proof -
  define n1 where "n1 = (if router n = Some q then n else n\<lparr>o_batman_if := Some (n_if_incoming nn), router := Some q\<rparr>)"
  define s1 where "s1 = (if router n = Some q then s else put_orig p n1 s)"
  have s1: "update_router p (Some q) s = Some s1"
    using update_router_eq [OF assms(2,3)] by (simp add: s1_def n1_def)
  have n1: "orig_heap s1 p = Some n1" "o_hna_list n1 = o_hna_list n" "o_orig n1 = o_orig n"
      "o_hna_buff n1 = o_hna_buff n" "hna_buff_len n1 = hna_buff_len n" "buf_heap s1 = buf_heap s"
    using assms(2) by (simp_all add: s1_def n1_def put_orig_def)
  have ok: "trans_ok s1" "host_map s1 = host_map s" "withdraw_hosts s1 = withdraw_hosts s"
    using assms(1) trans_ok_put_orig [OF assms(1,2) n1(2)] by (simp_all add: s1_def)
  obtain s' l b where s': "update_hna p (Packet_hna bs) len s1 = Some s'" "trans_ok s'"
      "orig_heap s' p = Some (n1\<lparr>o_hna_buff := Some b, hna_buff_len := len, o_hna_list := l\<rparr>)"
      "host_map s' =
        (if o_hna_buff n1 = None then assign_hosts (macs_of (take (nat len) bs)) (o_orig n1) (host_map s1)
         else if len = hna_buff_len n1 \<and> take (nat len) bs \<noteq> old then host_map s1
         else assign_hosts (macs_of (take (nat len) bs)) (o_orig n1) (withdraw_hosts s1 (o_hna_list n1) (host_map s1)))"
    using update_hna_eq [OF ok(1) n1(1) assms(4,5), of old] assms(6) n1(4-6) by auto
  have "update_routes p (Some q) (Packet_hna bs) len s = Some s'" using s1 s'(1) by (simp add: update_routes_def)
  with s' show ?thesis unfolding n1 ok by (auto simp: n1_def)
qed

section \<open>Properties\<close>

text \<open>
  C35: \<open>update_routes\<close> with a new best neighbour and the announcement of the received message. It
  returns, the neighbour becomes the router and its interface the outgoing one, and the hosts are
  handled on every branch as the code does: a first announcement assigns its hosts to the
  originator; a repeated one or one of another length withdraws the old hosts and assigns the new
  ones. An announcement of the same length but with different hosts is ignored: the test
  \<open>memcmp(...) == 0\<close> takes equal buffers as changed and different ones as unchanged.
\<close>

theorem update_routes_spec:
  assumes "trans_ok s" "orig_heap s p = Some n" "neigh_heap s q = Some nn" "0 \<le> len" "len \<le> int (length bs)"
    and "\<And>b. o_hna_buff n = Some b \<Longrightarrow> buf_heap s b = Some old \<and> hna_buff_len n = int (length old)"
  shows "\<exists>s' n'. update_routes p (Some q) (Packet_hna bs) len s = Some s' \<and> trans_ok s' \<and>
    orig_heap s' p = Some n' \<and> router n' = Some q \<and> hna_buff_len n' = len \<and>
    o_batman_if n' = (if router n = Some q then o_batman_if n else Some (n_if_incoming nn)) \<and>
    host_map s' =
      (if o_hna_buff n = None then assign_hosts (macs_of (take (nat len) bs)) (o_orig n) (host_map s)
       else if len = hna_buff_len n \<and> take (nat len) bs \<noteq> old then host_map s
       else assign_hosts (macs_of (take (nat len) bs)) (o_orig n) (withdraw_hosts s (o_hna_list n) (host_map s)))"
  using update_routes_eq [OF assms] .

definition example_orig_state :: bat_state where
  "example_orig_state = example_state\<lparr>
     orig_heap := [900 \<mapsto> new_orig_node (MAC 2 0 0 0 0 9) 2], neigh_heap := [901 \<mapsto> new_neigh_node (MAC 2 0 0 0 0 9) 900 11]\<rparr>"

lemma example_orig_trans_ok: "trans_ok example_orig_state"
proof -
  have "links_ok example_orig_state" "ifs_ok example_orig_state"
    by (simp_all add: links_ok_def ifs_ok_def example_orig_state_def example_state_def new_orig_node_def)
  then show ?thesis
    by (simp add: trans_ok_def) (simp add: example_orig_state_def example_state_def hash_new_mac_ok)
qed

theorem update_routes_spec_witness:
  "\<exists>s' n'. update_routes 900 (Some 901) (Packet_hna [2, 0, 0, 0, 0, 77]) 6 example_orig_state = Some s' \<and>
     orig_heap s' 900 = Some n' \<and> router n' = Some 901 \<and> o_batman_if n' = Some 11 \<and>
     host_map s' (MAC 2 0 0 0 0 77) = Some (MAC 2 0 0 0 0 9)"
proof -
  have n: "orig_heap example_orig_state 900 = Some (new_orig_node (MAC 2 0 0 0 0 9) 2)"
      "neigh_heap example_orig_state 901 = Some (new_neigh_node (MAC 2 0 0 0 0 9) 900 11)"
    by (simp_all add: example_orig_state_def)
  have "\<not> ignored_mac (MAC 2 0 0 0 0 77)" by (simp add: ignored_mac_def bcast_addr_def zero_addr_def)
  then show ?thesis
    using update_routes_spec [OF example_orig_trans_ok n, of 6 "[2, 0, 0, 0, 0, 77]" "[]"]
    by (auto simp: new_orig_node_def new_neigh_node_def)
qed

text \<open>
  \<open>purge_orig\<close> calls \<open>update_routes\<close> with the announcement buffer of the originator itself.
  The buffer is equal to itself, so it is taken as changed and freed before it is copied: the call
  reads freed memory whenever the originator has announced hosts.
\<close>

theorem update_routes_own_buffer_faults:
  assumes "trans_ok s" "orig_heap s p = Some n" "o_hna_buff n = Some b" "buf_heap s b = Some bytes"
    and "hna_buff_len n = int (length bytes)" "router n = neigh"
  shows "update_routes p neigh (Heap_hna b) (hna_buff_len n) s = None"
proof -
  obtain t where t: "hna_del_buff p s = Some t" "orig_heap t p \<noteq> None" "buf_heap t = (buf_heap s)(b := None)"
    using hna_del_buff_eq [OF assms(1-4)] by auto
  have "hna_copy_buff p (Heap_hna b) (hna_buff_len n) t = None"
    using t(2,3) by (auto simp: hna_copy_buff_def hna_recv_bytes_def)
  moreover have "update_router p neigh s = Some s" using assms(2,6) by (simp add: update_router_def)
  ultimately show ?thesis
    using assms(2-5) t(1) by (simp add: update_routes_def update_hna_def hna_recv_bytes_def)
qed

theorem update_routes_own_buffer_faults_witness:
  "update_routes 900 None (Heap_hna 902) 0
     (example_orig_state\<lparr>orig_heap := [900 \<mapsto> (new_orig_node (MAC 2 0 0 0 0 9) 2)\<lparr>o_hna_buff := Some 902\<rparr>],
        buf_heap := [902 \<mapsto> []]\<rparr>) = None"
proof -
  let ?n = "(new_orig_node (MAC 2 0 0 0 0 9) 2)\<lparr>o_hna_buff := Some 902\<rparr>"
  let ?s = "example_orig_state\<lparr>orig_heap := [900 \<mapsto> ?n], buf_heap := [902 \<mapsto> []]\<rparr>"
  have "trans_ok ?s"
    by (rule trans_ok_fields [OF _ _ _ _ _ _ _ example_orig_trans_ok, THEN conjunct1])
      (simp_all add: example_orig_state_def)
  from update_routes_own_buffer_faults [OF this, of 900 ?n 902 "[]" None] show ?thesis
    by (simp add: new_orig_node_def)
qed

text \<open>
  \<open>update_gw_list\<close> for a live originator. A known gateway keeps its place in the list and is
  marked as deleted now when it offers no gateway any more, or as usable again; an unknown one is
  appended, provided that its class is at most 11. A class from 12 to 255, which is whatever byte
  the received message carries, reads beyond the table of class names.
\<close>

theorem update_gw_list_spec:
  assumes "orig_heap s p = Some n"
  shows "if \<exists>g \<in> set (gw_list s). gw_orig_node g = p
    then \<exists>s'. update_gw_list p f s = Some s' \<and> map gw_orig_node (gw_list s') = map gw_orig_node (gw_list s) \<and>
      (\<exists>g \<in> set (gw_list s'). gw_orig_node g = p \<and> deleted g = (if f = 0 then clock s (ticks s) else 0))
    else if unat f \<le> 11
    then \<exists>s'. update_gw_list p f s = Some s' \<and> map gw_orig_node (gw_list s') = map gw_orig_node (gw_list s) @ [p]
    else update_gw_list p f s = None"
proof (cases "\<exists>g \<in> set (gw_list s). gw_orig_node g = p")
  case True
  from gw_update_known [OF this, of f "clock s (ticks s)"] gw_update_known [OF this, of f 0] True assms
  show ?thesis by (cases "f = 0") (auto simp: update_gw_list_def get_time_def put_orig_def)
next
  case False
  have "unat f \<le> 11 \<longleftrightarrow> uint f \<le> 11" unfolding unat_eq_nat_uint nat_le_iff by simp
  then have "array_get gw2string (uint f) = None \<longleftrightarrow> \<not> unat f \<le> 11"
    by (auto simp: array_get_None gw2string_def)
  with False assms show ?thesis
    by (cases "array_get gw2string (uint f)") (auto simp: update_gw_list_def get_time_def)
qed

theorem update_gw_list_spec_witness: "update_gw_list 900 200 example_orig_state = None"
proof -
  have n: "orig_heap example_orig_state 900 = Some (new_orig_node (MAC 2 0 0 0 0 9) 2)"
      "gw_list example_orig_state = []"
    by (simp_all add: example_orig_state_def example_state_def)
  show ?thesis using update_gw_list_spec [OF n(1), of 200] by (simp add: n(2))
qed

end
