(* ===== verification/Ranking.thy ===== *)
theory Ranking
  imports Routes
begin

text \<open>
  Ranking of the neighbours towards an originator: \<open>update_orig\<close>, which a received originator
  message runs through, and \<open>purge_orig\<close>, which drops originators, neighbours and gateways that
  were not heard of for a while (\<open>src/originator.c\<close>).
\<close>

section \<open>Operations\<close>

text \<open>\<open>n->orig_node->bcast_own_sum[if_incoming->if_num]\<close>\<close>

definition bcast_sum :: "bat_state \<Rightarrow> nat \<Rightarrow> nat \<Rightarrow> u8 option" where
  "bcast_sum s orig_node if_incoming = do {
     n \<leftarrow> orig_heap s orig_node;
     batman_if \<leftarrow> if_heap s if_incoming;
     array_get (bcast_own_sum n) (if_num batman_if)
   }"

text \<open>
  The best neighbour so far with its values. The comparison evaluates its operands in the order of
  the source, so \<open>bcast_own_sum\<close> is read only when the two averages are equal.
\<close>

record ranking =
  best_neigh_node :: "nat option"
  max_tq :: u8
  max_bcast_own :: u8

definition better_neigh :: "bat_state \<Rightarrow> nat option \<Rightarrow> nat \<Rightarrow> ranking \<Rightarrow> nat \<Rightarrow> neigh_node \<Rightarrow> bool option" where
  "better_neigh s cur_router if_incoming r p n =
     (if tq_avg n > max_tq r then Some True
      else if tq_avg n = max_tq r then do {
        b \<leftarrow> bcast_sum s (n_orig_node n) if_incoming;
        Some (b > max_bcast_own r \<or> cur_router = Some p)
      }
      else Some False)"

definition rank_neigh :: "bat_state \<Rightarrow> nat option \<Rightarrow> nat \<Rightarrow> nat \<Rightarrow> ranking \<Rightarrow> ranking option" where
  "rank_neigh s cur_router if_incoming p r = do {
     n \<leftarrow> neigh_heap s p;
     better \<leftarrow> better_neigh s cur_router if_incoming r p n;
     if better then do {
       b \<leftarrow> bcast_sum s (n_orig_node n) if_incoming;
       Some \<lparr>best_neigh_node = Some p, max_tq = tq_avg n, max_bcast_own = b\<rparr>
     }
     else Some r
   }"

text \<open>\<open>ring_buffer_set\<close> and \<open>ring_buffer_avg\<close> on the values of a neighbour.\<close>

definition neigh_tq_update :: "u8 \<Rightarrow> neigh_node \<Rightarrow> neigh_node option" where
  "neigh_tq_update v n = do {
     (recv, index) \<leftarrow> ring_buffer_set (tq_recv n) (tq_index n) v;
     avg \<leftarrow> ring_buffer_avg recv;
     Some (n\<lparr>tq_recv := recv, tq_index := index, tq_avg := avg\<rparr>)
   }"

text \<open>The loop over the neighbours of \<open>update_orig\<close>.\<close>

fun update_orig_loop ::
    "nat \<Rightarrow> mac \<Rightarrow> nat \<Rightarrow> bool \<Rightarrow> nat list \<Rightarrow> nat option \<Rightarrow> ranking \<Rightarrow> bat_state \<Rightarrow>
     (nat option \<times> ranking \<times> bat_state) option" where
  "update_orig_loop orig_node neigh if_incoming is_duplicate [] found r s = Some (found, r, s)"
| "update_orig_loop orig_node neigh if_incoming is_duplicate (p # ps) found r s = do {
     n \<leftarrow> neigh_heap s p;
     if compare_orig (n_addr n) neigh = 0 \<and> n_if_incoming n = if_incoming
     then update_orig_loop orig_node neigh if_incoming is_duplicate ps (Some p) r s
     else do {
       s \<leftarrow> (if is_duplicate then Some s else do { n \<leftarrow> neigh_tq_update 0 n; Some (put_neigh p n s) });
       on \<leftarrow> orig_heap s orig_node;
       r \<leftarrow> rank_neigh s (router on) if_incoming p r;
       update_orig_loop orig_node neigh if_incoming is_duplicate ps found r s
     }
   }"

definition update_orig ::
    "nat \<Rightarrow> mac \<Rightarrow> batman_packet \<Rightarrow> nat \<Rightarrow> u8 list \<Rightarrow> int \<Rightarrow> bool \<Rightarrow> u32 \<Rightarrow> bat_state \<Rightarrow> bat_state option" where
  "update_orig orig_node neigh inp if_incoming hna_recv_buff hna_len is_duplicate rcvd_time s = do {
     on \<leftarrow> orig_heap s orig_node;
     (found, r, s) \<leftarrow>
       update_orig_loop orig_node neigh if_incoming is_duplicate (neigh_list on) None
         \<lparr>best_neigh_node = None, max_tq = 0, max_bcast_own = 0\<rparr> s;
     (neigh_node, s) \<leftarrow>
       (case found of
          Some p \<Rightarrow> Some (p, s)
        | None \<Rightarrow> do {
            (orig_neigh_node, s) \<leftarrow> get_orig_node neigh s;
            create_neighbor orig_node orig_neigh_node neigh if_incoming s
          });
     n \<leftarrow> neigh_heap s neigh_node;
     n \<leftarrow> neigh_tq_update (tq inp) (n\<lparr>n_last_valid := rcvd_time\<rparr>);
     let n = (if is_duplicate then n else n\<lparr>n_last_ttl := ttl inp\<rparr>);
     let s = put_neigh neigh_node n s;
     on \<leftarrow> orig_heap s orig_node;
     let s = (if is_duplicate then s else put_orig orig_node (on\<lparr>o_last_ttl := ttl inp\<rparr>) s);
     r \<leftarrow> rank_neigh s (router on) if_incoming neigh_node r;
     let tmp_hna_len = (if hna_len > uint (num_hna inp) * 6 then uint (num_hna inp) * 6 else hna_len);
     s \<leftarrow> update_routes orig_node (best_neigh_node r) (Packet_hna hna_recv_buff) tmp_hna_len s;
     on \<leftarrow> orig_heap s orig_node;
     s \<leftarrow> (if o_gwflags on \<noteq> gwflags inp then update_gw_list orig_node (gwflags inp) s else Some s);
     on \<leftarrow> orig_heap s orig_node;
     Some (put_orig orig_node (on\<lparr>o_gwflags := gwflags inp\<rparr>) s)
   }"

section \<open>Purging\<close>

definition free_neigh :: "nat \<Rightarrow> bat_state \<Rightarrow> bat_state option" where
  "free_neigh p s = do { _ \<leftarrow> neigh_heap s p; Some (s\<lparr>neigh_heap := (neigh_heap s)(p := None)\<rparr>) }"

fun free_neighs :: "nat list \<Rightarrow> bat_state \<Rightarrow> bat_state option" where
  "free_neighs [] s = Some s"
| "free_neighs (p # ps) s = do { s \<leftarrow> free_neigh p s; free_neighs ps s }"

text \<open>The first gateway entry of the originator that is not deleted yet is marked.\<close>

fun gw_mark_deleted :: "nat \<Rightarrow> u32 \<Rightarrow> gw_node list \<Rightarrow> gw_node list option" where
  "gw_mark_deleted orig_node now [] = None"
| "gw_mark_deleted orig_node now (g # gs) =
     (if deleted g = 0 \<and> gw_orig_node g = orig_node then Some (g\<lparr>deleted := now\<rparr> # gs)
      else map_option (\<lambda>gs. g # gs) (gw_mark_deleted orig_node now gs))"

definition purge_gw_of :: "nat \<Rightarrow> bat_state \<Rightarrow> bat_state" where
  "purge_gw_of orig_node s =
     (if \<exists>g \<in> set (gw_list s). deleted g = 0 \<and> gw_orig_node g = orig_node
      then let (now, s) = get_time s in
        s\<lparr>gw_list := (case gw_mark_deleted orig_node now (gw_list s) of Some gs \<Rightarrow> gs | None \<Rightarrow> gw_list s)\<rparr>
      else s)"

definition purge_dead_orig :: "nat \<Rightarrow> bat_state \<Rightarrow> bat_state option" where
  "purge_dead_orig orig_node s = do {
     n \<leftarrow> orig_heap s orig_node;
     s \<leftarrow> free_neighs (neigh_list n) (put_orig orig_node (n\<lparr>neigh_list := []\<rparr>) s);
     s \<leftarrow> update_routes orig_node None No_hna 0 (purge_gw_of orig_node s);
     Some (s\<lparr>orig_heap := (orig_heap s)(orig_node := None)\<rparr>)
   }"

text \<open>
  The neighbours of a live originator: the ones that are kept, whether some were freed, and the
  best of the kept ones.
\<close>

fun purge_neighs ::
    "u32 \<Rightarrow> nat list \<Rightarrow> nat option \<Rightarrow> bat_state \<Rightarrow> (nat list \<times> bool \<times> nat option \<times> bat_state) option" where
  "purge_neighs now [] best s = Some ([], False, best, s)"
| "purge_neighs now (p # ps) best s = do {
     n \<leftarrow> neigh_heap s p;
     if n_last_valid n + PURGE_TIMEOUT < now
     then do {
       s \<leftarrow> free_neigh p s;
       (kept, purged, best, s) \<leftarrow> purge_neighs now ps best s;
       Some (kept, True, best, s)
     }
     else do {
       best \<leftarrow>
         (case best of
            None \<Rightarrow> Some (Some p)
          | Some q \<Rightarrow> do { m \<leftarrow> neigh_heap s q; Some (if tq_avg n > tq_avg m then Some p else Some q) });
       (kept, purged, best, s) \<leftarrow> purge_neighs now ps best s;
       Some (p # kept, purged, best, s)
     }
   }"

definition purge_live_orig :: "u32 \<Rightarrow> nat \<Rightarrow> bat_state \<Rightarrow> bat_state option" where
  "purge_live_orig now orig_node s = do {
     n \<leftarrow> orig_heap s orig_node;
     (kept, neigh_purged, best, s) \<leftarrow> purge_neighs now (neigh_list n) None s;
     let s = put_orig orig_node (n\<lparr>neigh_list := kept\<rparr>) s;
     let hna = (case o_hna_buff n of None \<Rightarrow> No_hna | Some b \<Rightarrow> Heap_hna b);
     if \<not> neigh_purged then Some s
     else (case (best, router n) of
         (None, _) \<Rightarrow> update_routes orig_node best hna (hna_buff_len n) s
       | (Some q, None) \<Rightarrow> update_routes orig_node best hna (hna_buff_len n) s
       | (Some q, Some r) \<Rightarrow> do {
           nq \<leftarrow> neigh_heap s q;
           nr \<leftarrow> neigh_heap s r;
           if tq_avg nq > tq_avg nr then update_routes orig_node best hna (hna_buff_len n) s else Some s
         })
   }"

text \<open>The body of the loop of \<open>purge_orig\<close>; the result says that the bucket was removed.\<close>

definition purge_body :: "u32 \<Rightarrow> nat \<Rightarrow> bat_state \<Rightarrow> (bool \<times> bat_state) option" where
  "purge_body now orig_node s = do {
     n \<leftarrow> orig_heap s orig_node;
     if o_last_valid n + PURGE_TIMEOUT < now
     then map_option (\<lambda>s. (True, s)) (purge_dead_orig orig_node s)
     else map_option (\<lambda>s. (False, s)) (purge_live_orig now orig_node s)
   }"

definition purge_orig :: "u32 \<Rightarrow> bat_state \<Rightarrow> bat_state option" where
  "purge_orig now s = do {
     (h, s) \<leftarrow> hash_loop (purge_body now) (orig_hash s) None s;
     let s = s\<lparr>orig_hash := h\<rparr>;
     Some (s\<lparr>gw_list := filter (\<lambda>g. \<not> (deleted g \<noteq> 0 \<and> deleted g + 3 * PURGE_TIMEOUT < now)) (gw_list s)\<rparr>)
   }"

end
