(* ===== verification/Schedule.thy ===== *)
theory Schedule
  imports Routes
begin

text \<open>
  The queue of originator messages of \<open>src/schedule.c\<close> and sending them (\<open>send_packet\<close> of
  \<open>src/posix-specific.c\<close>, \<open>rawsock_write\<close> of \<open>src/linux.c\<close>).

  An entry of \<open>forw_list\<close> is a pair of its address and the node. \<open>list_del\<close> is called with the head
  of the queue as the predecessor of the removed entry, which drops everything before it as well
  (proved for the pointer level of the lists); the model of the send loop does the same.
\<close>

section \<open>Sending\<close>

definition writev :: "int \<Rightarrow> mac \<Rightarrow> mac \<Rightarrow> u8 list \<Rightarrow> bat_state \<Rightarrow> write_result \<times> bat_state" where
  "writev sock shost dhost bytes s =
     (let r = writes s (written s); s = s\<lparr>written := Suc (written s)\<rparr> in
      if r = Written
      then (r, s\<lparr>sent := \<lparr>f_sock = sock, f_shost = shost, f_dhost = dhost, f_bytes = bytes\<rparr> # sent s\<rparr>)
      else (r, s))"

text \<open>
  \<open>rawsock_write\<close> tries \<open>PACKETS_PER_CYCLE\<close> times, and drops the packet when the socket is busy
  every time. It returns 0 (\<open>Written\<close>), or \<open>- 1\<close> with the error of the socket.
\<close>

fun rawsock_write_tries :: "nat \<Rightarrow> int \<Rightarrow> mac \<Rightarrow> mac \<Rightarrow> u8 list \<Rightarrow> bat_state \<Rightarrow> write_result \<times> bat_state" where
  "rawsock_write_tries 0 sock shost dhost bytes s = (Written, s)"
| "rawsock_write_tries (Suc i) sock shost dhost bytes s =
     (case writev sock shost dhost bytes s of
        (Written, s) \<Rightarrow> (Written, s)
      | (Try_again, s) \<Rightarrow> rawsock_write_tries i sock shost dhost bytes s
      | (Write_error, s) \<Rightarrow> (Write_error, s))"

definition rawsock_write :: "int \<Rightarrow> mac \<Rightarrow> mac \<Rightarrow> u8 list \<Rightarrow> bat_state \<Rightarrow> write_result \<times> bat_state" where
  "rawsock_write sock shost dhost bytes s = rawsock_write_tries PACKETS_PER_CYCLE sock shost dhost bytes s"

text \<open>\<open>send_packet\<close> has the same loop around \<open>rawsock_write\<close>. The result says whether it returns 0.\<close>

fun send_packet_tries :: "nat \<Rightarrow> u8 list \<Rightarrow> mac \<Rightarrow> mac \<Rightarrow> int \<Rightarrow> bat_state \<Rightarrow> bool \<times> bat_state" where
  "send_packet_tries 0 bytes send_addr recv_addr send_sock s = (True, s)"
| "send_packet_tries (Suc i) bytes send_addr recv_addr send_sock s =
     (case rawsock_write send_sock send_addr recv_addr bytes s of
        (Written, s) \<Rightarrow> (True, s)
      | (Try_again, s) \<Rightarrow> send_packet_tries i bytes send_addr recv_addr send_sock s
      | (Write_error, s) \<Rightarrow> (False, s))"

definition send_packet :: "u8 list \<Rightarrow> mac \<Rightarrow> mac \<Rightarrow> int \<Rightarrow> bat_state \<Rightarrow> bool \<times> bat_state" where
  "send_packet bytes send_addr recv_addr send_sock s =
     send_packet_tries PACKETS_PER_CYCLE bytes send_addr recv_addr send_sock s"

section \<open>Scheduling\<close>

text \<open>An own message is queued before the first entry with a later time, or at the tail.\<close>

fun forw_insert :: "nat \<times> forw_node \<Rightarrow> (nat \<times> forw_node) list \<Rightarrow> (nat \<times> forw_node) list" where
  "forw_insert new [] = [new]"
| "forw_insert new (f # fs) =
     (if send_time (snd f) > send_time (snd new) then new # f # fs else f # forw_insert new fs)"

text \<open>The window of an originator for our own messages on an interface moves by one.\<close>

definition count_own_bcast :: "int \<Rightarrow> nat \<Rightarrow> bat_state \<Rightarrow> (bool \<times> bat_state) option" where
  "count_own_bcast ifnum orig_node s = do {
     n \<leftarrow> orig_heap s orig_node;
     ws \<leftarrow> window_get (bcast_own n) ifnum;
     (_, ws) \<leftarrow> bit_get_packet ws 1 False;
     c \<leftarrow> bit_packet_count ws;
     sums \<leftarrow> array_set (bcast_own_sum n) ifnum (word_of_int c);
     Some (False, put_orig orig_node (n\<lparr>bcast_own := window_put (bcast_own n) ifnum ws, bcast_own_sum := sums\<rparr>) s)
   }"

definition own_forw_node :: "nat \<Rightarrow> bat_state \<Rightarrow> (forw_node \<times> bat_state) option" where
  "own_forw_node ifp s = do {
     batman_if \<leftarrow> if_heap s ifp;
     let (now, s) = get_time s;
     let (r, s) = rand_num (2 * JITTER) s;
     let hna_len = unat (g_num_hna s) * 6;
     if hna_len \<le> length (g_hna_buff s)
     then Some (\<lparr>send_time = now + word_of_int (originator_interval s - JITTER + r), own = True,
                 pack_head = out batman_if, pack_tail = take hna_len (g_hna_buff s), if_outgoing = Some ifp\<rparr>, s)
     else None
   }"

definition schedule_own_packet :: "nat \<Rightarrow> bat_state \<Rightarrow> bat_state option" where
  "schedule_own_packet ifp s = do {
     (forw_node_new, s) \<leftarrow> own_forw_node ifp s;
     let s = s\<lparr>forw_list := forw_insert (brk s, forw_node_new) (forw_list s), brk := Suc (brk s)\<rparr>;
     batman_if \<leftarrow> if_heap s ifp;
     let s = put_if ifp (batman_if\<lparr>out := (out batman_if)\<lparr>seqno := seqno (out batman_if) + 1\<rparr>\<rparr>) s;
     (h, s) \<leftarrow> hash_loop (count_own_bcast (if_num batman_if)) (orig_hash s) None s;
     Some (s\<lparr>orig_hash := h\<rparr>)
   }"

text \<open>
  \<open>schedule_forward_packet\<close>: the message that is rebroadcast for a received one, \<^term>\<open>None\<close> when
  its time to live is used up.
\<close>

definition forward_packet :: "neigh_node option \<Rightarrow> mac \<Rightarrow> batman_packet \<Rightarrow> bool \<Rightarrow> batman_packet option" where
  "forward_packet best neigh inp directlink =
     (if ttl inp \<le> 1 then None
      else
        let p = inp\<lparr>ttl := ttl inp - 1, old_orig := neigh\<rparr>;
            p = (case best of
                   None \<Rightarrow> p
                 | Some r \<Rightarrow>
                   if tq_avg r \<noteq> 0 \<and> compare_orig (n_addr r) neigh \<noteq> 0
                   then p\<lparr>tq := tq_avg r, ttl := n_last_ttl r - 1\<rparr> else p);
            p = p\<lparr>tq := word_of_int ((uint (tq p) * (TQ_MAX_VALUE - TQ_HOP_PENALTY)) div TQ_MAX_VALUE)\<rparr>
        in Some (p\<lparr>flags := (if directlink then DIRECTLINK else 0)\<rparr>))"

definition schedule_forward_packet ::
    "nat \<Rightarrow> mac \<Rightarrow> batman_packet \<Rightarrow> u8 list \<Rightarrow> bool \<Rightarrow> nat \<Rightarrow> bat_state \<Rightarrow> bat_state option" where
  "schedule_forward_packet orig_node neigh inp tail directlink ifp s =
     (if ttl inp \<le> 1 then Some s
      else do {
        n \<leftarrow> orig_heap s orig_node;
        best \<leftarrow> (case router n of None \<Rightarrow> Some None | Some q \<Rightarrow> map_option Some (neigh_heap s q));
        p \<leftarrow> forward_packet best neigh inp directlink;
        let (now, s) = get_time s;
        Some (s\<lparr>forw_list :=
          (brk s, \<lparr>send_time = now, own = False, pack_head = p, pack_tail = tail, if_outgoing = Some ifp\<rparr>) # forw_list s,
          brk := Suc (brk s)\<rparr>)
      })"

section \<open>Sending the messages that are due\<close>

definition send_on :: "batman_packet \<Rightarrow> u8 list \<Rightarrow> batman_if \<Rightarrow> bat_state \<Rightarrow> bool \<times> bat_state" where
  "send_on p tail batman_if s =
     send_packet (bytes_of_batman_packet (little_endian s) p @ tail) (hw_addr batman_if) broadcastAddr (raw_sock batman_if) s"

text \<open>A message on every interface; the flag for a direct link is set on its own interface only.\<close>

fun send_on_all ::
    "batman_packet \<Rightarrow> u8 list \<Rightarrow> bool \<Rightarrow> nat option \<Rightarrow> nat list \<Rightarrow> bat_state \<Rightarrow> (bool \<times> bat_state) option" where
  "send_on_all p tail directlink outgoing [] s = Some (True, s)"
| "send_on_all p tail directlink outgoing (i # is) s = do {
     batman_if \<leftarrow> if_heap s i;
     let (ok, s) = send_on (p\<lparr>flags := (if directlink \<and> outgoing = Some i then DIRECTLINK else 0)\<rparr>) tail batman_if s;
     if ok then send_on_all p tail directlink outgoing is s else Some (False, s)
   }"

definition send_forw_node :: "forw_node \<Rightarrow> bat_state \<Rightarrow> (bool \<times> bat_state) option" where
  "send_forw_node f s = do {
     let directlink = (flags (pack_head f) AND DIRECTLINK \<noteq> 0);
     let p = (pack_head f)\<lparr>seqno := htons (little_endian s) (seqno (pack_head f))\<rparr>;
     if directlink \<and> ttl p = 1 then
       (case if_outgoing f of
          None \<Rightarrow> Some (True, s)
        | Some i \<Rightarrow> do { batman_if \<leftarrow> if_heap s i; Some (send_on p (pack_tail f) batman_if s) })
     else if directlink \<and> if_outgoing f = None then Some (True, s)
     else do {
       single \<leftarrow> (if own f then do { i \<leftarrow> if_outgoing f; batman_if \<leftarrow> if_heap s i; Some (if_num batman_if > 0) }
                  else Some False);
       if single then do {
         i \<leftarrow> if_outgoing f;
         batman_if \<leftarrow> if_heap s i;
         Some (send_on p (pack_tail f) batman_if s)
       }
       else send_on_all p (pack_tail f) directlink (if_outgoing f) (if_list s) s
     }
   }"

text \<open>The position of an entry in the queue: the node and the entries behind it.\<close>

fun forw_at :: "nat \<Rightarrow> (nat \<times> forw_node) list \<Rightarrow> (forw_node \<times> (nat \<times> forw_node) list) option" where
  "forw_at p [] = None"
| "forw_at p ((q, f) # fs) = (if q = p then Some (f, fs) else forw_at p fs)"

text \<open>
  The loop \<open>list_for_each_safe\<close> from the entry \<open>pos\<close> on. The result is \<open>False\<close> when the daemon
  exits because a packet could not be sent.
\<close>

partial_function (option) send_loop :: "u32 \<Rightarrow> nat option \<Rightarrow> bat_state \<Rightarrow> (bool \<times> bat_state) option" where
  "send_loop now pos s =
     (case pos of
        None \<Rightarrow> Some (True, s)
      | Some p \<Rightarrow> do {
          (f, rest) \<leftarrow> forw_at p (forw_list s);
          let temp = (case rest of [] \<Rightarrow> None | (q, _) # _ \<Rightarrow> Some q);
          if send_time f \<le> now then do {
            (ok, s) \<leftarrow> send_forw_node f s;
            if ok then do {
              let s = s\<lparr>forw_list := rest\<rparr>;
              s \<leftarrow> (if own f then do { i \<leftarrow> if_outgoing f; schedule_own_packet i s } else Some s);
              send_loop now temp s
            }
            else Some (False, s)
          }
          else Some (True, s)
        })"

definition send_outstanding_packets :: "bat_state \<Rightarrow> (bool \<times> bat_state) option" where
  "send_outstanding_packets s =
     (case forw_list s of
        [] \<Rightarrow> Some (True, s)
      | (p, _) # _ \<Rightarrow> let (now, s) = get_time s in send_loop now (Some p) s)"

section \<open>Rebroadcast messages\<close>

lemma hop_penalty_eq:
  "uint (word_of_int ((uint (v :: u8) * (TQ_MAX_VALUE - TQ_HOP_PENALTY)) div TQ_MAX_VALUE) :: u8) = uint v * 245 div 255"
proof -
  define x where "x = uint v"
  have "0 \<le> x" "x < 256" using uint_lt2p [of v] by (simp_all add: x_def)
  then have "0 \<le> x * 245 div 255" "x * 245 div 255 \<le> x" by (simp_all add: pos_imp_zdiv_nonneg_iff div_mult_le del: mult.commute)
  then have "0 \<le> x * 245 div 255" "x * 245 div 255 < 256" using \<open>x < 256\<close> by linarith+
  then have "0 \<le> uint v * 245 div 255" "uint v * 245 div 255 < 256" by (simp_all only: x_def)
  then show ?thesis by (simp add: TQ_MAX_VALUE_def TQ_HOP_PENALTY_def uint_word_of_int)
qed

text \<open>The quality and the time to live that a rebroadcast starts from.\<close>

definition forward_base :: "neigh_node option \<Rightarrow> mac \<Rightarrow> batman_packet \<Rightarrow> u8 \<times> u8" where
  "forward_base best neigh inp =
     (case best of
        Some r \<Rightarrow> if tq_avg r \<noteq> 0 \<and> n_addr r \<noteq> neigh then (tq_avg r, n_last_ttl r) else (tq inp, ttl inp)
      | None \<Rightarrow> (tq inp, ttl inp))"

lemma forward_packet_eq:
  "forward_packet best neigh inp dl =
     (if ttl inp \<le> 1 then None
      else Some (inp\<lparr>ttl := snd (forward_base best neigh inp) - 1, old_orig := neigh,
        tq := word_of_int ((uint (fst (forward_base best neigh inp)) * (TQ_MAX_VALUE - TQ_HOP_PENALTY)) div TQ_MAX_VALUE),
        flags := (if dl then DIRECTLINK else 0)\<rparr>))"
  by (cases best) (auto simp: forward_packet_def forward_base_def Let_def)

section \<open>Properties\<close>

text \<open>
  C36: the message that \<open>schedule_forward_packet\<close> queues for a received one. Nothing is forwarded
  when the time to live is used up. Otherwise the message keeps its originator, sequence number and
  announcement count, names the neighbour as its previous sender, and has the quality of the best
  route reduced by the hop penalty (strictly smaller unless it is 0). The time to live is the one of
  the best route less one, and is 255 when the last time to live that was recorded for the best
  neighbour is 0.
\<close>

theorem forward_packet_spec:
  "if ttl inp \<le> 1 then forward_packet best neigh inp dl = None
   else \<exists>p. forward_packet best neigh inp dl = Some p \<and>
     orig p = orig inp \<and> seqno p = seqno inp \<and> num_hna p = num_hna inp \<and> old_orig p = neigh \<and>
     flags p = (if dl then DIRECTLINK else 0) \<and>
     uint (tq p) = uint (fst (forward_base best neigh inp)) * 245 div 255 \<and>
     (fst (forward_base best neigh inp) \<noteq> 0 \<longrightarrow> tq p < fst (forward_base best neigh inp)) \<and>
     unat (ttl p) = (if snd (forward_base best neigh inp) = 0 then 255
       else unat (snd (forward_base best neigh inp)) - 1)"
proof (cases "ttl inp \<le> 1")
  case False
  define b where "b = fst (forward_base best neigh inp)"
  define l where "l = snd (forward_base best neigh inp)"
  have "uint b * 245 div 255 < uint b" if "b \<noteq> 0"
  proof -
    have "0 < uint b" using that by (simp add: word_neq_0_conv word_less_def)
    then show ?thesis by simp
  qed
  moreover have "unat (l - 1) = (if l = 0 then 255 else unat l - 1)"
    by (simp add: unat_minus_one unat_minus_1_u8)
  ultimately show ?thesis using False hop_penalty_eq [of b]
    by (simp add: forward_packet_eq b_def [symmetric] l_def [symmetric] word_less_def)
qed (simp add: forward_packet_eq)

theorem forward_packet_spec_witness:
  "\<exists>p. forward_packet None (MAC 2 0 0 0 0 9) \<lparr>packet_type = BAT_PACKET, version = COMPAT_VERSION, flags = 0, ttl = 50,
     gwflags = 0, tq = 255, seqno = 7, orig = MAC 2 0 0 0 0 5, old_orig = MAC 2 0 0 0 0 5, num_hna = 0, pad = 0\<rparr> False =
     Some p \<and> uint (tq p) = 245 \<and> unat (ttl p) = 49 \<and> tq p < 255"
proof -
  let ?inp = "\<lparr>packet_type = BAT_PACKET, version = COMPAT_VERSION, flags = 0, ttl = 50, gwflags = 0, tq = 255,
    seqno = 7, orig = MAC 2 0 0 0 0 5, old_orig = MAC 2 0 0 0 0 5, num_hna = 0, pad = 0\<rparr>"
  have "forward_base None (MAC 2 0 0 0 0 9) ?inp = (255, 50)" "\<not> ttl ?inp \<le> 1"
    by (simp_all add: forward_base_def word_le_nat_alt)
  then show ?thesis using forward_packet_spec [of ?inp None "MAC 2 0 0 0 0 9" False] by force
qed

end
