(* ===== verification/Ogm.thy ===== *)
theory Ogm
  imports Ranking Schedule
begin

text \<open>
  Processing of a received originator message (OGM): the bodies of \<open>isBidirectionalNeigh\<close>,
  \<open>count_real_packets\<close> and of the receive branch of \<open>batman\<close> in \<open>src/batman-adv.c\<close>.
\<close>

section \<open>Link quality\<close>

text \<open>
  The arithmetic of \<open>isBidirectionalNeigh\<close> on \<open>int\<close>, with the results converted to \<open>uint8_t\<close>:
  the local quality, the penalty for asymmetric links, and the quality of the message.
\<close>

definition local_tq :: "u8 \<Rightarrow> u8 \<Rightarrow> u8" where
  "local_tq own_sum real_count =
     (let total_count = (if own_sum > real_count then real_count else own_sum) in
      if uint total_count < TQ_LOCAL_BIDRECT_SEND_MINIMUM \<or> uint real_count < TQ_LOCAL_BIDRECT_RECV_MINIMUM
      then 0
      else word_of_int ((TQ_MAX_VALUE * uint total_count) sdiv uint real_count))"

definition asym_penalty :: "u8 \<Rightarrow> int" where
  "asym_penalty real_count =
     (let missing = TQ_LOCAL_WINDOW_SIZE - uint real_count in
      TQ_MAX_VALUE - (TQ_MAX_VALUE * missing * missing * missing) sdiv
        (TQ_LOCAL_WINDOW_SIZE * TQ_LOCAL_WINDOW_SIZE * TQ_LOCAL_WINDOW_SIZE))"

definition link_tq :: "u8 \<Rightarrow> u8 \<Rightarrow> int \<Rightarrow> u8" where
  "link_tq in_tq own_tq penalty =
     word_of_int ((uint in_tq * uint own_tq * penalty) sdiv (TQ_MAX_VALUE * TQ_MAX_VALUE))"

definition isBidirectionalNeigh ::
    "nat \<Rightarrow> nat \<Rightarrow> batman_packet \<Rightarrow> u32 \<Rightarrow> nat \<Rightarrow> bat_state \<Rightarrow> (bool \<times> batman_packet \<times> bat_state) option" where
  "isBidirectionalNeigh orig_node orig_neigh_node inp recv_time if_incoming s = do {
     q \<leftarrow> orig_heap s orig_neigh_node;
     found \<leftarrow> find_neigh s (o_orig q) if_incoming (neigh_list q) None;
     (neigh_node, s) \<leftarrow>
       (case found of
          Some p \<Rightarrow> Some (p, s)
        | None \<Rightarrow> create_neighbor orig_neigh_node orig_neigh_node (o_orig q) if_incoming s);
     n \<leftarrow> neigh_heap s neigh_node;
     let n = (if orig_node = orig_neigh_node then n\<lparr>n_last_valid := recv_time\<rparr> else n);
     let s = put_neigh neigh_node n s;
     o1 \<leftarrow> orig_heap s orig_node;
     let s = put_orig orig_node (o1\<lparr>o_last_valid := recv_time\<rparr>) s;
     own_sum \<leftarrow> bcast_sum s orig_neigh_node if_incoming;
     q \<leftarrow> orig_heap s orig_neigh_node;
     let own_tq = local_tq own_sum (real_packet_count n);
     let penalty = asym_penalty (real_packet_count n);
     let s = put_orig orig_neigh_node (q\<lparr>tq_own := own_tq, tq_asym_penalty := penalty\<rparr>) s;
     let inp = inp\<lparr>tq := link_tq (tq inp) own_tq penalty\<rparr>;
     Some (uint (tq inp) \<ge> TQ_TOTAL_BIDRECT_LIMIT, inp, s)
   }"

section \<open>Counting packets\<close>

fun count_real_loop ::
    "mac \<Rightarrow> u16 \<Rightarrow> nat \<Rightarrow> u16 \<Rightarrow> nat list \<Rightarrow> bool \<Rightarrow> bat_state \<Rightarrow> (bool \<times> bat_state) option" where
  "count_real_loop neigh sq if_incoming last_real [] is_duplicate s = Some (is_duplicate, s)"
| "count_real_loop neigh sq if_incoming last_real (p # ps) is_duplicate s = do {
     n \<leftarrow> neigh_heap s p;
     is_duplicate \<leftarrow> (if \<not> is_duplicate then get_bit_status (real_bits n) last_real sq else Some is_duplicate);
     (_, bits) \<leftarrow> bit_get_packet (real_bits n) (to_s16 (uint sq - uint last_real))
       (compare_orig (n_addr n) neigh = 0 \<and> n_if_incoming n = if_incoming);
     c \<leftarrow> bit_packet_count bits;
     count_real_loop neigh sq if_incoming last_real ps is_duplicate
       (put_neigh p (n\<lparr>real_bits := bits, real_packet_count := word_of_int c\<rparr>) s)
   }"

definition count_real_packets ::
    "mac \<Rightarrow> batman_packet \<Rightarrow> nat \<Rightarrow> bat_state \<Rightarrow> (bool \<times> bat_state) option" where
  "count_real_packets neigh inp if_incoming s = do {
     (orig_node, s) \<leftarrow> get_orig_node (orig inp) s;
     n \<leftarrow> orig_heap s orig_node;
     (is_duplicate, s) \<leftarrow> count_real_loop neigh (seqno inp) if_incoming (last_real_seqno n) (neigh_list n) False s;
     n \<leftarrow> orig_heap s orig_node;
     Some (is_duplicate,
       if is_duplicate then s else put_orig orig_node (n\<lparr>last_real_seqno := seqno inp\<rparr>) s)
   }"

section \<open>A received message\<close>

text \<open>
  The loop over our interfaces: whether the sender, the originator and the previous sender are
  ourselves, and whether the sender is the broadcast address.
\<close>

record ogm_origin =
  is_my_addr :: bool
  is_my_orig :: bool
  is_my_oldorig :: bool
  is_broadcast :: bool

fun ogm_classify ::
    "bat_state \<Rightarrow> mac \<Rightarrow> batman_packet \<Rightarrow> nat list \<Rightarrow> ogm_origin \<Rightarrow> ogm_origin option" where
  "ogm_classify s neigh inp [] r = Some r"
| "ogm_classify s neigh inp (i # is) r = do {
     batman_if \<leftarrow> if_heap s i;
     ogm_classify s neigh inp is
       \<lparr>is_my_addr = is_my_addr r \<or> compare_orig neigh (hw_addr batman_if) = 0,
        is_my_orig = is_my_orig r \<or> compare_orig (orig inp) (hw_addr batman_if) = 0,
        is_my_oldorig = is_my_oldorig r \<or> compare_orig (old_orig inp) (hw_addr batman_if) = 0,
        is_broadcast = is_broadcast r \<or> compare_orig neigh broadcastAddr = 0\<rparr>
   }"

text \<open>
  Our own message comes back from a neighbour. It counts for the link when it has the flag for a
  direct link and the sequence number of our last message: the numbers are promoted to \<open>int\<close>.
\<close>

definition ogm_own_echo :: "mac \<Rightarrow> batman_packet \<Rightarrow> bool \<Rightarrow> nat \<Rightarrow> bat_state \<Rightarrow> bat_state option" where
  "ogm_own_echo neigh inp has_directlink if_incoming s = do {
     (q, s) \<leftarrow> get_orig_node neigh s;
     i \<leftarrow> if_heap s if_incoming;
     if has_directlink \<and> uint (seqno inp) - uint (seqno (out i)) + 2 = 0 then do {
       n \<leftarrow> orig_heap s q;
       ws \<leftarrow> window_get (bcast_own n) (if_num i);
       ws \<leftarrow> bit_mark ws 0;
       c \<leftarrow> bit_packet_count ws;
       sums \<leftarrow> array_set (bcast_own_sum n) (if_num i) (word_of_int c);
       Some (put_orig q (n\<lparr>bcast_own := window_put (bcast_own n) (if_num i) ws, bcast_own_sum := sums\<rparr>) s)
     }
     else Some s
   }"

text \<open>The message of another originator.\<close>

definition ogm_foreign ::
    "mac \<Rightarrow> batman_packet \<Rightarrow> u8 list \<Rightarrow> nat \<Rightarrow> bat_state \<Rightarrow> bat_state option" where
  "ogm_foreign neigh inp tail if_incoming s = do {
     let is_single_hop_neigh = (compare_orig neigh (orig inp) = 0);
     (is_duplicate, s) \<leftarrow> count_real_packets neigh inp if_incoming s;
     (p, s) \<leftarrow> get_orig_node (orig inp) s;
     (q, s) \<leftarrow> (if is_single_hop_neigh then Some (p, s) else get_orig_node neigh s);
     nq \<leftarrow> orig_heap s q;
     if \<not> is_single_hop_neigh \<and> router nq = None then Some s
     else do {
       (is_bidirectional, inp, s) \<leftarrow> isBidirectionalNeigh p q inp (curr_time s) if_incoming s;
       np \<leftarrow> orig_heap s p;
       s \<leftarrow>
         (if is_bidirectional \<and>
             (\<not> is_duplicate \<or>
              (last_real_seqno np = seqno inp \<and> uint (o_last_ttl np) - 3 \<le> uint (ttl inp)))
          then update_orig p neigh inp if_incoming tail (int (length tail)) is_duplicate (curr_time s) s
          else Some s);
       if is_single_hop_neigh then schedule_forward_packet p neigh inp tail True if_incoming s
       else if is_bidirectional \<and> \<not> is_duplicate then schedule_forward_packet p neigh inp tail False if_incoming s
       else Some s
     }
   }"

text \<open>
  The receive branch of the main loop, for a message with \<open>tail\<close> behind the \<open>struct batman_packet\<close>
  (\<open>receive_packet\<close> drops shorter packets).
\<close>

definition process_ogm :: "mac \<Rightarrow> batman_packet \<Rightarrow> u8 list \<Rightarrow> nat \<Rightarrow> bat_state \<Rightarrow> bat_state option" where
  "process_ogm neigh inp tail if_incoming s = do {
     let (now, s) = get_time s;
     let s = s\<lparr>curr_time := now\<rparr>;
     let has_directlink_flag = (flags inp AND DIRECTLINK \<noteq> 0);
     _ \<leftarrow> if_heap s if_incoming;
     r \<leftarrow> ogm_classify s neigh inp (if_list s)
       \<lparr>is_my_addr = False, is_my_orig = False, is_my_oldorig = False, is_broadcast = False\<rparr>;
     if version inp \<noteq> COMPAT_VERSION then Some s
     else if is_my_addr r then Some s
     else if is_broadcast r then Some s
     else if is_my_orig r then ogm_own_echo neigh inp has_directlink_flag if_incoming s
     else if tq inp = 0 then do {
       (is_duplicate, s) \<leftarrow> count_real_packets neigh inp if_incoming s;
       Some s
     }
     else if is_my_oldorig r then Some s
     else ogm_foreign neigh inp tail if_incoming s
   }"

section \<open>Visualisation\<close>

text \<open>
  The packet grows by one \<open>debugRealloc\<close> for every entry, and its size is kept in 16 bits. The function
  \<open>junk\<close> gives the contents of memory that was not written. Writing outside of the packet is undefined.
\<close>

definition vis_grow :: "(nat \<Rightarrow> u8) \<Rightarrow> u32 \<Rightarrow> bat_state \<Rightarrow> bat_state option" where
  "vis_grow junk n s = do {
     v \<leftarrow> vis_packet_buff s;
     let size = vis_packet_size s + ucast n;
     Some (s\<lparr>vis_packet_size := size, vis_packet_buff := Some (take (unat size) v @ map junk [length v ..< unat size])\<rparr>)
   }"

definition vis_put :: "int \<Rightarrow> vis_data \<Rightarrow> bat_state \<Rightarrow> bat_state option" where
  "vis_put off d s = do {
     v \<leftarrow> vis_packet_buff s;
     if 0 \<le> off \<and> off + sizeof_vis_data \<le> int (length v)
     then Some (s\<lparr>vis_packet_buff := Some (take (nat off) v @ bytes_of_vis_data d @ drop (nat (off + sizeof_vis_data)) v)\<rparr>)
     else None
   }"

text \<open>An entry for a neighbour or an interface.\<close>

definition vis_add :: "(nat \<Rightarrow> u8) \<Rightarrow> vis_data \<Rightarrow> bat_state \<Rightarrow> bat_state option" where
  "vis_add junk d s = do {
     s \<leftarrow> vis_grow junk (word_of_int sizeof_vis_data) s;
     vis_put (uint (vis_packet_size s) - sizeof_vis_data) d s
   }"

definition vis_neighbour :: "(nat \<Rightarrow> u8) \<Rightarrow> nat \<Rightarrow> bat_state \<Rightarrow> (bool \<times> bat_state) option" where
  "vis_neighbour junk orig_node s = do {
     n \<leftarrow> orig_heap s orig_node;
     (case router n of
        None \<Rightarrow> Some (False, s)
      | Some q \<Rightarrow> do {
          r \<leftarrow> neigh_heap s q;
          if memcmp (mac_bytes (o_orig n)) (mac_bytes (n_addr r)) = 0 \<and> tq_avg r > 0 then do {
            s \<leftarrow> vis_add junk \<lparr>vis_type = DATA_TYPE_NEIGH, vis_value = tq_avg r, vis_mac = o_orig n\<rparr> s;
            Some (False, s)
          }
          else Some (False, s)
        })
   }"

text \<open>An interface is skipped when its address differs from the one of the first interface.\<close>

fun vis_interfaces :: "(nat \<Rightarrow> u8) \<Rightarrow> mac \<Rightarrow> nat list \<Rightarrow> bat_state \<Rightarrow> bat_state option" where
  "vis_interfaces junk sender [] s = Some s"
| "vis_interfaces junk sender (i # is) s = do {
     batman_if \<leftarrow> if_heap s i;
     if memcmp (mac_bytes sender) (mac_bytes (hw_addr batman_if)) \<noteq> 0 then vis_interfaces junk sender is s
     else do {
       s \<leftarrow> vis_add junk \<lparr>vis_type = DATA_TYPE_SEC_IF, vis_value = 0, vis_mac = hw_addr batman_if\<rparr> s;
       vis_interfaces junk sender is s
     }
   }"

text \<open>The hosts from the one on whose number is \<open>num_hna\<close> less the length of the list.\<close>

fun vis_hna_loop :: "mac list \<Rightarrow> bat_state \<Rightarrow> bat_state option" where
  "vis_hna_loop [] s = Some s"
| "vis_hna_loop (m # ms) s = do {
     s \<leftarrow> vis_put (uint (vis_packet_size s) - uint (of_nat (length (m # ms)) * word_of_int sizeof_vis_data :: u32))
       \<lparr>vis_type = DATA_TYPE_HNA, vis_value = 0, vis_mac = m\<rparr> s;
     vis_hna_loop ms s
   }"

definition vis_hna :: "(nat \<Rightarrow> u8) \<Rightarrow> bat_state \<Rightarrow> bat_state option" where
  "vis_hna junk s = do {
     s \<leftarrow> vis_grow junk (word_of_int sizeof_vis_data * g_num_hna s) s;
     if unat (g_num_hna s) * 6 \<le> length (g_hna_buff s)
     then vis_hna_loop (macs_of (take (unat (g_num_hna s) * 6) (g_hna_buff s))) s
     else None
   }"

text \<open>\<open>generate_vis_packet\<close>: the two padding bytes are whatever the allocated memory held.\<close>

definition generate_vis_packet :: "(nat \<Rightarrow> u8) \<Rightarrow> bat_state \<Rightarrow> bat_state option" where
  "generate_vis_packet junk s = do {
     (_, my) \<leftarrow> first_if s;
     let s = s\<lparr>vis_packet_size := word_of_int sizeof_vis_packet, vis_packet_buff := Some (bytes_of_vis_packet
       \<lparr>gw_class = gateway_class s, seq_range = word_of_int TQ_MAX_VALUE, vis_pad = (junk 2, junk 3),
        vis_version = VIS_COMPAT_VERSION, sender_mac = hw_addr my\<rparr>)\<rparr>;
     (h, s) \<leftarrow> hash_loop (vis_neighbour junk) (orig_hash s) None s;
     let s = s\<lparr>orig_hash := h\<rparr>;
     s \<leftarrow> (if found_ifs s > 1 then vis_interfaces junk (hw_addr my) (if_list s) s else Some s);
     s \<leftarrow> (if g_num_hna s > 0 then vis_hna junk s else Some s);
     Some (if uint (vis_packet_size s) = sizeof_vis_packet then s\<lparr>vis_packet_buff := None, vis_packet_size := 0\<rparr> else s)
   }"

section \<open>Link quality\<close>

lemma uint_word_of_int_u8: "0 \<le> x \<Longrightarrow> x < 256 \<Longrightarrow> uint (word_of_int x :: u8) = x"
  by (simp add: uint_word_of_int)

lemma local_tq_eq:
  "uint (local_tq own_sum real_count) =
     (if own_sum = 0 \<or> real_count = 0 then 0
      else 255 * min (uint own_sum) (uint real_count) div uint real_count)"
  "0 \<le> uint (local_tq own_sum real_count)" "uint (local_tq own_sum real_count) \<le> 255"
proof -
  let ?o = "uint own_sum" and ?r = "uint real_count"
  define tot where "tot = min ?o ?r"
  have nn: "0 \<le> ?o" "0 \<le> ?r" by simp_all
  have zero: "own_sum = 0 \<longleftrightarrow> ?o = 0" "real_count = 0 \<longleftrightarrow> ?r = 0" by (simp_all add: word_uint_eq_iff)
  have tot: "uint (if own_sum > real_count then real_count else own_sum) = tot"
    by (simp add: tot_def word_less_def min_def)
  show eq: "uint (local_tq own_sum real_count) = (if own_sum = 0 \<or> real_count = 0 then 0 else 255 * tot div ?r)"
    (is "_ = ?R")
  proof (cases "own_sum = 0 \<or> real_count = 0")
    case True
    then have "tot < 1 \<or> ?r < 1" using nn by (auto simp: tot_def zero)
    then show ?thesis using True
      by (auto simp: local_tq_def tot Let_def TQ_LOCAL_BIDRECT_SEND_MINIMUM_def TQ_LOCAL_BIDRECT_RECV_MINIMUM_def)
  next
    case False
    then have "?o \<noteq> 0" "?r \<noteq> 0" by (auto simp: zero)
    then have "1 \<le> ?o" "1 \<le> ?r" using nn by linarith+
    then have pos: "1 \<le> tot" "1 \<le> ?r" "tot \<le> ?r" by (simp_all add: tot_def)
    then have "255 * tot div ?r \<le> 255" by (intro div_mult_le) auto
    moreover have "0 \<le> 255 * tot div ?r" using pos by (simp add: pos_imp_zdiv_nonneg_iff)
    ultimately have "uint (word_of_int (255 * tot div ?r) :: u8) = 255 * tot div ?r"
      by (intro uint_word_of_int_u8) auto
    with pos False show ?thesis
      by (simp add: local_tq_def tot Let_def TQ_LOCAL_BIDRECT_SEND_MINIMUM_def
          TQ_LOCAL_BIDRECT_RECV_MINIMUM_def TQ_MAX_VALUE_def sdiv_nonneg)
  qed
  show "0 \<le> uint (local_tq own_sum real_count)" by simp
  show "uint (local_tq own_sum real_count) \<le> 255" using uint_lt2p [of "local_tq own_sum real_count"] by simp
qed

lemma asym_penalty_eq:
  assumes "unat real_count \<le> 64"
  shows "asym_penalty real_count = 255 - 255 * (64 - uint real_count) ^ 3 div 262144"
    "0 \<le> asym_penalty real_count" "asym_penalty real_count \<le> 255"
proof -
  define k where "k = 64 - uint real_count"
  have "int (unat real_count) \<le> int 64" using assms by (rule of_nat_mono)
  then have k: "0 \<le> k" "k \<le> 64" by (simp_all add: k_def)
  have cube: "0 \<le> k ^ 3" "k ^ 3 \<le> 64 ^ 3" using k power_mono [of k 64 3] by simp_all
  have "255 * k * k * k = 255 * k ^ 3" by (simp add: power3_eq_cube)
  then show eq: "asym_penalty real_count = 255 - 255 * (64 - uint real_count) ^ 3 div 262144"
    using cube k by (simp add: asym_penalty_def TQ_MAX_VALUE_def TQ_LOCAL_WINDOW_SIZE_def Let_def
        k_def [symmetric] sdiv_nonneg)
  have "255 * k ^ 3 div 262144 \<le> 255" using cube by (intro div_mult_le) auto
  moreover have "0 \<le> 255 * k ^ 3 div 262144" using cube by (simp add: pos_imp_zdiv_nonneg_iff)
  ultimately show "0 \<le> asym_penalty real_count" "asym_penalty real_count \<le> 255"
    by (simp_all add: eq k_def)
qed

lemma link_tq_eq:
  assumes "0 \<le> penalty" "penalty \<le> 255"
  shows "uint (link_tq in_tq own_tq penalty) = uint in_tq * uint own_tq * penalty div 65025"
    "uint (link_tq in_tq own_tq penalty) \<le> uint in_tq"
proof -
  have b: "0 \<le> uint in_tq" "uint in_tq \<le> 255" "0 \<le> uint own_tq" "uint own_tq \<le> 255"
    using uint_lt2p [of in_tq] uint_lt2p [of own_tq] by simp_all
  have k: "0 \<le> uint own_tq * penalty" "uint own_tq * penalty \<le> 255 * 255"
    using b assms by (simp, intro mult_mono) auto
  have le: "uint in_tq * (uint own_tq * penalty) div 65025 \<le> uint in_tq"
    using k b by (intro div_mult_le) auto
  moreover have "0 \<le> uint in_tq * (uint own_tq * penalty)" using b k by simp
  ultimately show eq: "uint (link_tq in_tq own_tq penalty) = uint in_tq * uint own_tq * penalty div 65025"
    using b by (simp add: link_tq_def TQ_MAX_VALUE_def sdiv_nonneg mult.assoc uint_word_of_int_u8)
  show "uint (link_tq in_tq own_tq penalty) \<le> uint in_tq" unfolding eq using le by (simp add: mult.assoc)
qed

section \<open>Properties\<close>

text \<open>
  The link quality of \<open>isBidirectionalNeigh\<close>, for a neighbour from which at most 64 packets of
  the window were received. There is no division by zero and no truncation: the local quality is
  the share of our messages that came back, never more than 255; the penalty for asymmetric links
  is between 0 and 255; the quality of the message never grows, and a message over a perfect link
  keeps its quality.
\<close>

theorem link_quality_spec:
  assumes "unat real_count \<le> 64"
  shows "uint (local_tq own_sum real_count) =
      (if own_sum = 0 \<or> real_count = 0 then 0
       else 255 * min (uint own_sum) (uint real_count) div uint real_count) \<and>
    0 \<le> asym_penalty real_count \<and> asym_penalty real_count \<le> 255 \<and>
    uint (link_tq t (local_tq own_sum real_count) (asym_penalty real_count)) =
      uint t * uint (local_tq own_sum real_count) * asym_penalty real_count div 65025 \<and>
    link_tq t (local_tq own_sum real_count) (asym_penalty real_count) \<le> t \<and>
    (real_count = 64 \<and> own_sum \<ge> 64 \<longrightarrow> link_tq t (local_tq own_sum real_count) (asym_penalty real_count) = t)"
proof -
  note pen = asym_penalty_eq [OF assms] and tq = link_tq_eq [OF asym_penalty_eq(2,3) [OF assms], of t "local_tq own_sum real_count"]
  have "link_tq t (local_tq own_sum real_count) (asym_penalty real_count) = t" if "real_count = 64" "own_sum \<ge> 64"
  proof -
    have "64 \<le> uint own_sum" using that(2) by (simp add: word_le_def)
    moreover have "own_sum \<noteq> 0" using that(2) by auto
    ultimately have "uint (local_tq own_sum real_count) = 255" using local_tq_eq(1) [of own_sum real_count] that(1) by simp
    moreover have "asym_penalty real_count = 255" using pen(1) that(1) by simp
    ultimately have "uint (link_tq t (local_tq own_sum real_count) (asym_penalty real_count)) = uint t"
      using tq(1) by simp
    then show ?thesis by (simp add: word_uint_eq_iff)
  qed
  then show ?thesis using pen tq local_tq_eq(1) [of own_sum real_count] by (simp add: word_le_def)
qed

theorem link_quality_spec_witness:
  "uint (link_tq 200 (local_tq 30 60) (asym_penalty 60)) = 99"
  using link_quality_spec [of 60 30 200] asym_penalty_eq(1) [of 60] by simp

text \<open>
  \<open>send_vis_packet\<close> also returns the bytes that are handed to \<open>sendto\<close>; an error of the call is only
  reported.
\<close>

definition send_vis_packet :: "(nat \<Rightarrow> u8) \<Rightarrow> bat_state \<Rightarrow> (u8 list option \<times> bat_state) option" where
  "send_vis_packet junk s = do { s \<leftarrow> generate_vis_packet junk s; Some (map_option (take (unat (vis_packet_size s))) (vis_packet_buff s), s) }"

lemma send_vis_packet_state [simp]: "map_option snd (send_vis_packet junk s) = generate_vis_packet junk s"
  by (cases "generate_vis_packet junk s") (simp_all add: send_vis_packet_def)

end
