(* ===== verification/Receive.thy ===== *)
theory Receive
  imports Schedule
begin

text \<open>
  The receive path of \<open>src/posix-specific.c\<close>: frames from the tap interface enter the mesh, packets
  from the raw sockets are delivered, routed or rebroadcast, and originator messages are handed to
  the main loop. Also the packets of the clients on the unix socket.
\<close>

section \<open>Addresses\<close>

definition is_broadcast_address :: "mac \<Rightarrow> bool" where
  "is_broadcast_address dst_addr \<longleftrightarrow> memcmp (mac_bytes dst_addr) (mac_bytes broadcastAddr) = 0"

definition is_multicast_address :: "mac \<Rightarrow> bool" where
  "is_multicast_address dst_addr \<longleftrightarrow>
     (case dst_addr of MAC a b c d _ _ \<Rightarrow> a = 0x01 \<and> b = 0x00 \<and> c = 0x5e \<and> d AND 0x80 = 0)"

text \<open>
  The next hop of an originator: its interface and the address of its router, when the originator
  is known and has both.
\<close>

definition next_hop :: "mac \<Rightarrow> bat_state \<Rightarrow> (batman_if \<times> mac) option option" where
  "next_hop dst_addr s = do {
     found \<leftarrow> find_orig_node dst_addr s;
     (case found of
        None \<Rightarrow> Some None
      | Some p \<Rightarrow> do {
          n \<leftarrow> orig_heap s p;
          (case (o_batman_if n, router n) of
             (Some i, Some q) \<Rightarrow> do {
               batman_if \<leftarrow> if_heap s i;
               r \<leftarrow> neigh_heap s q;
               Some (Some (batman_if, n_addr r))
             }
           | _ \<Rightarrow> Some None)
        })
   }"

section \<open>The tap interface\<close>

fun bcast_on_all :: "u8 list \<Rightarrow> nat list \<Rightarrow> bat_state \<Rightarrow> (bool \<times> bat_state) option" where
  "bcast_on_all bytes [] s = Some (True, s)"
| "bcast_on_all bytes (i # is) s = do {
     batman_if \<leftarrow> if_heap s i;
     let (ok, s) = send_packet bytes (hw_addr batman_if) broadcastAddr (raw_sock batman_if) s;
     if ok then bcast_on_all bytes is s else Some (False, s)
   }"

definition tap_broadcast :: "u8 list \<Rightarrow> bat_state \<Rightarrow> (bool \<times> bat_state) option" where
  "tap_broadcast payload s = do {
     (i, my) \<leftarrow> first_if s;
     let b = \<lparr>bcast_packet_type = BAT_BCAST, bcast_version = COMPAT_VERSION, bcast_orig = hw_addr my,
              bcast_packet_seqno = htons (little_endian s) (bcast_seqno my)\<rparr>;
     let s = put_if i (my\<lparr>bcast_seqno := bcast_seqno my + 1\<rparr>) s;
     bcast_on_all (bytes_of_bcast_packet (little_endian s) b @ payload) (if_list s) s
   }"

definition tap_unicast :: "mac \<Rightarrow> u8 list \<Rightarrow> bat_state \<Rightarrow> (bool \<times> bat_state) option" where
  "tap_unicast dhost payload s = do {
     hop \<leftarrow> next_hop dhost s;
     (case hop of
        None \<Rightarrow> Some (True, s)
      | Some (batman_if, addr) \<Rightarrow>
          Some (send_packet
            (bytes_of_unicast_packet \<lparr>unicast_packet_type = BAT_UNICAST, unicast_version = COMPAT_VERSION,
               dest = dhost, unicast_ttl = TTL\<rparr> @ payload)
            (hw_addr batman_if) addr (raw_sock batman_if) s))
   }"

text \<open>One frame from the tap interface.\<close>

definition tap_frame :: "mac \<Rightarrow> mac \<Rightarrow> u8 list \<Rightarrow> bat_state \<Rightarrow> (bool \<times> bat_state) option" where
  "tap_frame ether_dhost ether_shost rest s = do {
     (_, my) \<leftarrow> first_if s;
     s \<leftarrow> hna_add ether_shost (hw_addr my) s;
     found \<leftarrow> transtable_search ether_dhost s;
     let dhost = (case found of None \<Rightarrow> broadcastAddr | Some b \<Rightarrow> b);
     let payload = mac_bytes ether_dhost @ mac_bytes ether_shost @ rest;
     if is_broadcast_address dhost \<or> is_multicast_address dhost then tap_broadcast payload s
     else tap_unicast dhost payload s
   }"

text \<open>
  At most \<open>PACKETS_PER_CYCLE\<close> frames. The result is the value that the function returns, 0 or
  \<open>- 1\<close>; \<open>errno\<close> is set to \<open>EWOULDBLOCK\<close> before every read.
\<close>

fun receive_packet_tap :: "nat \<Rightarrow> bat_state \<Rightarrow> (int \<times> bat_state) option" where
  "receive_packet_tap 0 s = Some (0, s)"
| "receive_packet_tap (Suc n) s =
     (let r = tap_reads s (tap_pos s); s = s\<lparr>tap_pos := Suc (tap_pos s)\<rparr> in
      case r of
        Tap_frame d h rest \<Rightarrow> do {
          (ok, s) \<leftarrow> tap_frame d h rest s;
          if ok then receive_packet_tap n s else Some (- 1, s)
        }
      | Tap_blocked \<Rightarrow> Some (0, s)
      | Tap_espipe \<Rightarrow> Some (0, s)
      | Tap_error \<Rightarrow> Some (- 1, s))"

section \<open>The raw sockets\<close>

text \<open>
  What the loop does after a packet: read the next one, return \<open>- 1\<close>, or return an originator
  message (with its sequence number in host order) to the main loop.
\<close>

datatype rx = Rx_next | Rx_fail | Rx_ogm mac batman_packet "u8 list" nat

definition raw_reply :: "batman_if \<Rightarrow> mac \<Rightarrow> u8 list \<Rightarrow> bat_state \<Rightarrow> rx \<times> bat_state" where
  "raw_reply batman_if dhost bytes s =
     (case rawsock_write (raw_sock batman_if) (hw_addr batman_if) dhost bytes s of
        (Write_error, s) \<Rightarrow> (Rx_fail, s)
      | (_, s) \<Rightarrow> (Rx_next, s))"

text \<open>An error of the write to the tap interface is only reported.\<close>

definition tap_write :: "u8 list \<Rightarrow> bat_state \<Rightarrow> bat_state" where
  [simp]: "tap_write buff s = s\<lparr>tap_written := buff # tap_written s\<rparr>"

definition recv_unicast :: "mac \<Rightarrow> mac \<Rightarrow> u8 list \<Rightarrow> bat_state \<Rightarrow> (rx \<times> bat_state) option" where
  "recv_unicast dhost shost bytes s =
     (if is_broadcast_address dhost \<or> is_broadcast_address shost then Some (Rx_next, s)
      else case unicast_packet_at bytes of
        None \<Rightarrow> Some (Rx_next, s)
      | Some (u, payload) \<Rightarrow> do {
          my \<leftarrow> is_my_mac (dest u) s;
          if my then Some (Rx_next, tap_write payload s)
          else if unicast_ttl u < 2 then Some (Rx_next, s)
          else do {
            hop \<leftarrow> next_hop (dest u) s;
            Some (case hop of
                    None \<Rightarrow> (Rx_next, s)
                  | Some (batman_if, addr) \<Rightarrow>
                      raw_reply batman_if addr (bytes_of_unicast_packet (u\<lparr>unicast_ttl := unicast_ttl u - 1\<rparr>) @ payload) s)
          }
        })"

text \<open>The answer to an echo request or to one that has exceeded its time to live.\<close>

definition icmp_answer :: "u8 \<Rightarrow> mac \<Rightarrow> icmp_packet \<Rightarrow> u8 list \<Rightarrow> bat_state \<Rightarrow> (rx \<times> bat_state) option" where
  "icmp_answer msg ether_dhost p rest s = do {
     hop \<leftarrow> next_hop (icmp_orig p) s;
     Some (case hop of
             None \<Rightarrow> (Rx_next, s)
           | Some (batman_if, addr) \<Rightarrow>
               raw_reply batman_if addr
                 (bytes_of_icmp_packet (little_endian s)
                   (p\<lparr>dst := icmp_orig p, icmp_orig := ether_dhost, msg_type := msg, icmp_ttl := TTL\<rparr>) @ rest) s)
   }"

definition recv_icmp :: "mac \<Rightarrow> mac \<Rightarrow> u8 list \<Rightarrow> bat_state \<Rightarrow> (rx \<times> bat_state) option" where
  "recv_icmp dhost shost bytes s =
     (if is_broadcast_address dhost \<or> is_broadcast_address shost then Some (Rx_next, s)
      else case icmp_packet_at (little_endian s) bytes of
        None \<Rightarrow> Some (Rx_next, s)
      | Some (p, rest) \<Rightarrow> do {
          my \<leftarrow> is_my_mac (dst p) s;
          if my then
            if msg_type p = ECHO_REQUEST then icmp_answer ECHO_REPLY dhost p rest s
            else Some (Rx_next,
              case unix_packet s (uid p) of
                None \<Rightarrow> s
              | Some sock \<Rightarrow> s\<lparr>unix_written := (sock, take (nat sizeof_icmp_packet) bytes) # unix_written s\<rparr>)
          else if icmp_ttl p < 2 then
            if msg_type p = ECHO_REQUEST then icmp_answer TTL_EXCEEDED dhost p rest s
            else Some (Rx_next, s)
          else do {
            hop \<leftarrow> next_hop (dst p) s;
            Some (case hop of
                    None \<Rightarrow> (Rx_next, s)
                  | Some (batman_if, addr) \<Rightarrow>
                      raw_reply batman_if addr
                        (bytes_of_icmp_packet (little_endian s) (p\<lparr>icmp_ttl := icmp_ttl p - 1\<rparr>) @ rest) s)
          }
        })"

text \<open>
  The rebroadcast on every interface. The loop variable is the parameter \<open>batman_if\<close> of the
  function: afterwards the outer loop reads from the last interface of the list.
\<close>

fun rebroadcast :: "mac \<Rightarrow> u8 list \<Rightarrow> nat \<Rightarrow> nat list \<Rightarrow> bat_state \<Rightarrow> (rx \<times> nat \<times> bat_state) option" where
  "rebroadcast dhost bytes cur [] s = Some (Rx_next, cur, s)"
| "rebroadcast dhost bytes cur (i # is) s = do {
     batman_if \<leftarrow> if_heap s i;
     (case raw_reply batman_if dhost bytes s of
        (Rx_fail, s) \<Rightarrow> Some (Rx_fail, i, s)
      | (_, s) \<Rightarrow> rebroadcast dhost bytes i is s)
   }"

definition recv_bcast :: "nat \<Rightarrow> mac \<Rightarrow> mac \<Rightarrow> u8 list \<Rightarrow> bat_state \<Rightarrow> (rx \<times> nat \<times> bat_state) option" where
  "recv_bcast cur dhost shost bytes s =
     (if is_broadcast_address shost then Some (Rx_next, cur, s)
      else case bcast_packet_at (little_endian s) bytes of
        None \<Rightarrow> Some (Rx_next, cur, s)
      | Some (b, payload) \<Rightarrow> do {
          my \<leftarrow> is_my_mac shost s;
          if my then Some (Rx_next, cur, s)
          else do {
            found \<leftarrow> find_orig_node (bcast_orig b) s;
            (case found of
               None \<Rightarrow> Some (Rx_next, cur, s)
             | Some p \<Rightarrow> do {
                 n \<leftarrow> orig_heap s p;
                 let sq = htons (little_endian s) (bcast_packet_seqno b);
                 known \<leftarrow> get_bit_status (seq_bits n) (last_bcast_seqno n) sq;
                 if known then Some (Rx_next, cur, s)
                 else do {
                   (new, bits) \<leftarrow> bit_get_packet (seq_bits n) (to_s16 (uint sq - uint (last_bcast_seqno n))) True;
                   let n = n\<lparr>seq_bits := bits, last_bcast_seqno := (if new then sq else last_bcast_seqno n)\<rparr>;
                   let s = tap_write payload (put_orig p n s);
                   rebroadcast dhost bytes cur (if_list s) s
                 }
               })
          }
        })"

text \<open>
  The body of the loop of \<open>receive_packet_batiface\<close>, with the interface that is read next. A packet
  with another version is reported as dropped, but processed.
\<close>

definition recv_frame :: "nat \<Rightarrow> mac \<Rightarrow> mac \<Rightarrow> u8 list \<Rightarrow> bat_state \<Rightarrow> (rx \<times> nat \<times> bat_state) option" where
  "recv_frame cur dhost shost bytes s =
     (case bytes of
        t # v # _ \<Rightarrow>
          if t = BAT_PACKET then
            (case batman_packet_at (little_endian s) bytes of
               None \<Rightarrow> Some (Rx_next, cur, s)
             | Some (p, tail) \<Rightarrow>
                 Some (Rx_ogm shost (p\<lparr>seqno := htons (little_endian s) (seqno p)\<rparr>) tail cur, cur, s))
          else if t = BAT_UNICAST then map_option (\<lambda>(r, s). (r, cur, s)) (recv_unicast dhost shost bytes s)
          else if t = BAT_ICMP then map_option (\<lambda>(r, s). (r, cur, s)) (recv_icmp dhost shost bytes s)
          else if t = BAT_BCAST then recv_bcast cur dhost shost bytes s
          else Some (Rx_next, cur, s)
      | _ \<Rightarrow> Some (Rx_next, cur, s))"

text \<open>
  The result of \<open>receive_packet_batiface\<close> and of \<open>receive_packet\<close>: 0, \<open>- 1\<close>, or 1 with the
  message and the interface it came from.
\<close>

datatype recv_result = Recv_none | Recv_error | Recv_ogm mac batman_packet "u8 list" nat

text \<open>
  \<open>rawsock_read\<close>: the kernel hands out complete frames, so the header of 14 bytes is always there and
  the result is the length of what follows it.
\<close>

definition rawsock_read :: "int \<Rightarrow> bat_state \<Rightarrow> raw_read \<times> bat_state" where
  "rawsock_read sock s = (raw_reads s sock (raw_pos s sock), s\<lparr>raw_pos := (raw_pos s)(sock := Suc (raw_pos s sock))\<rparr>)"

fun receive_packet_batiface :: "nat \<Rightarrow> nat \<Rightarrow> bat_state \<Rightarrow> (recv_result \<times> bat_state) option" where
  "receive_packet_batiface 0 cur s = Some (Recv_none, s)"
| "receive_packet_batiface (Suc n) cur s = do {
     batman_if \<leftarrow> if_heap s cur;
     let (r, s) = rawsock_read (raw_sock batman_if) s;
     (case r of
        Raw_blocked \<Rightarrow> Some (Recv_none, s)
      | Raw_error \<Rightarrow> Some (Recv_error, s)
      | Raw_frame d h bytes \<Rightarrow> do {
          (res, cur, s) \<leftarrow> recv_frame cur d h bytes s;
          (case res of
             Rx_next \<Rightarrow> receive_packet_batiface n cur s
           | Rx_fail \<Rightarrow> Some (Recv_error, s)
           | Rx_ogm neigh p tail i \<Rightarrow> Some (Recv_ogm neigh p tail i, s))
        })
   }"

text \<open>
  \<open>receive_packet\<close> after \<open>select\<close> has returned the ready descriptors: \<open>None\<close> is an error other
  than \<open>EINTR\<close>, otherwise the tap interface may be ready and a set of the raw sockets is.
\<close>

fun receive_ifs :: "int set \<Rightarrow> nat list \<Rightarrow> bat_state \<Rightarrow> (recv_result \<times> bat_state) option" where
  "receive_ifs ready [] s = Some (Recv_none, s)"
| "receive_ifs ready (i # is) s = do {
     batman_if \<leftarrow> if_heap s i;
     if raw_sock batman_if \<in> ready then do {
       (res, s) \<leftarrow> receive_packet_batiface PACKETS_PER_CYCLE i s;
       (case res of Recv_none \<Rightarrow> receive_ifs ready is s | _ \<Rightarrow> Some (res, s))
     }
     else receive_ifs ready is s
   }"

definition receive_packet :: "(bool \<times> int set) option \<Rightarrow> bat_state \<Rightarrow> (recv_result \<times> bat_state) option" where
  "receive_packet selected s =
     (case selected of
        None \<Rightarrow> Some (Recv_error, s)
      | Some (tap, ready) \<Rightarrow>
          if \<not> tap \<and> ready = {} then Some (Recv_none, s)
          else do {
            (ret, s) \<leftarrow> (if tap then receive_packet_tap PACKETS_PER_CYCLE s else Some (0, s));
            if ret \<noteq> 0 then Some (Recv_error, s) else receive_ifs ready (if_list s) s
          })"

section \<open>Packets of the clients\<close>

definition handle_packet :: "u8 list \<Rightarrow> u8 \<Rightarrow> int \<Rightarrow> bat_state \<Rightarrow> bat_state option" where
  "handle_packet buff client_uid client_sock s =
     (case icmp_packet_at (little_endian s) buff of
        None \<Rightarrow> None
      | Some (p, rest) \<Rightarrow>
          if icmp_packet_type p = BAT_ICMP \<and> msg_type p = ECHO_REQUEST then do {
            hop \<leftarrow> next_hop (dst p) s;
            (case hop of
               Some (batman_if, addr) \<Rightarrow>
                 if icmp_ttl p > 0 then
                   Some (snd (rawsock_write (raw_sock batman_if) (hw_addr batman_if) addr
                     (bytes_of_icmp_packet (little_endian s) (p\<lparr>uid := client_uid, icmp_orig := hw_addr batman_if\<rparr>) @ rest) s))
                 else Some (s\<lparr>unix_written :=
                   (client_sock, bytes_of_icmp_packet (little_endian s) (p\<lparr>msg_type := DESTINATION_UNREACHABLE\<rparr>) @ rest) # unix_written s\<rparr>)
             | None \<Rightarrow> Some (s\<lparr>unix_written :=
                 (client_sock, bytes_of_icmp_packet (little_endian s) (p\<lparr>msg_type := DESTINATION_UNREACHABLE\<rparr>) @ rest) # unix_written s\<rparr>))
          }
          else Some s)"

end
