(* ===== verification/Batman.thy ===== *)
theory Batman
  imports Ogm Receive Debug_Table
begin

text \<open>
  The main function \<open>batman\<close> of \<open>src/batman-adv.c\<close>: initialisation, one iteration of its loop, and
  the shutdown.
\<close>

section \<open>Initialisation\<close>

definition init_if :: "nat \<Rightarrow> bat_state \<Rightarrow> bat_state option" where
  "init_if i s = do {
     batman_if \<leftarrow> if_heap s i;
     let p = (out batman_if)\<lparr>packet_type := BAT_PACKET, version := COMPAT_VERSION, flags := 0, ttl := TTL,
       gwflags := gateway_class s, tq := word_of_int TQ_MAX_VALUE, seqno := 1, num_hna := 0,
       orig := hw_addr batman_if, old_orig := hw_addr batman_if\<rparr>;
     schedule_own_packet i (put_if i (batman_if\<lparr>out := p, bcast_seqno := 1\<rparr>) s)
   }"

fun init_ifs :: "nat list \<Rightarrow> bat_state \<Rightarrow> bat_state option" where
  "init_ifs [] s = Some s"
| "init_ifs (i # is) s = do { s \<leftarrow> init_if i s; init_ifs is s }"

text \<open>The result is the value of \<open>debug_timeout\<close> and the state in which the loop starts.\<close>

definition batman_init :: "bat_state \<Rightarrow> (u32 \<times> bat_state) option" where
  "batman_init s = do {
     let (debug_timeout, s) = get_time s;
     s \<leftarrow> init_ifs (if_list s) (s\<lparr>orig_hash := hash_new 128 compare_orig choose_orig\<rparr>);
     (r, s) \<leftarrow> transtable_init s;
     Some (debug_timeout, s)
   }"

section \<open>The loop\<close>

text \<open>
  The timeout for \<open>select\<close> is the time until the first message in the queue is due. With an empty
  queue the code would read a \<open>struct forw_node\<close> at the head of the list.
\<close>

definition select_timeout :: "bat_state \<Rightarrow> u32 option" where
  "select_timeout s =
     (case forw_list s of
        [] \<Rightarrow> None
      | (_, f) # _ \<Rightarrow> Some (if curr_time s < send_time f then send_time f - curr_time s else 10))"

text \<open>
  How an iteration ends: the loop goes on, \<open>batman\<close> returns \<open>- 1\<close>, or the daemon exits because a
  message could not be sent.
\<close>

datatype iteration = Goes_on u32 bat_state | Returns_error bat_state | Exits bat_state

text \<open>
  The environment of an iteration: whether there is a socket for the visualisation server, the contents
  of memory that is not written yet, and the clients of the debug levels; and the function that \<open>select\<close> computes
  from the timeout. The messages of \<open>debug_orig\<close> leave the model here (\<open>debug_output\<close> prints them), and
  \<open>checkIntegrity\<close> has no effect on the state.
\<close>

record round_env =
  vis_sock :: bool
  vis_junk :: "nat \<Rightarrow> u8"
  debug_levels :: debug_env

definition batman_housekeeping :: "round_env \<Rightarrow> u32 \<Rightarrow> bat_state \<Rightarrow> iteration option" where
  "batman_housekeeping env debug_timeout s = do {
     s \<leftarrow> hna_update s;
     (ok, s) \<leftarrow> send_outstanding_packets s;
     if \<not> ok then Some (Exits s)
     else if debug_timeout + 1000 < curr_time s then do {
       let debug_timeout = curr_time s;
       s \<leftarrow> purge_orig (curr_time s) s;
       (messages, s) \<leftarrow> debug_orig (debug_levels env) s;
       s \<leftarrow> (if vis_sock env then map_option snd (send_vis_packet (vis_junk env) s) else Some s);
       Some (Goes_on debug_timeout s)
     }
     else Some (Goes_on debug_timeout s)
   }"

definition batman_iteration ::
    "(u32 \<Rightarrow> (bool \<times> int set) option) \<Rightarrow> round_env \<Rightarrow> u32 \<Rightarrow> bat_state \<Rightarrow> iteration option" where
  "batman_iteration select env debug_timeout s = do {
     let (now, s) = get_time s;
     let s = s\<lparr>curr_time := now\<rparr>;
     timeout \<leftarrow> select_timeout s;
     (res, s) \<leftarrow> receive_packet (select timeout) s;
     (case res of
        Recv_error \<Rightarrow> Some (Returns_error s)
      | Recv_none \<Rightarrow> batman_housekeeping env debug_timeout s
      | Recv_ogm neigh p tail i \<Rightarrow> do {
          s \<leftarrow> process_ogm neigh p tail i s;
          batman_housekeeping env debug_timeout s
        })
   }"

section \<open>Shutdown\<close>

definition batman_shutdown :: "bat_state \<Rightarrow> bat_state option" where
  "batman_shutdown s = do {
     let (now, s) = get_time s;
     s \<leftarrow> purge_orig (now + 5 * PURGE_TIMEOUT + word_of_int (originator_interval s)) s;
     Some ((transtable_quit s)\<lparr>forw_list := []\<rparr>)
   }"

end
