(* ===== verification/Net_Inv.thy ===== *)
theory Net_Inv
  imports Batman
begin

text \<open>
  The invariant of the routing data (\<open>net_ok\<close>): the table of originators and the translation table
  are well-formed, every pointer between originators, neighbours, interfaces and buffers is live,
  the arrays have their sizes and the counters their ranges. The lemmas show that the operations on
  originators and neighbours return and preserve it.
\<close>

section \<open>Invariant\<close>

text \<open>An originator has at most one entry for an address and an interface.\<close>

definition neigh_key :: "bat_state \<Rightarrow> nat \<Rightarrow> (mac \<times> nat) option" where
  "neigh_key s q = map_option (\<lambda>m. (n_addr m, n_if_incoming m)) (neigh_heap s q)"

definition orig_ok :: "bat_state \<Rightarrow> orig_node \<Rightarrow> bool" where
  "orig_ok s n \<longleftrightarrow>
     distinct (neigh_list n) \<and> inj_on (neigh_key s) (set (neigh_list n)) \<and> (\<forall>q \<in> set (neigh_list n). neigh_heap s q \<noteq> None) \<and>
     (\<forall>q. router n = Some q \<longrightarrow> q \<in> set (neigh_list n)) \<and> (\<forall>i. o_batman_if n = Some i \<longrightarrow> i \<in> set (if_list s)) \<and>
     length (bcast_own n) = 2 * unat (found_ifs s) \<and> length (bcast_own_sum n) = unat (found_ifs s) \<and>
     length (seq_bits n) = 2 \<and>
     (\<forall>b. o_hna_buff n = Some b \<longrightarrow>
        (\<exists>bytes. buf_heap s b = Some bytes \<and> hna_buff_len n = int (length bytes)))"

definition neigh_ok :: "bat_state \<Rightarrow> neigh_node \<Rightarrow> bool" where
  "neigh_ok s m \<longleftrightarrow>
     ring_ok (tq_recv m) (tq_index m) \<and> length (real_bits m) = 2 \<and> unat (real_packet_count m) \<le> 64 \<and>
     orig_heap s (n_orig_node m) \<noteq> None \<and> n_if_incoming m \<in> set (if_list s)"

definition if_nums_ok :: "bat_state \<Rightarrow> bool" where
  "if_nums_ok s \<longleftrightarrow> (\<forall>i f. if_heap s i = Some f \<longrightarrow> 0 \<le> if_num f \<and> if_num f < int (unat (found_ifs s)))"

text \<open>Every buffer of an announcement belongs to one originator.\<close>

definition bufs_ok :: "bat_state \<Rightarrow> bool" where
  "bufs_ok s \<longleftrightarrow> (\<forall>b. buf_heap s b \<noteq> None \<longrightarrow> b < brk s) \<and>
     (\<forall>p p' n n' b. orig_heap s p = Some n \<longrightarrow> orig_heap s p' = Some n' \<longrightarrow>
        o_hna_buff n = Some b \<longrightarrow> o_hna_buff n' = Some b \<longrightarrow> p = p')"

text \<open>Every neighbour entry belongs to one originator.\<close>

definition entries_ok :: "bat_state \<Rightarrow> bool" where
  "entries_ok s \<longleftrightarrow> (\<forall>p p' n n' q. orig_heap s p = Some n \<longrightarrow> orig_heap s p' = Some n' \<longrightarrow>
     q \<in> set (neigh_list n) \<longrightarrow> q \<in> set (neigh_list n') \<longrightarrow> p = p')"

definition net_ok :: "bat_state \<Rightarrow> bool" where
  "net_ok s \<longleftrightarrow> origs_ok s \<and> trans_ok s \<and> if_nums_ok s \<and> bufs_ok s \<and> entries_ok s \<and>
     (\<forall>q. neigh_heap s q \<noteq> None \<longrightarrow> q < brk s) \<and>
     (\<forall>p n. orig_heap s p = Some n \<longrightarrow> orig_ok s n) \<and> (\<forall>q m. neigh_heap s q = Some m \<longrightarrow> neigh_ok s m)"

lemmas net_defs = net_ok_def bufs_ok_def if_nums_ok_def

section \<open>What the invariant depends on\<close>

lemma origs_ok_frame:
  assumes "origs_ok s" "orig_hash s' = orig_hash s" "brk s \<le> brk s'"
    "\<And>p. map_option o_orig (orig_heap s' p) = map_option o_orig (orig_heap s p)"
  shows "origs_ok s' \<and> orig_map s' = orig_map s"
proof -
  have dom: "orig_heap s' p = None \<longleftrightarrow> orig_heap s p = None" for p
    using assms(4) [of p] by (metis option.map_disc_iff)
  have live: "orig_heap s p \<noteq> None" if "p \<in> set (hash_entries (orig_hash s))" for p
    using assms(1) that by (auto simp: origs_ok_def)
  have key: "orig_key s' p = orig_key s p" if "p \<in> set (hash_entries (orig_hash s))" for p
    using assms(4) [of p] live [OF that] by (auto simp: orig_key_def)
  have "mac_hash_ok (orig_key s') (brk s) (orig_hash s)"
    using assms(1) mac_hash_ok_cong [of "orig_hash s" "orig_key s'" "orig_key s"] key by (auto simp: origs_ok_def)
  then have "mac_hash_ok (orig_key s') (brk s') (orig_hash s)" using assms(3) by (rule mac_hash_ok_mono)
  then have "origs_ok s'"
    using assms(1,3) unfolding origs_ok_def assms(2) dom by (auto intro: less_le_trans)
  moreover have "orig_map s' = orig_map s"
    unfolding orig_map_def assms(2) by (rule hash_map_cong) (rule key)
  ultimately show ?thesis by simp
qed

lemma net_ok_fields:
  assumes "orig_hash s' = orig_hash s" "orig_heap s' = orig_heap s" "neigh_heap s' = neigh_heap s" "brk s \<le> brk s'"
    "elem_heap s' = elem_heap s" "trans_hash s' = trans_hash s" "hna_list s' = hna_list s"
    "if_list s' = if_list s" "map_option if_num \<circ> if_heap s' = map_option if_num \<circ> if_heap s"
    "buf_heap s' = buf_heap s" "found_ifs s' = found_ifs s"
    and "net_ok s"
  shows "net_ok s' \<and> orig_map s' = orig_map s \<and> host_map s' = host_map s"
proof -
  have if': "map_option if_num (if_heap s' i) = map_option if_num (if_heap s i)" for i
    using assms(9) by (metis comp_apply)
  then have "if_heap s' i = None \<longleftrightarrow> if_heap s i = None" for i by (metis option.map_disc_iff)
  then have dom: "dom (if_heap s') = dom (if_heap s)" by (simp add: dom_def)
  have t: "trans_ok s' \<and> host_map s' = host_map s"
    using assms by (intro trans_ok_fields [OF _ _ _ _ _ _ _, of s' s]) (auto simp: dom net_ok_def)
  have o: "origs_ok s' \<and> orig_map s' = orig_map s"
    using assms by (intro origs_ok_frame) (auto simp: net_ok_def)
  have "if_nums_ok s'"
    unfolding if_nums_ok_def assms(11)
  proof (intro allI impI)
    fix i f assume "if_heap s' i = Some f"
    then obtain g where g: "if_heap s i = Some g" "if_num g = if_num f" using if' [of i] by (cases "if_heap s i") auto
    have "if_nums_ok s" using assms(12) by (simp add: net_ok_def)
    then have "0 \<le> if_num g \<and> if_num g < int (unat (found_ifs s))" using g(1) unfolding if_nums_ok_def by blast
    then show "0 \<le> if_num f \<and> if_num f < int (unat (found_ifs s))" by (simp only: g(2))
  qed
  moreover have "bufs_ok s'" using assms(2,4,10,12) by (auto simp: net_defs intro: less_le_trans)
  moreover have "entries_ok s'" using assms(2,12) by (simp add: net_ok_def entries_ok_def)
  moreover have "orig_ok s' = orig_ok s" "neigh_ok s' = neigh_ok s"
    by (simp_all add: fun_eq_iff orig_ok_def neigh_ok_def neigh_key_def [abs_def] assms)
  ultimately show ?thesis using t o assms(2,3,4,12) by (auto simp: net_ok_def intro: less_le_trans)
qed

lemma net_ok_put_orig:
  assumes "net_ok s" "orig_heap s p = Some n" "orig_ok s n'"
    "o_orig n' = o_orig n" "o_hna_list n' = o_hna_list n" "o_hna_buff n' = o_hna_buff n"
    "\<And>q p' m. q \<in> set (neigh_list n') - set (neigh_list n) \<Longrightarrow> orig_heap s p' = Some m \<Longrightarrow> q \<notin> set (neigh_list m)"
  shows "net_ok (put_orig p n' s) \<and> orig_map (put_orig p n' s) = orig_map s \<and> host_map (put_orig p n' s) = host_map s"
proof -
  let ?s = "put_orig p n' s"
  have o: "origs_ok ?s \<and> orig_map ?s = orig_map s"
    using assms by (intro origs_ok_frame) (auto simp: net_ok_def)
  have t: "trans_ok ?s \<and> host_map ?s = host_map s"
    using assms by (intro trans_ok_put_orig) (auto simp: net_ok_def)
  have same: "orig_ok ?s = orig_ok s" by (simp add: fun_eq_iff orig_ok_def neigh_key_def [abs_def] put_orig_def)
  have nb: "neigh_ok ?s m" if "neigh_ok s m" for m
    using that assms(2) by (auto simp: neigh_ok_def put_orig_def)
  have old: "\<exists>n2. orig_heap s q = Some n2 \<and> o_hna_buff n2 = o_hna_buff n1" if "orig_heap ?s q = Some n1" for q n1
    using that assms(2,6) by (auto split: if_splits)
  have "bufs_ok s" using assms(1) by (simp add: net_ok_def)
  then have "bufs_ok ?s"
    unfolding bufs_ok_def using old by (simp add: put_orig_def) metis
  moreover have "entries_ok ?s"
  proof -
    have e: "entries_ok s" using assms(1) by (simp add: net_ok_def)
    have new: "False" if "q \<in> set (neigh_list n')" "p' \<noteq> p" "orig_heap s p' = Some m" "q \<in> set (neigh_list m)" for q p' m
      using that assms(2) e assms(7) [of q p' m] unfolding entries_ok_def by blast
    show ?thesis unfolding entries_ok_def
    proof (intro allI impI)
      fix a b m m' q
      assume h: "orig_heap ?s a = Some m" "orig_heap ?s b = Some m'" "q \<in> set (neigh_list m)" "q \<in> set (neigh_list m')"
      then show "a = b" using new [of q] e unfolding entries_ok_def by (auto split: if_splits)
    qed
  qed
  moreover have "if_nums_ok ?s" using assms(1) by (simp add: net_defs put_orig_def)
  moreover have "\<forall>q m. orig_heap ?s q = Some m \<longrightarrow> orig_ok s m" using assms(1,3) by (auto simp: net_ok_def)
  ultimately show ?thesis using o t assms(1) nb by (simp add: net_ok_def same)
qed

lemma put_neigh_simps [simp]:
  "orig_heap (put_neigh q m s) = orig_heap s" "brk (put_neigh q m s) = brk s"
  "neigh_heap (put_neigh q m s) = (neigh_heap s)(q \<mapsto> m)" "if_heap (put_neigh q m s) = if_heap s"
  "if_list (put_neigh q m s) = if_list s" "found_ifs (put_neigh q m s) = found_ifs s"
  "orig_hash (put_neigh q m s) = orig_hash s" "buf_heap (put_neigh q m s) = buf_heap s"
  by (simp_all add: put_neigh_def)

lemma net_ok_put_neigh:
  assumes "net_ok s" "q < brk s" "neigh_ok s m"
    "\<And>m0. neigh_heap s q = Some m0 \<Longrightarrow> n_addr m = n_addr m0 \<and> n_if_incoming m = n_if_incoming m0"
  shows "net_ok (put_neigh q m s) \<and> orig_map (put_neigh q m s) = orig_map s \<and> host_map (put_neigh q m s) = host_map s"
proof -
  let ?s = "put_neigh q m s"
  have o: "origs_ok ?s \<and> orig_map ?s = orig_map s"
    using assms by (intro origs_ok_frame) (auto simp: net_ok_def put_neigh_def)
  have t: "trans_ok ?s \<and> host_map ?s = host_map s"
    using assms by (intro trans_ok_fields [OF _ _ _ _ _ _ _, of ?s s]) (auto simp: net_ok_def put_neigh_def)
  have key: "neigh_key ?s x = neigh_key s x" if "neigh_heap s x \<noteq> None" for x
    using that assms(4) by (auto simp: neigh_key_def put_neigh_def)
  have n: "orig_ok ?s x" if "orig_ok s x" for x
  proof -
    have "inj_on (neigh_key ?s) (set (neigh_list x))"
      using that key by (auto simp: orig_ok_def inj_on_def)
    then show ?thesis using that by (auto simp: orig_ok_def put_neigh_def)
  qed
  have same: "neigh_ok ?s = neigh_ok s" by (simp add: fun_eq_iff neigh_ok_def put_neigh_def)
  have "bufs_ok ?s" "if_nums_ok ?s" "entries_ok ?s" using assms(1) by (simp_all add: net_defs entries_ok_def put_neigh_def)
  moreover have "\<forall>x y. neigh_heap ?s x = Some y \<longrightarrow> neigh_ok s y \<and> x < brk s"
    using assms by (auto simp: net_ok_def put_neigh_def)
  ultimately show ?thesis using o t assms(1) n
    by (auto simp: net_ok_def same)
qed

section \<open>Creating originators and neighbours\<close>

text \<open>What operations on the routing data keep: interfaces, time, and live originators.\<close>

definition statics where
  "statics s = (if_heap s, if_list s, found_ifs s, curr_time s, forw_list s, g_num_hna s, g_hna_buff s,
     originator_interval s, little_endian s, tap_written s, writes s, sent s)"

definition keeps :: "bat_state \<Rightarrow> bat_state \<Rightarrow> bool" where
  "keeps s s' \<longleftrightarrow> statics s' = statics s \<and> brk s \<le> brk s' \<and>
     dom (orig_heap s) \<subseteq> dom (orig_heap s') \<and> dom (neigh_heap s) \<subseteq> dom (neigh_heap s') \<and>
     orig_map s \<subseteq>\<^sub>m orig_map s'"

lemmas keeps_defs = keeps_def statics_def

lemma keeps_refl [simp, intro]: "keeps s s"
  by (simp add: keeps_def)

lemma keeps_trans [trans]: "keeps s t \<Longrightarrow> keeps t u \<Longrightarrow> keeps s u"
  unfolding keeps_def by (metis map_le_trans order_trans)

lemma trans_ok_new_orig:
  assumes "trans_ok s" "orig_heap s p = None" "o_hna_list n = []"
  shows "trans_ok (put_orig p n s) \<and> host_map (put_orig p n s) = host_map s"
proof -
  have "links_ok s" using assms(1) by (simp add: trans_ok_def)
  then have "links_ok (put_orig p n s)"
    using assms(2,3) by (fastforce simp: links_ok_def put_orig_def)
  moreover have "elem_heap (put_orig p n s) = elem_heap s" "trans_hash (put_orig p n s) = trans_hash s"
      "if_list (put_orig p n s) = if_list s" "if_heap (put_orig p n s) = if_heap s" "brk (put_orig p n s) = brk s"
    by (simp_all add: put_orig_def)
  ultimately show ?thesis using assms(1)
    by (simp add: trans_ok_def ifs_ok_def host_map_def [abs_def] elem_key_def [abs_def])
qed

lemma get_orig_node_net:
  assumes "net_ok s"
  shows "\<exists>p s' n. get_orig_node addr s = Some (p, s') \<and> net_ok s' \<and> keeps s s' \<and> orig_map s' addr = Some p \<and>
    orig_heap s' p = Some n \<and> o_orig n = addr \<and> neigh_heap s' = neigh_heap s \<and>
    (\<forall>q m. orig_heap s q = Some m \<longrightarrow> orig_heap s' q = Some m) \<and> buf_heap s' = buf_heap s \<and>
    (orig_map s addr = None \<longrightarrow> n = new_orig_node addr (found_ifs s) \<and> orig_heap s p = None)"
proof (cases "orig_map s addr")
  case (Some p)
  have o: "origs_ok s" using assms by (simp add: net_ok_def)
  with Some obtain n where "orig_heap s p = Some n" "o_orig n = addr" using orig_map_Some by blast
  with get_orig_node_found [OF o Some] assms Some show ?thesis by auto
next
  case None
  have o: "origs_ok s" using assms by (simp add: net_ok_def)
  from get_orig_node_new [OF o None] obtain s' h b where
    s': "get_orig_node addr s = Some (brk s, s')" "origs_ok s'" "orig_map s' = (orig_map s)(addr \<mapsto> brk s)"
      "brk s < b" "s' = (put_orig (brk s) (new_orig_node addr (found_ifs s)) s)\<lparr>orig_hash := h, brk := b\<rparr>" by blast
  define n where "n = new_orig_node addr (found_ifs s)"
  have fresh: "orig_heap s (brk s) = None" using o by (auto simp: origs_ok_def)
  have f: "orig_heap s' = (orig_heap s)(brk s \<mapsto> n)" "neigh_heap s' = neigh_heap s" "if_heap s' = if_heap s"
      "if_list s' = if_list s" "found_ifs s' = found_ifs s" "curr_time s' = curr_time s" "buf_heap s' = buf_heap s"
      "brk s' = b" "gw_list s' = gw_list s"
    by (simp_all add: s'(5) n_def put_orig_def)
  have t: "trans_ok s'"
  proof -
    have "trans_ok (put_orig (brk s) n s)"
      using trans_ok_new_orig [OF _ fresh, of n] assms by (simp add: net_ok_def n_def new_orig_node_def)
    then show ?thesis
      using trans_ok_fields [of s' "put_orig (brk s) n s"] s'(4) by (simp add: s'(5) n_def put_orig_def)
  qed
  have new: "orig_ok s n" by (simp add: orig_ok_def n_def new_orig_node_def)
  have same: "orig_ok s' = orig_ok s" by (simp add: fun_eq_iff orig_ok_def neigh_key_def [abs_def] f)
  have nb: "neigh_ok s' m" if "neigh_ok s m" for m using that by (auto simp: neigh_ok_def f)
  have "bufs_ok s'" using assms s'(4) by (auto simp: net_defs f n_def new_orig_node_def split: if_splits)
  moreover have "if_nums_ok s'" using assms by (simp add: net_defs f)
  moreover have "entries_ok s'"
    using assms by (auto simp: net_ok_def entries_ok_def f n_def new_orig_node_def split: if_splits)
  moreover have "\<forall>p m. orig_heap s' p = Some m \<longrightarrow> orig_ok s m" using assms new by (auto simp: net_ok_def f)
  moreover have "\<forall>q. neigh_heap s q \<noteq> None \<longrightarrow> q < b" using assms s'(4) by (auto simp: net_ok_def)
  ultimately have "net_ok s'" using assms s'(2) t nb by (auto simp: net_ok_def same f(2,8))
  moreover have "keeps s s'"
    using None s'(3,4) fresh by (auto simp: keeps_def f map_le_def) (simp add: statics_def s'(5) put_orig_def)
  moreover have "o_orig n = addr" by (simp add: n_def new_orig_node_def)
  ultimately show ?thesis using s'(1,3) fresh f by (auto simp: n_def)
qed

lemma create_neighbor_net:
  assumes "net_ok s" "orig_heap s p = Some n" "orig_heap s q \<noteq> None" "i \<in> set (if_list s)"
    "\<forall>x \<in> set (neigh_list n). neigh_key s x \<noteq> Some (addr, i)"
  shows "\<exists>s'. create_neighbor p q addr i s = Some (brk s, s') \<and> net_ok s' \<and> keeps s s' \<and> brk s < brk s' \<and>
    neigh_heap s (brk s) = None \<and> buf_heap s' = buf_heap s \<and>
    neigh_heap s' = (neigh_heap s)(brk s \<mapsto> new_neigh_node addr q i) \<and>
    orig_heap s' = (orig_heap s)(p \<mapsto> n\<lparr>neigh_list := neigh_list n @ [brk s]\<rparr>)"
proof -
  define m where "m = new_neigh_node addr q i"
  define n' where "n' = n\<lparr>neigh_list := neigh_list n @ [brk s]\<rparr>"
  define t where "t = s\<lparr>brk := Suc (brk s)\<rparr>"
  define u where "u = put_neigh (brk s) m t"
  have fresh: "neigh_heap s (brk s) = None" using assms(1) by (auto simp: net_ok_def)
  have t: "net_ok t \<and> orig_map t = orig_map s" 
    using net_ok_fields [of t s] assms(1) by (simp add: t_def)
  have "neigh_ok t m"
    using assms(3,4) by (simp add: neigh_ok_def m_def new_neigh_node_def t_def ring_ok_def TQ_GLOBAL_WINDOW_SIZE_def)
  then have u: "net_ok u" "orig_map u = orig_map s"
    using net_ok_put_neigh [of t "brk s" m] t fresh by (simp_all add: u_def t_def)
  have up: "orig_heap u p = Some n" using assms(2) by (simp add: u_def t_def)
  have n: "orig_ok s n" using assms(1,2) by (auto simp: net_ok_def)
  have live: "\<forall>x \<in> set (neigh_list n). neigh_heap s x \<noteq> None \<and> x \<noteq> brk s"
    using n fresh by (auto simp: orig_ok_def)
  then have old: "\<forall>x \<in> set (neigh_list n). neigh_key u x = neigh_key s x"
    by (simp add: neigh_key_def u_def t_def)
  have "neigh_key u (brk s) = Some (addr, i)" by (simp add: neigh_key_def u_def m_def new_neigh_node_def)
  then have "inj_on (neigh_key u) (insert (brk s) (set (neigh_list n)))"
    using n old assms(5) live by (auto simp: orig_ok_def inj_on_def)
  then have ok': "orig_ok u n'"
    using n live by (auto simp: orig_ok_def n'_def u_def t_def)
  have lists: "brk s \<notin> set (neigh_list m)" if "orig_heap u p' = Some m" for p' m
  proof -
    have "orig_heap s p' = Some m" using that by (simp add: u_def t_def)
    then have "orig_ok s m" using assms(1) by (simp add: net_ok_def)
    then show ?thesis using fresh by (auto simp: orig_ok_def)
  qed
  have new: "q \<notin> set (neigh_list m)" if "q \<in> set (neigh_list n') - set (neigh_list n)" "orig_heap u p' = Some m" for q p' m
    using lists [OF that(2)] that(1) by (auto simp: n'_def)
  have same: "o_orig n' = o_orig n" "o_hna_list n' = o_hna_list n" "o_hna_buff n' = o_hna_buff n" by (simp_all add: n'_def)
  have s': "net_ok (put_orig p n' u)" "orig_map (put_orig p n' u) = orig_map s"
    using net_ok_put_orig [OF u(1) up ok' same new] u(2) by simp_all
  have "create_neighbor p q addr i s = Some (brk s, put_orig p n' u)"
    using assms(2) by (simp add: create_neighbor_def Let_def u_def t_def m_def n'_def put_neigh_def put_orig_def)
  moreover have "keeps s (put_orig p n' u)"
    using s'(2) assms(2) by (auto simp: keeps_defs u_def t_def put_orig_def put_neigh_def)
  ultimately show ?thesis
    using s' fresh by (auto simp: u_def t_def m_def n'_def put_orig_def put_neigh_def)
qed

lemma find_neigh_net:
  "(\<And>q. q \<in> set ps \<Longrightarrow> neigh_heap s q \<noteq> None) \<Longrightarrow>
   \<exists>r. find_neigh s addr i ps found = Some r \<and>
     (r = found \<and> (\<forall>q \<in> set ps. neigh_key s q \<noteq> Some (addr, i)) \<or>
      (\<exists>q \<in> set ps. r = Some q \<and> neigh_key s q = Some (addr, i)))"
proof (induction ps arbitrary: found)
  case (Cons p ps)
  then obtain m where m: "neigh_heap s p = Some m" by force
  have "\<And>q. q \<in> set ps \<Longrightarrow> neigh_heap s q \<noteq> None" using Cons.prems by simp
  from Cons.IH [OF this] m show ?case by (fastforce simp: neigh_key_def)
qed simp

end
