(* ===== verification/Net_Ops.thy ===== *)
theory Net_Ops
  imports Net_Inv
begin

text \<open>
  The operations on originators and neighbours return and preserve the invariant of the routing
  data: counting packets, ranking neighbours, switching routes, judging links and processing an
  originator message.
\<close>

section \<open>Facts from the invariant\<close>

lemma net_ok_orig: "net_ok s \<Longrightarrow> orig_heap s p = Some n \<Longrightarrow> orig_ok s n"
  by (simp add: net_ok_def)

lemma net_ok_neigh: "net_ok s \<Longrightarrow> neigh_heap s q = Some m \<Longrightarrow> neigh_ok s m \<and> q < brk s"
  by (simp add: net_ok_def)

lemma net_ok_neighbour:
  assumes "net_ok s" "orig_heap s p = Some n" "q \<in> set (neigh_list n)"
  obtains m where "neigh_heap s q = Some m" "neigh_ok s m" "q < brk s"
proof -
  obtain m where "neigh_heap s q = Some m" using net_ok_orig [OF assms(1,2)] assms(3) by (auto simp: orig_ok_def)
  with net_ok_neigh [OF assms(1)] that show thesis by blast
qed

lemma net_ok_if:
  assumes "net_ok s" "i \<in> set (if_list s)"
  obtains f where "if_heap s i = Some f" "0 \<le> if_num f" "if_num f < int (unat (found_ifs s))"
proof -
  have "ifs_ok s" "if_nums_ok s" using assms(1) by (simp_all add: net_ok_def trans_ok_def)
  with assms(2) that show thesis by (fastforce simp: ifs_ok_def if_nums_ok_def)
qed

lemma put_neigh_net:
  assumes "net_ok s" "neigh_heap s q = Some m0" "neigh_ok s m" "n_addr m = n_addr m0" "n_if_incoming m = n_if_incoming m0"
  shows "net_ok (put_neigh q m s)" "keeps s (put_neigh q m s)" "host_map (put_neigh q m s) = host_map s"
proof -
  have "q < brk s" using net_ok_neigh [OF assms(1,2)] by simp
  from net_ok_put_neigh [OF assms(1) this assms(3)] assms(2,4,5)
  show "net_ok (put_neigh q m s)" "keeps s (put_neigh q m s)" "host_map (put_neigh q m s) = host_map s"
    by (auto simp: keeps_defs) (auto simp: put_neigh_def)
qed

lemma put_orig_net:
  assumes "net_ok s" "orig_heap s p = Some n" "orig_ok s n'" "o_orig n' = o_orig n" "o_hna_list n' = o_hna_list n"
    "o_hna_buff n' = o_hna_buff n" "neigh_list n' = neigh_list n"
  shows "net_ok (put_orig p n' s)" "keeps s (put_orig p n' s)" "host_map (put_orig p n' s) = host_map s"
  using net_ok_put_orig [OF assms(1-6)] assms(2,7) by (auto simp: keeps_defs) (auto simp: put_orig_def)

lemma bcast_sum_net:
  assumes "net_ok s" "orig_heap s p \<noteq> None" "i \<in> set (if_list s)"
  obtains b where "bcast_sum s p i = Some b"
proof -
  obtain n where n: "orig_heap s p = Some n" using assms(2) by blast
  obtain f where "if_heap s i = Some f" "0 \<le> if_num f" "if_num f < int (unat (found_ifs s))"
    using net_ok_if [OF assms(1,3)] .
  with n net_ok_orig [OF assms(1) n] that show thesis by (simp add: bcast_sum_def orig_ok_def)
qed

section \<open>Ranking neighbours\<close>

lemma neigh_tq_update_ok:
  assumes "neigh_ok s m"
  shows "\<exists>xs j a. neigh_tq_update v m = Some (m\<lparr>tq_recv := xs, tq_index := j, tq_avg := a\<rparr>) \<and>
    neigh_ok s (m\<lparr>tq_recv := xs, tq_index := j, tq_avg := a\<rparr>) \<and> (v \<noteq> 0 \<longrightarrow> a \<noteq> 0)"
proof -
  have "ring_ok (tq_recv m) (tq_index m)" using assms by (simp add: neigh_ok_def)
  from ring_buffer_set_values [OF this, of v] obtain xs j where
    xs: "ring_buffer_set (tq_recv m) (tq_index m) v = Some (xs, j)" "ring_ok xs j"
      "ring_values xs j = tl (ring_values (tq_recv m) (tq_index m)) @ [v]" by blast
  have len: "length xs = 10" using xs(2) by (simp add: ring_ok_def)
  have "v \<in> set (ring_values xs j)" by (simp add: xs(3))
  then have v: "v \<in> set xs" by (auto simp: ring_values_def dest: in_set_takeD in_set_dropD)
  obtain a where a: "ring_buffer_avg xs = Some a" "v \<noteq> 0 \<longrightarrow> a \<noteq> 0"
  proof (cases "v = 0")
    case True
    with that ring_buffer_avg_eq [OF len] show ?thesis by blast
  next
    case False
    from ring_buffer_avg_bounds [OF len v False, of 1 255] nonzero_values_bound
    obtain a where "ring_buffer_avg xs = Some a" "1 \<le> unat a" by (metis One_nat_def Suc_leI order_refl)
    moreover from this have "a \<noteq> 0" by auto
    ultimately show ?thesis using that by blast
  qed
  show ?thesis
    using assms xs(1,2) a by (intro exI [of _ xs] exI [of _ j] exI [of _ a]) (simp add: neigh_tq_update_def neigh_ok_def)
qed

text \<open>
  The values of the best neighbour among those that were looked at: no other one of them has a
  higher average.
\<close>

definition avg_of :: "bat_state \<Rightarrow> nat \<Rightarrow> u8" where
  "avg_of s q = tq_avg (the (neigh_heap s q))"

definition rank_ok :: "bat_state \<Rightarrow> nat set \<Rightarrow> ranking \<Rightarrow> bool" where
  "rank_ok s seen r \<longleftrightarrow> (\<forall>q \<in> seen. avg_of s q \<le> max_tq r) \<and>
     (case best_neigh_node r of None \<Rightarrow> max_tq r = 0 | Some q \<Rightarrow> q \<in> seen \<and> avg_of s q = max_tq r)"

lemma rank_ok_empty [simp]: "rank_ok s {} \<lparr>best_neigh_node = None, max_tq = 0, max_bcast_own = 0\<rparr>"
  by (simp add: rank_ok_def)

lemma rank_ok_cong: "(\<And>q. q \<in> seen \<Longrightarrow> neigh_heap s' q = neigh_heap s q) \<Longrightarrow> rank_ok s' seen r = rank_ok s seen r"
  by (auto simp: rank_ok_def avg_of_def split: option.splits)

lemma rank_neigh_ok:
  assumes "net_ok s" "neigh_heap s q = Some m" "i \<in> set (if_list s)" "rank_ok s seen r"
  shows "\<exists>r'. rank_neigh s cur i q r = Some r' \<and> rank_ok s (insert q seen) r'"
proof -
  have "orig_heap s (n_orig_node m) \<noteq> None" using net_ok_neigh [OF assms(1,2)] by (simp add: neigh_ok_def)
  then obtain b where b: "bcast_sum s (n_orig_node m) i = Some b" using bcast_sum_net [OF assms(1) _ assms(3)] by blast
  have avg: "avg_of s q = tq_avg m" by (simp add: avg_of_def assms(2))
  show ?thesis
    using assms(2,4) b avg
    by (auto simp: rank_neigh_def better_neigh_def rank_ok_def word_neq_0_conv split: option.splits)
qed

lemma update_orig_loop_net:
  assumes "net_ok s" "orig_heap s p = Some on" "distinct ps" "set ps \<subseteq> set (neigh_list on)"
    "seen \<inter> set ps = {}" "rank_ok s seen r" "i \<in> set (if_list s)"
  shows "\<exists>found' r' s'. update_orig_loop p neigh i dup ps found r s = Some (found', r', s') \<and>
    net_ok s' \<and> keeps s s' \<and> orig_heap s' = orig_heap s \<and> buf_heap s' = buf_heap s \<and> gw_list s' = gw_list s \<and>
    (\<forall>q. neigh_key s' q = neigh_key s q) \<and> (\<forall>q. q \<notin> set ps \<longrightarrow> neigh_heap s' q = neigh_heap s q) \<and>
    rank_ok s' (seen \<union> {q \<in> set ps. neigh_key s q \<noteq> Some (neigh, i)}) r' \<and>
    (found' = found \<and> (\<forall>q \<in> set ps. neigh_key s q \<noteq> Some (neigh, i)) \<or>
     (\<exists>q \<in> set ps. found' = Some q \<and> neigh_key s q = Some (neigh, i)))"
  using assms
proof (induction ps arbitrary: found r s seen)
  case Nil
  then show ?case by auto
next
  case (Cons q ps)
  obtain m where m: "neigh_heap s q = Some m" "neigh_ok s m"
    using net_ok_neighbour [OF Cons.prems(1,2), of q] Cons.prems(4) by auto
  have ps: "distinct ps" "set ps \<subseteq> set (neigh_list on)" "q \<notin> set ps" using Cons.prems(3,4) by auto
  show ?case
  proof (cases "n_addr m = neigh \<and> n_if_incoming m = i")
    case True
    then have key: "neigh_key s q = Some (neigh, i)" by (simp add: neigh_key_def m(1))
    have step: "update_orig_loop p neigh i dup (q # ps) found r s = update_orig_loop p neigh i dup ps (Some q) r s"
      using True by (simp add: m(1))
    have seen: "{x \<in> set (q # ps). neigh_key s x \<noteq> Some (neigh, i)} = {x \<in> set ps. neigh_key s x \<noteq> Some (neigh, i)}"
      using key by auto
    from Cons.IH [OF Cons.prems(1,2) ps(1,2) _ Cons.prems(6,7), of "Some q"] Cons.prems(5) key show ?thesis
      unfolding step seen by fastforce
  next
    case False
    then have key: "neigh_key s q \<noteq> Some (neigh, i)" by (simp add: neigh_key_def m(1))
    obtain xs j a where m': "neigh_tq_update 0 m = Some (m\<lparr>tq_recv := xs, tq_index := j, tq_avg := a\<rparr>)"
        "neigh_ok s (m\<lparr>tq_recv := xs, tq_index := j, tq_avg := a\<rparr>)"
      using neigh_tq_update_ok [OF m(2), of 0] by blast
    define m2 where "m2 = (if dup then m else m\<lparr>tq_recv := xs, tq_index := j, tq_avg := a\<rparr>)"
    define t where "t = (if dup then s else put_neigh q m2 s)"
    have t: "net_ok t" "keeps s t" "orig_heap t = orig_heap s" "buf_heap t = buf_heap s" "gw_list t = gw_list s"
        "if_list t = if_list s" "neigh_heap t q = Some m2" "\<And>x. x \<noteq> q \<Longrightarrow> neigh_heap t x = neigh_heap s x"
      using put_neigh_net [OF Cons.prems(1) m(1), of m2] Cons.prems(1) m m'(2)
      by (auto simp: t_def m2_def put_neigh_def)
    have keys: "neigh_key t = neigh_key s" by (auto simp: fun_eq_iff neigh_key_def t_def m2_def m(1))
    have "x \<noteq> q" if "x \<in> seen" for x using that Cons.prems(5) by auto
    with t(8) have "rank_ok t seen r" using Cons.prems(6) rank_ok_cong [of seen t s r] by blast
    then obtain r1 where r1: "rank_neigh t (router on) i q r = Some r1" "rank_ok t (insert q seen) r1"
      using rank_neigh_ok [OF t(1,7)] Cons.prems(7) t(6) by metis
    have step: "update_orig_loop p neigh i dup (q # ps) found r s = update_orig_loop p neigh i dup ps found r1 t"
      using False m(1) m'(1) r1(1) Cons.prems(2) by (auto simp: t_def m2_def)
    have seen: "seen \<union> {x \<in> set (q # ps). neigh_key s x \<noteq> Some (neigh, i)} =
        insert q seen \<union> {x \<in> set ps. neigh_key t x \<noteq> Some (neigh, i)}"
      using key by (auto simp: keys)
    have "insert q seen \<inter> set ps = {}" using Cons.prems(5) ps(3) by auto
    from Cons.IH [OF t(1) _ ps(1,2) this r1(2), of found] Cons.prems(2,7) t(3,6)
    obtain found' r' s' where s': "update_orig_loop p neigh i dup ps found r1 t = Some (found', r', s')"
        "net_ok s'" "keeps t s'" "orig_heap s' = orig_heap t" "buf_heap s' = buf_heap t" "gw_list s' = gw_list t"
        "\<forall>x. neigh_key s' x = neigh_key t x" "\<forall>x. x \<notin> set ps \<longrightarrow> neigh_heap s' x = neigh_heap t x"
        "rank_ok s' (insert q seen \<union> {x \<in> set ps. neigh_key t x \<noteq> Some (neigh, i)}) r'"
        "found' = found \<and> (\<forall>x \<in> set ps. neigh_key t x \<noteq> Some (neigh, i)) \<or>
         (\<exists>x \<in> set ps. found' = Some x \<and> neigh_key t x = Some (neigh, i))" by auto
    have "keeps s s'" using t(2) s'(3) keeps_trans by blast
    with s' key show ?thesis unfolding step seen keys t(3-5) using t(8) by (intro exI conjI) auto
  qed
qed

section \<open>Routes\<close>

lemma bare_other:
  assumes "map_option bare (orig_heap s' q) = map_option bare (orig_heap s q)" "orig_heap s' q = Some m'"
  obtains m l where "orig_heap s q = Some m" "m' = m\<lparr>o_hna_list := l\<rparr>"
proof -
  obtain m where m: "orig_heap s q = Some m" "bare m' = bare m" using assms by (cases "orig_heap s q") auto
  then have "m' = m\<lparr>o_hna_list := o_hna_list m'\<rparr>" by (cases m; cases m') (simp add: bare_def)
  with m(1) that show thesis by blast
qed

lemma statics_simps:
  "statics s' = statics s \<Longrightarrow> if_heap s' = if_heap s \<and> if_list s' = if_list s \<and> found_ifs s' = found_ifs s"
  by (simp add: statics_def)

text \<open>
  A new announcement of one originator, seen from the rest of the routing data: the originator has
  a new buffer and the old one may be gone.
\<close>

lemma net_ok_new_buff:
  assumes "net_ok s" "orig_heap s p = Some n" "trans_ok s'" "orig_hash s' = orig_hash s" "neigh_heap s' = neigh_heap s"
      "statics s' = statics s" "brk s \<le> brk s'"
    and p: "orig_heap s' p = Some (n\<lparr>o_hna_buff := Some b, hna_buff_len := int (length bytes), o_hna_list := l\<rparr>)"
    and others: "\<And>q. q \<noteq> p \<Longrightarrow> map_option bare (orig_heap s' q) = map_option bare (orig_heap s q)"
    and b: "brk s \<le> b" "b < brk s'" "buf_heap s' b = Some bytes"
      "\<And>x. x \<noteq> b \<Longrightarrow> buf_heap s' x = buf_heap s x \<or> (o_hna_buff n = Some x \<and> buf_heap s' x = None)"
  shows "net_ok s' \<and> keeps s s'"
proof -
  note st = statics_simps [OF assms(6)]
  have bufs: "bufs_ok s" and ok: "origs_ok s" "if_nums_ok s" using assms(1) by (simp_all add: net_ok_def)
  have other: "\<exists>m l. orig_heap s q = Some m \<and> m' = m\<lparr>o_hna_list := l\<rparr>" if "q \<noteq> p" "orig_heap s' q = Some m'" for q m'
    using bare_other [OF others [OF that(1)] that(2)] by blast
  have "map_option o_orig (orig_heap s' q) = map_option o_orig (orig_heap s q)" for q
  proof (cases "q = p")
    case False
    have eq: "o_orig = o_orig \<circ> bare" by (simp add: fun_eq_iff bare_def)
    show ?thesis using arg_cong [OF others [OF False], of "map_option o_orig"]
      by (subst (1 2) eq) (simp add: option.map_comp)
  qed (simp add: p assms(2))
  then have o: "origs_ok s' \<and> orig_map s' = orig_map s"
    using origs_ok_frame [OF ok(1) assms(4,7)] by blast
  have dom: "orig_heap s' q \<noteq> None" if "orig_heap s q \<noteq> None" for q
    using that others [of q] p by (cases "q = p"; cases "orig_heap s' q") auto
  have live: "x \<noteq> b \<and> buf_heap s' x = buf_heap s x"
    if "q \<noteq> p" "orig_heap s q = Some m" "o_hna_buff m = Some x" for q m x
  proof -
    have "o_hna_buff n \<noteq> Some x" using bufs that assms(2) unfolding bufs_ok_def by blast
    moreover have "buf_heap s x \<noteq> None" using net_ok_orig [OF assms(1) that(2)] that(3) by (auto simp: orig_ok_def)
    then have "x < brk s" using bufs by (auto simp: bufs_ok_def)
    ultimately show ?thesis using b(1) b(4) [of x] by auto
  qed
  have key: "neigh_key s' = neigh_key s" by (simp add: fun_eq_iff neigh_key_def assms(5))
  have "orig_ok s' m'" if m': "orig_heap s' q = Some m'" for q m'
  proof (cases "q = p")
    case True
    then have "m' = n\<lparr>o_hna_buff := Some b, hna_buff_len := int (length bytes), o_hna_list := l\<rparr>" using m' p by simp
    then show ?thesis
      using net_ok_orig [OF assms(1,2)] b(3) st by (simp add: orig_ok_def key assms(5))
  next
    case False
    obtain m l where m: "orig_heap s q = Some m" "m' = m\<lparr>o_hna_list := l\<rparr>" using other [OF False m'] by blast
    then show ?thesis
      using net_ok_orig [OF assms(1) m(1)] live [OF False m(1)] st by (simp add: orig_ok_def key assms(5))
  qed
  moreover have "neigh_ok s' m" if "neigh_ok s m" for m using that dom st by (auto simp: neigh_ok_def)
  moreover have "bufs_ok s'"
  proof -
    have lt: "x < brk s'" if "buf_heap s' x \<noteq> None" for x
    proof (cases "x = b")
      case False
      then have "buf_heap s x \<noteq> None" using that b(4) [of x] by auto
      then have "x < brk s" using bufs unfolding bufs_ok_def by blast
      then show ?thesis using assms(7) by simp
    qed (use b(2) in simp)
    have uniq: "False" if "q \<noteq> p" "orig_heap s' q = Some m'" "o_hna_buff m' = Some b" for q m'
      using other [OF that(1,2)] that live [OF that(1)] by fastforce
    have "q = q'" if h: "orig_heap s' q = Some m" "orig_heap s' q' = Some m'" "o_hna_buff m = Some x" "o_hna_buff m' = Some x"
      for q q' m m' x
    proof (cases "q = p \<or> q' = p")
      case True
      then show ?thesis using h p uniq by (cases "q = p"; cases "q' = p") auto
    next
      case False
      then obtain m1 m2 l1 l2 where "orig_heap s q = Some m1" "m = m1\<lparr>o_hna_list := l1\<rparr>"
          "orig_heap s q' = Some m2" "m' = m2\<lparr>o_hna_list := l2\<rparr>"
        using other h(1,2) by metis
      then show ?thesis using h bufs unfolding bufs_ok_def by fastforce
    qed
    with lt show ?thesis unfolding bufs_ok_def by blast
  qed
  moreover have "if_nums_ok s'" using ok(2) st by (simp add: if_nums_ok_def)
  moreover have "entries_ok s'"
  proof -
    have e: "entries_ok s" using assms(1) by (simp add: net_ok_def)
    have nl: "\<exists>m. orig_heap s q = Some m \<and> neigh_list m = neigh_list m'" if "orig_heap s' q = Some m'" for q m'
      using that p assms(2) other [of q m'] by (cases "q = p") auto
    then show ?thesis using e unfolding entries_ok_def by metis
  qed
  moreover have "\<forall>q. neigh_heap s' q \<noteq> None \<longrightarrow> q < brk s'"
    using assms(1,5,7) by (auto simp: net_ok_def intro: less_le_trans)
  ultimately have "net_ok s'" using o assms(1,3,5) by (simp add: net_ok_def)
  moreover have "keeps s s'" using o assms(5-7) dom by (auto simp: keeps_def)
  ultimately show ?thesis ..
qed

lemma trans_frame_same:
  "trans_frame s s' \<Longrightarrow> statics s' = statics s \<and> orig_hash s' = orig_hash s \<and> neigh_heap s' = neigh_heap s \<and>
     buf_heap s' = buf_heap s \<and> gw_list s' = gw_list s \<and> brk s \<le> brk s' \<and>
     (\<forall>q. map_option bare (orig_heap s' q) = map_option bare (orig_heap s q))"
  by (simp add: trans_frame_def statics_def)

lemma hna_copy_buff_net:
  assumes "trans_ok u" "orig_heap u p = Some (n\<lparr>o_hna_list := hosts, hna_buff_len := old_len\<rparr>)"
    "hna_recv_bytes src len u = Some bytes"
    and s: "net_ok s" "orig_heap s p = Some n" "orig_hash u = orig_hash s" "neigh_heap u = neigh_heap s"
      "statics u = statics s" "brk s \<le> brk u" "gw_list u = gw_list s"
      "\<And>q. q \<noteq> p \<Longrightarrow> map_option bare (orig_heap u q) = map_option bare (orig_heap s q)"
      "\<And>x. buf_heap u x = buf_heap s x \<or> (o_hna_buff n = Some x \<and> buf_heap u x = None)"
  shows "\<exists>s'. hna_copy_buff p src len u = Some s' \<and> net_ok s' \<and> keeps s s' \<and> neigh_heap s' = neigh_heap s \<and>
    gw_list s' = gw_list s \<and>
    (\<exists>l b k. orig_heap s' p = Some (n\<lparr>o_hna_buff := Some b, hna_buff_len := k, o_hna_list := l\<rparr>))"
proof -
  let ?n = "n\<lparr>o_hna_list := hosts, hna_buff_len := old_len\<rparr>"
  define t where "t = put_orig p (?n\<lparr>o_hna_buff := Some (brk u), hna_buff_len := len\<rparr>)
      (u\<lparr>buf_heap := (buf_heap u)(brk u \<mapsto> bytes), brk := Suc (brk u)\<rparr>)"
  obtain s' l where s': "hna_copy_buff p src len u = Some s'" "trans_ok s'"
      "orig_heap s' p = Some (?n\<lparr>o_hna_buff := Some (brk u), hna_buff_len := len, o_hna_list := l\<rparr>)" "trans_frame t s'"
    using hna_copy_buff_eq [OF assms(1-3)] unfolding t_def by blast
  have len: "len = int (length bytes)"
    using assms(3) by (auto simp: hna_recv_bytes_def bind_eq_Some_conv split: if_splits)
  note tf = trans_frame_same [OF s'(4)]
  have t: "statics t = statics u" "orig_hash t = orig_hash u" "neigh_heap t = neigh_heap u" "gw_list t = gw_list u"
      "buf_heap t = (buf_heap u)(brk u \<mapsto> bytes)" "brk t = Suc (brk u)"
      "\<And>q. q \<noteq> p \<Longrightarrow> orig_heap t q = orig_heap u q"
    by (simp_all add: t_def statics_def put_orig_def)
  have "net_ok s' \<and> keeps s s'"
  proof (rule net_ok_new_buff [OF s(1,2) s'(2)])
    show "orig_heap s' p = Some (n\<lparr>o_hna_buff := Some (brk u), hna_buff_len := int (length bytes), o_hna_list := l\<rparr>)"
      by (simp add: s'(3) len)
    show "map_option bare (orig_heap s' q) = map_option bare (orig_heap s q)" if "q \<noteq> p" for q
      using tf t(7) [OF that] s(8) [OF that] by simp
    show "brk s \<le> brk u" "brk s \<le> brk s'" "brk u < brk s'" using tf t(6) s(6) by linarith+
    show "buf_heap s' x = buf_heap s x \<or> (o_hna_buff n = Some x \<and> buf_heap s' x = None)" if "x \<noteq> brk u" for x
      using tf t(5) s(9) [of x] that by simp
  qed (use tf t s in simp_all)
  with s' tf t s(4,7) show ?thesis by auto
qed

lemma update_hna_net:
  assumes "net_ok s" "orig_heap s p = Some n" "0 \<le> len" "len \<le> int (length bs)"
  shows "\<exists>s'. update_hna p (Packet_hna bs) len s = Some s' \<and> net_ok s' \<and> keeps s s' \<and> neigh_heap s' = neigh_heap s \<and>
    gw_list s' = gw_list s \<and>
    (\<exists>l b k. orig_heap s' p = Some (n\<lparr>o_hna_buff := Some b, hna_buff_len := k, o_hna_list := l\<rparr>))"
proof (cases "o_hna_buff n")
  case None
  have recv: "hna_recv_bytes (Packet_hna bs) len s = Some (take (nat len) bs)"
    using assms(3,4) by (simp add: hna_recv_bytes_def)
  have "update_hna p (Packet_hna bs) len s = hna_copy_buff p (Packet_hna bs) len s"
    using None assms(2) by (simp add: update_hna_def)
  moreover have t: "trans_ok s" using assms(1) by (simp add: net_ok_def)
  moreover have n: "orig_heap s p = Some (n\<lparr>o_hna_list := o_hna_list n, hna_buff_len := hna_buff_len n\<rparr>)" using assms(2) by simp
  ultimately show ?thesis
    by (simp only:) (rule hna_copy_buff_net [OF t n recv assms(1,2)], simp_all)
next
  case (Some b)
  have t: "trans_ok s" using assms(1) by (simp add: net_ok_def)
  obtain old where old: "buf_heap s b = Some old" "hna_buff_len n = int (length old)"
    using net_ok_orig [OF assms(1,2)] Some by (auto simp: orig_ok_def)
  have recv: "hna_recv_bytes (Packet_hna bs) len t = Some (take (nat len) bs)" for t
    using assms(3,4) by (simp add: hna_recv_bytes_def)
  obtain u v where u: "hna_del_buff p s = Some u" "trans_ok u" "trans_frame s v"
      "u = put_orig p (n\<lparr>o_hna_list := [], hna_buff_len := 0\<rparr>) (v\<lparr>buf_heap := (buf_heap s)(b := None)\<rparr>)"
    using hna_del_buff_eq [OF t assms(2) Some old(1)] by blast
  note tf = trans_frame_same [OF u(3)]
  have uf: "statics u = statics s" "orig_hash u = orig_hash s" "neigh_heap u = neigh_heap s" "gw_list u = gw_list s"
      "buf_heap u = (buf_heap s)(b := None)" "brk s \<le> brk u"
      "\<And>q. q \<noteq> p \<Longrightarrow> map_option bare (orig_heap u q) = map_option bare (orig_heap s q)"
      "orig_heap u p = Some (n\<lparr>o_hna_list := [], hna_buff_len := 0\<rparr>)"
    using tf by (simp_all add: u(4) put_orig_def statics_def)
  have same: "\<exists>l b k. orig_heap s p = Some (n\<lparr>o_hna_buff := Some b, hna_buff_len := k, o_hna_list := l\<rparr>)"
    using assms(2) Some by (intro exI [of _ "o_hna_list n"] exI [of _ b] exI [of _ "hna_buff_len n"]) simp
  have copy: "\<exists>s'. hna_copy_buff p (Packet_hna bs) len u = Some s' \<and> net_ok s' \<and> keeps s s' \<and>
    neigh_heap s' = neigh_heap s \<and> gw_list s' = gw_list s \<and>
    (\<exists>l b k. orig_heap s' p = Some (n\<lparr>o_hna_buff := Some b, hna_buff_len := k, o_hna_list := l\<rparr>))"
    using hna_copy_buff_net [OF u(2) uf(8) recv assms(1,2) uf(2,3,1,6,4,7)] Some uf(5) by simp
  have "update_hna p (Packet_hna bs) len s = hna_copy_buff p (Packet_hna bs) len u \<or>
      update_hna p (Packet_hna bs) len s = Some s"
    using assms(2,4) Some old u(1) recv [of s] by (auto simp: update_hna_def hna_recv_bytes_def)
  then show ?thesis
  proof
    assume "update_hna p (Packet_hna bs) len s = hna_copy_buff p (Packet_hna bs) len u"
    with copy show ?thesis by (simp only:)
  next
    assume "update_hna p (Packet_hna bs) len s = Some s"
    with assms(1) same show ?thesis by blast
  qed
qed

lemma orig_ok_fields:
  assumes "orig_ok s n" "neigh_list n' = neigh_list n" "router n' = router n" "o_batman_if n' = o_batman_if n" "length (bcast_own n') = length (bcast_own n)"
    "length (bcast_own_sum n') = length (bcast_own_sum n)" "length (seq_bits n') = length (seq_bits n)"
    "o_hna_buff n' = o_hna_buff n" "hna_buff_len n' = hna_buff_len n"
  shows "orig_ok s n'"
  using assms by (simp add: orig_ok_def)

lemma update_routes_net:
  assumes "net_ok s" "orig_heap s p = Some n" "q \<in> set (neigh_list n)" "0 \<le> len" "len \<le> int (length bs)"
  shows "\<exists>s'. update_routes p (Some q) (Packet_hna bs) len s = Some s' \<and> net_ok s' \<and> keeps s s' \<and>
    neigh_heap s' = neigh_heap s \<and> gw_list s' = gw_list s \<and>
    (\<exists>i l b k. orig_heap s' p = Some (n\<lparr>o_batman_if := i, router := Some q, o_hna_buff := Some b, hna_buff_len := k, o_hna_list := l\<rparr>))"
proof -
  obtain m where m: "neigh_heap s q = Some m" using net_ok_neighbour [OF assms(1-3)] .
  define i where "i = (if router n = Some q then o_batman_if n else Some (n_if_incoming m))"
  define n1 where "n1 = n\<lparr>o_batman_if := i, router := Some q\<rparr>"
  define s1 where "s1 = (if router n = Some q then s else put_orig p n1 s)"
  have r: "update_router p (Some q) s = Some s1"
    using update_router_eq [OF assms(2) m] by (simp add: s1_def n1_def i_def)
  have "n_if_incoming m \<in> set (if_list s)" using net_ok_neigh [OF assms(1) m] by (simp add: neigh_ok_def)
  then have "orig_ok s n1" using net_ok_orig [OF assms(1,2)] assms(3) by (auto simp: orig_ok_def n1_def i_def)
  from put_orig_net [OF assms(1,2) this] assms(1)
  have s1: "net_ok s1" "keeps s s1" "neigh_heap s1 = neigh_heap s" "gw_list s1 = gw_list s"
    by (simp_all add: s1_def n1_def put_orig_def)
  have "orig_heap s1 p = Some n1" using assms(2) by (simp add: s1_def n1_def i_def)
  from update_hna_net [OF s1(1) this assms(4,5)] obtain s' l b k where s': "update_hna p (Packet_hna bs) len s1 = Some s'"
      "net_ok s'" "keeps s1 s'" "neigh_heap s' = neigh_heap s1" "gw_list s' = gw_list s1"
      "orig_heap s' p = Some (n1\<lparr>o_hna_buff := Some b, hna_buff_len := k, o_hna_list := l\<rparr>)" by blast
  have "update_routes p (Some q) (Packet_hna bs) len s = Some s'" using r s'(1) by (simp add: update_routes_def)
  with s' s1 show ?thesis
    by (intro exI [of _ s'] conjI exI [of _ i] exI [of _ l] exI [of _ b] exI [of _ k])
      (auto simp: n1_def intro: keeps_trans)
qed

lemma net_ok_gw: "net_ok s \<Longrightarrow> net_ok (s\<lparr>ticks := t, gw_list := g\<rparr>) \<and> keeps s (s\<lparr>ticks := t, gw_list := g\<rparr>)"
  using net_ok_fields [of "s\<lparr>ticks := t, gw_list := g\<rparr>" s] by (simp add: keeps_defs)

lemma net_ok_gw1: "net_ok s \<Longrightarrow> net_ok (s\<lparr>gw_list := g\<rparr>) \<and> keeps s (s\<lparr>gw_list := g\<rparr>)"
  using net_ok_gw [where s = s and t = "ticks s" and g = g] by simp

lemma update_gw_list_net:
  assumes "net_ok s" "orig_heap s p = Some n" "unat f \<le> 11"
  shows "\<exists>s' g. update_gw_list p f s = Some s' \<and> net_ok s' \<and> keeps s s' \<and> neigh_heap s' = neigh_heap s \<and>
    orig_heap s' p = Some (n\<lparr>o_gwflags := g\<rparr>)"
proof (cases "\<exists>g \<in> set (gw_list s). gw_orig_node g = p")
  case True
  obtain gs gs' where gs: "gw_update p f (clock s (ticks s)) (gw_list s) = Some gs" "gw_update p f 0 (gw_list s) = Some gs'"
    using gw_update_known [OF True] by metis
  show ?thesis
  proof (cases "f = 0")
    case True
    then show ?thesis
      using \<open>\<exists>g \<in> _. _\<close> net_ok_gw [OF assms(1)] gs(1) assms(2)
      by (intro exI [of _ "s\<lparr>ticks := Suc (ticks s), gw_list := gs\<rparr>"] exI [of _ "o_gwflags n"])
        (simp add: update_gw_list_def get_time_def)
  next
    case False
    let ?t = "s\<lparr>gw_list := gs'\<rparr>"
    have "orig_ok s (n\<lparr>o_gwflags := f\<rparr>)" by (rule orig_ok_fields [OF net_ok_orig [OF assms(1,2)]]) simp_all
    then have "orig_ok ?t (n\<lparr>o_gwflags := f\<rparr>)" by (simp add: orig_ok_def neigh_key_def [abs_def])
    from put_orig_net [OF conjunct1 [OF net_ok_gw1 [OF assms(1)]] _ this] assms(2)
    have "net_ok (put_orig p (n\<lparr>o_gwflags := f\<rparr>) ?t)" "keeps ?t (put_orig p (n\<lparr>o_gwflags := f\<rparr>) ?t)" by simp_all
    with net_ok_gw1 [OF assms(1), of gs'] \<open>\<exists>g \<in> _. _\<close> False gs(2) assms(2) show ?thesis
      by (intro exI [of _ "put_orig p (n\<lparr>o_gwflags := f\<rparr>) ?t"] exI [of _ f])
        (auto simp: update_gw_list_def put_orig_def intro: keeps_trans)
  qed
next
  case False
  have "unat f \<le> 11 \<longleftrightarrow> uint f \<le> 11" unfolding unat_eq_nat_uint nat_le_iff by simp
  then have "array_get gw2string (uint f) \<noteq> None" using assms(3) by (simp add: array_get_None gw2string_def)
  with False net_ok_gw [OF assms(1)] assms(2) show ?thesis
    by (intro exI [of _ "s\<lparr>ticks := Suc (ticks s), gw_list := gw_list s @
          [\<lparr>gw_orig_node = p, unavail_factor = 0, last_failure = clock s (ticks s), deleted = 0\<rparr>]\<rparr>"] exI [of _ "o_gwflags n"])
      (auto simp: update_gw_list_def get_time_def)
qed

section \<open>Updating an originator\<close>

lemma keeps_if_list: "keeps s s' \<Longrightarrow> if_list s' = if_list s \<and> if_heap s' = if_heap s \<and> found_ifs s' = found_ifs s"
  by (simp add: keeps_defs)

text \<open>The entry for the sender of a message, found by the loop or created.\<close>

lemma update_orig_entry:
  assumes "net_ok s" "orig_heap s p = Some on" "i \<in> set (if_list s)"
  shows "\<exists>found r s1 q s2 m on'.
    update_orig_loop p neigh i dup (neigh_list on) None \<lparr>best_neigh_node = None, max_tq = 0, max_bcast_own = 0\<rparr> s =
      Some (found, r, s1) \<and>
    (case found of
       Some q \<Rightarrow> Some (q, s1)
     | None \<Rightarrow> do { (p', s) \<leftarrow> get_orig_node neigh s1; create_neighbor p p' neigh i s }) = Some (q, s2) \<and>
    net_ok s2 \<and> keeps s s2 \<and> neigh_heap s2 q = Some m \<and> orig_heap s2 p = Some on' \<and>
    set (neigh_list on) \<subseteq> set (neigh_list on') \<and> q \<in> set (neigh_list on') \<and>
    rank_ok s2 (set (neigh_list on') - {q}) r"
proof -
  have n: "distinct (neigh_list on)" "inj_on (neigh_key s) (set (neigh_list on))"
    using net_ok_orig [OF assms(1,2)] by (simp_all add: orig_ok_def)
  obtain found r s1 where s1: "update_orig_loop p neigh i dup (neigh_list on) None
        \<lparr>best_neigh_node = None, max_tq = 0, max_bcast_own = 0\<rparr> s = Some (found, r, s1)"
      "net_ok s1" "keeps s s1" "orig_heap s1 = orig_heap s" "\<forall>q. neigh_key s1 q = neigh_key s q"
      "rank_ok s1 {q \<in> set (neigh_list on). neigh_key s q \<noteq> Some (neigh, i)} r"
      "found = None \<and> (\<forall>q \<in> set (neigh_list on). neigh_key s q \<noteq> Some (neigh, i)) \<or>
       (\<exists>q \<in> set (neigh_list on). found = Some q \<and> neigh_key s q = Some (neigh, i))"
    using update_orig_loop_net [OF assms(1,2) n(1) order_refl _ rank_ok_empty assms(3), of neigh dup None] by auto
  have on1: "orig_heap s1 p = Some on" using s1(4) assms(2) by simp
  show ?thesis
  proof (cases found)
    case (Some q)
    then have q: "q \<in> set (neigh_list on)" "neigh_key s q = Some (neigh, i)" using s1(7) by auto
    then have "{x \<in> set (neigh_list on). neigh_key s x \<noteq> Some (neigh, i)} = set (neigh_list on) - {q}"
      using n(2) by (auto simp: inj_on_def)
    moreover obtain m where "neigh_heap s1 q = Some m" using net_ok_neighbour [OF s1(2) on1 q(1)] .
    ultimately show ?thesis
      using s1 q on1 Some
      by (intro exI [of _ found] exI [of _ r] exI [of _ s1] exI [of _ q] exI [of _ m] exI [of _ on]) simp
  next
    case None
    then have none: "\<forall>q \<in> set (neigh_list on). neigh_key s q \<noteq> Some (neigh, i)" using s1(7) by auto
    obtain p' t where t: "get_orig_node neigh s1 = Some (p', t)" "net_ok t" "keeps s1 t" "orig_heap t p' \<noteq> None"
        "neigh_heap t = neigh_heap s1" "\<forall>q m. orig_heap s1 q = Some m \<longrightarrow> orig_heap t q = Some m"
      using get_orig_node_net [OF s1(2), of neigh] by (metis option.distinct(1))
    have on2: "orig_heap t p = Some on" using t(6) on1 by blast
    have key: "\<forall>x \<in> set (neigh_list on). neigh_key t x \<noteq> Some (neigh, i)"
      using none s1(5) t(5) by (simp add: neigh_key_def)
    have "i \<in> set (if_list t)" using assms(3) keeps_if_list [OF s1(3)] keeps_if_list [OF t(3)] by simp
    from create_neighbor_net [OF t(2) on2 t(4) this key] obtain s2 where
      s2: "create_neighbor p p' neigh i t = Some (brk t, s2)" "net_ok s2" "keeps t s2" "neigh_heap t (brk t) = None"
        "neigh_heap s2 = (neigh_heap t)(brk t \<mapsto> new_neigh_node neigh p' i)"
        "orig_heap s2 = (orig_heap t)(p \<mapsto> on\<lparr>neigh_list := neigh_list on @ [brk t]\<rparr>)" by blast
    have fresh: "brk t \<notin> set (neigh_list on)"
      using net_ok_orig [OF t(2) on2] s2(4) by (auto simp: orig_ok_def)
    have "{x \<in> set (neigh_list on). neigh_key s x \<noteq> Some (neigh, i)} = set (neigh_list on)" using none by auto
    then have "rank_ok s1 (set (neigh_list on)) r" using s1(6) by simp
    then have "rank_ok s2 (set (neigh_list on)) r"
      by (subst rank_ok_cong [of _ s2 s1]) (use fresh s2(5) t(5) in auto)
    moreover have "set (neigh_list on @ [brk t]) - {brk t} = set (neigh_list on)" using fresh by auto
    moreover have "keeps s s2" using s1(3) t(3) s2(3) keeps_trans by metis
    ultimately show ?thesis
      using s1(1) s2 t(1) None
      by (intro exI [of _ None] exI [of _ r])
        (rule exI [of _ s1], rule exI [of _ "brk t"], rule exI [of _ s2], auto)
  qed
qed

lemma update_gw_if_net:
  assumes "net_ok s" "orig_heap s p = Some n" "unat f \<le> 11"
  shows "\<exists>s' g. (if o_gwflags n \<noteq> f then update_gw_list p f s else Some s) = Some s' \<and> net_ok s' \<and> keeps s s' \<and>
    neigh_heap s' = neigh_heap s \<and> orig_heap s' p = Some (n\<lparr>o_gwflags := g\<rparr>)"
  using update_gw_list_net [OF assms] assms(1,2)
  by (cases "o_gwflags n = f") (auto intro!: exI [of _ s] exI [of _ "o_gwflags n"])

lemma rank_best:
  assumes "rank_ok s A r" "q \<in> A" "avg_of s q \<noteq> 0"
  obtains b where "best_neigh_node r = Some b" "b \<in> A" "avg_of s b \<noteq> 0" "\<forall>x \<in> A. avg_of s x \<le> avg_of s b"
proof -
  have "max_tq r \<noteq> 0" using assms by (auto simp: rank_ok_def)
  with assms(1) that show thesis by (cases "best_neigh_node r") (auto simp: rank_ok_def)
qed

lemma update_orig_net:
  assumes "net_ok s" "orig_heap s p = Some on" "i \<in> set (if_list s)" "tq inp \<noteq> 0" "unat (gwflags inp) \<le> 11"
  shows "\<exists>s' n' b. update_orig p neigh inp i tail (int (length tail)) dup now s = Some s' \<and> net_ok s' \<and> keeps s s' \<and>
    orig_heap s' p = Some n' \<and> router n' = Some b \<and> b \<in> set (neigh_list n') \<and> avg_of s' b \<noteq> 0 \<and>
    (\<forall>x \<in> set (neigh_list n'). avg_of s' x \<le> avg_of s' b) \<and> set (neigh_list on) \<subseteq> set (neigh_list n') \<and>
    o_gwflags n' = gwflags inp"
proof -
  obtain found r s1 q s2 m on' where s2: "update_orig_loop p neigh i dup (neigh_list on) None
        \<lparr>best_neigh_node = None, max_tq = 0, max_bcast_own = 0\<rparr> s = Some (found, r, s1)"
      "(case found of Some q \<Rightarrow> Some (q, s1)
        | None \<Rightarrow> do { (p', s) \<leftarrow> get_orig_node neigh s1; create_neighbor p p' neigh i s }) = Some (q, s2)"
      "net_ok s2" "keeps s s2" "neigh_heap s2 q = Some m" "orig_heap s2 p = Some on'"
      "set (neigh_list on) \<subseteq> set (neigh_list on')" "q \<in> set (neigh_list on')" "rank_ok s2 (set (neigh_list on') - {q}) r"
    using update_orig_entry [OF assms(1-3), of neigh dup] by auto
  have "neigh_ok s2 (m\<lparr>n_last_valid := now\<rparr>)" using net_ok_neigh [OF s2(3,5)] by (simp add: neigh_ok_def)
  from neigh_tq_update_ok [OF this, of "tq inp"] obtain m1 where m1: "neigh_tq_update (tq inp) (m\<lparr>n_last_valid := now\<rparr>) = Some m1"
      "neigh_ok s2 m1" "tq_avg m1 \<noteq> 0" "n_addr m1 = n_addr m" "n_if_incoming m1 = n_if_incoming m" using assms(4) by force
  define m2 where "m2 = (if dup then m1 else m1\<lparr>n_last_ttl := ttl inp\<rparr>)"
  have m2: "neigh_ok s2 m2" "tq_avg m2 \<noteq> 0" "n_addr m2 = n_addr m" "n_if_incoming m2 = n_if_incoming m"
    using m1 by (simp_all add: m2_def neigh_ok_def)
  define s3 where "s3 = put_neigh q m2 s2"
  note s3 = put_neigh_net [OF s2(3,5) m2(1,3,4), folded s3_def]
  have on3: "orig_heap s3 p = Some on'" using s2(6) by (simp add: s3_def)
  define n4 where "n4 = (if dup then on' else on'\<lparr>o_last_ttl := ttl inp\<rparr>)"
  define s4 where "s4 = (if dup then s3 else put_orig p n4 s3)"
  have "orig_ok s3 n4" by (rule orig_ok_fields [OF net_ok_orig [OF s3(1) on3]]) (simp_all add: n4_def)
  from put_orig_net [OF s3(1) on3 this] have s4: "net_ok s4" "keeps s3 s4"
    using s3(1) by (cases dup; simp add: s4_def n4_def)+
  have f4: "orig_heap s4 p = Some n4" "neigh_heap s4 = (neigh_heap s2)(q \<mapsto> m2)" "neigh_list n4 = neigh_list on'"
    using on3 by (simp_all add: s4_def n4_def s3_def put_orig_def)
  have "rank_ok s4 (set (neigh_list on') - {q}) r"
    by (subst rank_ok_cong [of _ s4 s2]) (use s2(9) f4(2) in auto)
  moreover have i4: "i \<in> set (if_list s4)"
    using assms(3) keeps_if_list [OF s2(4)] keeps_if_list [OF s3(2)] keeps_if_list [OF s4(2)] by simp
  ultimately obtain r' where r': "rank_neigh s4 (router on') i q r = Some r'"
      "rank_ok s4 (insert q (set (neigh_list on') - {q})) r'"
    using rank_neigh_ok [OF s4(1)] f4(2) by fastforce
  then obtain b where b: "best_neigh_node r' = Some b" "b \<in> set (neigh_list on')" "avg_of s4 b \<noteq> 0"
      "\<forall>x \<in> set (neigh_list on'). avg_of s4 x \<le> avg_of s4 b"
    using rank_best [OF r'(2), of q] m2(2) f4(2) s2(8) by (auto simp: avg_of_def insert_absorb)
  define len where "len = (if int (length tail) > uint (num_hna inp) * 6 then uint (num_hna inp) * 6 else int (length tail))"
  have len: "0 \<le> len" "len \<le> int (length tail)" by (simp_all add: len_def)
  obtain s5 i' l bb k where s5: "update_routes p (Some b) (Packet_hna tail) len s4 = Some s5" "net_ok s5" "keeps s4 s5"
      "neigh_heap s5 = neigh_heap s4"
      "orig_heap s5 p = Some (n4\<lparr>o_batman_if := i', router := Some b, o_hna_buff := Some bb, hna_buff_len := k, o_hna_list := l\<rparr>)"
    using update_routes_net [OF s4(1) f4(1) _ len, of b] b(2) f4(3) by auto
  let ?n5 = "n4\<lparr>o_batman_if := i', router := Some b, o_hna_buff := Some bb, hna_buff_len := k, o_hna_list := l\<rparr>"
  obtain s6 g where s6: "(if o_gwflags ?n5 \<noteq> gwflags inp then update_gw_list p (gwflags inp) s5 else Some s5) = Some s6"
      "net_ok s6" "keeps s5 s6" "neigh_heap s6 = neigh_heap s5" "orig_heap s6 p = Some (?n5\<lparr>o_gwflags := g\<rparr>)"
    using update_gw_if_net [OF s5(2,5) assms(5)] by blast
  let ?n6 = "?n5\<lparr>o_gwflags := gwflags inp\<rparr>"
  have "orig_ok s6 ?n6" by (rule orig_ok_fields [OF net_ok_orig [OF s6(2,5)]]) simp_all
  from put_orig_net [OF s6(2,5) this] have s7: "net_ok (put_orig p ?n6 s6)" "keeps s6 (put_orig p ?n6 s6)" by simp_all
  have "update_orig p neigh inp i tail (int (length tail)) dup now s = Some (put_orig p ?n6 s6)"
    unfolding update_orig_def
    using assms(2) s2(1,2,5) m1(1) on3 r'(1) b(1) s5(1,5) s6(1,5)
    by (cases dup) (simp_all add: m2_def s3_def n4_def s4_def len_def [symmetric] split del: if_split)
  moreover have "keeps s (put_orig p ?n6 s6)" using s2(4) s3(2) s4(2) s5(3) s6(3) s7(2) by (meson keeps_trans)
  moreover have "avg_of (put_orig p ?n6 s6) x = avg_of s4 x" for x
    using s5(4) s6(4) by (simp add: avg_of_def put_orig_def)
  ultimately show ?thesis
    using s7(1) b f4(3) s2(7) by (intro exI [of _ "put_orig p ?n6 s6"] exI [of _ ?n6] exI [of _ b]) simp
qed

end
