(* ===== verification/Ogm_Inv.thy ===== *)
theory Ogm_Inv
  imports Net_Ops
begin

text \<open>
  Processing an originator message: which messages count as duplicates, that the whole of
  \<open>process_ogm\<close> returns and preserves the invariant of the routing data for every message whose
  sequence number does not run into the defects of the sliding windows, and what it does to the
  route and to the queue.
\<close>

section \<open>Counting packets\<close>

text \<open>
  The sequence numbers for which the accesses of \<open>get_bit_status\<close> and \<open>bit_get_packet\<close> are inside
  of the windows: the distance to the last number is not exactly 64, and a number in the window has
  not wrapped around.
\<close>

definition seq_safe :: "u16 \<Rightarrow> u16 \<Rightarrow> bool" where
  "seq_safe last_seq sq \<longleftrightarrow> to_s16 (uint sq - uint last_seq) \<noteq> 64 \<and> (unat (last_seq - sq) < 64 \<longrightarrow> sq \<le> last_seq)"

text \<open>A neighbour has sent the message with this number before.\<close>

definition heard :: "bat_state \<Rightarrow> u16 \<Rightarrow> u16 \<Rightarrow> nat \<Rightarrow> bool" where
  "heard s last_seq sq q \<longleftrightarrow>
     unat (last_seq - sq) < 64 \<and> unat (last_seq - sq) \<in> window (real_bits (the (neigh_heap s q)))"

lemma count_real_step:
  assumes "length (real_bits m) = 2" "seq_safe last_seq sq"
  shows "\<exists>bits b c. get_bit_status (real_bits m) last_seq sq =
      Some (unat (last_seq - sq) < 64 \<and> unat (last_seq - sq) \<in> window (real_bits m)) \<and>
    bit_get_packet (real_bits m) (to_s16 (uint sq - uint last_seq)) mark = Some (b, bits) \<and> length bits = 2 \<and>
    window bits = get_packet_window (to_s16 (uint sq - uint last_seq)) mark (window (real_bits m)) \<and>
    bit_packet_count bits = Some c \<and> unat (word_of_int c :: u8) = card (window bits) \<and> card (window bits) \<le> 64"
proof -
  obtain bits where bits: "bit_get_packet (real_bits m) (to_s16 (uint sq - uint last_seq)) mark =
      Some (to_s16 (uint sq - uint last_seq) \<ge> 0 \<or> to_s16 (uint sq - uint last_seq) < - 64, bits)" "length bits = 2"
      "window bits = get_packet_window (to_s16 (uint sq - uint last_seq)) mark (window (real_bits m))"
    using win32.get_packet_win [OF assms(1), of "to_s16 (uint sq - uint last_seq)" mark] assms(2)
    by (auto simp: seq_safe_def)
  have "unat (word_of_int (int (card (window bits))) :: u8) = card (window bits)"
    using card_window_le [OF bits(2)] by (simp add: unat_of_nat_id)
  with bits win32.count_win [OF bits(2)] card_window_le [OF bits(2)] get_bit_status_32 [OF assms(1), of last_seq sq] assms(2)
  show ?thesis by (auto simp: seq_safe_def)
qed

text \<open>What the loop over the neighbours does to the window of one of them.\<close>

definition counted :: "mac \<Rightarrow> u16 \<Rightarrow> nat \<Rightarrow> u16 \<Rightarrow> neigh_node \<Rightarrow> neigh_node \<Rightarrow> bool" where
  "counted neigh sq i last_seq m m' \<longleftrightarrow>
     (\<exists>bits c. m' = m\<lparr>real_bits := bits, real_packet_count := c\<rparr> \<and>
        window bits = get_packet_window (to_s16 (uint sq - uint last_seq)) (n_addr m = neigh \<and> n_if_incoming m = i)
          (window (real_bits m)) \<and> unat c = card (window bits))"

lemma counted_window:
  assumes "counted neigh sq i last_seq m m'"
  shows "window (real_bits m') = get_packet_window (to_s16 (uint sq - uint last_seq)) (n_addr m = neigh \<and> n_if_incoming m = i)
    (window (real_bits m))"
proof -
  obtain bits c where "m' = m\<lparr>real_bits := bits, real_packet_count := c\<rparr>"
      "window bits = get_packet_window (to_s16 (uint sq - uint last_seq)) (n_addr m = neigh \<and> n_if_incoming m = i)
        (window (real_bits m))"
    using assms unfolding counted_def by blast
  then show ?thesis by simp
qed

lemma count_real_loop_net:
  assumes "net_ok s" "distinct ps" "\<And>q. q \<in> set ps \<Longrightarrow> neigh_heap s q \<noteq> None" "seq_safe last_seq sq"
  shows "\<exists>s'. count_real_loop neigh sq i last_seq ps dup s = Some (dup \<or> (\<exists>q \<in> set ps. heard s last_seq sq q), s') \<and>
    net_ok s' \<and> keeps s s' \<and> orig_heap s' = orig_heap s \<and> orig_map s' = orig_map s \<and>
    (\<forall>q. q \<notin> set ps \<longrightarrow> neigh_heap s' q = neigh_heap s q) \<and>
    (\<forall>q \<in> set ps. counted neigh sq i last_seq (the (neigh_heap s q)) (the (neigh_heap s' q)))"
  using assms(1-3)
proof (induction ps arbitrary: dup s)
  case Nil
  then show ?case by simp
next
  case (Cons q ps)
  obtain m where m: "neigh_heap s q = Some m" using Cons.prems(3) by force
  have ok: "neigh_ok s m" "length (real_bits m) = 2"
    using net_ok_neigh [OF Cons.prems(1) m] by (simp_all add: neigh_ok_def)
  let ?mark = "n_addr m = neigh \<and> n_if_incoming m = i"
  obtain bits b c where st: "get_bit_status (real_bits m) last_seq sq =
        Some (unat (last_seq - sq) < 64 \<and> unat (last_seq - sq) \<in> window (real_bits m))"
      "bit_get_packet (real_bits m) (to_s16 (uint sq - uint last_seq)) ?mark = Some (b, bits)" "length bits = 2"
      "window bits = get_packet_window (to_s16 (uint sq - uint last_seq)) ?mark (window (real_bits m))"
      "bit_packet_count bits = Some c" "unat (word_of_int c :: u8) = card (window bits)" "card (window bits) \<le> 64"
    using count_real_step [OF ok(2) assms(4), of ?mark] by blast
  define m' where "m' = m\<lparr>real_bits := bits, real_packet_count := word_of_int c\<rparr>"
  define t where "t = put_neigh q m' s"
  have "neigh_ok s m'" using ok(1) st(3,6,7) by (simp add: neigh_ok_def m'_def)
  with put_neigh_net [OF Cons.prems(1) m, of m'] net_ok_put_neigh [OF Cons.prems(1), of q m'] net_ok_neigh [OF Cons.prems(1) m]
  have t: "net_ok t" "keeps s t" "orig_map t = orig_map s" by (simp_all add: t_def m'_def m)
  have th: "neigh_heap t = (neigh_heap s)(q \<mapsto> m')" "orig_heap t = orig_heap s" by (simp_all add: t_def)
  have ps: "q \<notin> set ps" "distinct ps" using Cons.prems(2) by simp_all
  have live: "neigh_heap t x \<noteq> None" if "x \<in> set ps" for x using that Cons.prems(3) [of x] by (simp add: th)
  have same: "heard t last_seq sq x = heard s last_seq sq x" if "x \<in> set ps" for x
    using that ps(1) by (auto simp: heard_def th)
  have hq: "heard s last_seq sq q \<longleftrightarrow> unat (last_seq - sq) < 64 \<and> unat (last_seq - sq) \<in> window (real_bits m)"
    by (simp add: heard_def m)
  have "count_real_loop neigh sq i last_seq (q # ps) dup s =
      count_real_loop neigh sq i last_seq ps (dup \<or> heard s last_seq sq q) t"
    using st(1,2,5) by (simp add: m hq t_def m'_def)
  moreover have "(dup \<or> heard s last_seq sq q) \<or> (\<exists>x \<in> set ps. heard t last_seq sq x) \<longleftrightarrow>
      dup \<or> (\<exists>x \<in> set (q # ps). heard s last_seq sq x)" using same by auto
  moreover obtain s' where s': "count_real_loop neigh sq i last_seq ps (dup \<or> heard s last_seq sq q) t =
        Some ((dup \<or> heard s last_seq sq q) \<or> (\<exists>x \<in> set ps. heard t last_seq sq x), s')"
      "net_ok s'" "keeps t s'" "orig_heap s' = orig_heap t" "orig_map s' = orig_map t"
      "\<forall>x. x \<notin> set ps \<longrightarrow> neigh_heap s' x = neigh_heap t x"
      "\<forall>x \<in> set ps. counted neigh sq i last_seq (the (neigh_heap t x)) (the (neigh_heap s' x))"
    using Cons.IH [OF t(1) ps(2) live] by blast
  moreover have "counted neigh sq i last_seq m m'" unfolding counted_def m'_def
    using st(4,6) by (intro exI [of _ bits] exI [of _ "word_of_int c"]) simp
  moreover have "the (neigh_heap t x) = the (neigh_heap s x)" if "x \<in> set ps" for x using that ps(1) by (auto simp: th)
  ultimately show ?case using t ps(1) m th keeps_trans [OF t(2) s'(3)] by simp
qed

lemma count_real_packets_known:
  assumes "net_ok s" "orig_map s (orig inp) = Some p" "orig_heap s p = Some n" "seq_safe (last_real_seqno n) (seqno inp)"
  shows "\<exists>s'. count_real_packets neigh inp i s =
      Some (\<exists>q \<in> set (neigh_list n). heard s (last_real_seqno n) (seqno inp) q, s') \<and> net_ok s' \<and> keeps s s' \<and>
    orig_map s' = orig_map s \<and>
    orig_heap s' = (orig_heap s)(p \<mapsto> n\<lparr>last_real_seqno :=
      (if \<exists>q \<in> set (neigh_list n). heard s (last_real_seqno n) (seqno inp) q then last_real_seqno n else seqno inp)\<rparr>) \<and>
    (\<forall>q. q \<notin> set (neigh_list n) \<longrightarrow> neigh_heap s' q = neigh_heap s q) \<and>
    (\<forall>q \<in> set (neigh_list n).
       counted neigh (seqno inp) i (last_real_seqno n) (the (neigh_heap s q)) (the (neigh_heap s' q)))"
proof -
  have n: "orig_ok s n" using net_ok_orig [OF assms(1,3)] .
  then have nb: "distinct (neigh_list n)" "\<And>q. q \<in> set (neigh_list n) \<Longrightarrow> neigh_heap s q \<noteq> None"
    by (simp_all add: orig_ok_def)
  let ?d = "\<exists>q \<in> set (neigh_list n). heard s (last_real_seqno n) (seqno inp) q"
  obtain t where t: "count_real_loop neigh (seqno inp) i (last_real_seqno n) (neigh_list n) False s = Some (?d, t)"
      "net_ok t" "keeps s t" "orig_heap t = orig_heap s" "orig_map t = orig_map s"
      "\<forall>q. q \<notin> set (neigh_list n) \<longrightarrow> neigh_heap t q = neigh_heap s q"
      "\<forall>q \<in> set (neigh_list n). counted neigh (seqno inp) i (last_real_seqno n) (the (neigh_heap s q)) (the (neigh_heap t q))"
    using count_real_loop_net [OF assms(1) nb assms(4), of neigh i False] by auto
  have tp: "orig_heap t p = Some n" using t(4) assms(3) by simp
  let ?n = "n\<lparr>last_real_seqno := seqno inp\<rparr>"
  have "orig_ok t ?n" by (rule orig_ok_fields [OF net_ok_orig [OF t(2) tp]]) simp_all
  with net_ok_put_orig [OF t(2) tp, of ?n] put_orig_net(2) [OF t(2) tp, of ?n]
  have put: "net_ok (put_orig p ?n t)" "orig_map (put_orig p ?n t) = orig_map t" "keeps t (put_orig p ?n t)" by simp_all
  have "origs_ok s" using assms(1) by (simp add: net_ok_def)
  from get_orig_node_found [OF this assms(2)]
  have eq: "count_real_packets neigh inp i s = Some (?d, if ?d then t else put_orig p ?n t)"
    using t(1) tp assms(3) by (simp add: count_real_packets_def)
  have "orig_heap s = (orig_heap s)(p \<mapsto> n\<lparr>last_real_seqno := last_real_seqno n\<rparr>)"
    using assms(3) by (simp add: fun_upd_idem)
  with t put eq keeps_trans [OF t(3) put(3)] show ?thesis
    by (intro exI [of _ "if ?d then t else put_orig p ?n t"]) (simp add: put_orig_def)
qed

lemma count_real_packets_fresh:
  assumes "net_ok s" "orig_map s (orig inp) = Some p" "orig_heap s p = Some n" "seq_safe (last_real_seqno n) (seqno inp)"
    "\<And>q. q \<in> set (neigh_list n) \<Longrightarrow> \<not> heard s (last_real_seqno n) (seqno inp) q"
  obtains s' where "count_real_packets neigh inp i s = Some (False, s')" "net_ok s'" "orig_map s' = orig_map s"
    "orig_heap s' p = Some (n\<lparr>last_real_seqno := seqno inp\<rparr>)"
    "\<forall>q \<in> set (neigh_list n).
       counted neigh (seqno inp) i (last_real_seqno n) (the (neigh_heap s q)) (the (neigh_heap s' q))"
proof -
  have no: "(\<exists>q \<in> set (neigh_list n). heard s (last_real_seqno n) (seqno inp) q) = False" using assms(5) by blast
  from count_real_packets_known [OF assms(1-4), of neigh i] that show thesis
    unfolding no if_False by (metis fun_upd_same)
qed

text \<open>The first message of an originator is never a duplicate.\<close>

lemma count_real_packets_new:
  assumes "net_ok s" "orig_map s (orig inp) = None"
  shows "\<exists>p s' n. count_real_packets neigh inp i s = Some (False, s') \<and> net_ok s' \<and> keeps s s' \<and>
    orig_map s' (orig inp) = Some p \<and> orig_heap s' p = Some n \<and> neigh_heap s' = neigh_heap s \<and> last_real_seqno n = seqno inp"
proof -
  obtain p t n where t: "get_orig_node (orig inp) s = Some (p, t)" "net_ok t" "keeps s t" "orig_map t (orig inp) = Some p"
      "orig_heap t p = Some n" "neigh_heap t = neigh_heap s" "n = new_orig_node (orig inp) (found_ifs s)"
    using get_orig_node_net [OF assms(1), of "orig inp"] assms(2) by blast
  let ?n = "n\<lparr>last_real_seqno := seqno inp\<rparr>"
  have "orig_ok t ?n" by (rule orig_ok_fields [OF net_ok_orig [OF t(2,5)]]) simp_all
  with net_ok_put_orig [OF t(2,5), of ?n] put_orig_net(2) [OF t(2,5), of ?n]
  have put: "net_ok (put_orig p ?n t)" "orig_map (put_orig p ?n t) = orig_map t" "keeps t (put_orig p ?n t)" by simp_all
  have "count_real_packets neigh inp i s = Some (False, put_orig p ?n t)"
    using t(1,5,7) by (simp add: count_real_packets_def new_orig_node_def)
  with put t keeps_trans [OF t(3) put(3)] show ?thesis
    by (intro exI [of _ p] exI [of _ "put_orig p ?n t"] exI [of _ ?n]) (simp add: put_orig_def)
qed

section \<open>Judging the link\<close>

lemma put_orig_chain:
  assumes "net_ok s" "orig_heap s p = Some n" "neigh_list n' = neigh_list n" "router n' = router n"
    "o_batman_if n' = o_batman_if n" "length (bcast_own n') = length (bcast_own n)" "length (bcast_own_sum n') = length (bcast_own_sum n)"
    "length (seq_bits n') = length (seq_bits n)" "o_hna_buff n' = o_hna_buff n" "hna_buff_len n' = hna_buff_len n"
    "o_orig n' = o_orig n" "o_hna_list n' = o_hna_list n"
  shows "net_ok (put_orig p n' s) \<and> keeps s (put_orig p n' s)"
  using put_orig_net [OF assms(1,2) orig_ok_fields [OF net_ok_orig [OF assms(1,2)] assms(3-10)]] assms by simp

text \<open>The entry of a neighbour for its own messages, found or created.\<close>

lemma self_entry:
  assumes "net_ok s" "orig_heap s q = Some nq" "i \<in> set (if_list s)"
  shows "\<exists>found e s' m nq'. find_neigh s (o_orig nq) i (neigh_list nq) None = Some found \<and>
    (case found of Some e \<Rightarrow> Some (e, s) | None \<Rightarrow> create_neighbor q q (o_orig nq) i s) = Some (e, s') \<and>
    net_ok s' \<and> keeps s s' \<and> neigh_heap s' e = Some m \<and> buf_heap s' = buf_heap s \<and>
    (\<forall>x. x \<noteq> q \<longrightarrow> orig_heap s' x = orig_heap s x) \<and>
    orig_heap s' q = Some nq' \<and> nq' = nq\<lparr>neigh_list := neigh_list nq'\<rparr>"
proof -
  have live: "\<And>x. x \<in> set (neigh_list nq) \<Longrightarrow> neigh_heap s x \<noteq> None"
    using net_ok_orig [OF assms(1,2)] by (simp add: orig_ok_def)
  from find_neigh_net [of "neigh_list nq" s "o_orig nq" i None, OF live] obtain found where
    f: "find_neigh s (o_orig nq) i (neigh_list nq) None = Some found"
      "found = None \<and> (\<forall>x \<in> set (neigh_list nq). neigh_key s x \<noteq> Some (o_orig nq, i)) \<or>
       (\<exists>x \<in> set (neigh_list nq). found = Some x \<and> neigh_key s x = Some (o_orig nq, i))" by blast
  show ?thesis
  proof (cases found)
    case (Some e)
    then obtain m where "neigh_heap s e = Some m" using f(2) by (auto simp: neigh_key_def)
    with f(1) Some assms(1,2) show ?thesis by (intro exI [of _ found] exI [of _ e] exI [of _ s] exI [of _ m] exI [of _ nq]) simp
  next
    case None
    then have key: "\<forall>x \<in> set (neigh_list nq). neigh_key s x \<noteq> Some (o_orig nq, i)" using f(2) by auto
    have live: "orig_heap s q \<noteq> None" using assms(2) by simp
    from create_neighbor_net [OF assms(1,2) live assms(3) key] obtain s' where
      "create_neighbor q q (o_orig nq) i s = Some (brk s, s')" "net_ok s'" "keeps s s'" "buf_heap s' = buf_heap s"
      "neigh_heap s' = (neigh_heap s)(brk s \<mapsto> new_neigh_node (o_orig nq) q i)"
      "orig_heap s' = (orig_heap s)(q \<mapsto> nq\<lparr>neigh_list := neigh_list nq @ [brk s]\<rparr>)" by blast
    with f(1) None show ?thesis
      by (intro exI [of _ found] exI [of _ "brk s"] exI [of _ s'] exI [of _ "new_neigh_node (o_orig nq) q i"]
          exI [of _ "nq\<lparr>neigh_list := neigh_list nq @ [brk s]\<rparr>"]) simp
  qed
qed

lemma isBidirectionalNeigh_net:
  assumes "net_ok s" "orig_heap s p \<noteq> None" "orig_heap s q \<noteq> None" "i \<in> set (if_list s)"
  shows "\<exists>t s'. isBidirectionalNeigh p q inp now i s = Some (t \<noteq> 0, inp\<lparr>tq := t\<rparr>, s') \<and> t \<le> tq inp \<and>
    net_ok s' \<and> keeps s s'"
proof -
  obtain nq where nq: "orig_heap s q = Some nq" using assms(3) by blast
  obtain found e s1 m nq1 where s1: "find_neigh s (o_orig nq) i (neigh_list nq) None = Some found"
      "(case found of Some e \<Rightarrow> Some (e, s) | None \<Rightarrow> create_neighbor q q (o_orig nq) i s) = Some (e, s1)"
      "net_ok s1" "keeps s s1" "neigh_heap s1 e = Some m" "\<forall>x. x \<noteq> q \<longrightarrow> orig_heap s1 x = orig_heap s x"
      "orig_heap s1 q = Some nq1"
    using self_entry [OF assms(1) nq assms(4)] by blast
  define m2 where "m2 = (if p = q then m\<lparr>n_last_valid := now\<rparr> else m)"
  define s2 where "s2 = put_neigh e m2 s1"
  have m: "neigh_ok s1 m2" "unat (real_packet_count m2) \<le> 64" "real_packet_count m2 = real_packet_count m"
    using net_ok_neigh [OF s1(3,5)] by (simp_all add: m2_def neigh_ok_def)
  have s2: "net_ok s2" "keeps s1 s2"
    using put_neigh_net(1,2) [OF s1(3,5) m(1)] by (simp_all add: s2_def m2_def)
  obtain n where n: "orig_heap s2 p = Some n" using assms(2) s1(6,7) by (cases "p = q") (auto simp: s2_def)
  define s3 where "s3 = put_orig p (n\<lparr>o_last_valid := now\<rparr>) s2"
  have s3: "net_ok s3" "keeps s2 s3" using put_orig_chain [OF s2(1) n, of "n\<lparr>o_last_valid := now\<rparr>"] by (simp_all add: s3_def)
  obtain nq3 where nq3: "orig_heap s3 q = Some nq3" using s1(7) by (cases "q = p") (auto simp: s3_def s2_def)
  have "i \<in> set (if_list s3)"
    using assms(4) keeps_if_list [OF s1(4)] keeps_if_list [OF s2(2)] keeps_if_list [OF s3(2)] by simp
  then obtain b where b: "bcast_sum s3 q i = Some b" using bcast_sum_net [OF s3(1), of q i] nq3 by auto
  define nq4 where "nq4 = nq3\<lparr>tq_own := local_tq b (real_packet_count m), tq_asym_penalty := asym_penalty (real_packet_count m)\<rparr>"
  have s4: "net_ok (put_orig q nq4 s3)" "keeps s3 (put_orig q nq4 s3)"
    using put_orig_chain [OF s3(1) nq3, of nq4] by (simp_all add: nq4_def)
  define t where "t = link_tq (tq inp) (local_tq b (real_packet_count m)) (asym_penalty (real_packet_count m))"
  have "t \<le> tq inp" using link_tq_eq(2) asym_penalty_eq(2,3) m(2,3) by (simp add: t_def word_le_def)
  moreover have "uint t \<ge> TQ_TOTAL_BIDRECT_LIMIT \<longleftrightarrow> t \<noteq> 0"
    by (simp add: TQ_TOTAL_BIDRECT_LIMIT_def word_neq_0_conv word_less_def int_one_le_iff_zero_less)
  moreover have "isBidirectionalNeigh p q inp now i s =
      Some (uint t \<ge> TQ_TOTAL_BIDRECT_LIMIT, inp\<lparr>tq := t\<rparr>, put_orig q nq4 s3)"
    using nq s1(1,2,5) n b nq3
    by (simp add: isBidirectionalNeigh_def m2_def [symmetric] s2_def [symmetric] s3_def [symmetric] t_def nq4_def m(3)
        Let_def del: put_orig_simps put_neigh_simps)
  moreover have "keeps s (put_orig q nq4 s3)" using s1(4) s2(2) s3(2) s4(2) by (meson keeps_trans)
  ultimately show ?thesis using s4(1) by auto
qed

section \<open>Our own message comes back\<close>

lemma own_window_net:
  assumes "net_ok s" "orig_heap s q = Some n" "i \<in> set (if_list s)" "if_heap s i = Some f"
  obtains ws where "window_get (bcast_own n) (if_num f) = Some ws" "length ws = 2"
    "0 \<le> if_num f" "if_num f < int (length (bcast_own_sum n))" "2 * if_num f + 2 \<le> int (length (bcast_own n))"
proof -
  have f: "0 \<le> if_num f" "if_num f < int (unat (found_ifs s))" using net_ok_if [OF assms(1,3)] assms(4) by auto
  have len: "length (bcast_own n) = 2 * unat (found_ifs s)" "length (bcast_own_sum n) = unat (found_ifs s)"
    using net_ok_orig [OF assms(1,2)] by (simp_all add: orig_ok_def)
  then have b: "2 * if_num f + 2 \<le> int (length (bcast_own n))" using f by simp
  then have "window_get (bcast_own n) (if_num f) = Some (take 2 (drop (2 * nat (if_num f)) (bcast_own n)))"
    using f(1) by (intro window_get_in)
  moreover have "length (take 2 (drop (2 * nat (if_num f)) (bcast_own n))) = 2" using f(1) b by auto
  ultimately show thesis using that f b len(2) by simp
qed

lemma put_own_window_net:
  assumes "net_ok s" "orig_heap s q = Some n" "0 \<le> k" "k < int (length (bcast_own_sum n))"
    "2 * k + 2 \<le> int (length (bcast_own n))" "length ws = 2"
  shows "\<exists>sums. array_set (bcast_own_sum n) k c = Some sums \<and>
    net_ok (put_orig q (n\<lparr>bcast_own := window_put (bcast_own n) k ws, bcast_own_sum := sums\<rparr>) s) \<and>
    keeps s (put_orig q (n\<lparr>bcast_own := window_put (bcast_own n) k ws, bcast_own_sum := sums\<rparr>) s)"
proof -
  obtain sums where sums: "array_set (bcast_own_sum n) k c = Some sums" "length sums = length (bcast_own_sum n)"
    using assms(3,4) by simp
  with put_orig_chain [OF assms(1,2), of "n\<lparr>bcast_own := window_put (bcast_own n) k ws, bcast_own_sum := sums\<rparr>"] assms
  show ?thesis by simp
qed

lemma ogm_own_echo_net:
  assumes "net_ok s" "i \<in> set (if_list s)"
  shows "\<exists>s'. ogm_own_echo neigh inp dl i s = Some s' \<and> net_ok s' \<and> keeps s s'"
proof -
  obtain q s1 n where s1: "get_orig_node neigh s = Some (q, s1)" "net_ok s1" "keeps s s1" "orig_heap s1 q = Some n"
    using get_orig_node_net [OF assms(1), of neigh] by blast
  have i: "i \<in> set (if_list s1)" using assms(2) keeps_if_list [OF s1(3)] by simp
  obtain f where f: "if_heap s1 i = Some f" using net_ok_if [OF s1(2) i] .
  obtain ws where ws: "window_get (bcast_own n) (if_num f) = Some ws" "length ws = 2" "0 \<le> if_num f"
      "if_num f < int (length (bcast_own_sum n))" "2 * if_num f + 2 \<le> int (length (bcast_own n))"
    using own_window_net [OF s1(2,4) i f] .
  obtain ws' where ws': "bit_mark ws 0 = Some ws'" "length ws' = 2" using bit_mark_32 [OF ws(2), of 0] by auto
  obtain c where c: "bit_packet_count ws' = Some c" using win32.count_win [OF ws'(2)] by blast
  from put_own_window_net [OF s1(2,4) ws(3-5) ws'(2), of "word_of_int c"] s1 f ws(1) ws'(1) c
  show ?thesis
    by (cases "dl \<and> uint (seqno inp) - uint (seqno (out f)) + 2 = 0")
      (auto simp: ogm_own_echo_def dest: keeps_trans [OF s1(3)])
qed

section \<open>The queue and the invariant of the daemon\<close>

text \<open>
  Every entry of the queue has its own address and goes out on one of our interfaces, and the
  announcement of our own hosts is as long as its count says.
\<close>

definition queue_ok :: "bat_state \<Rightarrow> bool" where
  "queue_ok s \<longleftrightarrow> distinct (map fst (forw_list s)) \<and>
     (\<forall>(a, f) \<in> set (forw_list s). a < brk s \<and> (\<exists>i \<in> set (if_list s). if_outgoing f = Some i))"

definition bat_ok :: "bat_state \<Rightarrow> bool" where
  "bat_ok s \<longleftrightarrow> net_ok s \<and> queue_ok s \<and> unat (g_num_hna s) * 6 \<le> length (g_hna_buff s)"

lemma bat_ok_keeps: "bat_ok s \<Longrightarrow> net_ok s' \<Longrightarrow> keeps s s' \<Longrightarrow> bat_ok s'"
  by (fastforce simp: bat_ok_def queue_ok_def keeps_defs)

lemma bat_ok_fields:
  assumes "bat_ok s" "net_ok s'" "statics s' = statics s" "brk s \<le> brk s'"
  shows "bat_ok s'"
  using assms by (fastforce simp: bat_ok_def queue_ok_def statics_def)

text \<open>A message that is to be rebroadcast, with or without the flag for a direct link, is added to the queue.\<close>

definition rebroadcasts :: "mac \<Rightarrow> batman_packet \<Rightarrow> u8 list \<Rightarrow> bool \<Rightarrow> nat \<Rightarrow> bat_state \<Rightarrow> bat_state \<Rightarrow> bool" where
  "rebroadcasts neigh inp tail dl i s s' \<longleftrightarrow> (\<exists>a f. forw_list s' = (a, f) # forw_list s \<and> \<not> own f \<and> pack_tail f = tail \<and>
     orig (pack_head f) = orig inp \<and> seqno (pack_head f) = seqno inp \<and> old_orig (pack_head f) = neigh \<and>
     flags (pack_head f) = (if dl then DIRECTLINK else 0) \<and> if_outgoing f = Some i)"

lemma schedule_forward_packet_ok:
  assumes "bat_ok s" "orig_heap s p \<noteq> None" "i \<in> set (if_list s)"
  shows "\<exists>s'. schedule_forward_packet p neigh inp tail dl i s = Some s' \<and> bat_ok s' \<and>
    if_list s' = if_list s \<and> originator_interval s' = originator_interval s \<and>
    (if ttl inp \<le> 1 then forw_list s' = forw_list s else rebroadcasts neigh inp tail dl i s s')"
proof (cases "ttl inp \<le> 1")
  case True
  with assms(1) show ?thesis by (simp add: schedule_forward_packet_def)
next
  case False
  have net: "net_ok s" using assms(1) by (simp add: bat_ok_def)
  obtain n where n: "orig_heap s p = Some n" using assms(2) by blast
  have "\<exists>best. (case router n of None \<Rightarrow> Some None | Some q \<Rightarrow> map_option Some (neigh_heap s q)) = Some best"
    using net_ok_orig [OF net n] by (cases "router n") (auto simp: orig_ok_def)
  then obtain best where best: "(case router n of None \<Rightarrow> Some None | Some q \<Rightarrow> map_option Some (neigh_heap s q)) = Some best" ..
  obtain pk where pk: "forward_packet best neigh inp dl = Some pk" "orig pk = orig inp" "seqno pk = seqno inp" "old_orig pk = neigh"
      "flags pk = (if dl then DIRECTLINK else 0)"
    using False by (simp add: forward_packet_eq)
  define f where "f = \<lparr>send_time = clock s (ticks s), own = False, pack_head = pk, pack_tail = tail, if_outgoing = Some i\<rparr>"
  define s' where "s' = s\<lparr>ticks := Suc (ticks s), forw_list := (brk s, f) # forw_list s, brk := Suc (brk s)\<rparr>"
  have "net_ok s'" using net_ok_fields [of s' s] net by (simp add: s'_def)
  moreover have "queue_ok s'" using assms(1,3) by (fastforce simp: bat_ok_def queue_ok_def s'_def f_def)
  ultimately have "bat_ok s'" using assms(1) by (simp add: bat_ok_def s'_def)
  moreover have "schedule_forward_packet p neigh inp tail dl i s = Some s'"
    using False n best pk(1) by (simp add: schedule_forward_packet_def get_time_def s'_def f_def)
  ultimately show ?thesis using False pk(2-5) by (intro exI [of _ s']) (simp add: rebroadcasts_def s'_def f_def)
qed

section \<open>A message of another originator\<close>

text \<open>
  The messages that do not run into a defect of the code: the sequence number is safe for the
  originator, and the gateway class is one that the table of names has.
\<close>

definition ogm_safe :: "bat_state \<Rightarrow> batman_packet \<Rightarrow> bool" where
  "ogm_safe s inp \<longleftrightarrow> unat (gwflags inp) \<le> 11 \<and>
     (\<forall>p n. orig_map s (orig inp) = Some p \<longrightarrow> orig_heap s p = Some n \<longrightarrow> seq_safe (last_real_seqno n) (seqno inp))"

text \<open>The queue after a message: unchanged, or the message is to be rebroadcast.\<close>

definition queued :: "mac \<Rightarrow> batman_packet \<Rightarrow> u8 list \<Rightarrow> bat_state \<Rightarrow> bat_state \<Rightarrow> bool" where
  "queued neigh inp tail s s' \<longleftrightarrow> if_list s' = if_list s \<and> originator_interval s' = originator_interval s \<and>
     (forw_list s' = forw_list s \<or>
      (\<exists>a f. forw_list s' = (a, f) # forw_list s \<and> ttl inp > 1 \<and> \<not> own f \<and> pack_tail f = tail \<and>
         orig (pack_head f) = orig inp \<and> seqno (pack_head f) = seqno inp \<and> old_orig (pack_head f) = neigh))"

lemma keeps_queued: "keeps s s' \<Longrightarrow> queued neigh inp tail s s'"
  by (simp add: queued_def keeps_defs)

lemma count_real_packets_net:
  assumes "net_ok s" "ogm_safe s inp"
  shows "\<exists>d s'. count_real_packets neigh inp i s = Some (d, s') \<and> net_ok s' \<and> keeps s s' \<and> orig_map s' (orig inp) \<noteq> None"
proof (cases "orig_map s (orig inp)")
  case None
  from count_real_packets_new [OF assms(1) None, of neigh i] show ?thesis by fastforce
next
  case (Some p)
  moreover have "origs_ok s" using assms(1) by (simp add: net_ok_def)
  ultimately obtain n where n: "orig_heap s p = Some n" using orig_map_Some by blast
  with Some assms(2) have "seq_safe (last_real_seqno n) (seqno inp)" by (simp add: ogm_safe_def)
  from count_real_packets_known [OF assms(1) Some n this, of neigh i] Some show ?thesis by fastforce
qed

lemma bat_ok_net: "bat_ok s \<Longrightarrow> net_ok s" by (simp add: bat_ok_def)

lemma keeps_forw: "keeps s s' \<Longrightarrow> forw_list s' = forw_list s" by (simp add: keeps_defs)

lemma keeps_orig: "keeps s s' \<Longrightarrow> orig_heap s p \<noteq> None \<Longrightarrow> orig_heap s' p \<noteq> None"
  by (auto simp: keeps_def)

lemma ogm_update_net:
  assumes "net_ok s" "orig_heap s p = Some np" "i \<in> set (if_list s)" "tq inp \<noteq> 0" "unat (gwflags inp) \<le> 11"
  shows "\<exists>s'. (if b then update_orig p neigh inp i tail (int (length tail)) d now s else Some s) = Some s' \<and>
    net_ok s' \<and> keeps s s'"
  using update_orig_net [OF assms, of neigh tail d now] assms(1) by auto

text \<open>What is rebroadcast: a message of a direct neighbour always, a duplicate from another node never.\<close>

definition flooded :: "mac \<Rightarrow> batman_packet \<Rightarrow> u8 list \<Rightarrow> nat \<Rightarrow> bool \<Rightarrow> bat_state \<Rightarrow> bat_state \<Rightarrow> bool" where
  "flooded neigh inp tail i d s s' \<longleftrightarrow>
     (neigh = orig inp \<and> ttl inp > 1 \<longrightarrow> rebroadcasts neigh inp tail True i s s') \<and>
     (ttl inp \<le> 1 \<or> neigh \<noteq> orig inp \<and> d \<longrightarrow> forw_list s' = forw_list s)"

lemma ogm_foreign_ok:
  assumes "bat_ok s" "ogm_safe s inp" "i \<in> set (if_list s)" 
  shows "\<exists>s' d t. ogm_foreign neigh inp tail i s = Some s' \<and> bat_ok s' \<and> queued neigh inp tail s s' \<and>
    count_real_packets neigh inp i s = Some (d, t) \<and> flooded neigh inp tail i d s s'"
proof -
  obtain d s1 where s1: "count_real_packets neigh inp i s = Some (d, s1)" "net_ok s1" "keeps s s1"
    using count_real_packets_net [OF bat_ok_net [OF assms(1)] assms(2)] by blast
  obtain p s2 n2 where s2: "get_orig_node (orig inp) s1 = Some (p, s2)" "net_ok s2" "keeps s1 s2" "orig_heap s2 p = Some n2"
    using get_orig_node_net [OF s1(2), of "orig inp"] by blast
  obtain q s3 nq where s3: "(if neigh = orig inp then Some (p, s2) else get_orig_node neigh s2) = Some (q, s3)"
      "net_ok s3" "keeps s2 s3" "orig_heap s3 q = Some nq"
    using get_orig_node_net [OF s2(2), of neigh] s2 by (cases "neigh = orig inp") auto
  have k3: "keeps s s3" using s1(3) s2(3) s3(3) by (meson keeps_trans)
  have ok3: "bat_ok s3" "queued neigh inp tail s s3"
    using bat_ok_keeps [OF assms(1) s3(2) k3] keeps_queued [OF k3] by simp_all
  have i3: "i \<in> set (if_list s3)" using assms(3) keeps_if_list [OF k3] by simp
  have p3: "orig_heap s3 p \<noteq> None" "orig_heap s3 q \<noteq> None" using s2(4) keeps_orig [OF s3(3), of p] s3(4) by auto
  show ?thesis
  proof (cases "neigh \<noteq> orig inp \<and> router nq = None")
    case True
    then have "ogm_foreign neigh inp tail i s = Some s3" using s1(1) s2(1) s3(1,4) by (simp add: ogm_foreign_def)
    with ok3 True s1(1) keeps_forw [OF k3] show ?thesis by (auto simp: flooded_def)
  next
    case False
    obtain t s4 where s4: "isBidirectionalNeigh p q inp (curr_time s3) i s3 = Some (t \<noteq> 0, inp\<lparr>tq := t\<rparr>, s4)"
        "net_ok s4" "keeps s3 s4"
      using isBidirectionalNeigh_net [OF s3(2) p3 i3] by blast
    obtain np where np: "orig_heap s4 p = Some np" using keeps_orig [OF s4(3) p3(1)] by blast
    have i4: "i \<in> set (if_list s4)" using i3 keeps_if_list [OF s4(3)] by simp
    define upd where "upd \<longleftrightarrow> t \<noteq> 0 \<and> (\<not> d \<or> (last_real_seqno np = seqno inp \<and> uint (o_last_ttl np) - 3 \<le> uint (ttl inp)))"
    have "\<exists>s5. (if upd then update_orig p neigh (inp\<lparr>tq := t\<rparr>) i tail (int (length tail)) d (curr_time s4) s4 else Some s4) = Some s5 \<and>
        net_ok s5 \<and> keeps s4 s5"
    proof (cases upd)
      case True
      with ogm_update_net [OF s4(2) np i4, of "inp\<lparr>tq := t\<rparr>" True neigh tail d "curr_time s4"] assms(2)
      show ?thesis by (simp add: upd_def ogm_safe_def)
    qed (use s4(2) in simp)
    then obtain s5 where s5: "(if upd then update_orig p neigh (inp\<lparr>tq := t\<rparr>) i tail (int (length tail)) d (curr_time s4) s4 else Some s4) = Some s5"
        "net_ok s5" "keeps s4 s5" by blast
    have k5: "keeps s s5" using k3 s4(3) s5(3) by (meson keeps_trans)
    have ok5: "bat_ok s5" using bat_ok_keeps [OF assms(1) s5(2) k5] .
    have i5: "i \<in> set (if_list s5)" using i4 keeps_if_list [OF s5(3)] by simp
    have "orig_heap s5 p \<noteq> None" using np keeps_orig [OF s5(3), of p] by simp
    note fw = schedule_forward_packet_ok [OF ok5 this i5, of neigh "inp\<lparr>tq := t\<rparr>" tail]
    have eq: "ogm_foreign neigh inp tail i s =
        (if neigh = orig inp then schedule_forward_packet p neigh (inp\<lparr>tq := t\<rparr>) tail True i s5
         else if t \<noteq> 0 \<and> \<not> d then schedule_forward_packet p neigh (inp\<lparr>tq := t\<rparr>) tail False i s5 else Some s5)"
      using s1(1) s2(1) s3(1,4) s4(1) np s5(1) False
      by (cases "neigh = orig inp") (auto simp: ogm_foreign_def upd_def Let_def split del: if_split)
    show ?thesis
    proof (cases "neigh = orig inp \<or> t \<noteq> 0 \<and> \<not> d")
      case True
      define dl where "dl \<longleftrightarrow> neigh = orig inp"
      have "ogm_foreign neigh inp tail i s = schedule_forward_packet p neigh (inp\<lparr>tq := t\<rparr>) tail dl i s5"
        unfolding eq dl_def using True by auto
      moreover have "rebroadcasts neigh (inp\<lparr>tq := t\<rparr>) tail dl i s5 = rebroadcasts neigh inp tail dl i s"
        by (simp add: rebroadcasts_def keeps_forw [OF k5] fun_eq_iff)
      then obtain s' where s': "schedule_forward_packet p neigh (inp\<lparr>tq := t\<rparr>) tail dl i s5 = Some s'" "bat_ok s'"
          "if_list s' = if_list s5" "originator_interval s' = originator_interval s5"
          "if ttl inp \<le> 1 then forw_list s' = forw_list s else rebroadcasts neigh inp tail dl i s s'"
        using fw [of dl] by (auto simp: keeps_forw [OF k5] split: if_splits)
      have "queued neigh inp tail s s'"
        using s'(3-5) keeps_queued [OF k5, of neigh inp tail] by (auto simp: queued_def rebroadcasts_def not_le split: if_splits)
      moreover have "flooded neigh inp tail i d s s'" using s'(5) True by (auto simp: flooded_def dl_def not_le split: if_splits)
      ultimately show ?thesis using s1(1) s'(1,2) by auto
    next
      case False
      then have "ogm_foreign neigh inp tail i s = Some s5" unfolding eq by auto
      with False ok5 keeps_queued [OF k5, of neigh inp tail] keeps_forw [OF k5] s1(1) show ?thesis by (simp add: flooded_def)
    qed
  qed
qed

section \<open>A received message\<close>

lemma ogm_classify_eq:
  assumes "\<And>i. i \<in> set is \<Longrightarrow> if_heap s i \<noteq> None"
  shows "ogm_classify s neigh inp is r = Some
    \<lparr>is_my_addr = is_my_addr r \<or> (\<exists>i \<in> set is. hw_addr (the (if_heap s i)) = neigh),
     is_my_orig = is_my_orig r \<or> (\<exists>i \<in> set is. hw_addr (the (if_heap s i)) = orig inp),
     is_my_oldorig = is_my_oldorig r \<or> (\<exists>i \<in> set is. hw_addr (the (if_heap s i)) = old_orig inp),
     is_broadcast = is_broadcast r \<or> (is \<noteq> [] \<and> neigh = broadcastAddr)\<rparr>"
  using assms
proof (induction "is" arbitrary: r)
  case (Cons i "is")
  then obtain f where "if_heap s i = Some f" by force
  with Cons show ?case by auto
qed simp

text \<open>The branches of the receive code.\<close>

lemma process_ogm_eq:
  assumes "net_ok s" "i \<in> set (if_list s)" "s0 = s\<lparr>ticks := Suc (ticks s), curr_time := clock s (ticks s)\<rparr>"
  shows "process_ogm neigh inp tail i s =
    (if version inp \<noteq> COMPAT_VERSION \<or> my_mac s neigh \<or> neigh = broadcastAddr then Some s0
     else if my_mac s (orig inp) then ogm_own_echo neigh inp (flags inp AND DIRECTLINK \<noteq> 0) i s0
     else if tq inp = 0 then map_option snd (count_real_packets neigh inp i s0)
     else if my_mac s (old_orig inp) then Some s0
     else ogm_foreign neigh inp tail i s0)"
proof -
  have ifs: "if_heap s0 = if_heap s" "if_list s0 = if_list s" by (simp_all add: assms(3))
  have live: "\<And>i. i \<in> set (if_list s) \<Longrightarrow> if_heap s0 i \<noteq> None"
    using net_ok_if [OF assms(1)] unfolding ifs by (metis option.distinct(1))
  have ne: "if_list s \<noteq> []" using assms(2) by auto
  have cl: "ogm_classify s0 neigh inp (if_list s) \<lparr>is_my_addr = False, is_my_orig = False, is_my_oldorig = False, is_broadcast = False\<rparr> =
      Some \<lparr>is_my_addr = my_mac s neigh, is_my_orig = my_mac s (orig inp), is_my_oldorig = my_mac s (old_orig inp),
        is_broadcast = (neigh = broadcastAddr)\<rparr>"
    using ogm_classify_eq [OF live] ne by (simp add: my_mac_def ifs)
  obtain f where f: "if_heap s0 i = Some f" using live [OF assms(2)] by blast
  have "count_real_packets neigh inp i s0 \<bind> (\<lambda>(d, s). Some s) = map_option snd (count_real_packets neigh inp i s0)"
    by (cases "count_real_packets neigh inp i s0") auto
  with cl f show ?thesis
    by (simp add: process_ogm_def get_time_def assms(3) [symmetric] ifs)
qed

lemma keeps_map: "keeps s s' \<Longrightarrow> orig_map s a = Some p \<Longrightarrow> orig_map s' a = Some p"
  by (metis domI keeps_def map_le_def)

lemma bat_ok_clock:
  assumes "bat_ok s"
  shows "bat_ok (s\<lparr>ticks := t, curr_time := now\<rparr>)" "orig_map (s\<lparr>ticks := t, curr_time := now\<rparr>) = orig_map s"
  using assms net_ok_fields [of "s\<lparr>ticks := t, curr_time := now\<rparr>" s] by (simp_all add: bat_ok_def queue_ok_def)

lemma process_ogm_ok:
  assumes "bat_ok s" "i \<in> set (if_list s)" "ogm_safe s inp"
  shows "\<exists>s'. process_ogm neigh inp tail i s = Some s' \<and> bat_ok s' \<and> queued neigh inp tail s s'"
proof -
  define s0 where "s0 = s\<lparr>ticks := Suc (ticks s), curr_time := clock s (ticks s)\<rparr>"
  have s0: "bat_ok s0" "orig_map s0 = orig_map s" using bat_ok_clock [OF assms(1)] by (simp_all add: s0_def)
  have net: "net_ok s0" using bat_ok_net [OF s0(1)] .
  have f: "orig_heap s0 = orig_heap s" "if_list s0 = if_list s" "forw_list s0 = forw_list s"
      "originator_interval s0 = originator_interval s" by (simp_all add: s0_def)
  have safe: "ogm_safe s0 inp" using assms(3) by (simp add: ogm_safe_def s0(2) f)
  have i: "i \<in> set (if_list s0)" using assms(2) f by simp
  have keep: "bat_ok s' \<and> queued neigh inp tail s s'" if "net_ok s'" "keeps s0 s'" for s'
    using bat_ok_keeps [OF s0(1) that] keeps_queued [OF that(2), of neigh inp tail] by (simp add: queued_def f)
  have echo: "\<exists>s'. ogm_own_echo neigh inp dl i s0 = Some s' \<and> bat_ok s' \<and> queued neigh inp tail s s'" for dl
    using ogm_own_echo_net [OF net i, of neigh inp dl] keep by blast
  have count: "\<exists>s'. map_option snd (count_real_packets neigh inp i s0) = Some s' \<and> bat_ok s' \<and> queued neigh inp tail s s'"
    using count_real_packets_net [OF net safe, of neigh i] keep by auto
  have "\<exists>s'. ogm_foreign neigh inp tail i s0 = Some s' \<and> bat_ok s' \<and> queued neigh inp tail s s'"
    using ogm_foreign_ok [OF s0(1) safe i, of neigh tail] by (fastforce simp: queued_def f)
  moreover have "\<exists>s'. Some s0 = Some s' \<and> bat_ok s' \<and> queued neigh inp tail s s'" using keep [OF net] by simp
  ultimately show ?thesis
    using process_ogm_eq [OF bat_ok_net [OF assms(1)] assms(2) s0_def, of neigh inp tail] echo count by simp
qed

section \<open>Examples\<close>

lemma example_net_ok: "net_ok example_state"
proof -
  have "links_ok example_state" "ifs_ok example_state"
    by (simp_all add: links_ok_def ifs_ok_def example_state_def)
  then have "trans_ok example_state"
    by (simp add: trans_ok_def) (simp add: example_state_def hash_new_mac_ok)
  moreover have "if_nums_ok example_state" by (simp add: if_nums_ok_def example_state_def)
  ultimately show ?thesis using example_origs_ok by (simp add: net_ok_def bufs_ok_def entries_ok_def) (simp add: example_state_def)
qed

lemma example_bat_ok: "bat_ok example_state"
  using example_net_ok by (simp add: bat_ok_def queue_ok_def) (simp add: example_state_def)

text \<open>A state with one originator that is its own only neighbour.\<close>

lemma example_neighbour:
  "\<exists>s p q n. bat_ok s \<and> orig_map s (MAC 2 0 0 0 0 9) = Some p \<and> orig_heap s p = Some n \<and> neigh_list n = [q] \<and>
     neigh_heap s q = Some (new_neigh_node (MAC 2 0 0 0 0 9) p 10) \<and> last_real_seqno n = 0 \<and> if_list s = [10, 11] \<and>
     forw_list s = [] \<and> last_bcast_seqno n = 0 \<and> window (seq_bits n) = {} \<and> little_endian s \<and> tap_written s = [] \<and>
     \<not> my_mac s (MAC 2 0 0 0 0 9)"
proof -
  let ?a = "MAC 2 0 0 0 0 9"
  have "orig_map example_state ?a = None"
    by (simp add: orig_map_def hash_map_def example_state_def)
  then obtain p s n where s: "get_orig_node ?a example_state = Some (p, s)" "net_ok s" "keeps example_state s"
      "orig_map s ?a = Some p" "orig_heap s p = Some n" "n = new_orig_node ?a (found_ifs example_state)"
    using get_orig_node_net [OF example_net_ok, of ?a] by blast
  have ifs: "if_list s = [10, 11]" by (use keeps_if_list [OF s(3)] in \<open>simp add: example_state_def\<close>)
  obtain t where t: "net_ok t" "keeps s t" "neigh_heap t = (neigh_heap s)(brk s \<mapsto> new_neigh_node ?a p 10)"
      "orig_heap t = (orig_heap s)(p \<mapsto> n\<lparr>neigh_list := neigh_list n @ [brk s]\<rparr>)"
    using create_neighbor_net [OF s(2,5), of p 10 ?a] s(5,6) ifs by (auto simp: new_orig_node_def)
  have k: "keeps example_state t" using s(3) t(2) by (rule keeps_trans)
  have "bat_ok t" using bat_ok_keeps [OF example_bat_ok t(1) k] .
  moreover have "if_list t = [10, 11]" "forw_list t = []" "little_endian t" "tap_written t = []" "\<not> my_mac t ?a"
    using k by (simp_all add: keeps_defs my_mac_def) (simp_all add: example_state_def)
  moreover have "orig_map t ?a = Some p" using keeps_map [OF t(2) s(4)] .
  ultimately show ?thesis
    using t(3,4) s(6)
    by (intro exI [of _ t] exI [of _ p] exI [of _ "brk s"] exI [of _ "n\<lparr>neigh_list := neigh_list n @ [brk s]\<rparr>"])
      (simp add: new_orig_node_def numeral_2_eq_2)
qed

abbreviation example_ogm :: batman_packet where
  "example_ogm \<equiv> \<lparr>packet_type = BAT_PACKET, version = COMPAT_VERSION, flags = 0, ttl = 50, gwflags = 3, tq = 200,
     seqno = 7, orig = MAC 2 0 0 0 0 9, old_orig = MAC 2 0 0 0 0 9, num_hna = 0, pad = 0\<rparr>"

lemma seq_safe_self: "seq_safe x x"
  by (simp add: seq_safe_def to_s16_mod)

lemma seq_safe_step: "seq_safe 0 7"
  by (simp add: seq_safe_def to_s16_mod)

section \<open>Properties\<close>

text \<open>
  C3: memory safety and preservation. In a state that satisfies the invariant of the daemon, every
  received originator message on one of our interfaces, from whatever sender and with whatever
  contents, is processed without undefined behaviour, provided that its gateway class is at most 11
  and that its sequence number has neither wrapped around within the window nor exactly the distance
  64 to the last one. The state afterwards satisfies the invariant, and at most one entry is added
  to the queue, a rebroadcast of this message that names the sender.
\<close>

theorem process_ogm_safe:
  assumes "bat_ok s" "i \<in> set (if_list s)" "ogm_safe s inp"
  shows "\<exists>s'. process_ogm neigh inp tail i s = Some s' \<and> bat_ok s' \<and>
    (forw_list s' = forw_list s \<or>
     (\<exists>a f. forw_list s' = (a, f) # forw_list s \<and> ttl inp > 1 \<and> \<not> own f \<and> pack_tail f = tail \<and>
        orig (pack_head f) = orig inp \<and> seqno (pack_head f) = seqno inp \<and> old_orig (pack_head f) = neigh))"
  using process_ogm_ok [OF assms, of neigh tail] unfolding queued_def by blast

theorem process_ogm_safe_witness:
  "\<exists>s s'. bat_ok s \<and> process_ogm (MAC 2 0 0 0 0 9) example_ogm [] 10 s = Some s' \<and> bat_ok s' \<and> length (forw_list s') \<le> 1"
proof -
  obtain s p q n where s: "bat_ok s" "orig_map s (MAC 2 0 0 0 0 9) = Some p" "orig_heap s p = Some n"
      "last_real_seqno n = 0" "if_list s = [10, 11]" "forw_list s = []"
    using example_neighbour by blast
  have "ogm_safe s example_ogm" using s seq_safe_step by (simp add: ogm_safe_def)
  from process_ogm_safe [OF s(1) _ this, of 10 "MAC 2 0 0 0 0 9" "[]"] s show ?thesis by fastforce
qed

text \<open>
  C4: flooding. An originator message that is not ignored and that comes directly from its originator
  is queued for a rebroadcast on the same interface with the flag for a direct link, unless its time
  to live is used up; from this flag the originator learns that the link works in its direction. A
  message that another node has passed on is not rebroadcast when it is a duplicate, and no message
  whose time to live is used up is rebroadcast.
\<close>

theorem ogm_rebroadcast:
  assumes "bat_ok s" "i \<in> set (if_list s)" "ogm_safe s inp"
    and "version inp = COMPAT_VERSION" "\<not> my_mac s neigh" "neigh \<noteq> broadcastAddr" "\<not> my_mac s (orig inp)" "tq inp \<noteq> 0" "\<not> my_mac s (old_orig inp)"
  shows "\<exists>s' d t. process_ogm neigh inp tail i s = Some s' \<and> bat_ok s' \<and>
    count_real_packets neigh inp i (s\<lparr>ticks := Suc (ticks s), curr_time := clock s (ticks s)\<rparr>) = Some (d, t) \<and>
    (if ttl inp \<le> 1 \<or> neigh \<noteq> orig inp \<and> d then forw_list s' = forw_list s
     else neigh = orig inp \<longrightarrow> (\<exists>a f. forw_list s' = (a, f) # forw_list s \<and> \<not> own f \<and> pack_tail f = tail \<and>
       orig (pack_head f) = orig inp \<and> seqno (pack_head f) = seqno inp \<and> old_orig (pack_head f) = neigh \<and>
       flags (pack_head f) = DIRECTLINK \<and> if_outgoing f = Some i))"
proof -
  define s0 where "s0 = s\<lparr>ticks := Suc (ticks s), curr_time := clock s (ticks s)\<rparr>"
  have s0: "bat_ok s0" "orig_map s0 = orig_map s" using bat_ok_clock [OF assms(1)] by (simp_all add: s0_def)
  have f: "orig_heap s0 = orig_heap s" "if_list s0 = if_list s" "forw_list s0 = forw_list s" by (simp_all add: s0_def)
  have "ogm_safe s0 inp" "i \<in> set (if_list s0)" using assms(2,3) by (simp_all add: ogm_safe_def s0(2) f)
  from ogm_foreign_ok [OF s0(1) this, of neigh tail] obtain s' d t where s': "ogm_foreign neigh inp tail i s0 = Some s'" "bat_ok s'"
      "count_real_packets neigh inp i s0 = Some (d, t)" "flooded neigh inp tail i d s0 s'" by blast
  have "process_ogm neigh inp tail i s = Some s'"
    using process_ogm_eq [OF bat_ok_net [OF assms(1)] assms(2) s0_def, of neigh inp tail] assms(4-9) s'(1) by simp
  with s' show ?thesis by (intro exI [of _ s'] exI [of _ d] exI [of _ t])
    (auto simp: s0_def [symmetric] flooded_def rebroadcasts_def f not_le)
qed

theorem ogm_rebroadcast_witness:
  "\<exists>s s' a f. process_ogm (MAC 2 0 0 0 0 9) example_ogm [] 10 s = Some s' \<and> bat_ok s' \<and> forw_list s' = [(a, f)] \<and>
     flags (pack_head f) = DIRECTLINK \<and> seqno (pack_head f) = 7"
proof -
  obtain s p q n where s: "bat_ok s" "orig_map s (MAC 2 0 0 0 0 9) = Some p" "orig_heap s p = Some n"
      "last_real_seqno n = 0" "if_list s = [10, 11]" "forw_list s = []" "\<not> my_mac s (MAC 2 0 0 0 0 9)"
    using example_neighbour by blast
  have "ogm_safe s example_ogm" using s seq_safe_step by (simp add: ogm_safe_def)
  from ogm_rebroadcast [OF s(1) _ this _ s(7), of 10 "[]"] s(5-7) show ?thesis
    by (fastforce simp: broadcastAddr_def word_le_nat_alt)
qed

text \<open>
  The messages that are ignored. A message of another protocol version, one whose sender is one
  of our own interfaces or the broadcast address, and one (of another originator and with a quality)
  that we have sent ourselves on the hop before have no effect: only the time is updated.
\<close>

theorem process_ogm_ignores:
  assumes "net_ok s" "i \<in> set (if_list s)"
    and "version inp \<noteq> COMPAT_VERSION \<or> my_mac s neigh \<or> neigh = broadcastAddr \<or>
      (my_mac s (old_orig inp) \<and> \<not> my_mac s (orig inp) \<and> tq inp \<noteq> 0)"
  shows "process_ogm neigh inp tail i s = Some (s\<lparr>ticks := Suc (ticks s), curr_time := clock s (ticks s)\<rparr>)"
  using process_ogm_eq [OF assms(1,2) refl, of neigh inp tail] assms(3) by auto

theorem process_ogm_ignores_witness:
  "process_ogm (MAC 2 0 0 0 0 2) example_ogm [] 10 example_state = Some (example_state\<lparr>ticks := 1, curr_time := 5000\<rparr>)"
proof -
  have "my_mac example_state (MAC 2 0 0 0 0 2)" "10 \<in> set (if_list example_state)"
    by (simp_all add: my_mac_def example_state_def)
  with process_ogm_ignores [OF example_net_ok, of 10 example_ogm "MAC 2 0 0 0 0 2" "[]"]
  show ?thesis by (simp add: example_state_def)
qed

text \<open>
  C24: \<open>count_real_packets\<close> for a known originator. The message is a duplicate exactly when the window
  of one of its neighbours has the sequence number; the windows of all its neighbours move to the
  new number, and only the one of the sender on this interface is marked; the counter of each
  neighbour is the number of marks; and the last number is the one of the message unless it was a
  duplicate.
\<close>

theorem count_real_packets_spec:
  assumes "net_ok s" "orig_map s (orig inp) = Some p" "orig_heap s p = Some n" "seq_safe (last_real_seqno n) (seqno inp)"
  shows "\<exists>s'. count_real_packets neigh inp i s =
      Some (\<exists>q \<in> set (neigh_list n). heard s (last_real_seqno n) (seqno inp) q, s') \<and> net_ok s' \<and>
    orig_heap s' = (orig_heap s)(p \<mapsto> n\<lparr>last_real_seqno :=
      (if \<exists>q \<in> set (neigh_list n). heard s (last_real_seqno n) (seqno inp) q then last_real_seqno n else seqno inp)\<rparr>) \<and>
    (\<forall>q. q \<notin> set (neigh_list n) \<longrightarrow> neigh_heap s' q = neigh_heap s q) \<and>
    (\<forall>q \<in> set (neigh_list n).
       counted neigh (seqno inp) i (last_real_seqno n) (the (neigh_heap s q)) (the (neigh_heap s' q)))"
  using count_real_packets_known [OF assms, of neigh i] by blast

theorem count_real_packets_spec_witness:
  "\<exists>s s' p q m. net_ok s \<and> orig_map s (MAC 2 0 0 0 0 9) = Some p \<and>
     count_real_packets (MAC 2 0 0 0 0 9) example_ogm 10 s = Some (False, s') \<and>
     counted (MAC 2 0 0 0 0 9) 7 10 0 (new_neigh_node (MAC 2 0 0 0 0 9) p 10) m \<and> the (neigh_heap s' q) = m"
proof -
  obtain s p q n where s: "bat_ok s" "orig_map s (MAC 2 0 0 0 0 9) = Some p" "orig_heap s p = Some n" "neigh_list n = [q]"
      "neigh_heap s q = Some (new_neigh_node (MAC 2 0 0 0 0 9) p 10)" "last_real_seqno n = 0"
    using example_neighbour by blast
  have "window (real_bits (new_neigh_node (MAC 2 0 0 0 0 9) p 10)) = {}"
    by (simp add: new_neigh_node_def numeral_2_eq_2)
  then have no: "\<not> heard s 0 7 q" using s(5) by (simp add: heard_def)
  from count_real_packets_spec [OF bat_ok_net [OF s(1)], of example_ogm p n "MAC 2 0 0 0 0 9" 10] s seq_safe_step no
  show ?thesis using bat_ok_net [OF s(1)] by fastforce
qed

text \<open>
  C23: a message is counted at most once. When the sender has an entry and the number of the message
  is new (or so old that the windows start anew), the message is counted as new, and a second copy
  of it, over whatever neighbour and interface it comes, is a duplicate.
\<close>

theorem message_counted_once:
  assumes "net_ok s" "orig_map s (orig inp) = Some p" "orig_heap s p = Some n" "seq_safe (last_real_seqno n) (seqno inp)"
    and "q \<in> set (neigh_list n)" "neigh_key s q = Some (neigh, i)"
    and "\<forall>x \<in> set (neigh_list n). \<not> heard s (last_real_seqno n) (seqno inp) x"
    and "to_s16 (uint (seqno inp) - uint (last_real_seqno n)) \<ge> 0 \<or> to_s16 (uint (seqno inp) - uint (last_real_seqno n)) < - 64"
  shows "\<exists>s' s''. count_real_packets neigh inp i s = Some (False, s') \<and> count_real_packets neigh2 inp i2 s' = Some (True, s'')"
proof -
  let ?d = "to_s16 (uint (seqno inp) - uint (last_real_seqno n))"
  let ?n = "n\<lparr>last_real_seqno := seqno inp\<rparr>"
  obtain s' where s': "count_real_packets neigh inp i s = Some (False, s')" "net_ok s'" "orig_map s' = orig_map s"
      "orig_heap s' p = Some ?n"
      "\<forall>q \<in> set (neigh_list n).
         counted neigh (seqno inp) i (last_real_seqno n) (the (neigh_heap s q)) (the (neigh_heap s' q))"
    using count_real_packets_fresh [OF assms(1-4)] assms(7) by blast
  obtain m where m: "neigh_heap s q = Some m" "n_addr m = neigh" "n_if_incoming m = i"
    using assms(6) by (auto simp: neigh_key_def)
  have "counted neigh (seqno inp) i (last_real_seqno n) m (the (neigh_heap s' q))"
    using bspec [OF s'(5) assms(5)] m(1) by simp
  from counted_window [OF this]
  have "window (real_bits (the (neigh_heap s' q))) = get_packet_window ?d True (window (real_bits m))"
    by (simp only: m(2,3) simp_thms)
  moreover have "0 \<in> get_packet_window ?d True W" for W using assms(8) by (auto simp: get_packet_window_def)
  ultimately have "heard s' (seqno inp) (seqno inp) q" by (simp add: heard_def)
  moreover have "orig_map s' (orig inp) = Some p" "orig_heap s' p = Some ?n" using s'(3,4) assms(2) by simp_all
  moreover have "seq_safe (last_real_seqno ?n) (seqno inp)" by (simp add: seq_safe_self)
  ultimately obtain s'' where "count_real_packets neigh2 inp i2 s' =
      Some (\<exists>x \<in> set (neigh_list ?n). heard s' (last_real_seqno ?n) (seqno inp) x, s'')" "heard s' (seqno inp) (seqno inp) q"
    using count_real_packets_known [OF s'(2), of inp p ?n neigh2 i2] by blast
  then have "count_real_packets neigh2 inp i2 s' = Some (True, s'')" using assms(5) by auto
  with s'(1) show ?thesis by blast
qed

theorem message_counted_once_witness:
  "\<exists>s s' s''. count_real_packets (MAC 2 0 0 0 0 9) example_ogm 10 s = Some (False, s') \<and>
     count_real_packets (MAC 2 0 0 0 0 8) example_ogm 11 s' = Some (True, s'')"
proof -
  obtain s p q n where s: "bat_ok s" "orig_map s (MAC 2 0 0 0 0 9) = Some p" "orig_heap s p = Some n" "neigh_list n = [q]"
      "neigh_heap s q = Some (new_neigh_node (MAC 2 0 0 0 0 9) p 10)" "last_real_seqno n = 0"
    using example_neighbour by blast
  have "window (real_bits (new_neigh_node (MAC 2 0 0 0 0 9) p 10)) = {}"
    by (simp add: new_neigh_node_def numeral_2_eq_2)
  then have no: "\<not> heard s 0 7 q" using s(5) by (simp add: heard_def)
  have key: "neigh_key s q = Some (MAC 2 0 0 0 0 9, 10)" using s(5) by (simp add: neigh_key_def new_neigh_node_def)
  from message_counted_once [OF bat_ok_net [OF s(1)], of example_ogm p n q "MAC 2 0 0 0 0 9" 10 "MAC 2 0 0 0 0 8" 11]
    s(2-4,6) seq_safe_step no key show ?thesis by fastforce
qed

text \<open>
  \<open>count_real_packets\<close> takes the number of every message that is not a duplicate as the last
  one, also when it is older: the windows do not move in that case, so they are out of step. After a
  message that is \<open>k\<close> numbers late, the message with the newest number, which a neighbour has sent
  already, is counted as new a second time.
\<close>

theorem reordered_message_recounted:
  assumes "net_ok s" "orig_map s (orig inp) = Some p" "orig_heap s p = Some n"
    and "0 < k" "k < 64" "k \<le> unat (last_real_seqno n)" "seqno inp = last_real_seqno n - of_nat k"
    and "\<forall>x \<in> set (neigh_list n). \<not> heard s (last_real_seqno n) (seqno inp) x"
    and "q \<in> set (neigh_list n)" "heard s (last_real_seqno n) (last_real_seqno n) q"
  shows "\<exists>s' s''. count_real_packets neigh inp i s = Some (False, s') \<and>
    count_real_packets neigh2 (inp\<lparr>seqno := last_real_seqno n\<rparr>) i2 s' = Some (False, s'')"
proof -
  let ?L = "last_real_seqno n" and ?n = "n\<lparr>last_real_seqno := seqno inp\<rparr>"
  have k16: "k < 65536" using assms(5) by simp
  have uk: "unat (of_nat k :: u16) = k" using k16 by (simp add: unat_of_nat_id)
  have le: "of_nat k \<le> ?L" using assms(6) uk by (simp add: word_le_nat_alt)
  have sq: "unat (seqno inp) = unat ?L - k" using unat_sub [OF le] uk assms(7) by simp
  have ui: "uint (seqno inp) = uint ?L - int k" unfolding uint_nat sq using assms(6) by (rule of_nat_diff)
  have diffs: "?L - seqno inp = of_nat k" "seqno inp - ?L = - of_nat k" using assms(7) by simp_all
  have neg: "unat (- of_nat k :: u16) = 65536 - k"
  proof -
    have "(of_nat (65536 - k) :: u16) = of_nat 65536 - of_nat k" using k16 by (intro of_nat_diff) simp
    then have "(- of_nat k :: u16) = of_nat (65536 - k)" by simp
    then show ?thesis using assms(4) by (simp only:) (rule unat_of_nat_id, simp)
  qed
  have "seqno inp \<le> ?L" using sq by (simp add: word_le_nat_alt)
  then have safe1: "seq_safe ?L (seqno inp)" using assms(4,5) by (simp add: seq_safe_def ui)
  have far: "\<not> 65536 - k < 64" using assms(5) by linarith
  have safe2: "seq_safe (seqno inp) ?L" using assms(4,5) neg far by (simp add: seq_safe_def ui diffs)
  obtain s' where s': "count_real_packets neigh inp i s = Some (False, s')" "net_ok s'" "orig_map s' = orig_map s"
      "orig_heap s' p = Some ?n"
    using count_real_packets_fresh [OF assms(1-3) safe1] assms(8) by blast
  have none: "\<not> heard s' (last_real_seqno ?n) (seqno (inp\<lparr>seqno := ?L\<rparr>)) x" for x using neg far by (simp add: heard_def diffs)
  have "orig_map s' (orig (inp\<lparr>seqno := ?L\<rparr>)) = Some p" "seq_safe (last_real_seqno ?n) (seqno (inp\<lparr>seqno := ?L\<rparr>))"
    using s'(3) assms(2) safe2 by simp_all
  from count_real_packets_fresh [OF s'(2) this(1) s'(4) this(2) none]
  obtain s'' where "count_real_packets neigh2 (inp\<lparr>seqno := ?L\<rparr>) i2 s' = Some (False, s'')" .
  with s'(1) show ?thesis by blast
qed

theorem reordered_message_recounted_witness:
  "\<exists>s s' s''. count_real_packets (MAC 2 0 0 0 0 9) (example_ogm\<lparr>seqno := 5\<rparr>) 10 s = Some (False, s') \<and>
     count_real_packets (MAC 2 0 0 0 0 9) (example_ogm\<lparr>seqno := 7\<rparr>) 10 s' = Some (False, s'')"
proof -
  obtain s p q n where s: "bat_ok s" "orig_map s (MAC 2 0 0 0 0 9) = Some p" "orig_heap s p = Some n" "neigh_list n = [q]"
      "neigh_heap s q = Some (new_neigh_node (MAC 2 0 0 0 0 9) p 10)" "last_real_seqno n = 0"
    using example_neighbour by blast
  have w: "window (real_bits (new_neigh_node (MAC 2 0 0 0 0 9) p 10)) = {}"
    by (simp add: new_neigh_node_def numeral_2_eq_2)
  then have no: "\<not> heard s 0 7 q" using s(5) by (simp add: heard_def)
  obtain t where t: "net_ok t" "orig_map t = orig_map s" "orig_heap t p = Some (n\<lparr>last_real_seqno := 7\<rparr>)"
      "counted (MAC 2 0 0 0 0 9) 7 10 0 (new_neigh_node (MAC 2 0 0 0 0 9) p 10) (the (neigh_heap t q))"
    using count_real_packets_fresh [OF bat_ok_net [OF s(1)], of example_ogm p n "MAC 2 0 0 0 0 9" 10]
      s(2-6) seq_safe_step no by auto
  have "window (real_bits (the (neigh_heap t q))) = {0}"
    using counted_window [OF t(4)] w by (simp add: new_neigh_node_def get_packet_window_def shift_set_def)
  then have "heard t 7 7 q" "\<not> heard t 7 5 q" by (simp_all add: heard_def)
  with reordered_message_recounted [OF t(1), of "example_ogm\<lparr>seqno := 5\<rparr>" p "n\<lparr>last_real_seqno := 7\<rparr>" 2 q
      "MAC 2 0 0 0 0 9" 10 "MAC 2 0 0 0 0 9" 10] t(2,3) s(2,4) show ?thesis by fastforce
qed

text \<open>
  C21: \<open>update_orig\<close> after a message with a quality. The call returns and preserves the invariant;
  afterwards the originator has a router, the router is one of its neighbours and has a quality, and
  no neighbour of the originator has a higher average quality than the router.
\<close>

theorem update_orig_best:
  assumes "net_ok s" "orig_heap s p = Some n" "i \<in> set (if_list s)" "tq inp \<noteq> 0" "unat (gwflags inp) \<le> 11"
  shows "\<exists>s' n' b. update_orig p neigh inp i tail (int (length tail)) dup now s = Some s' \<and> net_ok s' \<and>
    orig_heap s' p = Some n' \<and> router n' = Some b \<and> b \<in> set (neigh_list n') \<and> avg_of s' b \<noteq> 0 \<and>
    (\<forall>x \<in> set (neigh_list n'). avg_of s' x \<le> avg_of s' b) \<and> set (neigh_list n) \<subseteq> set (neigh_list n')"
  using update_orig_net [OF assms, of neigh tail dup now] by blast

theorem update_orig_best_witness:
  "\<exists>s p s' n' b. update_orig p (MAC 2 0 0 0 0 8) example_ogm 10 [] 0 False 5000 s = Some s' \<and>
     orig_heap s' p = Some n' \<and> router n' = Some b \<and> b \<in> set (neigh_list n') \<and> avg_of s' b \<noteq> 0"
proof -
  obtain s p q n where s: "bat_ok s" "orig_heap s p = Some n" "if_list s = [10, 11]" using example_neighbour by blast
  with update_orig_best [OF bat_ok_net [OF s(1)] s(2), of 10 example_ogm "MAC 2 0 0 0 0 8" "[]" False 5000]
  show ?thesis by fastforce
qed

end
