(* ===== verification/Send_Inv.thy ===== *)
theory Send_Inv
  imports Ogm_Inv "HOL-Library.Multiset"
begin

text \<open>
  The queue of messages: scheduling our own messages and sending what is due. The loop of
  \<open>send_outstanding_packets\<close> ends, sends exactly the messages at the front of the queue that are
  due, and every own message that was sent is queued again for the same interface.
\<close>

section \<open>Loops over a hash table that remove nothing\<close>

lemma sweep_chain_keep:
  assumes "\<And>d s. d \<in> snd ` set c \<Longrightarrow> P s \<Longrightarrow> \<exists>s'. body d s = Some (False, s') \<and> P s'" "P s"
  shows "\<exists>s'. sweep_chain body c s = Some (c, s') \<and> P s'"
  using assms
proof (induction c arbitrary: s)
  case (Cons b c)
  obtain a d where b: "b = (a, d)" by fastforce
  obtain s1 where s1: "body d s = Some (False, s1)" "P s1" using Cons.prems b by fastforce
  then obtain s' where "sweep_chain body c s1 = Some (c, s')" "P s'" using Cons.IH [of s1] Cons.prems(1) by auto
  with s1(1) b show ?case by simp
qed simp

lemma sweep_table_keep:
  assumes "\<And>d s. d \<in> snd ` set (concat t) \<Longrightarrow> P s \<Longrightarrow> \<exists>s'. body d s = Some (False, s') \<and> P s'" "P s"
  shows "\<exists>s'. sweep_table body t s = Some (t, s') \<and> P s'"
  using assms
proof (induction t arbitrary: s)
  case (Cons c t)
  have c: "\<exists>s'. body d s = Some (False, s') \<and> P s'" if "d \<in> snd ` set c" "P s" for d s
    using Cons.prems(1) that by auto
  obtain s1 where s1: "sweep_chain body c s = Some (c, s1)" "P s1" using sweep_chain_keep [of c P body s, OF c Cons.prems(2)] by blast
  have t: "\<exists>s'. body d s = Some (False, s') \<and> P s'" if "d \<in> snd ` set (concat t)" "P s" for d s
    by (rule Cons.prems(1)) (use that in auto)
  obtain s' where "sweep_table body t s1 = Some (t, s')" "P s'" using Cons.IH [of s1, OF t s1(2)] by blast
  with s1(1) show ?case by simp
qed simp

lemma hash_loop_keep:
  assumes "table_ok hash" "P s"
    "\<And>d s. d \<in> set (hash_entries hash) \<Longrightarrow> P s \<Longrightarrow> \<exists>s'. body d s = Some (False, s') \<and> P s'"
  shows "\<exists>s'. hash_loop body hash None s = Some (hash, s') \<and> P s'"
proof -
  have "\<exists>s'. body d s = Some (False, s') \<and> P s'" if "d \<in> snd ` set (concat (table hash))" "P s" for d s
    using assms(3) that by (auto simp: hash_entries_def)
  from sweep_table_keep [of "table hash" P body s, OF this assms(2)] show ?thesis
    by (auto simp: hash_loop_sweep [OF assms(1)])
qed

section \<open>Scheduling our own messages\<close>

text \<open>What sending depends on, and scheduling does not change.\<close>

definition if_ids :: "bat_state \<Rightarrow> nat \<Rightarrow> (int \<times> int \<times> mac) option" where
  "if_ids s i = map_option (\<lambda>b. (raw_sock b, if_num b, hw_addr b)) (if_heap s i)"

definition io_same :: "bat_state \<Rightarrow> bat_state \<Rightarrow> bool" where
  "io_same s s' \<longleftrightarrow> clock s' = clock s \<and> writes s' = writes s \<and> little_endian s' = little_endian s \<and> if_list s' = if_list s \<and>
     originator_interval s' = originator_interval s \<and> if_ids s' = if_ids s"

lemma io_same_refl [simp, intro]: "io_same s s" by (simp add: io_same_def)

lemma io_same_trans: "io_same s t \<Longrightarrow> io_same t u \<Longrightarrow> io_same s u" by (simp add: io_same_def)

lemma count_own_bcast_net:
  assumes "net_ok s" "orig_heap s d \<noteq> None" "i \<in> set (if_list s)" "if_heap s i = Some f"
  shows "\<exists>n. count_own_bcast (if_num f) d s = Some (False, put_orig d n s) \<and> net_ok (put_orig d n s) \<and> keeps s (put_orig d n s)"
proof -
  obtain n where n: "orig_heap s d = Some n" using assms(2) by blast
  obtain ws where ws: "window_get (bcast_own n) (if_num f) = Some ws" "length ws = 2" "0 \<le> if_num f"
      "if_num f < int (length (bcast_own_sum n))" "2 * if_num f + 2 \<le> int (length (bcast_own n))"
    using own_window_net [OF assms(1) n assms(3,4)] .
  obtain b ws' where ws': "bit_get_packet ws 1 False = Some (b, ws')" "length ws' = 2"
    using win32.get_packet_win [OF ws(2), of 1 False] by auto
  obtain c where c: "bit_packet_count ws' = Some c" using win32.count_win [OF ws'(2)] by blast
  from put_own_window_net [OF assms(1) n ws(3-5) ws'(2), of "word_of_int c"] n ws(1) ws'(1) c
  show ?thesis by (auto simp: count_own_bcast_def)
qed

lemma net_ok_table: "net_ok s \<Longrightarrow> table_ok (orig_hash s)"
  by (auto simp: net_ok_def origs_ok_def mac_hash_ok_def hash_ok_def table_ok_def)

lemma count_own_bcast_all:
  assumes "net_ok s" "i \<in> set (if_list s)" "if_heap s i = Some f"
  shows "\<exists>h. hash_loop (count_own_bcast (if_num f)) (orig_hash s) None s = Some (orig_hash s, s\<lparr>orig_heap := h\<rparr>) \<and>
    net_ok (s\<lparr>orig_heap := h\<rparr>) \<and> keeps s (s\<lparr>orig_heap := h\<rparr>)"
proof -
  let ?P = "\<lambda>t. \<exists>h. t = s\<lparr>orig_heap := h\<rparr> \<and> net_ok t \<and> keeps s t"
  have step: "\<exists>s'. count_own_bcast (if_num f) d t = Some (False, s') \<and> ?P s'" if d: "d \<in> set (hash_entries (orig_hash s))" and pt: "?P t" for d t
  proof -
    obtain h where t: "t = s\<lparr>orig_heap := h\<rparr>" "net_ok t" "keeps s t" using pt by blast
    have "orig_heap s d \<noteq> None" using assms(1) d by (auto simp: net_ok_def origs_ok_def)
    then have "orig_heap t d \<noteq> None" by (rule keeps_orig [OF t(3)])
    from count_own_bcast_net [OF t(2) this, of i f] assms(2,3) t(1) obtain n where
      "count_own_bcast (if_num f) d t = Some (False, put_orig d n t)" "net_ok (put_orig d n t)" "keeps t (put_orig d n t)" by auto
    with keeps_trans [OF t(3)] show ?thesis
      by (intro exI [of _ "put_orig d n t"]) (auto simp: t(1) put_orig_def)
  qed
  have "?P s" using assms(1) by (intro exI [of _ "orig_heap s"]) simp
  from hash_loop_keep [OF net_ok_table [OF assms(1)], of ?P s "count_own_bcast (if_num f)", OF this step] show ?thesis by blast
qed

lemma own_send_time:
  assumes "JITTER < originator_interval s" "unat (clock s (ticks s)) + nat (originator_interval s + JITTER) < 2 ^ 32"
    "0 \<le> r" "r < 2 * JITTER"
  shows "clock s (ticks s) < clock s (ticks s) + word_of_int (originator_interval s - JITTER + r)"
proof -
  define d where "d = originator_interval s - JITTER + r"
  have d: "0 < d" "d < originator_interval s + JITTER" using assms(1,3,4) by (simp_all add: d_def)
  then have n: "0 < nat d" "unat (clock s (ticks s)) + nat d < 2 ^ 32" using assms(2) by simp_all
  have "(word_of_int d :: u32) = of_nat (nat d)" using d(1) by simp
  then have "unat (word_of_int d :: u32) = nat d" using n(2) by (simp only:) (rule unat_of_nat_id, simp)
  with n show ?thesis unfolding d_def [symmetric] by (simp add: word_less_nat_alt unat_word_ariths)
qed

lemma forw_insert_set: "set (forw_insert x xs) = insert x (set xs)"
  by (induction xs) auto

lemma forw_insert_mset: "mset (forw_insert x xs) = add_mset x (mset xs)"
  by (induction xs) auto

lemma forw_insert_distinct: "distinct (map fst (forw_insert x xs)) \<longleftrightarrow> distinct (map fst (x # xs))"
  by (induction xs) (auto simp: forw_insert_set)

lemma schedule_own_packet_ok:
  assumes "bat_ok s" "i \<in> set (if_list s)" "JITTER < originator_interval s"
    "unat (clock s (ticks s)) + nat (originator_interval s + JITTER) < 2 ^ 32"
  shows "\<exists>s' f. schedule_own_packet i s = Some s' \<and> bat_ok s' \<and> io_same s s' \<and> sent s' = sent s \<and> written s' = written s \<and>
    ticks s' = Suc (ticks s) \<and> forw_list s' = forw_insert (brk s, f) (forw_list s) \<and> own f \<and> if_outgoing f = Some i \<and>
    clock s (ticks s) < send_time f \<and> brk s < brk s'"
proof -
  have net: "net_ok s" using bat_ok_net [OF assms(1)] .
  obtain b where b: "if_heap s i = Some b" using net_ok_if [OF net assms(2)] .
  define r where "r = int (rands s (rolls s)) mod (2 * JITTER)"
  define s1 where "s1 = s\<lparr>ticks := Suc (ticks s), rolls := Suc (rolls s)\<rparr>"
  define f where "f = \<lparr>send_time = clock s (ticks s) + word_of_int (originator_interval s - JITTER + r), own = True,
     pack_head = out b, pack_tail = take (unat (g_num_hna s) * 6) (g_hna_buff s), if_outgoing = Some i\<rparr>"
  have "unat (g_num_hna s) * 6 \<le> length (g_hna_buff s)" using assms(1) by (simp add: bat_ok_def)
  then have node: "own_forw_node i s = Some (f, s1)"
    by (simp add: own_forw_node_def b get_time_def rand_num_def f_def s1_def r_def JITTER_def)
  have r: "0 \<le> r" "r < 2 * JITTER" by (simp_all add: r_def JITTER_def)
  define b' where "b' = b\<lparr>out := (out b)\<lparr>seqno := seqno (out b) + 1\<rparr>\<rparr>"
  define s2 where "s2 = put_if i b' (s1\<lparr>forw_list := forw_insert (brk s, f) (forw_list s), brk := Suc (brk s)\<rparr>)"
  have s2: "net_ok s2"
    using net_ok_fields [of s2 s] net b
    by (auto simp: s2_def s1_def put_if_def b'_def fun_eq_iff)
  have f2: "if_heap s2 i = Some b'" "i \<in> set (if_list s2)" using assms(2) by (simp_all add: s2_def s1_def put_if_def)
  obtain h where h: "hash_loop (count_own_bcast (if_num b')) (orig_hash s2) None s2 = Some (orig_hash s2, s2\<lparr>orig_heap := h\<rparr>)"
      "net_ok (s2\<lparr>orig_heap := h\<rparr>)"
    using count_own_bcast_all [OF s2 f2(2,1)] by blast
  define s' where "s' = s2\<lparr>orig_heap := h\<rparr>"
  have "schedule_own_packet i s = Some s'"
    using node h(1) by (simp add: schedule_own_packet_def s'_def s2_def s1_def put_if_def b b'_def)
  moreover have "queue_ok s'"
    using assms(1,2) by (fastforce simp: bat_ok_def queue_ok_def s'_def s2_def s1_def put_if_def f_def forw_insert_set forw_insert_distinct)
  then have "bat_ok s'" using h(2) assms(1) by (simp add: bat_ok_def s'_def) (simp add: s2_def s1_def put_if_def)
  moreover have "io_same s s'"
    using b by (auto simp: io_same_def if_ids_def fun_eq_iff s'_def s2_def s1_def put_if_def b'_def)
  moreover have "clock s (ticks s) < send_time f" using own_send_time [OF assms(3,4) r] by (simp add: f_def)
  ultimately show ?thesis
    by (intro exI [of _ s'] exI [of _ f]) (simp add: s'_def s2_def s1_def put_if_def f_def)
qed

section \<open>Sending one message\<close>

text \<open>
  The frames that sending a message gives when every write succeeds: on its own interface only, when
  it is a direct link message at its last hop or an own message of a secondary interface, otherwise
  one on every interface, with the flag for direct links on the interface it came from.
\<close>

definition frame_on :: "bat_state \<Rightarrow> batman_packet \<Rightarrow> u8 list \<Rightarrow> nat \<Rightarrow> frame" where
  "frame_on s p tail i = (case the (if_ids s i) of (sock, _, addr) \<Rightarrow>
     \<lparr>f_sock = sock, f_shost = addr, f_dhost = broadcastAddr, f_bytes = bytes_of_batman_packet (little_endian s) p @ tail\<rparr>)"

definition frames_of :: "bat_state \<Rightarrow> forw_node \<Rightarrow> frame list" where
  "frames_of s f =
     (let i = the (if_outgoing f);
          direct = (flags (pack_head f) AND DIRECTLINK \<noteq> 0);
          p = (pack_head f)\<lparr>seqno := htons (little_endian s) (seqno (pack_head f))\<rparr>
      in if (direct \<and> ttl p = 1) \<or> (own f \<and> fst (snd (the (if_ids s i))) > 0)
         then [frame_on s p (pack_tail f) i]
         else map (\<lambda>j. frame_on s (p\<lparr>flags := (if direct \<and> j = i then DIRECTLINK else 0)\<rparr>) (pack_tail f) j) (if_list s))"

definition wrote :: "bat_state \<Rightarrow> nat \<Rightarrow> frame list \<Rightarrow> bat_state" where
  "wrote s w fs = s\<lparr>written := w, sent := fs @ sent s\<rparr>"

lemma wrote_simps [simp]:
  "wrote (wrote s w fs) w' fs' = wrote s w' (fs' @ fs)" "writes (wrote s w fs) = writes s" "if_heap (wrote s w fs) = if_heap s"
  "if_list (wrote s w fs) = if_list s" "little_endian (wrote s w fs) = little_endian s" "if_ids (wrote s w fs) = if_ids s"
  "forw_list (wrote s w fs) = forw_list s" "sent (wrote s w fs) = fs @ sent s" "frame_on (wrote s w fs) = frame_on s"
  by (simp_all add: wrote_def if_ids_def [abs_def] frame_on_def [abs_def])

lemma wrote_self: "wrote s (written s) [] = s" by (simp add: wrote_def)

lemma rawsock_write_tries_wrote:
  "\<exists>res w fs. rawsock_write_tries k sock a b bytes s = (res, wrote s w fs) \<and>
     ((\<forall>j. writes s j = Written) \<and> 0 < k \<longrightarrow>
        res = Written \<and> fs = [\<lparr>f_sock = sock, f_shost = a, f_dhost = b, f_bytes = bytes\<rparr>])"
proof (induction k arbitrary: s)
  case 0
  then show ?case by (metis less_irrefl rawsock_write_tries.simps(1) wrote_self)
next
  case (Suc k)
  let ?s = "s\<lparr>written := Suc (written s)\<rparr>"
  have t: "?s = wrote s (Suc (written s)) []" by (simp add: wrote_def)
  show ?case
  proof (cases "writes s (written s)")
    case Written
    then have "rawsock_write_tries (Suc k) sock a b bytes s =
        (Written, wrote s (Suc (written s)) [\<lparr>f_sock = sock, f_shost = a, f_dhost = b, f_bytes = bytes\<rparr>])"
      by (simp add: writev_def Let_def wrote_def)
    then show ?thesis by blast
  next
    case Try_again
    then have eq: "rawsock_write_tries (Suc k) sock a b bytes s = rawsock_write_tries k sock a b bytes (wrote s (Suc (written s)) [])"
      by (simp add: writev_def Let_def t)
    have "\<not> (\<forall>j. writes s j = Written)" using Try_again by (metis write_result.distinct(1))
    moreover obtain res w fs where "rawsock_write_tries k sock a b bytes (wrote s (Suc (written s)) []) = (res, wrote s w fs)"
      using Suc.IH [of "wrote s (Suc (written s)) []"] unfolding wrote_simps by blast
    ultimately show ?thesis unfolding eq by blast
  next
    case Write_error
    then have "rawsock_write_tries (Suc k) sock a b bytes s = (Write_error, wrote s (Suc (written s)) [])"
      by (simp add: writev_def Let_def t)
    moreover have "\<not> (\<forall>j. writes s j = Written)" using Write_error by (metis write_result.distinct(3))
    ultimately show ?thesis by blast
  qed
qed

lemma send_packet_tries_wrote:
  "\<exists>res w fs. send_packet_tries k bytes a b sock s = (res, wrote s w fs) \<and>
     ((\<forall>j. writes s j = Written) \<and> 0 < k \<longrightarrow>
        res \<and> fs = [\<lparr>f_sock = sock, f_shost = a, f_dhost = b, f_bytes = bytes\<rparr>])"
proof (induction k arbitrary: s)
  case 0
  then show ?case by (metis less_irrefl send_packet_tries.simps(1) wrote_self)
next
  case (Suc k)
  obtain res w fs where r: "rawsock_write sock a b bytes s = (res, wrote s w fs)"
      "(\<forall>j. writes s j = Written) \<longrightarrow> res = Written \<and> fs = [\<lparr>f_sock = sock, f_shost = a, f_dhost = b, f_bytes = bytes\<rparr>]"
    using rawsock_write_tries_wrote [of PACKETS_PER_CYCLE sock a b bytes s]
    by (auto simp: rawsock_write_def PACKETS_PER_CYCLE_def)
  obtain res2 w2 fs2 where n: "send_packet_tries k bytes a b sock (wrote s w fs) = (res2, wrote s w2 fs2)"
    using Suc.IH [of "wrote s w fs"] unfolding wrote_simps by blast
  show ?case
  proof (cases res)
    case Written
    with r have "send_packet_tries (Suc k) bytes a b sock s = (True, wrote s w fs)" by simp
    with r(2) show ?thesis by blast
  next
    case Try_again
    with r n have "send_packet_tries (Suc k) bytes a b sock s = (res2, wrote s w2 fs2)" by simp
    moreover have "\<not> (\<forall>j. writes s j = Written)" using r(2) Try_again by auto
    ultimately show ?thesis by blast
  next
    case Write_error
    with r have "send_packet_tries (Suc k) bytes a b sock s = (False, wrote s w fs)" by simp
    moreover have "\<not> (\<forall>j. writes s j = Written)" using r(2) Write_error by auto
    ultimately show ?thesis by blast
  qed
qed

lemma send_packet_wrote:
  obtains res w fs where "send_packet bytes a b sock s = (res, wrote s w fs)"
    "(\<forall>j. writes s j = Written) \<longrightarrow> res \<and> fs = [\<lparr>f_sock = sock, f_shost = a, f_dhost = b, f_bytes = bytes\<rparr>]"
  using send_packet_tries_wrote [of PACKETS_PER_CYCLE bytes a b sock s]
  by (auto simp: send_packet_def PACKETS_PER_CYCLE_def)

lemma if_ids_live:
  assumes "net_ok s" "i \<in> set (if_list s)" "if_heap s i = Some b"
  shows "if_ids s i = Some (raw_sock b, if_num b, hw_addr b)"
  using assms(3) by (simp add: if_ids_def)

lemma send_on_wrote:
  assumes "if_heap s i = Some b"
  obtains res w fs where "send_on p tail b s = (res, wrote s w fs)"
    "(\<forall>j. writes s j = Written) \<longrightarrow> res \<and> fs = [frame_on s p tail i]"
  using send_packet_wrote [of "bytes_of_batman_packet (little_endian s) p @ tail" "hw_addr b" broadcastAddr "raw_sock b" s] assms
  by (auto simp: send_on_def frame_on_def if_ids_def)

lemma send_on_all_wrote:
  assumes "\<And>j. j \<in> set js \<Longrightarrow> if_heap s j \<noteq> None"
  shows "\<exists>res w fs. send_on_all p tail direct (Some i) js s = Some (res, wrote s w fs) \<and>
    ((\<forall>j. writes s j = Written) \<longrightarrow>
       res \<and> fs = rev (map (\<lambda>j. frame_on s (p\<lparr>flags := (if direct \<and> j = i then DIRECTLINK else 0)\<rparr>) tail j) js))"
  using assms
proof (induction js arbitrary: s)
  case Nil
  show ?case by (metis list.simps(8) rev.simps(1) send_on_all.simps(1) wrote_self)
next
  case (Cons j js)
  let ?p = "p\<lparr>flags := (if direct \<and> Some i = Some j then DIRECTLINK else 0)\<rparr>"
  obtain b where b: "if_heap s j = Some b" using Cons.prems by force
  obtain res w fs where r: "send_on ?p tail b s = (res, wrote s w fs)"
      "(\<forall>j. writes s j = Written) \<longrightarrow> res \<and> fs = [frame_on s ?p tail j]"
    using send_on_wrote [OF b, of ?p tail] by blast
  obtain res2 w2 fs2 where n: "send_on_all p tail direct (Some i) js (wrote s w fs) = Some (res2, wrote (wrote s w fs) w2 fs2)"
      "(\<forall>j. writes s j = Written) \<longrightarrow>
       res2 \<and> fs2 = rev (map (\<lambda>j. frame_on s (p\<lparr>flags := (if direct \<and> j = i then DIRECTLINK else 0)\<rparr>) tail j) js)"
    using Cons.IH [of "wrote s w fs"] Cons.prems by auto
  show ?case
  proof (cases res)
    case True
    then have "send_on_all p tail direct (Some i) (j # js) s = Some (res2, wrote s w2 (fs2 @ fs))" using b r(1) n(1) by simp
    moreover have "(\<forall>j. writes s j = Written) \<longrightarrow> res2 \<and>
        fs2 @ fs = rev (map (\<lambda>j. frame_on s (p\<lparr>flags := (if direct \<and> j = i then DIRECTLINK else 0)\<rparr>) tail j) (j # js))"
      using r(2) n(2) by (simp add: eq_commute [of i j])
    ultimately show ?thesis by blast
  next
    case False
    then have "send_on_all p tail direct (Some i) (j # js) s = Some (False, wrote s w fs)" using b r(1) by simp
    with r(2) False show ?thesis by blast
  qed
qed

lemma send_forw_node_wrote:
  assumes "net_ok s" "if_outgoing f = Some i" "i \<in> set (if_list s)"
  shows "\<exists>res w fs. send_forw_node f s = Some (res, wrote s w fs) \<and>
    ((\<forall>j. writes s j = Written) \<longrightarrow> res \<and> fs = rev (frames_of s f))"
proof -
  have live: "\<And>j. j \<in> set (if_list s) \<Longrightarrow> if_heap s j \<noteq> None" using net_ok_if [OF assms(1)] by (metis option.distinct(1))
  obtain b where b: "if_heap s i = Some b" using live [OF assms(3)] by blast
  define direct where "direct \<longleftrightarrow> flags (pack_head f) AND DIRECTLINK \<noteq> 0"
  define p where "p = (pack_head f)\<lparr>seqno := htons (little_endian s) (seqno (pack_head f))\<rparr>"
  have ids: "fst (snd (the (if_ids s i))) = if_num b" using if_ids_live [OF assms(1,3) b] by simp
  show ?thesis
  proof (cases "(direct \<and> ttl p = 1) \<or> (own f \<and> if_num b > 0)")
    case True
    then have "frames_of s f = [frame_on s p (pack_tail f) i]"
      by (simp add: frames_of_def direct_def p_def assms(2) ids)
    moreover have "send_forw_node f s = Some (send_on p (pack_tail f) b s)"
      using True by (cases "direct \<and> ttl p = 1") (auto simp: send_forw_node_def direct_def p_def assms(2) b Let_def)
    moreover obtain res w fs where "send_on p (pack_tail f) b s = (res, wrote s w fs)"
        "(\<forall>j. writes s j = Written) \<longrightarrow> res \<and> fs = [frame_on s p (pack_tail f) i]"
      using send_on_wrote [OF b, of p "pack_tail f"] by blast
    ultimately show ?thesis by (intro exI [of _ res] exI [of _ w] exI [of _ fs]) simp
  next
    case False
    then have "frames_of s f = map (\<lambda>j. frame_on s (p\<lparr>flags := (if direct \<and> j = i then DIRECTLINK else 0)\<rparr>) (pack_tail f) j) (if_list s)"
      by (auto simp: frames_of_def direct_def p_def assms(2) ids Let_def)
    moreover have "send_forw_node f s = send_on_all p (pack_tail f) direct (Some i) (if_list s) s"
      using False by (cases "own f") (auto simp: send_forw_node_def direct_def p_def assms(2) b Let_def)
    ultimately show ?thesis using send_on_all_wrote [of "if_list s" s p "pack_tail f" direct i, OF live] by simp
  qed
qed

section \<open>The send loop\<close>

lemma forw_insert_due:
  "\<forall>x \<in> set due. send_time (snd x) \<le> now \<Longrightarrow> now < send_time (snd new) \<Longrightarrow>
   forw_insert new (due @ later) = due @ forw_insert new later"
  by (induction due) (auto simp: leD)

lemma forw_at_in:
  "distinct (map fst xs) \<Longrightarrow> (a, f) \<in> set xs \<Longrightarrow> \<exists>rest. forw_at a xs = Some (f, rest)"
  by (induction xs) (auto simp: image_iff)

text \<open>The times that the loop can see: none of them is before \<open>now\<close>, and scheduling does not overflow.\<close>

definition clock_ok :: "u32 \<Rightarrow> bat_state \<Rightarrow> bool" where
  "clock_ok now s \<longleftrightarrow> (\<forall>k \<ge> ticks s. now \<le> clock s k \<and> unat (clock s k) + nat (originator_interval s + JITTER) < 2 ^ 32)"

text \<open>Where the loop is: at the first due entry, or at one that is not due, or at the end.\<close>

definition pos_ok :: "u32 \<Rightarrow> nat option \<Rightarrow> (nat \<times> forw_node) list \<Rightarrow> (nat \<times> forw_node) list \<Rightarrow> bool" where
  "pos_ok now pos due later \<longleftrightarrow>
     (case due of
        x # _ \<Rightarrow> pos = Some (fst x)
      | [] \<Rightarrow> (case pos of None \<Rightarrow> True | Some a \<Rightarrow> \<exists>f. (a, f) \<in> set later \<and> now < send_time f))"

definition not_due :: "u32 \<Rightarrow> (nat \<times> forw_node) list \<Rightarrow> bool" where
  "not_due now xs \<longleftrightarrow> (case xs of [] \<Rightarrow> True | x # _ \<Rightarrow> now < send_time (snd x))"

definition requeued :: "u32 \<Rightarrow> (nat \<times> forw_node) list \<Rightarrow> (nat \<times> forw_node) list \<Rightarrow> (nat \<times> forw_node) list \<Rightarrow> bool" where
  "requeued now due later xs \<longleftrightarrow> not_due now xs \<and>
     (\<exists>news. mset xs = mset later + mset news \<and>
        map (\<lambda>x. if_outgoing (snd x)) news = map (\<lambda>x. if_outgoing (snd x)) (filter (\<lambda>x. own (snd x)) due) \<and>
        (\<forall>x \<in> set news. own (snd x) \<and> now < send_time (snd x)))"

lemma not_due_insert: "not_due now xs \<Longrightarrow> now < send_time (snd new) \<Longrightarrow> not_due now (forw_insert new xs)"
  by (cases xs) (auto simp: not_due_def)

lemma bat_ok_wrote: "bat_ok s \<Longrightarrow> bat_ok (wrote s w fs)"
  using net_ok_fields [of "wrote s w fs" s] by (simp add: bat_ok_def queue_ok_def) (simp add: wrote_def)

lemma bat_ok_tail: "bat_ok s \<Longrightarrow> forw_list s = x # rest \<Longrightarrow> bat_ok (s\<lparr>forw_list := rest\<rparr>)"
  using net_ok_fields [of "s\<lparr>forw_list := rest\<rparr>" s] by (simp add: bat_ok_def queue_ok_def)

lemma frames_of_same: "io_same s s' \<Longrightarrow> frames_of s' = frames_of s"
  unfolding io_same_def frames_of_def [abs_def] frame_on_def [abs_def] by (elim conjE) (simp cong: if_cong)

text \<open>One step of the loop at an entry that is due.\<close>

lemma send_step:
  assumes "bat_ok s" "JITTER < originator_interval s" "clock_ok now s" "forw_list s = (a, f) # due @ later"
    "\<forall>x \<in> set due. send_time (snd x) \<le> now" "not_due now later" "send_time f \<le> now"
  shows "\<exists>ok t. send_forw_node f s = Some (ok, t) \<and> bat_ok t \<and> io_same s t \<and>
    ((\<forall>k. writes s k = Written) \<longrightarrow> ok \<and> sent t = rev (frames_of s f) @ sent s) \<and>
    (\<exists>u later'. (if own f then do { i \<leftarrow> if_outgoing f; schedule_own_packet i (t\<lparr>forw_list := due @ later\<rparr>) }
        else Some (t\<lparr>forw_list := due @ later\<rparr>)) = Some u \<and> bat_ok u \<and> io_same s u \<and> sent u = sent t \<and> clock_ok now u \<and>
       forw_list u = due @ later' \<and> not_due now later' \<and> set later \<subseteq> set later' \<and>
       (\<exists>news. mset later' = mset later + mset news \<and> (\<forall>x \<in> set news. own (snd x) \<and> now < send_time (snd x)) \<and>
          map (\<lambda>x. if_outgoing (snd x)) news = (if own f then [if_outgoing f] else [])))"
proof -
  obtain i where i: "if_outgoing f = Some i" "i \<in> set (if_list s)"
    using assms(1,4) by (auto simp: bat_ok_def queue_ok_def)
  obtain ok w fs where w: "send_forw_node f s = Some (ok, wrote s w fs)"
      "(\<forall>j. writes s j = Written) \<longrightarrow> ok \<and> fs = rev (frames_of s f)"
    using send_forw_node_wrote [OF bat_ok_net [OF assms(1)] i] by blast
  define t where "t = wrote s w fs"
  define v where "v = t\<lparr>forw_list := due @ later\<rparr>"
  have t: "bat_ok t" "io_same s t" "sent t = fs @ sent s" "forw_list t = (a, f) # due @ later" "ticks t = ticks s"
    using bat_ok_wrote [OF assms(1)] assms(4) by (simp_all add: t_def io_same_def) (simp_all add: wrote_def)
  have v: "bat_ok v" "io_same s v" "sent v = sent t" "ticks v = ticks s" "clock v = clock s" "originator_interval v = originator_interval s"
    using bat_ok_tail [OF t(1,4)] t(2,5) by (simp_all add: v_def io_same_def if_ids_def [abs_def])
  have cv: "clock_ok now v" using assms(3) v(4-6) by (simp add: clock_ok_def)
  have "\<exists>u later'. (if own f then do { i \<leftarrow> if_outgoing f; schedule_own_packet i v } else Some v) = Some u \<and>
     bat_ok u \<and> io_same s u \<and> sent u = sent t \<and> clock_ok now u \<and>
     forw_list u = due @ later' \<and> not_due now later' \<and> set later \<subseteq> set later' \<and>
       (\<exists>news. mset later' = mset later + mset news \<and> (\<forall>x \<in> set news. own (snd x) \<and> now < send_time (snd x)) \<and>
          map (\<lambda>x. if_outgoing (snd x)) news = (if own f then [if_outgoing f] else []))"
  proof (cases "own f")
    case False
    then show ?thesis using v cv assms(6)
      by (intro exI [of _ v] exI [of _ later]) (simp add: v_def exI [of _ "[]"])
  next
    case True
    have sched: "i \<in> set (if_list v)" "JITTER < originator_interval v"
        "unat (clock v (ticks v)) + nat (originator_interval v + JITTER) < 2 ^ 32" "now \<le> clock v (ticks v)"
      using i(2) v(2,6) assms(2) cv by (simp_all add: io_same_def clock_ok_def)
    obtain u g where u: "schedule_own_packet i v = Some u" "bat_ok u" "io_same v u"
        "sent u = sent v" "ticks u = Suc (ticks v)" "forw_list u = forw_insert (brk v, g) (forw_list v)" "own g"
        "if_outgoing g = Some i" "clock v (ticks v) < send_time g"
      using schedule_own_packet_ok [OF v(1) sched(1-3)] by blast
    have later: "now < send_time g" using sched(4) u(9) by (rule le_less_trans)
    have "forw_list u = due @ forw_insert (brk v, g) later"
      using u(6) forw_insert_due [OF assms(5), of "(brk v, g)"] later by (simp add: v_def)
    moreover have "clock_ok now u" using cv u(3,5) by (simp add: clock_ok_def io_same_def)
    moreover have "not_due now (forw_insert (brk v, g) later)" using not_due_insert [OF assms(6)] later by simp
    ultimately show ?thesis using True i(1) u(1,2,4,7,8) later v(3) io_same_trans [OF v(2) u(3)]
      by (intro exI [of _ u] exI [of _ "forw_insert (brk v, g) later"])
        (auto simp: forw_insert_set forw_insert_mset intro!: exI [of _ "[(brk v, g)]"])
  qed
  with w t show ?thesis unfolding v_def by (intro exI [of _ ok] exI [of _ t]) (auto simp: t_def)
qed

lemma pos_ok_next:
  assumes "set later \<subseteq> set later'" "not_due now later"
  shows "pos_ok now (case due @ later of [] \<Rightarrow> None | (q, _) # _ \<Rightarrow> Some q) due later'"
  using assms by (cases due; cases later) (auto simp: pos_ok_def not_due_def split_beta)

lemma send_loop_ok:
  assumes "bat_ok s" "JITTER < originator_interval s" "clock_ok now s" "forw_list s = due @ later"
    "\<forall>x \<in> set due. send_time (snd x) \<le> now" "not_due now later" "pos_ok now pos due later"
  shows "\<exists>ok s'. send_loop now pos s = Some (ok, s') \<and> bat_ok s' \<and> io_same s s' \<and> (ok \<longrightarrow> requeued now due later (forw_list s')) \<and>
    ((\<forall>k. writes s k = Written) \<longrightarrow> ok \<and> sent s' = rev (concat (map (\<lambda>x. frames_of s (snd x)) due)) @ sent s)"
  using assms
proof (induction due arbitrary: s later pos)
  case Nil
  have "send_loop now pos s = Some (True, s)"
  proof (cases pos)
    case None
    then show ?thesis by (simp add: send_loop.simps)
  next
    case (Some a)
    then obtain f where f: "(a, f) \<in> set (forw_list s)" "now < send_time f"
      using Nil.prems(4,7) by (auto simp: pos_ok_def)
    have "distinct (map fst (forw_list s))" using Nil.prems(1) by (simp add: bat_ok_def queue_ok_def)
    then obtain rest where "forw_at a (forw_list s) = Some (f, rest)" using forw_at_in f(1) by blast
    moreover have "\<not> send_time f \<le> now" using f(2) by (simp add: not_le)
    ultimately show ?thesis using Some by (simp add: send_loop.simps [of now])
  qed
  with Nil.prems show ?case by (intro exI [of _ True] exI [of _ s]) (simp add: requeued_def exI [of _ "[]"])
next
  case (Cons x due)
  obtain a f where x: "x = (a, f)" by fastforce
  have pos: "pos = Some a" using Cons.prems(7) by (simp add: pos_ok_def x)
  have due: "send_time f \<le> now" "\<forall>x \<in> set due. send_time (snd x) \<le> now" using Cons.prems(5) by (simp_all add: x)
  have fl: "forw_list s = (a, f) # due @ later" using Cons.prems(4) by (simp add: x)
  obtain ok t u later' news where st: "send_forw_node f s = Some (ok, t)" "bat_ok t" "io_same s t"
      "(\<forall>k. writes s k = Written) \<longrightarrow> ok \<and> sent t = rev (frames_of s f) @ sent s"
      "(if own f then do { i \<leftarrow> if_outgoing f; schedule_own_packet i (t\<lparr>forw_list := due @ later\<rparr>) }
        else Some (t\<lparr>forw_list := due @ later\<rparr>)) = Some u"
      "bat_ok u" "io_same s u" "sent u = sent t" "clock_ok now u" "forw_list u = due @ later'" "not_due now later'"
      "set later \<subseteq> set later'" "mset later' = mset later + mset news" "\<forall>x \<in> set news. own (snd x) \<and> now < send_time (snd x)"
      "map (\<lambda>x. if_outgoing (snd x)) news = (if own f then [if_outgoing f] else [])"
    using send_step [OF Cons.prems(1-3) fl due(2) Cons.prems(6) due(1)] by blast
  define temp where "temp = (case due @ later of [] \<Rightarrow> None | (q, _) # _ \<Rightarrow> Some q)"
  have loop: "send_loop now pos s = (if ok then send_loop now temp u else Some (False, t))"
    using fl due(1) st(1,5) unfolding pos by (subst send_loop.simps) (simp add: temp_def)
  have "JITTER < originator_interval u" using Cons.prems(2) st(7) by (simp add: io_same_def)
  from Cons.IH [OF st(6) this st(9,10) due(2) st(11) pos_ok_next [OF st(12) Cons.prems(6), of due, folded temp_def]]
  obtain ok' s' where IH: "send_loop now temp u = Some (ok', s')" "bat_ok s'" "io_same u s'" "ok' \<longrightarrow> requeued now due later' (forw_list s')"
      "(\<forall>k. writes u k = Written) \<longrightarrow> ok' \<and> sent s' = rev (concat (map (\<lambda>x. frames_of u (snd x)) due)) @ sent u" by blast
  have wr: "writes u = writes s" "frames_of u = frames_of s"
    using st(7) frames_of_same [OF st(7)] by (simp_all add: io_same_def)
  have "requeued now (x # due) later xs" if "requeued now due later' xs" for xs
  proof -
    obtain ns where ns: "not_due now xs" "mset xs = mset later' + mset ns"
        "map (\<lambda>x. if_outgoing (snd x)) ns = map (\<lambda>x. if_outgoing (snd x)) (filter (\<lambda>x. own (snd x)) due)"
        "\<forall>x \<in> set ns. own (snd x) \<and> now < send_time (snd x)" using \<open>requeued now due later' xs\<close> by (auto simp: requeued_def)
    have "mset xs = mset later + mset (news @ ns)" using ns(2) st(13) by simp
    moreover have "map (\<lambda>x. if_outgoing (snd x)) (news @ ns) =
        map (\<lambda>x. if_outgoing (snd x)) (filter (\<lambda>x. own (snd x)) (x # due))" using ns(3) st(15) by (simp add: x)
    moreover have "\<forall>x \<in> set (news @ ns). own (snd x) \<and> now < send_time (snd x)" using ns(4) st(14) by auto
    ultimately show ?thesis using ns(1) unfolding requeued_def by blast
  qed
  with IH st(2,3,4,8) io_same_trans [OF st(7) IH(3)] wr show ?case unfolding loop by (cases ok) (auto simp: x)
qed

definition is_due :: "u32 \<Rightarrow> nat \<times> forw_node \<Rightarrow> bool" where
  "is_due now x \<longleftrightarrow> send_time (snd x) \<le> now"

lemma not_due_dropWhile: "not_due now (dropWhile (is_due now) xs)"
  by (induction xs) (auto simp: not_due_def is_due_def not_le)

lemma send_outstanding_ok:
  assumes "bat_ok s" "JITTER < originator_interval s" "clock_ok (clock s (ticks s)) s" "now = clock s (ticks s)"
    and due: "due = takeWhile (is_due now) (forw_list s)" and later: "later = dropWhile (is_due now) (forw_list s)"
  shows "\<exists>ok s'. send_outstanding_packets s = Some (ok, s') \<and> bat_ok s' \<and> io_same s s' \<and> (ok \<longrightarrow> requeued now due later (forw_list s')) \<and>
    ((\<forall>k. writes s k = Written) \<longrightarrow> ok \<and> sent s' = rev (concat (map (\<lambda>x. frames_of s (snd x)) due)) @ sent s)"
proof (cases "forw_list s")
  case Nil
  with assms(1) show ?thesis
    by (intro exI [of _ True] exI [of _ s]) (simp add: send_outstanding_packets_def due later requeued_def not_due_def)
next
  case (Cons y ys)
  let ?s = "s\<lparr>ticks := Suc (ticks s)\<rparr>"
  have ok: "bat_ok ?s" using assms(1) net_ok_fields [of ?s s] by (simp add: bat_ok_def queue_ok_def)
  have ck: "clock_ok now ?s" using assms(3,4) by (simp add: clock_ok_def)
  have fl: "forw_list ?s = due @ later" by (simp add: due later)
  have all: "\<forall>x \<in> set due. send_time (snd x) \<le> now" by (auto simp: due is_due_def dest: set_takeWhileD)
  have nd: "not_due now later" unfolding later by (rule not_due_dropWhile)
  have "pos_ok now (Some (fst y)) due later"
    using Cons by (cases "is_due now y") (auto simp: pos_ok_def due later is_due_def not_le intro: exI [of _ "snd y"])
  from send_loop_ok [OF ok _ ck fl all nd this] assms(2) obtain r s' where
    "send_loop now (Some (fst y)) ?s = Some (r, s')" "bat_ok s'" "io_same ?s s'" "r \<longrightarrow> requeued now due later (forw_list s')"
    "(\<forall>k. writes ?s k = Written) \<longrightarrow> r \<and> sent s' = rev (concat (map (\<lambda>x. frames_of ?s (snd x)) due)) @ sent ?s" by auto
  moreover have io: "io_same s ?s" by (simp add: io_same_def if_ids_def [abs_def])
  moreover have "frames_of ?s = frames_of s" by (rule frames_of_same [OF io])
  ultimately show ?thesis using Cons assms(4) io_same_trans [OF io] by (cases y) (simp add: send_outstanding_packets_def get_time_def)
qed

section \<open>Properties\<close>

text \<open>
  C22: termination of sending. When the interval between our messages is longer than the jitter and
  the clock does not run backwards or overflow, \<open>send_outstanding_packets\<close> returns, whatever the
  writes to the sockets give, and preserves the invariant of the daemon: the own messages that it
  queues while it walks through the queue never become due in the same call.
\<close>

theorem send_outstanding_returns:
  assumes "bat_ok s" "JITTER < originator_interval s"
    and "\<forall>k \<ge> ticks s. clock s (ticks s) \<le> clock s k \<and> unat (clock s k) + nat (originator_interval s + JITTER) < 2 ^ 32"
  shows "\<exists>ok s'. send_outstanding_packets s = Some (ok, s') \<and> bat_ok s'"
  using send_outstanding_ok [OF assms(1,2) _ refl refl refl] assms(3) by (auto simp: clock_ok_def)

theorem send_outstanding_returns_witness: "\<exists>ok s'. send_outstanding_packets example_state = Some (ok, s') \<and> bat_ok s'"
  by (rule send_outstanding_returns [OF example_bat_ok]) (simp_all add: example_state_def JITTER_def)

text \<open>
  C5: every message that is due goes out. When the writes succeed, \<open>send_outstanding_packets\<close> sends
  exactly the messages at the front of the queue whose time has come, in their order, each with the
  frames described by \<open>frames_of\<close>. They leave the queue; each of our own messages among them is
  queued again for the same interface at a later time; all others stay; and the first message of
  the queue is not due any more.
\<close>

theorem send_outstanding_sends_due:
  assumes "bat_ok s" "JITTER < originator_interval s"
    and "\<forall>k \<ge> ticks s. clock s (ticks s) \<le> clock s k \<and> unat (clock s k) + nat (originator_interval s + JITTER) < 2 ^ 32"
    and "\<forall>k. writes s k = Written"
  shows "\<exists>s' news. send_outstanding_packets s = Some (True, s') \<and>
    sent s' = rev (concat (map (\<lambda>x. frames_of s (snd x)) (takeWhile (is_due (clock s (ticks s))) (forw_list s)))) @ sent s \<and>
    mset (forw_list s') = mset (dropWhile (is_due (clock s (ticks s))) (forw_list s)) + mset news \<and>
    map (\<lambda>x. if_outgoing (snd x)) news =
      map (\<lambda>x. if_outgoing (snd x)) (filter (\<lambda>x. own (snd x)) (takeWhile (is_due (clock s (ticks s))) (forw_list s))) \<and>
    (\<forall>x \<in> set news. own (snd x) \<and> \<not> is_due (clock s (ticks s)) x) \<and>
    (forw_list s' = [] \<or> \<not> is_due (clock s (ticks s)) (hd (forw_list s')))"
proof -
  have "clock_ok (clock s (ticks s)) s" using assms(3) by (simp add: clock_ok_def)
  from send_outstanding_ok [OF assms(1,2) this refl refl refl] obtain ok s' where
    a: "send_outstanding_packets s = Some (ok, s')" "ok \<longrightarrow> requeued (clock s (ticks s))
        (takeWhile (is_due (clock s (ticks s))) (forw_list s)) (dropWhile (is_due (clock s (ticks s))) (forw_list s)) (forw_list s')"
      "(\<forall>k. writes s k = Written) \<longrightarrow> ok \<and>
        sent s' = rev (concat (map (\<lambda>x. frames_of s (snd x)) (takeWhile (is_due (clock s (ticks s))) (forw_list s)))) @ sent s"
    by blast
  then have s': "send_outstanding_packets s = Some (True, s')"
      "requeued (clock s (ticks s)) (takeWhile (is_due (clock s (ticks s))) (forw_list s))
        (dropWhile (is_due (clock s (ticks s))) (forw_list s)) (forw_list s')"
      "sent s' = rev (concat (map (\<lambda>x. frames_of s (snd x)) (takeWhile (is_due (clock s (ticks s))) (forw_list s)))) @ sent s"
    using assms(4) by simp_all
  have "forw_list s' = [] \<or> \<not> is_due (clock s (ticks s)) (hd (forw_list s'))"
    using s'(2) by (cases "forw_list s'") (auto simp: requeued_def not_due_def is_due_def not_le)
  with s' show ?thesis unfolding requeued_def is_due_def not_le by blast
qed

abbreviation example_own :: forw_node where
  "example_own \<equiv> \<lparr>send_time = 4000, own = True, pack_head = example_packet, pack_tail = [], if_outgoing = Some 11\<rparr>"

theorem send_outstanding_sends_due_witness:
  "\<exists>s' f. send_outstanding_packets (example_state\<lparr>forw_list := [(500, example_own)]\<rparr>) = Some (True, s') \<and>
     map f_sock (sent s') = [4] \<and> map snd (forw_list s') = [f] \<and> own f \<and> if_outgoing f = Some 11 \<and> send_time f > 5000"
proof -
  let ?s = "example_state\<lparr>forw_list := [(500, example_own)]\<rparr>"
  have ex: "if_list example_state = [10, 11]" "brk example_state = 1000" "forw_list example_state = []"
      "clock example_state = (\<lambda>_. 5000)" "sent example_state = []" "writes example_state = (\<lambda>_. Written)"
      "originator_interval example_state = 1000" "if_ids ?s 11 = Some (4, 1, MAC 2 0 0 0 0 2)"
    by (simp_all add: example_state_def if_ids_def)
  have ok: "bat_ok ?s"
    using example_bat_ok net_ok_fields [of ?s example_state] by (simp add: bat_ok_def queue_ok_def ex)
  have due: "is_due 5000 (500, example_own)" by (simp add: is_due_def word_le_nat_alt)
  have fr: "map f_sock (frames_of ?s example_own) = [4]" by (simp add: frames_of_def ex frame_on_def Let_def)
  obtain s' news where s': "send_outstanding_packets ?s = Some (True, s')"
      "sent s' = rev (frames_of ?s example_own)" "mset (forw_list s') = mset news"
      "map (\<lambda>x. if_outgoing (snd x)) news = [Some 11]" "\<forall>x \<in> set news. own (snd x) \<and> \<not> is_due 5000 x"
    using send_outstanding_sends_due [OF ok] by (auto simp: ex due JITTER_def)
  then obtain x where "news = [x]" by (cases news) auto
  with s' fr show ?thesis
    by (intro exI [of _ s'] exI [of _ "snd x"]) (auto simp: is_due_def rev_map not_le)
qed

end
