(* ===== verification/Recv_Inv.thy ===== *)
theory Recv_Inv
  imports Send_Inv
begin

text \<open>
  The receive path: what happens to the packets of the mesh and to the frames of the tap interface,
  that the operations of the daemon preserve its invariant, and what follows for the forwarding of
  packets.
\<close>

section \<open>The queue\<close>

text \<open>What receiving packets never changes.\<close>

definition queue_same :: "bat_state \<Rightarrow> bat_state \<Rightarrow> bool" where
  "queue_same s s' \<longleftrightarrow> forw_list s' = forw_list s \<and> if_list s' = if_list s \<and> originator_interval s' = originator_interval s"

lemma queue_same_simps [simp]:
  "queue_same s s" "queue_same s (wrote s w fs)" "queue_same s (s\<lparr>tap_written := x\<rparr>)" "queue_same s (s\<lparr>unix_written := y\<rparr>)"
  "queue_same s (put_orig p n s)" "queue_same s (put_if i f s)"
  by (simp_all add: queue_same_def put_orig_def put_if_def) (simp add: wrote_def)

lemma queue_same_trans: "queue_same s t \<Longrightarrow> queue_same t u \<Longrightarrow> queue_same s u"
  by (simp add: queue_same_def)

lemma queue_same_statics: "statics s' = statics s \<Longrightarrow> queue_same s s'"
  by (simp add: queue_same_def statics_def)

lemma queue_same_keeps: "keeps s s' \<Longrightarrow> queue_same s s'"
  by (simp add: keeps_def queue_same_statics)

section \<open>The translation table and the rest of the state\<close>

lemma net_ok_trans_frame:
  assumes "net_ok s" "trans_ok s'" "trans_frame s s'"
  shows "net_ok s' \<and> keeps s s'"
proof -
  note tf = trans_frame_same [OF assms(3)]
  have st: "if_heap s' = if_heap s" "if_list s' = if_list s" "found_ifs s' = found_ifs s" using tf by (simp_all add: statics_def)
  have other: "\<exists>m l. orig_heap s q = Some m \<and> m' = m\<lparr>o_hna_list := l\<rparr>" if "orig_heap s' q = Some m'" for q m'
    using bare_other [of s' q s m'] tf that by blast
  have eq: "o_orig = o_orig \<circ> bare" by (simp add: fun_eq_iff bare_def)
  have "map_option o_orig (orig_heap s' q) = map_option o_orig (orig_heap s q)" for q
    using arg_cong [of _ _ "map_option o_orig"] tf by (subst (1 2) eq) (simp add: option.map_comp [symmetric])
  then have o: "origs_ok s' \<and> orig_map s' = orig_map s"
    using origs_ok_frame [of s s'] assms(1) tf by (auto simp: net_ok_def)
  have dom: "orig_heap s' q \<noteq> None \<longleftrightarrow> orig_heap s q \<noteq> None" for q
    using tf by (metis option.map_disc_iff)
  have key: "neigh_key s' = neigh_key s" using tf by (simp add: fun_eq_iff neigh_key_def)
  have "orig_ok s' m'" if m': "orig_heap s' q = Some m'" for q m'
  proof -
    obtain m l where m: "orig_heap s q = Some m" "m' = m\<lparr>o_hna_list := l\<rparr>" using other [OF m'] by blast
    then show ?thesis using net_ok_orig [OF assms(1) m(1)] st tf by (simp add: orig_ok_def key)
  qed
  moreover have "neigh_ok s' m" if "neigh_ok s m" for m using that dom st by (simp add: neigh_ok_def)
  moreover have "bufs_ok s'" "entries_ok s'"
  proof -
    have ok: "bufs_ok s" "entries_ok s" using assms(1) by (simp_all add: net_ok_def)
    have old: "\<exists>m. orig_heap s q = Some m \<and> o_hna_buff m = o_hna_buff m' \<and> neigh_list m = neigh_list m'"
      if "orig_heap s' q = Some m'" for q m' using other [OF that] by auto
    have "b < brk s'" if "buf_heap s' b \<noteq> None" for b
    proof -
      have "b < brk s" using that ok(1) tf by (auto simp: bufs_ok_def)
      then show ?thesis using tf by simp
    qed
    moreover have "p = p'" if "orig_heap s' p = Some n" "orig_heap s' p' = Some n'" "o_hna_buff n = Some b" "o_hna_buff n' = Some b"
      for p p' n n' b using old [OF that(1)] old [OF that(2)] that(3,4) ok(1) unfolding bufs_ok_def by metis
    ultimately show "bufs_ok s'" unfolding bufs_ok_def by blast
    have "p = p'" if "orig_heap s' p = Some n" "orig_heap s' p' = Some n'" "q \<in> set (neigh_list n)" "q \<in> set (neigh_list n')"
      for p p' n n' q using old [OF that(1)] old [OF that(2)] that(3,4) ok(2) unfolding entries_ok_def by metis
    then show "entries_ok s'" unfolding entries_ok_def by blast
  qed
  moreover have "if_nums_ok s'" using assms(1) st by (simp add: net_ok_def if_nums_ok_def)
  moreover have "\<forall>q. neigh_heap s' q \<noteq> None \<longrightarrow> q < brk s'"
    using assms(1) tf by (auto simp: net_ok_def intro: less_le_trans)
  ultimately have "net_ok s'" using o assms(1,2) tf by (simp add: net_ok_def)
  moreover have "keeps s s'" using o tf dom by (auto simp: keeps_def)
  ultimately show ?thesis ..
qed

lemma hna_add_ok:
  assumes "bat_ok s"
  shows "\<exists>s'. hna_add m mymac s = Some s' \<and> bat_ok s' \<and> keeps s s'"
proof -
  have "trans_ok s" using assms by (simp add: bat_ok_def net_ok_def)
  with hna_add_eq obtain s' where s': "hna_add m mymac s = Some s'" "trans_ok s'" "trans_frame s s'" by blast
  with net_ok_trans_frame [OF bat_ok_net [OF assms]] bat_ok_keeps [OF assms] show ?thesis by blast
qed

lemma first_if_ok:
  assumes "net_ok s"
  obtains i f where "first_if s = Some (i, f)" "i \<in> set (if_list s)" "if_heap s i = Some f"
proof -
  have "ifs_ok s" using assms by (simp add: net_ok_def trans_ok_def)
  then obtain i js where i: "if_list s = i # js" by (cases "if_list s") (auto simp: ifs_ok_def)
  then obtain f where "if_heap s i = Some f" using net_ok_if [OF assms, of i] by auto
  with i that show thesis by (simp add: first_if_def)
qed

lemma hna_update_ok:
  assumes "bat_ok s" "length (hna_list s) * 6 < 2 ^ 32"
  shows "\<exists>s'. hna_update s = Some s' \<and> bat_ok s' \<and> queue_same s s'"
proof -
  have net: "net_ok s" and t: "trans_ok s" using assms(1) by (simp_all add: bat_ok_def net_ok_def)
  obtain i my where i: "first_if s = Some (i, my)" "if_heap s i = Some my" using first_if_ok [OF net] .
  show ?thesis
  proof (cases "hna_changed s \<or> (\<exists>p \<in> set (hna_list s). stale s (hw_addr my) p)")
    case False
    have "set (hna_list s) \<subseteq> dom (elem_heap s)" using t by (auto simp: trans_ok_def links_ok_def)
    from hna_purge_none [OF this, of "hw_addr my" 0] False i(1) have "hna_update s = Some s"
      by (simp add: hna_update_def)
    with assms(1) show ?thesis by simp
  next
    case True
    from hna_update_eq [OF t assms(2) i(1) True] obtain s' u where s': "hna_update s = Some s'"
        "g_hna_buff s' = concat (map (\<lambda>p. mac_bytes (elem_key s' p)) (hna_list s'))"
        "unat (g_num_hna s') = min (length (hna_list s')) (min 255 (hna_space s))"
        "trans_frame s u" "trans_ok u" "s' = put_if i (my\<lparr>out := (out my)\<lparr>num_hna := ucast (g_num_hna s')\<rparr>\<rparr>)
          (u\<lparr>g_hna_buff := g_hna_buff s', hna_changed := False, g_num_hna := g_num_hna s'\<rparr>)" by blast
    have u: "net_ok u" "keeps s u" using net_ok_trans_frame [OF net s'(5,4)] by simp_all
    have ui: "if_heap u i = Some my" using keeps_if_list [OF u(2)] i(2) by simp
    define g where "g = g_hna_buff s'" define c where "c = g_num_hna s'"
    have eq: "s' = put_if i (my\<lparr>out := (out my)\<lparr>num_hna := ucast c\<rparr>\<rparr>) (u\<lparr>g_hna_buff := g, hna_changed := False, g_num_hna := c\<rparr>)"
      using s'(6) by (simp add: g_def c_def)
    have "net_ok s'" using net_ok_fields [of s' u] u(1) ui by (auto simp: eq put_if_def fun_eq_iff)
    moreover have "queue_ok s'"
      using bat_ok_keeps [OF assms(1) u] by (simp add: bat_ok_def queue_ok_def eq put_if_def)
    moreover have "unat (g_num_hna s') * 6 \<le> length (g_hna_buff s')" using s'(2,3) by (simp add: length_hna_bytes)
    moreover have "queue_same s s'" using queue_same_keeps [OF u(2)] by (simp add: queue_same_def eq put_if_def)
    ultimately show ?thesis using s'(1) by (auto simp: bat_ok_def)
  qed
qed

section \<open>Routing a packet\<close>

text \<open>The next hop towards an originator, read off the invariant.\<close>

definition hop_of :: "bat_state \<Rightarrow> mac \<Rightarrow> (batman_if \<times> mac) option" where
  "hop_of s a =
     (case orig_map s a of
        None \<Rightarrow> None
      | Some p \<Rightarrow>
          (case (o_batman_if (the (orig_heap s p)), router (the (orig_heap s p))) of
             (Some i, Some q) \<Rightarrow> Some (the (if_heap s i), n_addr (the (neigh_heap s q)))
           | _ \<Rightarrow> None))"

lemma next_hop_eq:
  assumes "net_ok s"
  shows "next_hop a s = Some (hop_of s a)"
proof -
  have o: "origs_ok s" using assms by (simp add: net_ok_def)
  show ?thesis
  proof (cases "orig_map s a")
    case None
    then show ?thesis by (simp add: next_hop_def find_orig_node_eq [OF o] hop_of_def)
  next
    case (Some p)
    then obtain n where n: "orig_heap s p = Some n" using orig_map_Some [OF o] by blast
    have ok: "orig_ok s n" using net_ok_orig [OF assms n] .
    have i: "\<exists>f. if_heap s i = Some f" if "o_batman_if n = Some i" for i
    proof -
      have "i \<in> set (if_list s)" using ok that by (simp add: orig_ok_def)
      then show ?thesis using net_ok_if [OF assms] by blast
    qed
    have q: "\<exists>m. neigh_heap s q = Some m" if "router n = Some q" for q using ok that by (auto simp: orig_ok_def)
    show ?thesis using Some n i q
      by (auto simp: next_hop_def find_orig_node_eq [OF o] hop_of_def split: option.splits)
  qed
qed

lemma is_my_mac_ok: "net_ok s \<Longrightarrow> is_my_mac a s = Some (my_mac s a)"
  using is_my_mac_in_eq [of "if_list s" "if_heap s" a] net_ok_if
  unfolding is_my_mac_def my_mac_def by (metis option.distinct(1))

text \<open>A write to a raw socket sends the frame at most once.\<close>

lemma rawsock_write_once:
  "\<exists>res w fs. rawsock_write sock a b bytes s = (res, wrote s w fs) \<and>
     (fs = [] \<or> fs = [\<lparr>f_sock = sock, f_shost = a, f_dhost = b, f_bytes = bytes\<rparr>]) \<and>
     ((\<forall>j. writes s j = Written) \<longrightarrow>
        res = Written \<and> fs = [\<lparr>f_sock = sock, f_shost = a, f_dhost = b, f_bytes = bytes\<rparr>])"
proof -
  have "\<exists>res w fs. rawsock_write_tries k sock a b bytes s = (res, wrote s w fs) \<and>
     (fs = [] \<or> fs = [\<lparr>f_sock = sock, f_shost = a, f_dhost = b, f_bytes = bytes\<rparr>])" for k
  proof (induction k arbitrary: s)
    case 0
    then show ?case by (metis rawsock_write_tries.simps(1) wrote_self)
  next
    case (Suc k)
    have t: "s\<lparr>written := Suc (written s)\<rparr> = wrote s (Suc (written s)) []" by (simp add: wrote_def)
    show ?case
    proof (cases "writes s (written s)")
      case Written
      then have "rawsock_write_tries (Suc k) sock a b bytes s =
          (Written, wrote s (Suc (written s)) [\<lparr>f_sock = sock, f_shost = a, f_dhost = b, f_bytes = bytes\<rparr>])"
        by (simp add: writev_def Let_def wrote_def)
      then show ?thesis by blast
    next
      case Try_again
      then have eq: "rawsock_write_tries (Suc k) sock a b bytes s = rawsock_write_tries k sock a b bytes (wrote s (Suc (written s)) [])"
        by (simp add: writev_def Let_def t)
      obtain res w fs where "rawsock_write_tries k sock a b bytes (wrote s (Suc (written s)) []) = (res, wrote s w (fs @ []))"
          "fs = [] \<or> fs = [\<lparr>f_sock = sock, f_shost = a, f_dhost = b, f_bytes = bytes\<rparr>]"
        using Suc.IH [of "wrote s (Suc (written s)) []"] unfolding wrote_simps by blast
      then show ?thesis unfolding eq append_Nil2 by blast
    next
      case Write_error
      then have "rawsock_write_tries (Suc k) sock a b bytes s = (Write_error, wrote s (Suc (written s)) [])"
        by (simp add: writev_def Let_def t)
      then show ?thesis by blast
    qed
  qed
  from this [of PACKETS_PER_CYCLE] rawsock_write_tries_wrote [of PACKETS_PER_CYCLE sock a b bytes s] show ?thesis
    unfolding rawsock_write_def by (cases "\<forall>j. writes s j = Written") (auto simp: PACKETS_PER_CYCLE_def)
qed

text \<open>What answering or forwarding a packet over the next hop does to the state.\<close>

definition routed :: "bat_state \<Rightarrow> (batman_if \<times> mac) option \<Rightarrow> u8 list \<Rightarrow> rx \<Rightarrow> bat_state \<Rightarrow> bool" where
  "routed s hop bytes res s' \<longleftrightarrow>
     (case hop of
        None \<Rightarrow> res = Rx_next \<and> s' = s
      | Some (b, addr) \<Rightarrow> (\<exists>w fs. s' = wrote s w fs \<and>
          (fs = [] \<or> fs = [\<lparr>f_sock = raw_sock b, f_shost = hw_addr b, f_dhost = addr, f_bytes = bytes\<rparr>]) \<and>
          (res = Rx_next \<or> res = Rx_fail) \<and>
          ((\<forall>j. writes s j = Written) \<longrightarrow>
             res = Rx_next \<and> fs = [\<lparr>f_sock = raw_sock b, f_shost = hw_addr b, f_dhost = addr, f_bytes = bytes\<rparr>])))"

lemma raw_reply_routed: "routed s (Some (b, addr)) bytes (fst (raw_reply b addr bytes s)) (snd (raw_reply b addr bytes s))"
proof -
  obtain res w fs where r: "rawsock_write (raw_sock b) (hw_addr b) addr bytes s = (res, wrote s w fs)"
      "fs = [] \<or> fs = [\<lparr>f_sock = raw_sock b, f_shost = hw_addr b, f_dhost = addr, f_bytes = bytes\<rparr>]"
      "(\<forall>j. writes s j = Written) \<longrightarrow>
        res = Written \<and> fs = [\<lparr>f_sock = raw_sock b, f_shost = hw_addr b, f_dhost = addr, f_bytes = bytes\<rparr>]"
    using rawsock_write_once [of "raw_sock b" "hw_addr b" addr bytes s] by blast
  then show ?thesis by (cases res) (auto simp: raw_reply_def routed_def)
qed

lemma route_reply:
  obtains res s' where "(case hop of None \<Rightarrow> (Rx_next, s) | Some (b, addr) \<Rightarrow> raw_reply b addr bytes s) = (res, s')"
    "routed s hop bytes res s'"
proof -
  have "\<exists>res s'. (case hop of None \<Rightarrow> (Rx_next, s) | Some (b, addr) \<Rightarrow> raw_reply b addr bytes s) = (res, s') \<and> routed s hop bytes res s'"
  proof (cases hop)
    case None
    then show ?thesis by (simp add: routed_def)
  next
    case (Some x)
    obtain b addr where x: "x = (b, addr)" by fastforce
    then show ?thesis
      using raw_reply_routed [of s b addr bytes] Some by (cases "raw_reply b addr bytes s") auto
  qed
  with that show thesis by blast
qed

lemma bat_ok_routed: "bat_ok s \<Longrightarrow> routed s hop bytes res s' \<Longrightarrow> bat_ok s'"
  by (auto simp: routed_def bat_ok_wrote split: option.splits)

lemma queue_same_routed: "routed s hop bytes res s' \<Longrightarrow> queue_same s s' \<and> (res = Rx_next \<or> res = Rx_fail)"
  by (auto simp: routed_def split: option.splits)

section \<open>Unicast packets\<close>

lemma recv_unicast_eq:
  assumes "net_ok s" "\<not> is_broadcast_address d" "\<not> is_broadcast_address h" "unicast_packet_at bytes = Some (u, payload)"
  shows "\<exists>res s'. recv_unicast d h bytes s = Some (res, s') \<and>
    (if my_mac s (dest u) then res = Rx_next \<and> s' = s\<lparr>tap_written := payload # tap_written s\<rparr>
     else routed s (if unicast_ttl u < 2 then None else hop_of s (dest u))
       (bytes_of_unicast_packet (u\<lparr>unicast_ttl := unicast_ttl u - 1\<rparr>) @ payload) res s')"
proof -
  let ?b = "bytes_of_unicast_packet (u\<lparr>unicast_ttl := unicast_ttl u - 1\<rparr>) @ payload"
  obtain res s' where r: "(case hop_of s (dest u) of None \<Rightarrow> (Rx_next, s) | Some (b, addr) \<Rightarrow> raw_reply b addr ?b s) = (res, s')"
      "routed s (hop_of s (dest u)) ?b res s'"
    by (rule route_reply)
  have "recv_unicast d h bytes s = Some
      (if my_mac s (dest u) then (Rx_next, s\<lparr>tap_written := payload # tap_written s\<rparr>)
       else if unicast_ttl u < 2 then (Rx_next, s) else (res, s'))"
    using assms by (simp add: recv_unicast_def is_my_mac_ok next_hop_eq r(1))
  with r(2) show ?thesis by (auto simp: routed_def)
qed

lemma bat_ok_tap: "bat_ok s \<Longrightarrow> bat_ok (s\<lparr>tap_written := w\<rparr>)"
  using net_ok_fields [of "s\<lparr>tap_written := w\<rparr>" s] by (simp add: bat_ok_def queue_ok_def)

lemma bat_ok_unix: "bat_ok s \<Longrightarrow> bat_ok (s\<lparr>unix_written := w\<rparr>)"
  using net_ok_fields [of "s\<lparr>unix_written := w\<rparr>" s] by (simp add: bat_ok_def queue_ok_def)

lemma recv_unicast_ok:
  assumes "bat_ok s"
  shows "\<exists>res s'. recv_unicast d h bytes s = Some (res, s') \<and> bat_ok s' \<and> queue_same s s' \<and> (res = Rx_next \<or> res = Rx_fail)"
proof (cases "\<not> is_broadcast_address d \<and> \<not> is_broadcast_address h \<and> unicast_packet_at bytes \<noteq> None")
  case True
  then obtain u payload where "unicast_packet_at bytes = Some (u, payload)" by force
  with True recv_unicast_eq [OF bat_ok_net [OF assms]] obtain res s' where "recv_unicast d h bytes s = Some (res, s')"
      "if my_mac s (dest u) then res = Rx_next \<and> s' = s\<lparr>tap_written := payload # tap_written s\<rparr>
       else routed s (if unicast_ttl u < 2 then None else hop_of s (dest u))
         (bytes_of_unicast_packet (u\<lparr>unicast_ttl := unicast_ttl u - 1\<rparr>) @ payload) res s'"
    by blast
  then show ?thesis using bat_ok_tap [OF assms] bat_ok_routed [OF assms] queue_same_routed by (auto split: if_splits)
next
  case False
  then have "recv_unicast d h bytes s = Some (Rx_next, s)" by (auto simp: recv_unicast_def split: option.split)
  with assms show ?thesis by simp
qed

section \<open>ICMP packets\<close>

lemma icmp_answer_ok:
  assumes "bat_ok s"
  shows "\<exists>res s'. icmp_answer msg d p rest s = Some (res, s') \<and> bat_ok s' \<and>
    routed s (hop_of s (icmp_orig p)) (bytes_of_icmp_packet (little_endian s)
      (p\<lparr>dst := icmp_orig p, icmp_orig := d, msg_type := msg, icmp_ttl := TTL\<rparr>) @ rest) res s'"
proof -
  let ?b = "bytes_of_icmp_packet (little_endian s) (p\<lparr>dst := icmp_orig p, icmp_orig := d, msg_type := msg, icmp_ttl := TTL\<rparr>) @ rest"
  obtain res s' where r: "(case hop_of s (icmp_orig p) of None \<Rightarrow> (Rx_next, s) | Some (b, addr) \<Rightarrow> raw_reply b addr ?b s) = (res, s')"
      "routed s (hop_of s (icmp_orig p)) ?b res s'"
    by (rule route_reply)
  have "icmp_answer msg d p rest s = Some (res, s')"
    by (simp add: icmp_answer_def next_hop_eq [OF bat_ok_net [OF assms]] r(1))
  with r(2) bat_ok_routed [OF assms r(2)] show ?thesis by blast
qed

text \<open>
  What becomes of an ICMP packet: an answer for one of our clients, an answer to an echo request, a
  report that it has exceeded its time to live, or a packet that is sent on.
\<close>

definition icmp_effect :: "bat_state \<Rightarrow> mac \<Rightarrow> icmp_packet \<Rightarrow> u8 list \<Rightarrow> u8 list \<Rightarrow> rx \<Rightarrow> bat_state \<Rightarrow> bool" where
  "icmp_effect s d p rest bytes res s' \<longleftrightarrow>
    (if my_mac s (dst p) \<and> msg_type p \<noteq> ECHO_REQUEST
     then res = Rx_next \<and> s' = (case unix_packet s (uid p) of None \<Rightarrow> s
       | Some sock \<Rightarrow> s\<lparr>unix_written := (sock, take (nat sizeof_icmp_packet) bytes) # unix_written s\<rparr>)
     else if my_mac s (dst p) \<or> icmp_ttl p < 2
     then if msg_type p = ECHO_REQUEST
       then routed s (hop_of s (icmp_orig p)) (bytes_of_icmp_packet (little_endian s)
         (p\<lparr>dst := icmp_orig p, icmp_orig := d, msg_type := (if my_mac s (dst p) then ECHO_REPLY else TTL_EXCEEDED), icmp_ttl := TTL\<rparr>) @ rest) res s'
       else res = Rx_next \<and> s' = s
     else routed s (hop_of s (dst p)) (bytes_of_icmp_packet (little_endian s) (p\<lparr>icmp_ttl := icmp_ttl p - 1\<rparr>) @ rest) res s')"

lemma queue_same_icmp: "icmp_effect s d p rest bytes res s' \<Longrightarrow> queue_same s s' \<and> (res = Rx_next \<or> res = Rx_fail)"
  by (auto simp: icmp_effect_def dest: queue_same_routed split: if_splits option.splits)

lemma recv_icmp_eq:
  assumes "bat_ok s" "\<not> is_broadcast_address d" "\<not> is_broadcast_address h"
    "icmp_packet_at (little_endian s) bytes = Some (p, rest)"
  shows "\<exists>res s'. recv_icmp d h bytes s = Some (res, s') \<and> bat_ok s' \<and> icmp_effect s d p rest bytes res s'"
proof -
  note mm = is_my_mac_ok [OF bat_ok_net [OF assms(1)]] and nh = next_hop_eq [OF bat_ok_net [OF assms(1)]]
  have r: "recv_icmp d h bytes s =
    (if my_mac s (dst p) then
       if msg_type p = ECHO_REQUEST then icmp_answer ECHO_REPLY d p rest s
       else Some (Rx_next, case unix_packet s (uid p) of None \<Rightarrow> s
         | Some sock \<Rightarrow> s\<lparr>unix_written := (sock, take (nat sizeof_icmp_packet) bytes) # unix_written s\<rparr>)
     else if icmp_ttl p < 2 then
       if msg_type p = ECHO_REQUEST then icmp_answer TTL_EXCEEDED d p rest s else Some (Rx_next, s)
     else Some (case hop_of s (dst p) of None \<Rightarrow> (Rx_next, s) | Some (b, addr) \<Rightarrow>
       raw_reply b addr (bytes_of_icmp_packet (little_endian s) (p\<lparr>icmp_ttl := icmp_ttl p - 1\<rparr>) @ rest) s))"
    using assms(2-4) by (simp add: recv_icmp_def mm nh)
  have ok: "bat_ok (case unix_packet s (uid p) of None \<Rightarrow> s
       | Some sock \<Rightarrow> s\<lparr>unix_written := (sock, take (nat sizeof_icmp_packet) bytes) # unix_written s\<rparr>)"
    using assms(1) bat_ok_unix by (simp split: option.split)
  let ?b = "bytes_of_icmp_packet (little_endian s) (p\<lparr>icmp_ttl := icmp_ttl p - 1\<rparr>) @ rest"
  obtain res s' where f: "(case hop_of s (dst p) of None \<Rightarrow> (Rx_next, s) | Some (b, addr) \<Rightarrow> raw_reply b addr ?b s) = (res, s')"
      "routed s (hop_of s (dst p)) ?b res s'"
    by (rule route_reply)
  show ?thesis
  proof (cases "my_mac s (dst p)")
    case True
    then show ?thesis using icmp_answer_ok [OF assms(1), of ECHO_REPLY d p rest] ok unfolding r icmp_effect_def by auto
  next
    case False
    then show ?thesis
      using icmp_answer_ok [OF assms(1), of TTL_EXCEEDED d p rest] f bat_ok_routed [OF assms(1) f(2)] assms(1) unfolding r icmp_effect_def by auto
  qed
qed

lemma recv_icmp_ok:
  assumes "bat_ok s"
  shows "\<exists>res s'. recv_icmp d h bytes s = Some (res, s') \<and> bat_ok s' \<and> queue_same s s' \<and> (res = Rx_next \<or> res = Rx_fail)"
proof (cases "\<not> is_broadcast_address d \<and> \<not> is_broadcast_address h \<and> icmp_packet_at (little_endian s) bytes \<noteq> None")
  case True
  then obtain p rest where "icmp_packet_at (little_endian s) bytes = Some (p, rest)" by force
  with True recv_icmp_eq [OF assms, of d h bytes p rest] queue_same_icmp show ?thesis by blast
next
  case False
  then have "recv_icmp d h bytes s = Some (Rx_next, s)" by (auto simp: recv_icmp_def simp del: split_paired_Ex split: option.split)
  with assms show ?thesis by simp
qed

section \<open>Broadcast packets\<close>

definition copy_on :: "bat_state \<Rightarrow> mac \<Rightarrow> u8 list \<Rightarrow> nat \<Rightarrow> frame" where
  "copy_on s d bytes j = (case the (if_ids s j) of (sock, _, addr) \<Rightarrow>
     \<lparr>f_sock = sock, f_shost = addr, f_dhost = d, f_bytes = bytes\<rparr>)"

lemma copy_on_wrote [simp]: "copy_on (wrote s w fs) = copy_on s"
  by (simp add: copy_on_def [abs_def])

lemma rebroadcast_wrote:
  assumes "\<And>j. j \<in> set js \<Longrightarrow> if_heap s j \<noteq> None"
  shows "\<exists>res cur' w fs. rebroadcast d bytes cur js s = Some (res, cur', wrote s w fs) \<and> (res = Rx_next \<or> res = Rx_fail) \<and>
    (cur' = cur \<or> cur' \<in> set js) \<and> (js \<noteq> [] \<and> res = Rx_next \<longrightarrow> cur' = last js) \<and>
    ((\<forall>j. writes s j = Written) \<longrightarrow> res = Rx_next \<and> fs = rev (map (copy_on s d bytes) js))"
  using assms
proof (induction js arbitrary: s cur)
  case Nil
  show ?case by (intro exI [of _ Rx_next] exI [of _ cur] exI [of _ "written s"] exI [of _ "[]"]) (simp add: wrote_self)
next
  case (Cons j js)
  obtain b where b: "if_heap s j = Some b" using Cons.prems by force
  have fr: "copy_on s d bytes j = \<lparr>f_sock = raw_sock b, f_shost = hw_addr b, f_dhost = d, f_bytes = bytes\<rparr>"
    using b by (simp add: copy_on_def if_ids_def)
  obtain res w fs where r: "raw_reply b d bytes s = (res, wrote s w fs)" "res = Rx_next \<or> res = Rx_fail"
      "(\<forall>j. writes s j = Written) \<longrightarrow> res = Rx_next \<and> fs = [copy_on s d bytes j]"
    using raw_reply_routed [of s b d bytes] unfolding fr by (cases "raw_reply b d bytes s") (auto simp: routed_def)
  have live: "\<And>k. k \<in> set js \<Longrightarrow> if_heap (wrote s w fs) k \<noteq> None" using Cons.prems by simp
  obtain res2 cur2 w2 fs2 where n: "rebroadcast d bytes j js (wrote s w fs) = Some (res2, cur2, wrote s w2 (fs2 @ fs))"
      "res2 = Rx_next \<or> res2 = Rx_fail" "cur2 = j \<or> cur2 \<in> set js" "js \<noteq> [] \<and> res2 = Rx_next \<longrightarrow> cur2 = last js"
      "(\<forall>j. writes s j = Written) \<longrightarrow> res2 = Rx_next \<and> fs2 = rev (map (copy_on s d bytes) js)"
    using Cons.IH [of "wrote s w fs" j, OF live] unfolding wrote_simps copy_on_wrote by blast
  show ?case
  proof (cases "res = Rx_next")
    case True
    then have "rebroadcast d bytes cur (j # js) s = Some (res2, cur2, wrote s w2 (fs2 @ fs))" using b r(1) n(1) by simp
    with r(3) n(2-5) show ?thesis by (intro exI [of _ res2] exI [of _ cur2] exI [of _ w2] exI [of _ "fs2 @ fs"]) auto
  next
    case False
    then have "rebroadcast d bytes cur (j # js) s = Some (Rx_fail, j, wrote s w fs)" using b r(1,2) by simp
    with r(3) False show ?thesis by (intro exI [of _ Rx_fail] exI [of _ j] exI [of _ w] exI [of _ fs]) simp
  qed
qed

text \<open>The number of a broadcast packet is in the window of its originator.\<close>

definition bcast_known :: "orig_node \<Rightarrow> u16 \<Rightarrow> bool" where
  "bcast_known n sq \<longleftrightarrow> unat (last_bcast_seqno n - sq) < 64 \<and> unat (last_bcast_seqno n - sq) \<in> window (seq_bits n)"

lemma bcast_window_ok:
  assumes "length (seq_bits n) = 2" "seq_safe (last_bcast_seqno n) sq"
  obtains bits where "get_bit_status (seq_bits n) (last_bcast_seqno n) sq = Some (bcast_known n sq)"
    "bit_get_packet (seq_bits n) (to_s16 (uint sq - uint (last_bcast_seqno n))) True =
      Some (to_s16 (uint sq - uint (last_bcast_seqno n)) \<ge> 0 \<or> to_s16 (uint sq - uint (last_bcast_seqno n)) < - 64, bits)"
    "length bits = 2"
    "window bits = get_packet_window (to_s16 (uint sq - uint (last_bcast_seqno n))) True (window (seq_bits n))"
proof -
  have "get_bit_status (seq_bits n) (last_bcast_seqno n) sq = Some (bcast_known n sq)"
    using get_bit_status_32 [OF assms(1), of "last_bcast_seqno n" sq] assms(2) by (auto simp: seq_safe_def bcast_known_def)
  with win32.get_packet_win [OF assms(1), of "to_s16 (uint sq - uint (last_bcast_seqno n))" True] assms(2) that show thesis
    by (auto simp: seq_safe_def)
qed

lemma recv_bcast_known_orig:
  assumes "bat_ok s" "\<not> is_broadcast_address h" "\<not> my_mac s h" "bcast_packet_at (little_endian s) bytes = Some (b, payload)"
    "orig_map s (bcast_orig b) = Some p" "orig_heap s p = Some n" "sq = htons (little_endian s) (bcast_packet_seqno b)"
    "seq_safe (last_bcast_seqno n) sq"
  shows "if bcast_known n sq then recv_bcast cur d h bytes s = Some (Rx_next, cur, s)
    else \<exists>n' res cur' w fs. recv_bcast cur d h bytes s =
        Some (res, cur', wrote ((put_orig p n' s)\<lparr>tap_written := payload # tap_written s\<rparr>) w fs) \<and>
      bat_ok (wrote ((put_orig p n' s)\<lparr>tap_written := payload # tap_written s\<rparr>) w fs) \<and> orig_map (put_orig p n' s) = orig_map s \<and>
      length (seq_bits n') = 2 \<and> (cur' = cur \<or> cur' \<in> set (if_list s)) \<and> (res = Rx_next \<or> res = Rx_fail) \<and>
      (res = Rx_next \<longrightarrow> cur' = last (if_list s)) \<and>
      (if to_s16 (uint sq - uint (last_bcast_seqno n)) \<ge> 0 \<or> to_s16 (uint sq - uint (last_bcast_seqno n)) < - 64
       then last_bcast_seqno n' = sq else last_bcast_seqno n' = last_bcast_seqno n) \<and>
      window (seq_bits n') = get_packet_window (to_s16 (uint sq - uint (last_bcast_seqno n))) True (window (seq_bits n)) \<and>
      ((\<forall>j. writes s j = Written) \<longrightarrow> res = Rx_next \<and> fs = rev (map (copy_on s d bytes) (if_list s)))"
proof -
  have net: "net_ok s" using bat_ok_net [OF assms(1)] .
  have o: "origs_ok s" using net by (simp add: net_ok_def)
  have len: "length (seq_bits n) = 2" using net_ok_orig [OF net assms(6)] by (simp add: orig_ok_def)
  let ?d = "to_s16 (uint sq - uint (last_bcast_seqno n))"
  obtain bits where w: "get_bit_status (seq_bits n) (last_bcast_seqno n) sq = Some (bcast_known n sq)"
      "bit_get_packet (seq_bits n) ?d True = Some (?d \<ge> 0 \<or> ?d < - 64, bits)" "length bits = 2"
      "window bits = get_packet_window ?d True (window (seq_bits n))"
    using bcast_window_ok [OF len assms(8)] .
  define n' where "n' = n\<lparr>seq_bits := bits, last_bcast_seqno := (if ?d \<ge> 0 \<or> ?d < - 64 then sq else last_bcast_seqno n)\<rparr>"
  define t where "t = (put_orig p n' s)\<lparr>tap_written := payload # tap_written s\<rparr>"
  have start: "recv_bcast cur d h bytes s = (if bcast_known n sq then Some (Rx_next, cur, s) else rebroadcast d bytes cur (if_list s) t)"
    using assms(2-7) w(1,2) by (simp add: recv_bcast_def is_my_mac_ok [OF net] find_orig_node_eq [OF o] n'_def t_def Let_def put_orig_def)
  show ?thesis
  proof (cases "bcast_known n sq")
    case False
    have "orig_ok s n'" by (rule orig_ok_fields [OF net_ok_orig [OF net assms(6)]]) (simp_all add: n'_def w(3) len)
    with net_ok_put_orig [OF net assms(6), of n'] put_orig_net(2) [OF net assms(6), of n']
    have put: "net_ok (put_orig p n' s)" "orig_map (put_orig p n' s) = orig_map s" "keeps s (put_orig p n' s)"
      by (simp_all add: n'_def)
    have ok: "bat_ok t" unfolding t_def using bat_ok_tap [OF bat_ok_keeps [OF assms(1) put(1,3)]] by simp
    have ids: "if_ids t = if_ids s" "if_list t = if_list s" by (simp_all add: t_def if_ids_def [abs_def])
    have live: "\<And>j. j \<in> set (if_list s) \<Longrightarrow> if_heap t j \<noteq> None"
      using net_ok_if [OF net] by (simp add: t_def) (metis)
    have ne: "if_list s \<noteq> []" using net by (simp add: net_ok_def trans_ok_def ifs_ok_def)
    have cp: "copy_on t = copy_on s" by (simp add: copy_on_def [abs_def] ids)
    have wr: "writes t = writes s" by (simp add: t_def put_orig_def)
    from rebroadcast_wrote [of "if_list s" t d bytes cur, OF live] obtain res cur' w' fs where
      rb: "rebroadcast d bytes cur (if_list s) t = Some (res, cur', wrote t w' fs)" "res = Rx_next \<or> res = Rx_fail"
        "cur' = cur \<or> cur' \<in> set (if_list s)" "res = Rx_next \<longrightarrow> cur' = last (if_list s)"
        "(\<forall>j. writes s j = Written) \<longrightarrow> res = Rx_next \<and> fs = rev (map (copy_on s d bytes) (if_list s))"
      using ne unfolding cp wr by blast
    have "length (seq_bits n') = 2" "window (seq_bits n') = get_packet_window ?d True (window (seq_bits n))"
        "if ?d \<ge> 0 \<or> ?d < - 64 then last_bcast_seqno n' = sq else last_bcast_seqno n' = last_bcast_seqno n"
      using w(3,4) by (simp_all add: n'_def)
    with False rb bat_ok_wrote [OF ok] put(2) show ?thesis unfolding start t_def
      by (simp only: if_False) blast
  qed (simp add: start)
qed

text \<open>Any broadcast packet, with the number of a known originator at a safe distance.\<close>

definition bcast_safe :: "bat_state \<Rightarrow> u8 list \<Rightarrow> bool" where
  "bcast_safe s bytes \<longleftrightarrow> (\<forall>b payload p n. bcast_packet_at (little_endian s) bytes = Some (b, payload) \<longrightarrow>
     orig_map s (bcast_orig b) = Some p \<longrightarrow> orig_heap s p = Some n \<longrightarrow>
     seq_safe (last_bcast_seqno n) (htons (little_endian s) (bcast_packet_seqno b)))"

lemma recv_bcast_ok:
  assumes "bat_ok s" "bcast_safe s bytes" "cur \<in> set (if_list s)"
  shows "\<exists>res cur' s'. recv_bcast cur d h bytes s = Some (res, cur', s') \<and> bat_ok s' \<and> queue_same s s' \<and> cur' \<in> set (if_list s) \<and>
    (res = Rx_next \<or> res = Rx_fail)"
proof (cases "\<not> is_broadcast_address h \<and> \<not> my_mac s h \<and> (\<exists>b payload. bcast_packet_at (little_endian s) bytes = Some (b, payload) \<and> orig_map s (bcast_orig b) \<noteq> None)")
  case True
  then obtain b payload p where b: "bcast_packet_at (little_endian s) bytes = Some (b, payload)" "orig_map s (bcast_orig b) = Some p" by blast
  have o: "origs_ok s" using assms(1) by (simp add: bat_ok_def net_ok_def)
  obtain n where n: "orig_heap s p = Some n" using orig_map_Some [OF o] b(2) by blast
  have safe: "seq_safe (last_bcast_seqno n) (htons (little_endian s) (bcast_packet_seqno b))"
    using assms(2) b n by (simp add: bcast_safe_def)
  from True have h: "\<not> is_broadcast_address h" "\<not> my_mac s h" by simp_all
  show ?thesis
  proof (cases "bcast_known n (htons (little_endian s) (bcast_packet_seqno b))")
    case True
    then have "recv_bcast cur d h bytes s = Some (Rx_next, cur, s)" using recv_bcast_known_orig [OF assms(1) h b n refl safe, of cur d] by simp
    with assms(1,3) show ?thesis by simp
  next
    case False
    then obtain n' res cur' w fs where r: "recv_bcast cur d h bytes s =
        Some (res, cur', wrote ((put_orig p n' s)\<lparr>tap_written := payload # tap_written s\<rparr>) w fs)"
        "bat_ok (wrote ((put_orig p n' s)\<lparr>tap_written := payload # tap_written s\<rparr>) w fs)" "cur' = cur \<or> cur' \<in> set (if_list s)" "res = Rx_next \<or> res = Rx_fail"
      using recv_bcast_known_orig [OF assms(1) h b n refl safe, of cur d] by (simp only: if_False) blast
    moreover have "queue_same s (wrote ((put_orig p n' s)\<lparr>tap_written := payload # tap_written s\<rparr>) w fs)"
      by (simp add: queue_same_def put_orig_def wrote_def)
    ultimately show ?thesis using assms(3) by blast
  qed
next
  case False
  have net: "net_ok s" "origs_ok s" using assms(1) by (simp_all add: bat_ok_def net_ok_def)
  have "recv_bcast cur d h bytes s = Some (Rx_next, cur, s)"
    using False by (auto simp: recv_bcast_def is_my_mac_ok [OF net(1)] find_orig_node_eq [OF net(2)] simp del: split_paired_Ex split: option.split)
  with assms(1,3) show ?thesis by simp
qed

text \<open>Any frame from a raw socket.\<close>

lemma recv_frame_ok:
  assumes "bat_ok s" "bcast_safe s bytes" "cur \<in> set (if_list s)"
  shows "\<exists>res cur' s'. recv_frame cur d h bytes s = Some (res, cur', s') \<and> bat_ok s' \<and> queue_same s s' \<and> cur' \<in> set (if_list s) \<and>
    (\<forall>neigh p tail i. res = Rx_ogm neigh p tail i \<longrightarrow> s' = s \<and> i = cur)"
proof (cases bytes)
  case (Cons t rest)
  show ?thesis
  proof (cases rest)
    case Nil
    with Cons assms(1,3) show ?thesis by (simp add: recv_frame_def)
  next
    case (Cons v rest')
    obtain r1 s1 where u: "recv_unicast d h bytes s = Some (r1, s1)" "bat_ok s1" "queue_same s s1" "r1 = Rx_next \<or> r1 = Rx_fail" using recv_unicast_ok [OF assms(1)] by blast
    obtain r2 s2 where i: "recv_icmp d h bytes s = Some (r2, s2)" "bat_ok s2" "queue_same s s2" "r2 = Rx_next \<or> r2 = Rx_fail" using recv_icmp_ok [OF assms(1)] by blast
    obtain r3 c3 s3 where b: "recv_bcast cur d h bytes s = Some (r3, c3, s3)" "bat_ok s3" "queue_same s s3" "c3 \<in> set (if_list s)" "r3 = Rx_next \<or> r3 = Rx_fail"
      using recv_bcast_ok [OF assms] by blast
    consider "t = BAT_PACKET" | "t \<noteq> BAT_PACKET" "t = BAT_UNICAST" | "t \<noteq> BAT_PACKET" "t \<noteq> BAT_UNICAST" "t = BAT_ICMP"
      | "t \<noteq> BAT_PACKET" "t \<noteq> BAT_UNICAST" "t \<noteq> BAT_ICMP" "t = BAT_BCAST" | "t \<notin> {BAT_PACKET, BAT_UNICAST, BAT_ICMP, BAT_BCAST}" by blast
    then show ?thesis
    proof cases
      case 1
      with \<open>bytes = t # rest\<close> Cons assms(1,3) show ?thesis by (cases "batman_packet_at (little_endian s) bytes") (auto simp: recv_frame_def)
    next
      case 2
      then have "recv_frame cur d h bytes s = Some (r1, cur, s1)" using \<open>bytes = t # rest\<close> Cons u(1) by (simp add: recv_frame_def)
      with u assms(3) show ?thesis by blast
    next
      case 3
      then have "recv_frame cur d h bytes s = Some (r2, cur, s2)" using \<open>bytes = t # rest\<close> Cons i(1) by (simp add: recv_frame_def)
      with i assms(3) show ?thesis by blast
    next
      case 4
      then have "recv_frame cur d h bytes s = Some (r3, c3, s3)" using \<open>bytes = t # rest\<close> Cons b(1) by (simp add: recv_frame_def)
      with b show ?thesis by blast
    next
      case 5
      then have "recv_frame cur d h bytes s = Some (Rx_next, cur, s)" using \<open>bytes = t # rest\<close> Cons by (simp add: recv_frame_def)
      with assms(1,3) show ?thesis by simp
    qed
  qed
qed (use assms in \<open>simp add: recv_frame_def\<close>)

section \<open>Properties\<close>

text \<open>
  C17: unicast packets. A packet for one of our interfaces is delivered to the tap interface and not
  sent on. Any other packet is not delivered; it is dropped when its time to live is below 2 or no
  route to its destination is known, and otherwise sent at most once, and exactly once when the
  write succeeds, to the router of its destination over the interface of the route, with the time to
  live reduced by one and otherwise unchanged.
\<close>

theorem recv_unicast_spec:
  assumes "bat_ok s" "\<not> is_broadcast_address d" "\<not> is_broadcast_address h" "unicast_packet_at bytes = Some (u, payload)"
  shows "\<exists>res s'. recv_unicast d h bytes s = Some (res, s') \<and> bat_ok s' \<and>
    (if my_mac s (dest u) then res = Rx_next \<and> sent s' = sent s \<and> tap_written s' = payload # tap_written s
     else tap_written s' = tap_written s \<and>
       (case hop_of s (dest u) of
          Some (b, addr) \<Rightarrow>
            if unicast_ttl u < 2 then sent s' = sent s
            else let fr = \<lparr>f_sock = raw_sock b, f_shost = hw_addr b, f_dhost = addr,
                   f_bytes = bytes_of_unicast_packet (u\<lparr>unicast_ttl := unicast_ttl u - 1\<rparr>) @ payload\<rparr>
              in (sent s' = sent s \<or> sent s' = fr # sent s) \<and> ((\<forall>j. writes s j = Written) \<longrightarrow> sent s' = fr # sent s)
        | None \<Rightarrow> sent s' = sent s))"
proof -
  obtain res s' where r: "recv_unicast d h bytes s = Some (res, s')"
      "if my_mac s (dest u) then res = Rx_next \<and> s' = s\<lparr>tap_written := payload # tap_written s\<rparr>
       else routed s (if unicast_ttl u < 2 then None else hop_of s (dest u))
         (bytes_of_unicast_packet (u\<lparr>unicast_ttl := unicast_ttl u - 1\<rparr>) @ payload) res s'"
    using recv_unicast_eq [OF bat_ok_net [OF assms(1)] assms(2-4)] by blast
  obtain res2 s2 where "recv_unicast d h bytes s = Some (res2, s2)" "bat_ok s2" using recv_unicast_ok [OF assms(1)] by blast
  with r(1) have ok: "bat_ok s'" by simp
  show ?thesis
  proof (cases "my_mac s (dest u)")
    case True
    with r ok show ?thesis by auto
  next
    case False
    have tap: "tap_written (wrote s w fs) = tap_written s" for w fs by (simp add: wrote_def)
    from False r ok show ?thesis
      by (cases "hop_of s (dest u)") (auto simp: routed_def tap Let_def split: if_splits)
  qed
qed

text \<open>A state with a route: an originator that is its own neighbour and router.\<close>

lemma example_route:
  "\<exists>s p n q. bat_ok s \<and> orig_map s (MAC 2 0 0 0 0 9) = Some p \<and> orig_heap s p = Some n \<and> last_bcast_seqno n = 0 \<and>
     window (seq_bits n) = {} \<and> little_endian s \<and> if_list s = [10, 11] \<and> tap_written s = [] \<and> \<not> my_mac s (MAC 2 0 0 0 0 9) \<and>
     o_batman_if n = Some 10 \<and> router n = Some q \<and> (\<exists>m. neigh_heap s q = Some m)"
proof -
  obtain s p q n where s: "bat_ok s" "orig_map s (MAC 2 0 0 0 0 9) = Some p" "orig_heap s p = Some n" "neigh_list n = [q]"
      "neigh_heap s q = Some (new_neigh_node (MAC 2 0 0 0 0 9) p 10)" "last_real_seqno n = 0" "if_list s = [10, 11]"
      "last_bcast_seqno n = 0" "window (seq_bits n) = {}" "little_endian s" "tap_written s = []" "\<not> my_mac s (MAC 2 0 0 0 0 9)"
    using example_neighbour by blast
  define n' where "n' = n\<lparr>o_batman_if := Some 10, router := Some q\<rparr>"
  have "orig_ok s n'" using net_ok_orig [OF bat_ok_net [OF s(1)] s(3)] s(4,5,7) by (simp add: orig_ok_def n'_def)
  with net_ok_put_orig [OF bat_ok_net [OF s(1)] s(3), of n'] put_orig_net(2) [OF bat_ok_net [OF s(1)] s(3), of n']
  have put: "net_ok (put_orig p n' s)" "orig_map (put_orig p n' s) = orig_map s" "keeps s (put_orig p n' s)" by (simp_all add: n'_def)
  have "bat_ok (put_orig p n' s)" using bat_ok_keeps [OF s(1) put(1,3)] .
  with put(2) s show ?thesis
    by (intro exI [of _ "put_orig p n' s"] exI [of _ p] exI [of _ n'] exI [of _ q]) (simp add: n'_def put_orig_def my_mac_def)
qed

theorem recv_unicast_spec_witness:
  "\<exists>s s' res fr. bat_ok s \<and>
     recv_unicast (MAC 2 0 0 0 0 1) (MAC 2 0 0 0 0 7) [BAT_UNICAST, COMPAT_VERSION, 2, 0, 0, 0, 0, 9, 50, 42] s = Some (res, s') \<and>
     (sent s' = sent s \<or> sent s' = fr # sent s) \<and> f_bytes fr = [BAT_UNICAST, COMPAT_VERSION, 2, 0, 0, 0, 0, 9, 49, 42]"
proof -
  obtain s p n q m where s: "bat_ok s" "orig_map s (MAC 2 0 0 0 0 9) = Some p" "orig_heap s p = Some n" "\<not> my_mac s (MAC 2 0 0 0 0 9)"
      "o_batman_if n = Some 10" "router n = Some q" "neigh_heap s q = Some m" using example_route by blast
  let ?u = "\<lparr>unicast_packet_type = BAT_UNICAST, unicast_version = COMPAT_VERSION, dest = MAC 2 0 0 0 0 9, unicast_ttl = 50\<rparr>"
  have hop: "hop_of s (MAC 2 0 0 0 0 9) = Some (the (if_heap s 10), n_addr m)" using s by (simp add: hop_of_def)
  have at: "unicast_packet_at [BAT_UNICAST, COMPAT_VERSION, 2, 0, 0, 0, 0, 9, 50, 42] = Some (?u, [42])" by simp
  have nb: "\<not> is_broadcast_address (MAC 2 0 0 0 0 1)" "\<not> is_broadcast_address (MAC 2 0 0 0 0 7)"
    by (simp_all add: is_broadcast_address_def broadcastAddr_def)
  have ttl: "\<not> unicast_ttl ?u < 2" by (simp add: word_less_nat_alt)
  define fr where "fr = \<lparr>f_sock = raw_sock (the (if_heap s 10)), f_shost = hw_addr (the (if_heap s 10)), f_dhost = n_addr m,
     f_bytes = bytes_of_unicast_packet (?u\<lparr>unicast_ttl := unicast_ttl ?u - 1\<rparr>) @ [42]\<rparr>"
  obtain res s' where r: "recv_unicast (MAC 2 0 0 0 0 1) (MAC 2 0 0 0 0 7) [BAT_UNICAST, COMPAT_VERSION, 2, 0, 0, 0, 0, 9, 50, 42] s = Some (res, s')"
      "sent s' = sent s \<or> sent s' = fr # sent s"
    using recv_unicast_spec [OF s(1) nb at] s(4) hop ttl unfolding fr_def by (auto simp: Let_def)
  have "f_bytes fr = [BAT_UNICAST, COMPAT_VERSION, 2, 0, 0, 0, 0, 9, 49, 42]" by (simp add: fr_def bytes_of_unicast_packet_def)
  with r s(1) show ?thesis by blast
qed

lemma to_s16_minus:
  assumes "- 64 < to_s16 x" "to_s16 x < 0"
  shows "(- x) mod 65536 = - to_s16 x"
proof -
  have "x mod 65536 = to_s16 x + 65536" using assms(2) pos_mod_sign [of 65536 x] unfolding to_s16_alt by (simp split: if_splits)
  moreover have "(- x) mod 65536 = (- (x mod 65536)) mod 65536" by (simp add: mod_minus_eq)
  ultimately have "(- x) mod 65536 = (- to_s16 x - 65536) mod 65536" by simp
  also have "\<dots> = - to_s16 x" using assms by simp
  finally show ?thesis .
qed

lemma bcast_known_after:
  assumes "to_s16 (uint sq - uint (last_bcast_seqno n)) \<noteq> - 64"
    and "if to_s16 (uint sq - uint (last_bcast_seqno n)) \<ge> 0 \<or> to_s16 (uint sq - uint (last_bcast_seqno n)) < - 64
       then last_bcast_seqno n' = sq else last_bcast_seqno n' = last_bcast_seqno n"
    and "window (seq_bits n') = get_packet_window (to_s16 (uint sq - uint (last_bcast_seqno n))) True (window (seq_bits n))"
  shows "bcast_known n' sq"
proof (cases "to_s16 (uint sq - uint (last_bcast_seqno n)) \<ge> 0 \<or> to_s16 (uint sq - uint (last_bcast_seqno n)) < - 64")
  case True
  then have "0 \<in> window (seq_bits n')" unfolding assms(3) by (auto simp: get_packet_window_def)
  with True assms(2) show ?thesis by (simp add: bcast_known_def)
next
  case False
  let ?d = "to_s16 (uint sq - uint (last_bcast_seqno n))"
  have d: "?d < 0" "- 64 < ?d" using False assms(1) by linarith+
  then have "(uint (last_bcast_seqno n) - uint sq) mod 65536 = - ?d" using to_s16_minus [of "uint sq - uint (last_bcast_seqno n)"] by simp
  then have "uint (last_bcast_seqno n - sq) = - ?d" by (simp add: uint_word_ariths)
  then have "unat (last_bcast_seqno n - sq) = nat (- ?d)" by (metis unat_eq_nat_uint)
  with False d assms(2,3) show ?thesis by (auto simp: bcast_known_def get_packet_window_def)
qed

text \<open>
  C12: a broadcast packet that reaches us over several ways is delivered to the tap interface once
  and sent on all interfaces once. Its first copy is delivered, and rebroadcast unchanged on every
  interface in the order of the list; any later copy, from whatever neighbour and interface,
  changes nothing. The number must not be 64 older than the newest one: the window has no place for
  that one, and each of its copies is delivered.
\<close>

theorem broadcast_delivered_once:
  assumes "bat_ok s" "\<not> is_broadcast_address h" "\<not> my_mac s h" "bcast_packet_at (little_endian s) bytes = Some (b, payload)"
    and "orig_map s (bcast_orig b) = Some p" "orig_heap s p = Some n" "sq = htons (little_endian s) (bcast_packet_seqno b)"
    and "seq_safe (last_bcast_seqno n) sq" "to_s16 (uint sq - uint (last_bcast_seqno n)) \<noteq> - 64" "\<not> bcast_known n sq"
    and "\<not> is_broadcast_address h2" "\<not> my_mac s h2"
  shows "\<exists>res cur' s'. recv_bcast cur d h bytes s = Some (res, cur', s') \<and> bat_ok s' \<and>
    tap_written s' = payload # tap_written s \<and>
    ((\<forall>j. writes s j = Written) \<longrightarrow> sent s' = rev (map (copy_on s d bytes) (if_list s)) @ sent s) \<and>
    recv_bcast cur2 d2 h2 bytes s' = Some (Rx_next, cur2, s')"
proof -
  obtain n' res cur' w fs where r: "recv_bcast cur d h bytes s =
        Some (res, cur', wrote ((put_orig p n' s)\<lparr>tap_written := payload # tap_written s\<rparr>) w fs)"
      "bat_ok (wrote ((put_orig p n' s)\<lparr>tap_written := payload # tap_written s\<rparr>) w fs)" "orig_map (put_orig p n' s) = orig_map s"
      "if to_s16 (uint sq - uint (last_bcast_seqno n)) \<ge> 0 \<or> to_s16 (uint sq - uint (last_bcast_seqno n)) < - 64
       then last_bcast_seqno n' = sq else last_bcast_seqno n' = last_bcast_seqno n"
      "window (seq_bits n') = get_packet_window (to_s16 (uint sq - uint (last_bcast_seqno n))) True (window (seq_bits n))"
      "(\<forall>j. writes s j = Written) \<longrightarrow> fs = rev (map (copy_on s d bytes) (if_list s))"
    using recv_bcast_known_orig [OF assms(1-8)] assms(10) by (simp only: if_False) blast
  define t where "t = wrote ((put_orig p n' s)\<lparr>tap_written := payload # tap_written s\<rparr>) w fs"
  have known: "bcast_known n' sq" by (rule bcast_known_after [OF assms(9) r(4,5)])
  have "seq_safe (last_bcast_seqno n') sq"
  proof (cases "last_bcast_seqno n' = sq")
    case False
    with r(4) have "last_bcast_seqno n' = last_bcast_seqno n" by (simp split: if_splits)
    with assms(8) show ?thesis by simp
  qed (simp add: seq_safe_self)
  moreover have "little_endian t = little_endian s" "orig_heap t p = Some n'" "my_mac t = my_mac s" "tap_written t = payload # tap_written s"
      "sent t = fs @ sent s"
    by (simp_all add: t_def wrote_def put_orig_def my_mac_def [abs_def])
  moreover have "orig_map t = orig_map s" using r(3) by (simp add: t_def wrote_def orig_map_def orig_key_def [abs_def])
  ultimately have "recv_bcast cur2 d2 h2 bytes t = Some (Rx_next, cur2, t)"
    using recv_bcast_known_orig [of t h2 bytes b payload p n' sq cur2 d2] r(2) assms(4,5,7,11,12) known by (simp add: t_def)
  with r(1,2,6) \<open>tap_written t = _\<close> \<open>sent t = _\<close> show ?thesis unfolding t_def by blast
qed

theorem broadcast_delivered_once_witness:
  "\<exists>s res cur' s'. bat_ok s \<and> tap_written s = [] \<and>
     recv_bcast 10 broadcastAddr (MAC 2 0 0 0 0 9) [BAT_BCAST, COMPAT_VERSION, 2, 0, 0, 0, 0, 9, 0, 3, 42, 43] s = Some (res, cur', s') \<and>
     tap_written s' = [[42, 43]] \<and>
     recv_bcast 11 broadcastAddr (MAC 2 0 0 0 0 9) [BAT_BCAST, COMPAT_VERSION, 2, 0, 0, 0, 0, 9, 0, 3, 42, 43] s' = Some (Rx_next, 11, s')"
proof -
  obtain s p n where s: "bat_ok s" "orig_map s (MAC 2 0 0 0 0 9) = Some p" "orig_heap s p = Some n" "last_bcast_seqno n = 0"
      "window (seq_bits n) = {}" "little_endian s" "tap_written s = []" "\<not> my_mac s (MAC 2 0 0 0 0 9)"
    using example_route by blast
  let ?b = "\<lparr>bcast_packet_type = BAT_BCAST, bcast_version = COMPAT_VERSION, bcast_orig = MAC 2 0 0 0 0 9, bcast_packet_seqno = 768\<rparr>"
  let ?bytes = "[BAT_BCAST, COMPAT_VERSION, 2, 0, 0, 0, 0, 9, 0, 3, 42, 43]"
  have nb: "\<not> is_broadcast_address (MAC 2 0 0 0 0 9)"
    by (simp add: is_broadcast_address_def broadcastAddr_def)
  have at: "bcast_packet_at (little_endian s) ?bytes = Some (?b, [42, 43])" by (simp add: s(6) u16_read_def u16_of_def)
  have sq: "3 = htons (little_endian s) (bcast_packet_seqno ?b)" by (simp add: s(6) htons_def u16_of_def lo_byte_def hi_byte_def)
  have om: "orig_map s (bcast_orig ?b) = Some p" by (simp add: s(2))
  have fresh: "seq_safe (last_bcast_seqno n) 3" "to_s16 (uint (3 :: u16) - uint (last_bcast_seqno n)) \<noteq> - 64" "\<not> bcast_known n 3"
    by (simp_all add: s(4,5) seq_safe_def bcast_known_def)
  from broadcast_delivered_once [OF s(1) nb s(8) at om s(3) sq fresh nb s(8), of 10 broadcastAddr 11 broadcastAddr] s(1,7)
  show ?thesis by (simp only:) blast
qed

end
