(* ===== verification/Mesh.thy ===== *)
theory Mesh
  imports Recv_Inv
begin

text \<open>
  Several nodes: who receives a frame, how a packet is handed from node to node, and the path that the
  routers of the nodes on the way make up. Every node is in its own state and runs the code of
  \<open>receive_packet_batiface\<close> (\<open>src/posix-specific.c\<close>).
\<close>

section \<open>Links\<close>

text \<open>
  A mesh gives, for the address of the interface that sends and the address of the one that receives,
  the node that receives with the number of its interface; there may be no link between the two.
\<close>

type_synonym mesh = "mac \<Rightarrow> mac \<Rightarrow> (nat \<times> bat_state) option"

definition mesh_ok :: "mesh \<Rightarrow> bool" where
  "mesh_ok M \<longleftrightarrow> (\<forall>h d i t. M h d = Some (i, t) \<longrightarrow> \<not> is_broadcast_address h \<and> \<not> is_broadcast_address d \<and>
     bat_ok t \<and> i \<in> set (if_list t) \<and> hw_addr (the (if_heap t i)) = d)"

text \<open>The frame that goes out on an interface; a frame of a node goes out on one of its interfaces.\<close>

definition frame_via :: "batman_if \<Rightarrow> mac \<Rightarrow> u8 list \<Rightarrow> frame" where
  "frame_via b addr bytes = \<lparr>f_sock = raw_sock b, f_shost = hw_addr b, f_dhost = addr, f_bytes = bytes\<rparr>"

lemma frame_via_simps [simp]:
  "f_sock (frame_via b addr bytes) = raw_sock b" "f_shost (frame_via b addr bytes) = hw_addr b"
  "f_dhost (frame_via b addr bytes) = addr" "f_bytes (frame_via b addr bytes) = bytes"
  by (simp_all add: frame_via_def)

definition leaves :: "bat_state \<Rightarrow> frame \<Rightarrow> bool" where
  "leaves s fr \<longleftrightarrow> (\<exists>j \<in> set (if_list s). f_sock fr = raw_sock (the (if_heap s j)) \<and> f_shost fr = hw_addr (the (if_heap s j)))"

lemma leaves_hop:
  assumes "bat_ok s" "hop_of s a = Some (b, addr)"
  shows "leaves s (frame_via b addr bytes)"
proof -
  have net: "net_ok s" by (rule bat_ok_net [OF assms(1)])
  obtain p i where p: "orig_map s a = Some p" "o_batman_if (the (orig_heap s p)) = Some i" "b = the (if_heap s i)"
    using assms(2) by (auto simp: hop_of_def split: option.splits)
  have "origs_ok s" using net by (simp add: net_ok_def)
  then obtain n where n: "orig_heap s p = Some n" using orig_map_Some p(1) by blast
  have "i \<in> set (if_list s)" using net_ok_orig [OF net n] p(2) n by (simp add: orig_ok_def)
  then show ?thesis using p(3) by (auto simp: leaves_def)
qed

section \<open>From node to node\<close>

text \<open>
  The frame that a node sends when it has received one: exactly one, on one of its interfaces. The
  frame is treated by \<open>recv_frame\<close>, the body of the loop that reads from the interface.
\<close>

definition passed_on :: "nat \<Rightarrow> frame \<Rightarrow> bat_state \<Rightarrow> frame option" where
  "passed_on i fr t =
     (case recv_frame i (f_dhost fr) (f_shost fr) (f_bytes fr) t of
        None \<Rightarrow> None
      | Some (_, _, t') \<Rightarrow>
          (case sent t' of
             [] \<Rightarrow> None
           | fr' # old \<Rightarrow> if old = sent t \<and> leaves t fr' then Some fr' else None))"

text \<open>What becomes of a frame over a number of nodes: each one is the node that the frame before is addressed to.\<close>

fun relay :: "mesh \<Rightarrow> nat \<Rightarrow> frame \<Rightarrow> frame option" where
  "relay M 0 fr = Some fr"
| "relay M (Suc n) fr =
     (case M (f_shost fr) (f_dhost fr) of
        None \<Rightarrow> None
      | Some (i, t) \<Rightarrow> (case passed_on i fr t of None \<Rightarrow> None | Some fr' \<Rightarrow> relay M n fr'))"

text \<open>
  The path from a node towards an address: the next node is the one that is linked to the interface of
  the route and has the address of the router.
\<close>

fun follows :: "mesh \<Rightarrow> mac \<Rightarrow> bat_state \<Rightarrow> (nat \<times> bat_state) list \<Rightarrow> bool" where
  "follows M a s [] = True"
| "follows M a s (x # path) =
     ((case hop_of s a of None \<Rightarrow> False | Some (b, addr) \<Rightarrow> M (hw_addr b) addr = Some x) \<and> follows M a (snd x) path)"

lemma follows_append:
  "follows M a s (p @ x # q) \<Longrightarrow> follows M a s (p @ [x]) \<and> follows M a (snd x) q"
  by (induction p arbitrary: s) (simp, simp, blast)

text \<open>The nodes on the path are not the destination, and their writes succeed.\<close>

definition on_the_way :: "mac \<Rightarrow> (nat \<times> bat_state) list \<Rightarrow> bool" where
  "on_the_way a path \<longleftrightarrow> (\<forall>x \<in> set path. \<not> my_mac (snd x) a \<and> (\<forall>j. writes (snd x) j = Written))"

text \<open>
  A family of packets \<open>pk\<close>, one for every number of hops, such that each node on the path that receives
  one of them sends the next one to its router.
\<close>

lemma relay_path:
  assumes "mesh_ok M" "on_the_way a path" "follows M a s (path @ [x])" "hop_of s a = Some (b, addr)"
    and "\<And>k i t d h c r. k < length path \<Longrightarrow> bat_ok t \<Longrightarrow> \<not> my_mac t a \<Longrightarrow> (\<forall>j. writes t j = Written) \<Longrightarrow>
      \<not> is_broadcast_address d \<Longrightarrow> \<not> is_broadcast_address h \<Longrightarrow> hop_of t a = Some (c, r) \<Longrightarrow>
      \<exists>res cur t'. recv_frame i d h (pk k) t = Some (res, cur, t') \<and> sent t' = frame_via c r (pk (Suc k)) # sent t"
  shows "\<exists>c r. relay M (length path) (frame_via b addr (pk 0)) = Some (frame_via c r (pk (length path))) \<and> M (hw_addr c) r = Some x"
  using assms(2-5)
proof (induction path arbitrary: s b addr pk)
  case Nil
  then show ?case by auto
next
  case (Cons y path)
  obtain i t where y: "y = (i, t)" by fastforce
  have M: "M (hw_addr b) addr = Some (i, t)" using Cons.prems(2,3) by (simp add: y)
  then have t: "\<not> is_broadcast_address (hw_addr b)" "\<not> is_broadcast_address addr" "bat_ok t" using assms(1) unfolding mesh_ok_def by blast+
  have my: "\<not> my_mac t a" "\<forall>j. writes t j = Written" "on_the_way a path" using Cons.prems(1) by (simp_all add: on_the_way_def y)
  have fol: "follows M a t (path @ [x])" using Cons.prems(2) by (simp add: y)
  then obtain c r where hop: "hop_of t a = Some (c, r)" by (cases path) (auto split: option.splits)
  have step: "\<exists>res cur t'. recv_frame i d h (pk k) u = Some (res, cur, t') \<and> sent t' = frame_via c r (pk (Suc k)) # sent u"
    if "k < Suc (length path)" "bat_ok u" "\<not> my_mac u a" "\<forall>j. writes u j = Written" "\<not> is_broadcast_address d" "\<not> is_broadcast_address h"
      "hop_of u a = Some (c, r)" for k i u d h c r
    using Cons.prems(4) [of k u d h c r i] that by simp
  obtain res cur t' where "recv_frame i addr (hw_addr b) (pk 0) t = Some (res, cur, t')" "sent t' = frame_via c r (pk (Suc 0)) # sent t"
    using step [of 0 t addr "hw_addr b" c r i] t my(1,2) hop by auto
  then have pass: "passed_on i (frame_via b addr (pk 0)) t = Some (frame_via c r (pk (Suc 0)))"
    using leaves_hop [OF t(3) hop] by (simp add: passed_on_def)
  have "\<exists>c' r'. relay M (length path) (frame_via c r (pk (Suc 0))) = Some (frame_via c' r' (pk (Suc (length path)))) \<and> M (hw_addr c') r' = Some x"
    by (rule Cons.IH [of t c r "\<lambda>k. pk (Suc k)", OF my(3) fol hop]) (rule step; simp)
  then show ?case using M pass by simp
qed

section \<open>Packets with a time to live\<close>

text \<open>What the loop does with a unicast packet and with an icmp packet.\<close>

lemma recv_frame_unicast:
  assumes "unicast_packet_type u = BAT_UNICAST"
  shows "recv_frame cur d h (bytes_of_unicast_packet u @ rest) s =
    map_option (\<lambda>(r, s). (r, cur, s)) (recv_unicast d h (bytes_of_unicast_packet u @ rest) s)"
proof -
  obtain bs where "bytes_of_unicast_packet u @ rest = BAT_UNICAST # unicast_version u # bs" using assms by (simp add: bytes_of_unicast_packet_def)
  then show ?thesis by (simp add: recv_frame_def BAT_PACKET_def BAT_UNICAST_def)
qed

lemma recv_frame_icmp:
  assumes "icmp_packet_type p = BAT_ICMP"
  shows "recv_frame cur d h (bytes_of_icmp_packet le p @ rest) s =
    map_option (\<lambda>(r, s). (r, cur, s)) (recv_icmp d h (bytes_of_icmp_packet le p @ rest) s)"
proof -
  obtain bs where "bytes_of_icmp_packet le p @ rest = BAT_ICMP # icmp_version p # bs" using assms by (simp add: bytes_of_icmp_packet_def)
  then show ?thesis by (simp add: recv_frame_def BAT_PACKET_def BAT_UNICAST_def BAT_ICMP_def)
qed

lemma ttl_left: "k < n \<Longrightarrow> n < unat (l :: u8) \<Longrightarrow> \<not> l - of_nat k < 2"
proof -
  assume k: "k < n" "n < unat l"
  have "unat l < 256" using unat_u8_le [of l] by simp
  with k have "unat (of_nat k :: u8) = k" by (simp add: unat_of_nat take_bit_nat_eq_self)
  moreover have "(of_nat k :: u8) \<le> l" using k calculation by (simp add: word_le_nat_alt)
  ultimately have "unat (l - of_nat k) = unat l - k" by (simp add: unat_sub)
  with k show "\<not> l - of_nat k < 2" by (simp add: word_less_nat_alt)
qed

lemma unicast_relay:
  assumes "mesh_ok M" "on_the_way (dest u) path" "follows M (dest u) s (path @ [x])" "hop_of s (dest u) = Some (b, addr)"
    and "unicast_packet_type u = BAT_UNICAST" "length path < unat (unicast_ttl u)"
  shows "\<exists>c r. relay M (length path) (frame_via b addr (bytes_of_unicast_packet u @ payload)) =
      Some (frame_via c r (bytes_of_unicast_packet (u\<lparr>unicast_ttl := unicast_ttl u - of_nat (length path)\<rparr>) @ payload)) \<and> M (hw_addr c) r = Some x"
proof -
  let ?pk = "\<lambda>k. bytes_of_unicast_packet (u\<lparr>unicast_ttl := unicast_ttl u - of_nat k\<rparr>) @ payload"
  have "\<exists>res cur t'. recv_frame i d h (?pk k) t = Some (res, cur, t') \<and> sent t' = frame_via c r (?pk (Suc k)) # sent t"
    if k: "k < length path" and t: "bat_ok t" "\<not> my_mac t (dest u)" "\<forall>j. writes t j = Written" "\<not> is_broadcast_address d" "\<not> is_broadcast_address h"
      "hop_of t (dest u) = Some (c, r)" for k i t d h c r
  proof -
    let ?u = "u\<lparr>unicast_ttl := unicast_ttl u - of_nat k\<rparr>"
    obtain res t' where "recv_unicast d h (?pk k) t = Some (res, t')"
        "routed t (if unicast_ttl ?u < 2 then None else hop_of t (dest ?u))
           (bytes_of_unicast_packet (?u\<lparr>unicast_ttl := unicast_ttl ?u - 1\<rparr>) @ payload) res t'"
      using recv_unicast_eq [OF bat_ok_net [OF t(1)] t(4,5) unicast_packet_at_bytes, of ?u payload] t(2) by auto
    then show ?thesis using ttl_left [OF k assms(6)] t(3,6) recv_frame_unicast [of ?u i d h payload t] assms(5)
      by (auto simp: routed_def frame_via_def algebra_simps)
  qed
  then have "\<exists>c r. relay M (length path) (frame_via b addr (?pk 0)) = Some (frame_via c r (?pk (length path))) \<and> M (hw_addr c) r = Some x"
    by (rule relay_path [OF assms(1-4)])
  then show ?thesis by simp
qed

section \<open>Examples\<close>

text \<open>A node with the address \<open>my\<close> and a route to the node \<open>a\<close>, over its neighbour \<open>r\<close>.\<close>

lemma example_node:
  assumes "a \<noteq> my" "a \<noteq> MAC 2 0 0 0 0 2"
  shows "\<exists>s b. bat_ok s \<and> if_list s = [10, 11] \<and> if_heap s 10 = Some b \<and> first_if s = Some (10, b) \<and> hw_addr b = my \<and>
     hop_of s a = Some (b, r) \<and> my_mac s my \<and> \<not> my_mac s a \<and> (\<forall>j. writes s j = Written) \<and> little_endian s \<and>
     originator_interval s = 1000 \<and> map (\<lambda>x. the (if_outgoing (snd x))) (filter (\<lambda>x. own (snd x)) (forw_list s)) = [10, 11]"
proof -
  have "orig_map example_state a = None" by (simp add: orig_map_def hash_map_def example_state_def)
  then obtain p s n where s: "get_orig_node a example_state = Some (p, s)" "net_ok s" "keeps example_state s"
      "orig_map s a = Some p" "orig_heap s p = Some n" "n = new_orig_node a (found_ifs example_state)"
    using get_orig_node_net [OF example_net_ok, of a] by blast
  have ifs: "if_list s = [10, 11]" by (use keeps_if_list [OF s(3)] in \<open>simp add: example_state_def\<close>)
  obtain t where t: "net_ok t" "keeps s t" "neigh_heap t = (neigh_heap s)(brk s \<mapsto> new_neigh_node r p 10)"
      "orig_heap t = (orig_heap s)(p \<mapsto> n\<lparr>neigh_list := neigh_list n @ [brk s]\<rparr>)"
    using create_neighbor_net [OF s(2,5), of p 10 r] s(5,6) ifs by (auto simp: new_orig_node_def)
  let ?n = "n\<lparr>neigh_list := neigh_list n @ [brk s]\<rparr>"
  define n' where "n' = ?n\<lparr>o_batman_if := Some 10, router := Some (brk s)\<rparr>"
  have tp: "orig_heap t p = Some ?n" by (simp add: t(4))
  have st: "statics t = statics example_state" using keeps_trans [OF s(3) t(2)] by (simp add: keeps_def)
  have iff: "if_list t = [10, 11]" "if_heap t = if_heap example_state" "g_num_hna t = 0" "originator_interval t = 1000"
    using st by (simp_all add: statics_def example_state_def)
  have "neigh_list n = []" by (simp add: s(6) new_orig_node_def)
  then have "orig_ok t n'" using net_ok_orig [OF t(1) tp] t(3) iff(1) by (simp add: orig_ok_def n'_def)
  with net_ok_put_orig [OF t(1) tp, of n'] put_orig_net(2) [OF t(1) tp, of n']
  have put: "net_ok (put_orig p n' t)" "orig_map (put_orig p n' t) = orig_map t" by (simp_all add: n'_def)
  define f where "f = (\<lambda>i. \<lparr>send_time = 0, own = True, pack_head = example_packet, pack_tail = [], if_outgoing = Some i\<rparr>)"
  define ifh where "ifh = (if_heap example_state)(10 := map_option (\<lambda>b. b\<lparr>hw_addr := my\<rparr>) (if_heap example_state 10))"
  define u where "u = (put_orig p n' t)\<lparr>writes := (\<lambda>_. Written), if_heap := ifh, forw_list := [(brk t, f 10), (Suc (brk t), f 11)], brk := brk t + 2\<rparr>"
  have "net_ok u \<and> orig_map u = orig_map t"
    using net_ok_fields [of u "put_orig p n' t"] put iff(2) by (auto simp: u_def put_orig_def ifh_def fun_eq_iff option.map_comp comp_def)
  moreover have "if_list u = [10, 11]" "originator_interval u = 1000" "g_num_hna u = 0" using iff by (simp_all add: u_def put_orig_def)
  moreover have "queue_ok u" using iff(1) by (simp add: queue_ok_def u_def put_orig_def f_def)
  ultimately have ok: "bat_ok u" "orig_map u = orig_map t" "if_list u = [10, 11]" "originator_interval u = 1000" by (simp_all add: bat_ok_def)
  have q: "map (\<lambda>x. the (if_outgoing (snd x))) (filter (\<lambda>x. own (snd x)) (forw_list u)) = [10, 11]" by (simp add: u_def f_def)
  have "orig_map t a = Some p" using keeps_map [OF t(2) s(4)] .
  moreover have "orig_heap u p = Some n'" "neigh_heap u (brk s) = Some (new_neigh_node r p 10)"
    by (simp_all add: u_def put_orig_def t(3))
  moreover obtain b where b: "if_heap u 10 = Some b" "hw_addr b = my" by (simp add: u_def ifh_def example_state_def)
  ultimately have "hop_of u a = Some (b, r)" using ok(2) by (simp add: hop_of_def n'_def new_neigh_node_def)
  moreover have "my_mac u my" "\<not> my_mac u a" using iff(1) assms
    by (simp_all add: my_mac_def u_def put_orig_def ifh_def example_state_def)
  moreover have "\<forall>j. writes u j = Written" "little_endian u" using st by (simp_all add: u_def put_orig_def statics_def example_state_def)
  moreover have "first_if u = Some (10, b)" using b(1) ok(3) by (simp add: first_if_def)
  ultimately show ?thesis using ok(1,3,4) b q by (intro exI [of _ u] exI [of _ b]) simp
qed

end
