(* ===== verification/Announce.thy ===== *)
theory Announce
  imports Recv_Inv
begin

text \<open>
  From the hosts of one node to the translation table of another: the announcement that \<open>hna_update\<close>
  builds (\<open>src/trans_table.c\<close>), the own message that carries it (\<open>src/schedule.c\<close>), and what the
  receiver reads from it and hands to \<open>update_routes\<close> (\<open>src/posix-specific.c\<close>, \<open>src/batman-adv.c\<close>).
\<close>

section \<open>Addresses in a buffer\<close>





section \<open>The own message\<close>




section \<open>Property\<close>



end
