(* ===== verification/Tap_Inv.thy ===== *)
theory Tap_Inv
  imports Mesh
begin

text \<open>
  The tap interface: what becomes of a frame of a local host, and the way of a unicast packet through
  the mesh from the tap interface where it enters to the one where it leaves.
\<close>

section \<open>Sending on all interfaces\<close>

lemma bcast_on_all_wrote:
  assumes "\<And>j. j \<in> set js \<Longrightarrow> if_heap s j \<noteq> None"
  shows "\<exists>ok w fs. bcast_on_all bytes js s = Some (ok, wrote s w fs) \<and>
    ((\<forall>j. writes s j = Written) \<longrightarrow> ok \<and> fs = rev (map (copy_on s broadcastAddr bytes) js))"
  using assms
proof (induction js arbitrary: s)
  case Nil
  show ?case by (intro exI [of _ True] exI [of _ "written s"] exI [of _ "[]"]) (simp add: wrote_self)
next
  case (Cons j js)
  obtain b where b: "if_heap s j = Some b" using Cons.prems by force
  have fr: "copy_on s broadcastAddr bytes j = \<lparr>f_sock = raw_sock b, f_shost = hw_addr b, f_dhost = broadcastAddr, f_bytes = bytes\<rparr>"
    using b by (simp add: copy_on_def if_ids_def)
  obtain res w fs where r: "send_packet bytes (hw_addr b) broadcastAddr (raw_sock b) s = (res, wrote s w fs)"
      "(\<forall>j. writes s j = Written) \<longrightarrow> res \<and> fs = [copy_on s broadcastAddr bytes j]"
    unfolding fr by (rule send_packet_wrote)
  have live: "\<And>k. k \<in> set js \<Longrightarrow> if_heap (wrote s w fs) k \<noteq> None" using Cons.prems by simp
  obtain ok w2 fs2 where n: "bcast_on_all bytes js (wrote s w fs) = Some (ok, wrote s w2 (fs2 @ fs))"
      "(\<forall>j. writes s j = Written) \<longrightarrow> ok \<and> fs2 = rev (map (copy_on s broadcastAddr bytes) js)"
    using Cons.IH [of "wrote s w fs", OF live] unfolding wrote_simps copy_on_wrote by blast
  have eq: "bcast_on_all bytes (j # js) s = Some (if res then (ok, wrote s w2 (fs2 @ fs)) else (False, wrote s w fs))"
    using b r(1) n(1) by simp
  show ?case
  proof (cases res)
    case True
    with eq r(2) n(2) show ?thesis by (intro exI [of _ ok] exI [of _ w2] exI [of _ "fs2 @ fs"]) simp
  next
    case False
    with eq r(2) show ?thesis by (intro exI [of _ False] exI [of _ w] exI [of _ fs]) simp
  qed
qed

section \<open>Frames of the tap interface\<close>

lemma host_map_wrote [simp]: "host_map (wrote s w fs) = host_map s"
  by (simp add: wrote_def host_map_def [abs_def] elem_key_def [abs_def])

lemma bat_ok_bcast_seqno:
  assumes "bat_ok s" "if_heap s i = Some my"
  shows "bat_ok (put_if i (my\<lparr>bcast_seqno := v\<rparr>) s) \<and> host_map (put_if i (my\<lparr>bcast_seqno := v\<rparr>) s) = host_map s"
proof -
  let ?t = "put_if i (my\<lparr>bcast_seqno := v\<rparr>) s"
  have "net_ok ?t \<and> orig_map ?t = orig_map s \<and> host_map ?t = host_map s"
    using bat_ok_net [OF assms(1)] assms(2) by (intro net_ok_fields) (auto simp: put_if_def fun_eq_iff)
  with assms(1) show ?thesis by (simp add: bat_ok_def queue_ok_def put_if_def)
qed

lemma tap_broadcast_eq:
  assumes "bat_ok s" "first_if s = Some (i, my)"
  shows "\<exists>ok s'. tap_broadcast payload s = Some (ok, s') \<and> bat_ok s' \<and> queue_same s s' \<and> host_map s' = host_map s \<and>
    if_heap s' = (if_heap s)(i \<mapsto> my\<lparr>bcast_seqno := bcast_seqno my + 1\<rparr>) \<and>
    ((\<forall>j. writes s j = Written) \<longrightarrow> ok \<and> sent s' = rev (map (copy_on s broadcastAddr (bytes_of_bcast_packet (little_endian s)
       \<lparr>bcast_packet_type = BAT_BCAST, bcast_version = COMPAT_VERSION, bcast_orig = hw_addr my,
        bcast_packet_seqno = htons (little_endian s) (bcast_seqno my)\<rparr> @ payload)) (if_list s)) @ sent s)"
proof -
  let ?bytes = "bytes_of_bcast_packet (little_endian s) \<lparr>bcast_packet_type = BAT_BCAST, bcast_version = COMPAT_VERSION,
      bcast_orig = hw_addr my, bcast_packet_seqno = htons (little_endian s) (bcast_seqno my)\<rparr> @ payload"
  define t where "t = put_if i (my\<lparr>bcast_seqno := bcast_seqno my + 1\<rparr>) s"
  have i: "if_heap s i = Some my" using assms(2) by (auto simp: first_if_def split: list.splits)
  have t: "bat_ok t" "host_map t = host_map s" using bat_ok_bcast_seqno [OF assms(1) i] by (simp_all add: t_def)
  have ids: "if_ids t = if_ids s" using i by (simp add: t_def put_if_def if_ids_def [abs_def] fun_eq_iff)
  have same: "if_list t = if_list s" "writes t = writes s" "sent t = sent s" "little_endian t = little_endian s"
      "if_heap t = (if_heap s)(i \<mapsto> my\<lparr>bcast_seqno := bcast_seqno my + 1\<rparr>)" by (simp_all add: t_def put_if_def)
  have live: "if_heap t j \<noteq> None" if "j \<in> set (if_list s)" for j
  proof -
    have "j \<in> set (if_list t)" using that same(1) by simp
    from net_ok_if [OF bat_ok_net [OF t(1)] this] show ?thesis by auto
  qed
  have cp: "copy_on t = copy_on s" by (simp add: copy_on_def [abs_def] ids)
  obtain ok w fs where r: "bcast_on_all ?bytes (if_list s) t = Some (ok, wrote t w fs)"
      "(\<forall>j. writes s j = Written) \<longrightarrow> ok \<and> fs = rev (map (copy_on s broadcastAddr ?bytes) (if_list s))"
    using bcast_on_all_wrote [of "if_list s" t ?bytes, OF live] unfolding cp same by blast
  have "tap_broadcast payload s = Some (ok, wrote t w fs)"
    using assms(2) r(1) same(1,4) by (simp add: tap_broadcast_def t_def Let_def)
  moreover have "sent (wrote t w fs) = fs @ sent s" "if_heap (wrote t w fs) = (if_heap s)(i \<mapsto> my\<lparr>bcast_seqno := bcast_seqno my + 1\<rparr>)"
      "host_map (wrote t w fs) = host_map s" using t(2) same(3,5) by simp_all
  moreover have "queue_same s (wrote t w fs)" by (simp add: queue_same_def t_def put_if_def)  (simp add: wrote_def)
  ultimately show ?thesis using bat_ok_wrote [OF t(1), of w fs] r(2) by blast
qed

lemma tap_unicast_eq:
  assumes "bat_ok s"
  shows "\<exists>ok s'. tap_unicast a payload s = Some (ok, s') \<and> bat_ok s' \<and> queue_same s s' \<and> host_map s' = host_map s \<and> if_heap s' = if_heap s \<and>
    (hop_of s a = None \<longrightarrow> sent s' = sent s) \<and>
    ((\<forall>j. writes s j = Written) \<longrightarrow> ok \<and> (\<forall>b addr. hop_of s a = Some (b, addr) \<longrightarrow>
       sent s' = \<lparr>f_sock = raw_sock b, f_shost = hw_addr b, f_dhost = addr, f_bytes = bytes_of_unicast_packet
         \<lparr>unicast_packet_type = BAT_UNICAST, unicast_version = COMPAT_VERSION, dest = a, unicast_ttl = TTL\<rparr> @ payload\<rparr> # sent s))"
proof (cases "hop_of s a")
  case None
  then have "tap_unicast a payload s = Some (True, s)" by (simp add: tap_unicast_def next_hop_eq [OF bat_ok_net [OF assms]])
  with assms None show ?thesis by (intro exI [of _ True] exI [of _ s]) simp
next
  case (Some x)
  obtain b addr where x: "x = (b, addr)" by fastforce
  let ?bytes = "bytes_of_unicast_packet
         \<lparr>unicast_packet_type = BAT_UNICAST, unicast_version = COMPAT_VERSION, dest = a, unicast_ttl = TTL\<rparr> @ payload"
  obtain res w fs where r: "send_packet ?bytes (hw_addr b) addr (raw_sock b) s = (res, wrote s w fs)"
      "(\<forall>j. writes s j = Written) \<longrightarrow> res \<and> fs = [\<lparr>f_sock = raw_sock b, f_shost = hw_addr b, f_dhost = addr, f_bytes = ?bytes\<rparr>]"
    by (rule send_packet_wrote)
  then have "tap_unicast a payload s = Some (res, wrote s w fs)"
    using Some x by (simp add: tap_unicast_def next_hop_eq [OF bat_ok_net [OF assms]])
  with r(2) Some x bat_ok_wrote [OF assms, of w fs] show ?thesis by simp
qed

lemma origs_frame:
  assumes "net_ok s" "trans_frame s s'"
  shows "orig_map s' = orig_map s"
proof -
  have "map_option o_orig (orig_heap s' p) = map_option o_orig (orig_heap s p)" for p
    using trans_frame_orig [OF assms(2), of p] trans_frame_same [OF assms(2)]
    by (cases "orig_heap s p") (auto, metis option.map_disc_iff)
  moreover have "orig_hash s' = orig_hash s" "brk s \<le> brk s'" using assms(2) by (simp_all add: trans_frame_def)
  ultimately show ?thesis using origs_ok_frame [of s s'] assms(1) by (simp add: net_ok_def)
qed

text \<open>The table of the hosts after \<open>hna_add\<close> for a host and the address of our first interface.\<close>

definition learnt :: "bat_state \<Rightarrow> mac \<Rightarrow> mac \<Rightarrow> mac \<rightharpoonup> mac" where
  "learnt s h mymac =
     (if ignored_mac h \<or> (\<exists>old. host_map s h = Some old \<and> my_mac s old) then host_map s else (host_map s)(h \<mapsto> mymac))"

lemma hop_of_trans_frame:
  assumes "net_ok s" "trans_frame s s'" "orig_map s' = orig_map s"
  shows "hop_of s' = hop_of s"
proof -
  have "o_batman_if (the (orig_heap s' p)) = o_batman_if (the (orig_heap s p)) \<and> router (the (orig_heap s' p)) = router (the (orig_heap s p))"
    if pa: "orig_map s a = Some p" for a p
  proof -
    have o: "origs_ok s" using assms(1) by (simp add: net_ok_def)
    obtain n where n: "orig_heap s p = Some n" using orig_map_Some [OF o, of a p] pa by blast
    then show ?thesis using trans_frame_orig [OF assms(2) n] by auto
  qed
  moreover have "if_heap s' = if_heap s" "neigh_heap s' = neigh_heap s" using assms(2) by (simp_all add: trans_frame_def)
  ultimately have "hop_of s' a = hop_of s a" for a using assms(3) by (cases "orig_map s a") (simp_all add: hop_of_def split: option.split)
  then show ?thesis by (simp add: fun_eq_iff)
qed

lemma tap_frame_eq:
  assumes "bat_ok s" "first_if s = Some (i, my)" "hm = learnt s h (hw_addr my)" "payload = mac_bytes d @ mac_bytes h @ rest"
  shows "\<exists>ok s'. tap_frame d h rest s = Some (ok, s') \<and> bat_ok s' \<and> queue_same s s' \<and> host_map s' = hm \<and>
    (if \<exists>a. hm d = Some a \<and> \<not> is_broadcast_address a \<and> \<not> is_multicast_address a
     then if_heap s' = if_heap s \<and> (hop_of s (the (hm d)) = None \<longrightarrow> sent s' = sent s) \<and>
       ((\<forall>j. writes s j = Written) \<longrightarrow> ok \<and> (\<forall>b addr. hop_of s (the (hm d)) = Some (b, addr) \<longrightarrow>
          sent s' = \<lparr>f_sock = raw_sock b, f_shost = hw_addr b, f_dhost = addr, f_bytes = bytes_of_unicast_packet
            \<lparr>unicast_packet_type = BAT_UNICAST, unicast_version = COMPAT_VERSION, dest = the (hm d), unicast_ttl = TTL\<rparr> @ payload\<rparr> # sent s))
     else if_heap s' = (if_heap s)(i \<mapsto> my\<lparr>bcast_seqno := bcast_seqno my + 1\<rparr>) \<and>
       ((\<forall>j. writes s j = Written) \<longrightarrow> ok \<and> sent s' = rev (map (copy_on s broadcastAddr (bytes_of_bcast_packet (little_endian s)
         \<lparr>bcast_packet_type = BAT_BCAST, bcast_version = COMPAT_VERSION, bcast_orig = hw_addr my,
          bcast_packet_seqno = htons (little_endian s) (bcast_seqno my)\<rparr> @ payload)) (if_list s)) @ sent s))"
proof -
  have net: "net_ok s" and tr: "trans_ok s" using assms(1) by (simp_all add: bat_ok_def net_ok_def)
  obtain t where t: "hna_add h (hw_addr my) s = Some t" "trans_ok t" "trans_frame s t" "host_map t = hm"
    using hna_add_eq [OF tr, of h "hw_addr my"] unfolding assms(3) learnt_def by (metis (full_types))
  have t2: "net_ok t" "keeps s t" using net_ok_trans_frame [OF net t(2,3)] by simp_all
  have bt: "bat_ok t" using bat_ok_keeps [OF assms(1) t2] .
  have same: "if_heap t = if_heap s" "if_list t = if_list s" "writes t = writes s" "sent t = sent s" "little_endian t = little_endian s"
    using t2(2) by (simp_all add: keeps_defs)
  have qt: "queue_same t = queue_same s" using t2(2) by (simp add: fun_eq_iff queue_same_def keeps_defs)
  have om: "orig_map t = orig_map s" using origs_frame [OF net t(3)] .
  have hop: "hop_of t = hop_of s" using hop_of_trans_frame [OF net t(3) om] .
  have cp: "copy_on t = copy_on s" by (simp add: copy_on_def [abs_def] if_ids_def [abs_def] same)
  have ft: "first_if t = Some (i, my)" using assms(2) unfolding first_if_def same .
  have eq: "tap_frame d h rest s = (let dhost = (case hm d of None \<Rightarrow> broadcastAddr | Some b \<Rightarrow> b) in
      if is_broadcast_address dhost \<or> is_multicast_address dhost then tap_broadcast payload t else tap_unicast dhost payload t)"
    using assms(2,4) t(1,4) by (simp add: tap_frame_def transtable_search_eq [OF t(2)] Let_def)
  have bc: "is_broadcast_address broadcastAddr" by (simp add: is_broadcast_address_def)
  show ?thesis
  proof (cases "\<exists>a. hm d = Some a \<and> \<not> is_broadcast_address a \<and> \<not> is_multicast_address a")
    case True
    then obtain a where a: "hm d = Some a" "\<not> is_broadcast_address a" "\<not> is_multicast_address a" by blast
    then have e: "tap_frame d h rest s = tap_unicast a payload t" using eq by simp
    show ?thesis unfolding e using tap_unicast_eq [OF bt, of a payload] True a(1) unfolding hop same t(4) qt by simp
  next
    case False
    then have e: "tap_frame d h rest s = tap_broadcast payload t" using eq bc by (cases "hm d") auto
    show ?thesis unfolding e using tap_broadcast_eq [OF bt ft, of payload] False unfolding cp same t(4) qt by (simp only: if_False)
  qed
qed

section \<open>Delivery and loss\<close>

text \<open>A unicast packet at the node of its destination, and one whose time to live has run out.\<close>

lemma recv_frame_delivers:
  assumes "bat_ok s" "\<not> is_broadcast_address d" "\<not> is_broadcast_address h" "unicast_packet_type u = BAT_UNICAST" "my_mac s (dest u)"
  shows "recv_frame i d h (bytes_of_unicast_packet u @ payload) s = Some (Rx_next, i, s\<lparr>tap_written := payload # tap_written s\<rparr>)"
  using recv_unicast_eq [OF bat_ok_net [OF assms(1)] assms(2,3) unicast_packet_at_bytes, of u payload] assms(5)
  by (auto simp: recv_frame_unicast [OF assms(4)])

lemma recv_frame_drops:
  assumes "bat_ok s" "\<not> is_broadcast_address d" "\<not> is_broadcast_address h" "unicast_packet_type u = BAT_UNICAST" "\<not> my_mac s (dest u)"
    and "unicast_ttl u < 2"
  shows "recv_frame i d h (bytes_of_unicast_packet u @ payload) s = Some (Rx_next, i, s)"
  using recv_unicast_eq [OF bat_ok_net [OF assms(1)] assms(2,3) unicast_packet_at_bytes, of u payload] assms(5,6)
  by (auto simp: recv_frame_unicast [OF assms(4)] routed_def)

text \<open>A node with a route to another one and a host behind it.\<close>

lemma example_host:
  assumes "a \<noteq> my" "a \<noteq> MAC 2 0 0 0 0 2"
  shows "\<exists>s b. bat_ok s \<and> first_if s = Some (10, b) \<and> hw_addr b = my \<and> hop_of s a = Some (b, r) \<and> (\<forall>j. writes s j = Written) \<and>
     host_map s (MAC 2 0 0 0 0 77) = Some a"
proof -
  let ?x = "MAC 2 0 0 0 0 77"
  obtain s b where s: "bat_ok s" "first_if s = Some (10, b)" "hw_addr b = my" "hop_of s a = Some (b, r)" "\<forall>j. writes s j = Written"
    using example_node [OF assms, of r] by blast
  have net: "net_ok s" by (rule bat_ok_net [OF s(1)])
  then have tr: "trans_ok s" "\<not> ignored_mac ?x" by (simp_all add: net_ok_def ignored_mac_def bcast_addr_def zero_addr_def)
  obtain u where u: "trans_ok u" "trans_frame s u" "host_map u = (host_map s)(?x \<mapsto> a)"
    using transtable_add_eq [OF tr, of a] by blast
  have ku: "net_ok u" "keeps s u" using net_ok_trans_frame [OF net u(1,2)] by simp_all
  have "hop_of u = hop_of s" by (rule hop_of_trans_frame [OF net u(2) origs_frame [OF net u(2)]])
  moreover have "if_list u = if_list s" "if_heap u = if_heap s" "writes u = writes s" using ku(2) by (simp_all add: keeps_defs)
  moreover have "first_if u = first_if s" unfolding first_if_def calculation ..
  ultimately show ?thesis using bat_ok_keeps [OF s(1) ku] s u(3) by (intro exI [of _ u] exI [of _ b]) simp
qed

section \<open>Properties\<close>

text \<open>
  C16: a frame of a local host. The host is entered into the translation table, unless its address is
  not a valid one or it is known as ours. A frame for a host behind another node goes as a unicast
  packet with a full time to live to the router of that node, and nowhere when there is no route; a
  frame for an unknown host, or for one whose node is a broadcast or multicast address, goes as a
  broadcast packet with the next broadcast number to all interfaces. Both carry the whole frame.
  The invariant of the daemon is kept even when the writes fail.
\<close>

theorem tap_frame_spec:
  assumes "bat_ok s" "first_if s = Some (i, my)" "hm = learnt s h (hw_addr my)" "payload = mac_bytes d @ mac_bytes h @ rest"
  shows "\<exists>ok s'. tap_frame d h rest s = Some (ok, s') \<and> bat_ok s' \<and> host_map s' = hm \<and>
    (if \<exists>a. hm d = Some a \<and> \<not> is_broadcast_address a \<and> \<not> is_multicast_address a
     then if_heap s' = if_heap s \<and> (hop_of s (the (hm d)) = None \<longrightarrow> sent s' = sent s) \<and>
       ((\<forall>j. writes s j = Written) \<longrightarrow> ok \<and> (\<forall>b addr. hop_of s (the (hm d)) = Some (b, addr) \<longrightarrow>
          sent s' = \<lparr>f_sock = raw_sock b, f_shost = hw_addr b, f_dhost = addr, f_bytes = bytes_of_unicast_packet
            \<lparr>unicast_packet_type = BAT_UNICAST, unicast_version = COMPAT_VERSION, dest = the (hm d), unicast_ttl = TTL\<rparr> @ payload\<rparr> # sent s))
     else if_heap s' = (if_heap s)(i \<mapsto> my\<lparr>bcast_seqno := bcast_seqno my + 1\<rparr>) \<and>
       ((\<forall>j. writes s j = Written) \<longrightarrow> ok \<and> sent s' = rev (map (copy_on s broadcastAddr (bytes_of_bcast_packet (little_endian s)
         \<lparr>bcast_packet_type = BAT_BCAST, bcast_version = COMPAT_VERSION, bcast_orig = hw_addr my,
          bcast_packet_seqno = htons (little_endian s) (bcast_seqno my)\<rparr> @ payload)) (if_list s)) @ sent s))"
  using tap_frame_eq [OF assms] by blast

theorem tap_frame_spec_witness:
  "\<exists>ok s' my. first_if example_state = Some (10, my) \<and>
     tap_frame (MAC 2 0 0 0 0 77) (MAC 2 0 0 0 0 78) [8, 0] example_state = Some (ok, s') \<and> ok \<and> bat_ok s' \<and>
     host_map s' (MAC 2 0 0 0 0 78) = Some (MAC 2 0 0 0 0 1) \<and> length (sent s') = 2"
proof -
  obtain my where my: "first_if example_state = Some (10, my)" "hw_addr my = MAC 2 0 0 0 0 1"
    by (simp add: first_if_def example_state_def)
  have hm: "learnt example_state (MAC 2 0 0 0 0 78) (hw_addr my) = [MAC 2 0 0 0 0 78 \<mapsto> MAC 2 0 0 0 0 1]"
    using my(2) by (simp add: learnt_def ignored_mac_def bcast_addr_def zero_addr_def host_map_def [abs_def] hash_map_def)
      (simp add: example_state_def fun_eq_iff)
  have "\<forall>j. writes example_state j = Written" "sent example_state = []" "if_list example_state = [10, 11]"
    by (simp_all add: example_state_def)
  with my(1) tap_frame_spec [OF example_bat_ok my(1) hm [symmetric] refl, of "MAC 2 0 0 0 0 77" "[8, 0]"]
  show ?thesis by auto
qed

text \<open>
  C10: the way of a frame through the mesh, over several nodes each in its own state. The frame of a
  host for one behind another node enters at the first node and leaves on an interface of it; every
  node on the way receives it under the address to which the one before has sent it, and sends it, with
  the address of its own interface, to the address of the router that it has for the destination. When
  the routers lead to the node of the destination over at most 49 nodes, it is delivered there to the
  tap interface byte for byte and goes no further. Over 50 or more nodes, for example in a routing loop,
  the fiftieth one drops it because its time to live has run out.
\<close>

theorem unicast_end_to_end:
  assumes "bat_ok s" "first_if s = Some (i, my)" "\<forall>j. writes s j = Written"
    and "learnt s h (hw_addr my) d = Some a" "\<not> is_broadcast_address a" "\<not> is_multicast_address a"
    and "mesh_ok M" "follows M a s (path @ [(j, s2)])" "on_the_way a path" "my_mac s2 a"
  shows "\<exists>s' fr. tap_frame d h rest s = Some (True, s') \<and> sent s' = fr # sent s \<and> leaves s fr \<and>
    (if length path < 50
     then \<exists>fr2. relay M (length path) fr = Some fr2 \<and> M (f_shost fr2) (f_dhost fr2) = Some (j, s2) \<and>
       recv_frame j (f_dhost fr2) (f_shost fr2) (f_bytes fr2) s2 =
         Some (Rx_next, j, s2\<lparr>tap_written := (mac_bytes d @ mac_bytes h @ rest) # tap_written s2\<rparr>)
     else \<exists>fr2 k t. relay M 49 fr = Some fr2 \<and> M (f_shost fr2) (f_dhost fr2) = Some (k, t) \<and> (k, t) = path ! 49 \<and>
       recv_frame k (f_dhost fr2) (f_shost fr2) (f_bytes fr2) t = Some (Rx_next, k, t))"
proof -
  let ?u = "\<lparr>unicast_packet_type = BAT_UNICAST, unicast_version = COMPAT_VERSION, dest = a, unicast_ttl = TTL\<rparr>"
  let ?p = "mac_bytes d @ mac_bytes h @ rest"
  have ttl: "unat TTL = 50" by (simp add: TTL_def)
  obtain b addr where hop: "hop_of s a = Some (b, addr)" using assms(8) by (cases path) (auto split: option.splits)
  define fr where "fr = frame_via b addr (bytes_of_unicast_packet ?u @ ?p)"
  obtain s' where s': "tap_frame d h rest s = Some (True, s')" "sent s' = fr # sent s"
    using tap_frame_eq [OF assms(1,2) refl refl, of d h rest] assms(3-6) hop by (auto simp: fr_def frame_via_def)
  have lv: "leaves s fr" unfolding fr_def by (rule leaves_hop [OF assms(1) hop])
  have rel: "\<exists>c r. relay M (length path') fr = Some (frame_via c r (bytes_of_unicast_packet (?u\<lparr>unicast_ttl := TTL - of_nat (length path')\<rparr>) @ ?p)) \<and>
      M (hw_addr c) r = Some x" if "on_the_way a path'" "follows M a s (path' @ [x])" "length path' < 50" for path' x
    using unicast_relay [of M ?u path' s x b addr ?p] assms(7) that hop ttl by (simp add: fr_def)
  show ?thesis
  proof (cases "length path < 50")
    case True
    obtain c r where cr: "relay M (length path) fr = Some (frame_via c r (bytes_of_unicast_packet (?u\<lparr>unicast_ttl := TTL - of_nat (length path)\<rparr>) @ ?p))"
        "M (hw_addr c) r = Some (j, s2)" using rel [OF assms(9,8) True] by blast
    have m: "\<not> is_broadcast_address (hw_addr c)" "\<not> is_broadcast_address r" "bat_ok s2" using assms(7) cr(2) unfolding mesh_ok_def by blast+
    have "recv_frame j r (hw_addr c) (bytes_of_unicast_packet (?u\<lparr>unicast_ttl := TTL - of_nat (length path)\<rparr>) @ ?p) s2 =
        Some (Rx_next, j, s2\<lparr>tap_written := ?p # tap_written s2\<rparr>)"
      by (rule recv_frame_delivers [OF m(3,2,1)]) (simp_all add: assms(10))
    with True s' lv cr show ?thesis by simp
  next
    case False
    define path' where "path' = take 49 path"
    obtain k t where x: "path ! 49 = (k, t)" by fastforce
    have split: "path @ [(j, s2)] = path' @ (k, t) # (drop 50 path @ [(j, s2)])"
      using False id_take_nth_drop [of 49 path] by (simp add: path'_def x)
    have fol: "follows M a s (path' @ [(k, t)])" using follows_append [OF assms(8) [unfolded split]] by blast
    have mem: "(k, t) \<in> set path" using nth_mem [of 49 path] False x by simp
    have way: "on_the_way a path'" "\<not> my_mac t a" using assms(9) mem set_take_subset [of 49 path] by (auto simp: on_the_way_def path'_def)
    have len: "length path' = 49" using False by (simp add: path'_def)
    obtain c r where cr: "relay M 49 fr = Some (frame_via c r (bytes_of_unicast_packet (?u\<lparr>unicast_ttl := TTL - 49\<rparr>) @ ?p))"
        "M (hw_addr c) r = Some (k, t)" using rel [OF way(1) fol] by (auto simp: len)
    have m: "\<not> is_broadcast_address (hw_addr c)" "\<not> is_broadcast_address r" "bat_ok t" using assms(7) cr(2) unfolding mesh_ok_def by blast+
    have "recv_frame k r (hw_addr c) (bytes_of_unicast_packet (?u\<lparr>unicast_ttl := TTL - 49\<rparr>) @ ?p) t = Some (Rx_next, k, t)"
      by (rule recv_frame_drops [OF m(3,2,1)]) (simp_all add: way(2), simp add: TTL_def word_less_nat_alt)
    with False s' lv cr x show ?thesis by simp
  qed
qed

theorem unicast_end_to_end_witness:
  "\<exists>M s s' t s2 fr fr2. tap_frame (MAC 2 0 0 0 0 77) (MAC 2 0 0 0 0 78) [8, 0] s = Some (True, s') \<and> sent s' = fr # sent s \<and>
     M (MAC 2 0 0 0 0 1) (MAC 2 0 0 0 0 7) = Some (10, t) \<and> M (MAC 2 0 0 0 0 7) (MAC 2 0 0 0 0 9) = Some (10, s2) \<and>
     relay M 1 fr = Some fr2 \<and>
     recv_frame 10 (f_dhost fr2) (f_shost fr2) (f_bytes fr2) s2 =
       Some (Rx_next, 10, s2\<lparr>tap_written := [2, 0, 0, 0, 0, 77, 2, 0, 0, 0, 0, 78, 8, 0] # tap_written s2\<rparr>)"
proof -
  let ?a1 = "MAC 2 0 0 0 0 1" and ?a7 = "MAC 2 0 0 0 0 7" and ?a9 = "MAC 2 0 0 0 0 9"
  have ne: "?a9 \<noteq> ?a1" "?a9 \<noteq> ?a7" "?a1 \<noteq> ?a9" "?a9 \<noteq> MAC 2 0 0 0 0 2" "?a1 \<noteq> MAC 2 0 0 0 0 2" by simp_all
  obtain s b where s: "bat_ok s" "first_if s = Some (10, b)" "hw_addr b = ?a1" "hop_of s ?a9 = Some (b, ?a7)" "\<forall>j. writes s j = Written"
      "host_map s (MAC 2 0 0 0 0 77) = Some ?a9" using example_host [OF ne(1,4)] by blast
  obtain t c where t: "bat_ok t" "if_list t = [10, 11]" "if_heap t 10 = Some c" "hw_addr c = ?a7" "hop_of t ?a9 = Some (c, ?a9)"
      "\<not> my_mac t ?a9" "\<forall>j. writes t j = Written" using example_node [OF ne(2,4), of ?a9] by blast
  obtain s2 e where s2: "bat_ok s2" "if_list s2 = [10, 11]" "if_heap s2 10 = Some e" "hw_addr e = ?a9" "my_mac s2 ?a9"
    using example_node [OF ne(3,5), of ?a7] by blast
  define M where "M = (\<lambda>h d. if h = ?a1 \<and> d = ?a7 then Some (10 :: nat, t) else if h = ?a7 \<and> d = ?a9 then Some (10, s2) else None)"
  have nb: "\<not> is_broadcast_address (MAC 2 0 0 0 0 k)" "\<not> is_multicast_address (MAC 2 0 0 0 0 k)" for k
    by (simp_all add: is_broadcast_address_def is_multicast_address_def broadcastAddr_def)
  have links: "M ?a1 ?a7 = Some (10, t)" "M ?a7 ?a9 = Some (10, s2)" by (simp_all add: M_def)
  have mesh: "mesh_ok M" unfolding mesh_ok_def M_def using t s2 nb by auto
  have fol: "follows M ?a9 s ([(10, t)] @ [(10, s2)])" using s t links by simp
  have way: "on_the_way ?a9 [(10, t)]" using t by (simp add: on_the_way_def)
  have hm: "learnt s (MAC 2 0 0 0 0 78) (hw_addr b) (MAC 2 0 0 0 0 77) = Some ?a9" using s(6) by (simp add: learnt_def)
  have len: "length [(10 :: nat, t)] = 1" "(1 :: nat) < 50" by simp_all
  from unicast_end_to_end [OF s(1,2,5) hm nb mesh fol way s2(5), of "[8, 0]"] links
  show ?thesis by (simp only: len if_True mac_bytes.simps append_Cons append_Nil) blast
qed

end
