(* ===== verification/Vis.thy ===== *)
theory Vis
  imports Recv_Inv
begin

text \<open>
  The packet for the visualisation server: \<open>generate_vis_packet\<close> of \<open>src/batman-adv.c\<close>. As long as the
  packet fits into the 16 bits of its size the function returns, and the theory says what the packet
  contains; a longer packet is undefined behaviour.
\<close>

section \<open>A growing packet\<close>

text \<open>The state with the packet \<open>v\<close>.\<close>

definition holding :: "u8 list \<Rightarrow> bat_state \<Rightarrow> bat_state" where
  "holding v s = s\<lparr>vis_packet_buff := Some v, vis_packet_size := of_nat (length v)\<rparr>"

lemma holding_simps [simp]:
  "vis_packet_buff (holding v s) = Some v" "vis_packet_size (holding v s) = of_nat (length v)" "orig_heap (holding v s) = orig_heap s"
  "neigh_heap (holding v s) = neigh_heap s" "if_heap (holding v s) = if_heap s" "if_list (holding v s) = if_list s"
  "g_num_hna (holding v s) = g_num_hna s" "g_hna_buff (holding v s) = g_hna_buff s" "orig_hash (holding v s) = orig_hash s"
  "found_ifs (holding v s) = found_ifs s" "holding w (holding v s) = holding w s"
  by (simp_all add: holding_def)

lemma length_vis_data [simp]: "length (bytes_of_vis_data d) = 8"
  by (cases "vis_mac d") (simp add: bytes_of_vis_data_def)

lemma unat_size: "n < 65536 \<Longrightarrow> unat (of_nat n :: u16) = n" "n < 65536 \<Longrightarrow> uint (of_nat n :: u16) = int n"
  by (simp_all add: unsigned_of_nat take_bit_nat_eq_self uint_nat)

lemma wrapped_size: "a < 65536 \<Longrightarrow> 65536 \<le> a + b \<Longrightarrow> b \<le> 65536 \<Longrightarrow> (a + b) mod 65536 = a + b - (65536 :: nat)"
  by (subst le_mod_geq) (auto intro: mod_less)

text \<open>The packet after it has grown by some bytes: the new size is cut to 16 bits.\<close>

lemma vis_grow_eq:
  "vis_grow junk n (holding v s) =
   (let k = (length v + unat n) mod 65536 in Some (holding (take k v @ map junk [length v ..< k]) s))"
proof -
  let ?k = "(length v + unat n) mod 65536"
  have size: "of_nat (length v) + (ucast n :: u16) = of_nat ?k"
  proof -
    have "(ucast n :: u16) = of_nat (unat n)" by transfer (simp add: take_bit_eq_mod mod_mod_cancel)
    then have "of_nat (length v) + (ucast n :: u16) = of_nat (length v + unat n)" by simp
    also have "\<dots> = of_nat ?k" unfolding word_of_nat_eq_iff by (simp add: take_bit_nat_def)
    finally show ?thesis .
  qed
  have k: "unat (of_nat ?k :: u16) = ?k" by (rule unat_size) simp
  have len: "length (take ?k v @ map junk [length v ..< ?k]) = ?k" by (simp add: min_def)
  show ?thesis unfolding vis_grow_def holding_simps by (simp add: size k Let_def len) (simp add: holding_def len del: length_append)
qed

lemma vis_put_eq:
  assumes "length x = 8"
  shows "vis_put (int (length v)) d (holding (v @ x @ w) s) = Some (holding (v @ bytes_of_vis_data d @ w) s)"
  using assms by (simp add: vis_put_def sizeof_vis_data_def nat_add_distrib) (simp add: holding_def)

lemma vis_add_eq:
  assumes "length v < 65536"
  shows "vis_add junk d (holding v s) = (if length v + 8 < 65536 then Some (holding (v @ bytes_of_vis_data d) s) else None)"
proof (cases "length v + 8 < 65536")
  case True
  let ?x = "map junk [length v ..< length v + 8]"
  have "vis_grow junk 8 (holding v s) = Some (holding (v @ ?x) s)"
    unfolding vis_grow_eq using True by (simp add: Let_def)
  moreover have "uint (vis_packet_size (holding (v @ ?x) s)) - 8 = int (length v)" using True unat_size(2) [of "length v + 8"] by simp
  moreover have "vis_put (int (length v)) d (holding (v @ ?x) s) = Some (holding (v @ bytes_of_vis_data d) s)"
    using vis_put_eq [of ?x v d "[]" s] by simp
  ultimately show ?thesis using True by (simp add: vis_add_def sizeof_vis_data_def del: holding_simps)
next
  case False
  let ?k = "(length v + 8) mod 65536"
  have k: "?k < 8" using wrapped_size [OF assms, of 8] False assms by simp
  obtain t where t: "vis_grow junk 8 (holding v s) = Some t" "vis_packet_size t = of_nat ?k"
    unfolding vis_grow_eq by (simp add: Let_def min_def)
  have "uint (vis_packet_size t) < 8" using k by (simp add: t(2) unat_size)
  with t(1) False show ?thesis by (cases "vis_packet_buff t") (simp_all add: vis_add_def vis_put_def sizeof_vis_data_def)
qed

section \<open>The neighbours\<close>

text \<open>The entry of an originator that is its own router with a quality that is not zero.\<close>

definition vis_entry :: "bat_state \<Rightarrow> nat \<Rightarrow> u8 list" where
  "vis_entry s p =
     (case router (the (orig_heap s p)) of
        None \<Rightarrow> []
      | Some q \<Rightarrow>
          let n = the (orig_heap s p); m = the (neigh_heap s q) in
          if o_orig n = n_addr m \<and> tq_avg m > 0
          then bytes_of_vis_data \<lparr>vis_type = DATA_TYPE_NEIGH, vis_value = tq_avg m, vis_mac = o_orig n\<rparr> else [])"

abbreviation fits_size :: "u8 list \<Rightarrow> bool" where "fits_size v \<equiv> length v < 65536"

lemma vis_neighbour_eq:
  assumes "net_ok s" "p \<in> set (hash_entries (orig_hash s))" "fits_size v"
  shows "vis_neighbour junk p (holding v s) =
    (if fits_size (v @ vis_entry s p) then Some (False, holding (v @ vis_entry s p) s) else None)"
proof -
  have "origs_ok s" using assms(1) by (simp add: net_ok_def)
  then obtain n where n: "orig_heap s p = Some n" using assms(2) by (auto simp: origs_ok_def)
  show ?thesis
  proof (cases "router n")
    case None
    with n assms(3) show ?thesis by (simp add: vis_neighbour_def vis_entry_def)
  next
    case (Some q)
    then have "q \<in> set (neigh_list n)" "neigh_heap s q \<noteq> None"
      using net_ok_orig [OF assms(1) n] by (auto simp: orig_ok_def)
    then obtain m where "neigh_heap s q = Some m" by blast
    with n Some assms(3) show ?thesis by (simp add: vis_neighbour_def vis_entry_def vis_add_eq)
  qed
qed

lemma vis_chain:
  assumes "net_ok s" "snd ` set c \<subseteq> set (hash_entries (orig_hash s))" "fits_size v"
  shows "sweep_chain (vis_neighbour junk) c (holding v s) =
    (let w = v @ concat (map (vis_entry s \<circ> snd) c) in if fits_size w then Some (c, holding w s) else None)"
  using assms(2,3)
proof (induction c arbitrary: v)
  case (Cons b c)
  obtain a p where b: "b = (a, p)" by fastforce
  have p: "p \<in> set (hash_entries (orig_hash s))" using Cons.prems(1) b by simp
  from Cons.IH [of "v @ vis_entry s p"] Cons.prems vis_neighbour_eq [OF assms(1) p Cons.prems(2), of junk] show ?case
    by (cases "fits_size (v @ vis_entry s p)") (simp_all add: b Let_def)
qed simp

lemma vis_table:
  assumes "net_ok s" "snd ` set (concat t) \<subseteq> set (hash_entries (orig_hash s))" "fits_size v"
  shows "sweep_table (vis_neighbour junk) t (holding v s) =
    (let w = v @ concat (map (vis_entry s \<circ> snd) (concat t)) in if fits_size w then Some (t, holding w s) else None)"
  using assms(2,3)
proof (induction t arbitrary: v)
  case (Cons c t)
  let ?w = "v @ concat (map (vis_entry s \<circ> snd) c)"
  have "snd ` set c \<subseteq> set (hash_entries (orig_hash s))" "snd ` set (concat t) \<subseteq> set (hash_entries (orig_hash s))"
    using Cons.prems by auto
  with vis_chain [OF assms(1), of c v junk] Cons.IH [of ?w] Cons.prems(2) show ?case
    by (cases "fits_size ?w") (simp_all add: o_def Let_def)
qed simp

lemma vis_neighbours:
  assumes "net_ok s" "fits_size v"
  shows "hash_loop (vis_neighbour junk) (orig_hash s) None (holding v s) =
    (let w = v @ concat (map (vis_entry s) (hash_entries (orig_hash s))) in
     if fits_size w then Some (orig_hash s, holding w s) else None)"
proof -
  let ?w = "v @ concat (map (vis_entry s \<circ> snd) (concat (table (orig_hash s))))"
  have "sweep_table (vis_neighbour junk) (table (orig_hash s)) (holding v s) =
      (if fits_size ?w then Some (table (orig_hash s), holding ?w s) else None)"
    using vis_table [OF assms(1) _ assms(2), of "table (orig_hash s)" junk] by (simp add: hash_entries_def Let_def)
  moreover have "set_table (orig_hash s) (table (orig_hash s)) = orig_hash s" by (simp add: set_table_def)
  ultimately show ?thesis by (simp add: hash_loop_sweep [OF net_ok_table [OF assms(1)]] hash_entries_def Let_def)
qed

section \<open>Interfaces and hosts\<close>

definition vis_if_entry :: "bat_state \<Rightarrow> mac \<Rightarrow> nat \<Rightarrow> u8 list" where
  "vis_if_entry s sender j =
     (if hw_addr (the (if_heap s j)) = sender
      then bytes_of_vis_data \<lparr>vis_type = DATA_TYPE_SEC_IF, vis_value = 0, vis_mac = sender\<rparr> else [])"

lemma vis_interfaces_eq:
  assumes "\<And>j. j \<in> set js \<Longrightarrow> if_heap s j \<noteq> None" "fits_size v"
  shows "vis_interfaces junk sender js (holding v s) =
    (let w = v @ concat (map (vis_if_entry s sender) js) in if fits_size w then Some (holding w s) else None)"
  using assms
proof (induction js arbitrary: v)
  case (Cons j js)
  then obtain b where "if_heap s j = Some b" by force
  with Cons show ?case by (auto simp: vis_if_entry_def vis_add_eq Let_def)
qed simp

definition vis_host :: "mac \<Rightarrow> u8 list" where
  "vis_host m = bytes_of_vis_data \<lparr>vis_type = DATA_TYPE_HNA, vis_value = 0, vis_mac = m\<rparr>"

definition vis_hosts :: "bat_state \<Rightarrow> u8 list" where
  "vis_hosts s = concat (map vis_host (macs_of (take (unat (g_num_hna s) * 6) (g_hna_buff s))))"

lemma length_vis_host [simp]: "length (vis_host m) = 8" by (simp add: vis_host_def)

lemma length_vis_hosts: "length (concat (map vis_host ms)) = 8 * length ms"
  by (induction ms) simp_all

lemma length_macs_of: "length bs = 6 * n \<Longrightarrow> length (macs_of bs) = n"
proof (induction n arbitrary: bs)
  case (Suc n)
  then obtain a b c d e f cs where "bs = a # b # c # d # e # f # cs" "length cs = 6 * n"
    by (auto simp: length_Suc_conv eval_nat_numeral)
  with Suc.IH show ?case by simp
qed simp

lemma vis_hna_loop_eq:
  "length x = 8 * length ms \<Longrightarrow> fits_size (v @ x) \<Longrightarrow>
   vis_hna_loop ms (holding (v @ x) s) = Some (holding (v @ concat (map vis_host ms)) s)"
proof (induction ms arbitrary: v x)
  case (Cons m ms)
  obtain x1 x2 where x: "x = x1 @ x2" "length x1 = 8" "length x2 = 8 * length ms"
    using Cons.prems(1) append_take_drop_id [of 8 x, symmetric] by (intro that [of "take 8 x" "drop 8 x"]) simp_all
  have l: "length ms < 8192" using Cons.prems by simp
  have "uint (of_nat (length (m # ms)) * word_of_int sizeof_vis_data :: u32) = int (8 * length (m # ms))"
    using l by (simp add: sizeof_vis_data_def uint_word_ariths uint_nat unat_of_nat unat_word_ariths)
  moreover have "uint (vis_packet_size (holding (v @ x) s)) = int (length v + length x)"
    using Cons.prems(2) unat_size(2) [of "length v + length x"] by simp
  ultimately have off: "uint (vis_packet_size (holding (v @ x) s)) - uint (of_nat (length (m # ms)) * word_of_int sizeof_vis_data :: u32) =
      int (length v)" using Cons.prems(1) by simp
  have "vis_hna_loop (m # ms) (holding (v @ x) s) = vis_hna_loop ms (holding ((v @ vis_host m) @ x2) s)"
    using vis_put_eq [OF x(2), of v "\<lparr>vis_type = DATA_TYPE_HNA, vis_value = 0, vis_mac = m\<rparr>" x2 s]
    unfolding vis_hna_loop.simps off by (simp add: x(1) vis_host_def)
  also have "\<dots> = Some (holding ((v @ vis_host m) @ concat (map vis_host ms)) s)"
    using Cons.prems x by (intro Cons.IH) simp_all
  finally show ?case by simp
qed simp

lemma vis_hna_eq:
  assumes "unat (g_num_hna s) * 6 \<le> length (g_hna_buff s)" "fits_size v"
  shows "fits_size (v @ vis_hosts s) \<Longrightarrow> vis_hna junk (holding v s) = Some (holding (v @ vis_hosts s) s)"
    and "g_num_hna s \<le> 255 \<Longrightarrow> \<not> fits_size (v @ vis_hosts s) \<Longrightarrow> vis_hna junk (holding v s) = None"
proof -
  let ?n = "unat (g_num_hna s)"
  let ?ms = "macs_of (take (?n * 6) (g_hna_buff s))"
  have ms: "length ?ms = ?n" using assms(1) by (intro length_macs_of) simp
  have len: "length (vis_hosts s) = 8 * ?n" by (simp add: vis_hosts_def length_vis_hosts ms)
  have u8: "unat (word_of_int sizeof_vis_data * g_num_hna s) = 8 * ?n" if "?n < 65536"
    using that by (simp add: sizeof_vis_data_def unat_word_ariths)
  {
    assume fit: "fits_size (v @ vis_hosts s)"
    let ?x = "map junk [length v ..< length v + 8 * ?n]"
    have "vis_grow junk (word_of_int sizeof_vis_data * g_num_hna s) (holding v s) = Some (holding (v @ ?x) s)"
      using fit len u8 unfolding vis_grow_eq by (simp add: Let_def)
    moreover have "vis_hna_loop ?ms (holding (v @ ?x) s) = Some (holding (v @ concat (map vis_host ?ms)) s)"
      using fit len ms by (intro vis_hna_loop_eq) simp_all
    ultimately show "vis_hna junk (holding v s) = Some (holding (v @ vis_hosts s) s)"
      using assms(1) by (simp add: vis_hna_def vis_hosts_def)
  }
  assume small: "g_num_hna s \<le> 255" and not: "\<not> fits_size (v @ vis_hosts s)"
  have n: "?n \<le> 255" using small by (simp add: word_le_nat_alt)
  let ?k = "(length v + 8 * ?n) mod 65536"
  have k: "int ?k < int (8 * ?n)" using wrapped_size [OF assms(2), of "8 * ?n"] assms(2) not n len by simp
  obtain t where t: "vis_grow junk (word_of_int sizeof_vis_data * g_num_hna s) (holding v s) = Some t" "vis_packet_size t = of_nat ?k"
      "g_num_hna t = g_num_hna s" "g_hna_buff t = g_hna_buff s"
    using u8 n unfolding vis_grow_eq by (simp add: Let_def min_def)
  obtain m ns where m: "?ms = m # ns" using ms k by (cases ?ms) auto
  have "uint (vis_packet_size t) = int ?k" by (simp add: t(2) unat_size)
  moreover have "uint (of_nat (length ?ms) * word_of_int sizeof_vis_data :: u32) = int (8 * ?n)"
    using n unfolding ms by (simp add: sizeof_vis_data_def uint_nat unat_of_nat unat_word_ariths del: of_nat_unat)
  ultimately have "vis_put (uint (vis_packet_size t) - uint (of_nat (length (m # ns)) * word_of_int sizeof_vis_data :: u32)) d t = None" for d
    using k unfolding m by (cases "vis_packet_buff t") (simp_all add: vis_put_def)
  then have "vis_hna_loop ?ms t = None" unfolding m vis_hna_loop.simps by simp
  then show "vis_hna junk (holding v s) = None" using assms(1) t by (simp add: vis_hna_def)
qed

text \<open>The entries behind the header.\<close>

definition vis_body :: "bat_state \<Rightarrow> mac \<Rightarrow> u8 list" where
  "vis_body s sender =
     concat (map (vis_entry s) (hash_entries (orig_hash s))) @
     (if found_ifs s > 1 then concat (map (vis_if_entry s sender) (if_list s)) else []) @ vis_hosts s"

text \<open>The packet fits into the 16 bits of its size.\<close>

definition vis_safe :: "bat_state \<Rightarrow> bool" where
  "vis_safe s \<longleftrightarrow> (\<forall>i my. first_if s = Some (i, my) \<longrightarrow> sizeof_vis_packet + int (length (vis_body s (hw_addr my))) < 2 ^ 16)"

lemma generate_vis_packet_eq:
  assumes "bat_ok s" "first_if s = Some (i, my)"
    and "v = bytes_of_vis_packet \<lparr>gw_class = gateway_class s, seq_range = 255, vis_pad = (junk 2, junk 3),
      vis_version = VIS_COMPAT_VERSION, sender_mac = hw_addr my\<rparr> @ vis_body s (hw_addr my)"
  shows "fits_size v \<Longrightarrow> generate_vis_packet junk s =
      Some (if vis_body s (hw_addr my) = [] then s\<lparr>vis_packet_buff := None, vis_packet_size := 0\<rparr> else holding v s)"
    and "\<not> fits_size v \<Longrightarrow> g_num_hna s \<le> 255 \<Longrightarrow> generate_vis_packet junk s = None"
proof -
  let ?h = "bytes_of_vis_packet \<lparr>gw_class = gateway_class s, seq_range = 255, vis_pad = (junk 2, junk 3),
      vis_version = VIS_COMPAT_VERSION, sender_mac = hw_addr my\<rparr>"
  have net: "net_ok s" and hna: "unat (g_num_hna s) * 6 \<le> length (g_hna_buff s)" using assms(1) by (simp_all add: bat_ok_def)
  have live: "if_heap s j \<noteq> None" if "j \<in> set (if_list s)" for j by (rule net_ok_if [OF net that]) simp
  define v1 where "v1 = ?h @ concat (map (vis_entry s) (hash_entries (orig_hash s)))"
  define v2 where "v2 = v1 @ (if found_ifs s > 1 then concat (map (vis_if_entry s (hw_addr my)) (if_list s)) else [])"
  have len: "length ?h = 11" by (cases "hw_addr my") (simp add: bytes_of_vis_packet_def)
  have v: "v = v2 @ vis_hosts s" by (simp add: assms(3) v2_def v1_def vis_body_def)
  have start: "s\<lparr>vis_packet_size := word_of_int sizeof_vis_packet, vis_packet_buff := Some ?h\<rparr> = holding ?h s"
    by (simp add: holding_def len sizeof_vis_packet_def)
  have h: "(holding w s)\<lparr>orig_hash := orig_hash s\<rparr> = holding w s" for w by (simp add: holding_def)
  define rest where "rest = (\<lambda>t. do {
     t \<leftarrow> (if found_ifs t > 1 then vis_interfaces junk (hw_addr my) (if_list t) t else Some t);
     t \<leftarrow> (if g_num_hna t > 0 then vis_hna junk t else Some t);
     Some (if uint (vis_packet_size t) = sizeof_vis_packet then t\<lparr>vis_packet_buff := None, vis_packet_size := 0\<rparr> else t) })"
  have gen: "generate_vis_packet junk s = (if fits_size v1 then rest (holding v1 s) else None)"
    using assms(2) vis_neighbours [OF net, of ?h junk] start
    by (simp add: generate_vis_packet_def TQ_MAX_VALUE_def Let_def len v1_def [symmetric] h rest_def)
  have ifs: "(if found_ifs s > 1 then vis_interfaces junk (hw_addr my) (if_list s) (holding v1 s) else Some (holding v1 s)) =
      (if fits_size v2 then Some (holding v2 s) else None)" if "fits_size v1"
    using vis_interfaces_eq [of "if_list s" s v1 junk "hw_addr my"] live that by (simp add: v2_def Let_def)
  have none: "vis_hosts s = []" if "g_num_hna s = 0" using that by (simp add: vis_hosts_def)
  {
    assume fit: "fits_size v"
    have fits: "fits_size v1" "fits_size v2" using fit by (simp_all add: v v2_def)
    have hosts: "(if g_num_hna s > 0 then vis_hna junk (holding v2 s) else Some (holding v2 s)) = Some (holding v s)"
      using vis_hna_eq(1) [OF hna fits(2)] fit none by (auto simp: v word_gt_0)
    have size: "uint (vis_packet_size (holding v s)) = sizeof_vis_packet \<longleftrightarrow> vis_body s (hw_addr my) = []"
      using fit by (simp add: unat_size sizeof_vis_packet_def) (simp add: assms(3) len)
    have "(holding v s)\<lparr>vis_packet_buff := None, vis_packet_size := 0\<rparr> = s\<lparr>vis_packet_buff := None, vis_packet_size := 0\<rparr>"
      by (simp add: holding_def)
    with size show "generate_vis_packet junk s =
        Some (if vis_body s (hw_addr my) = [] then s\<lparr>vis_packet_buff := None, vis_packet_size := 0\<rparr> else holding v s)"
      using gen fits ifs hosts by (simp add: rest_def cong: if_cong split del: if_split)
  }
  assume not: "\<not> fits_size v" and small: "g_num_hna s \<le> 255"
  show "generate_vis_packet junk s = None"
  proof (cases "fits_size v1 \<and> fits_size v2")
    case True
    then have "g_num_hna s > 0" using not none by (auto simp: v word_gt_0)
    with True vis_hna_eq(2) [OF hna _ small, of v2 junk] not ifs show ?thesis
      by (simp add: gen rest_def v cong: if_cong split del: if_split)
  qed (use gen ifs in \<open>auto simp: rest_def\<close>)
qed

lemma generate_vis_packet_ok:
  assumes "bat_ok s" "vis_safe s"
  shows "\<exists>v k. generate_vis_packet junk s = Some (s\<lparr>vis_packet_buff := v, vis_packet_size := k\<rparr>) \<and>
    bat_ok (s\<lparr>vis_packet_buff := v, vis_packet_size := k\<rparr>)"
proof -
  obtain i my where my: "first_if s = Some (i, my)" using first_if_ok [OF bat_ok_net [OF assms(1)]] .
  let ?v = "bytes_of_vis_packet \<lparr>gw_class = gateway_class s, seq_range = 255, vis_pad = (junk 2, junk 3),
      vis_version = VIS_COMPAT_VERSION, sender_mac = hw_addr my\<rparr> @ vis_body s (hw_addr my)"
  have ok: "bat_ok (s\<lparr>vis_packet_buff := v, vis_packet_size := k\<rparr>)" for v k
    using assms net_ok_fields [of "s\<lparr>vis_packet_buff := v, vis_packet_size := k\<rparr>" s] by (simp add: bat_ok_def queue_ok_def)
  have "fits_size ?v" using assms(2) my by (cases "hw_addr my") (simp add: vis_safe_def bytes_of_vis_packet_def sizeof_vis_packet_def)
  from generate_vis_packet_eq(1) [OF assms(1) my refl this] have
    "generate_vis_packet junk s = Some (s\<lparr>vis_packet_buff := None, vis_packet_size := 0\<rparr>) \<or>
     generate_vis_packet junk s = Some (s\<lparr>vis_packet_buff := Some ?v, vis_packet_size := of_nat (length ?v)\<rparr>)"
    by (auto simp: holding_def simp del: of_nat_Suc split: if_splits)
  with ok show ?thesis by blast
qed

section \<open>Properties\<close>

text \<open>
  C20: the packet for the visualisation server. It starts with the header, and lists in table order
  every originator that is its own router with a quality that is not zero, then the hosts that we
  announce; a packet without entries is discarded. With several interfaces it also lists, with the
  address of the first interface, those interfaces that have this address, and not the other ones:
  the loop skips an interface when its address differs. All of this holds as long as the packet is
  shorter than 65536 bytes. A longer one is undefined behaviour: the size is kept in 16 bits, so it
  wraps around, the block shrinks, and the next entry is written in front of it.
\<close>

theorem generate_vis_packet_spec:
  assumes "bat_ok s" "first_if s = Some (i, my)" "g_num_hna s \<le> 255"
    and "v = bytes_of_vis_packet \<lparr>gw_class = gateway_class s, seq_range = 255, vis_pad = (junk 2, junk 3),
      vis_version = VIS_COMPAT_VERSION, sender_mac = hw_addr my\<rparr> @ vis_body s (hw_addr my)"
  shows "generate_vis_packet junk s =
    (if 65536 \<le> length v then None
     else Some (if vis_body s (hw_addr my) = [] then s\<lparr>vis_packet_buff := None, vis_packet_size := 0\<rparr>
       else s\<lparr>vis_packet_buff := Some v, vis_packet_size := of_nat (length v)\<rparr>))"
  using generate_vis_packet_eq [where junk = junk, OF assms(1,2,4)] assms(3) by (simp add: not_less holding_def)

theorem generate_vis_packet_spec_witness:
  "\<exists>s'. generate_vis_packet (\<lambda>_. 0) example_state = Some s' \<and>
     vis_packet_buff s' = Some [0, 255, 0, 0, VIS_COMPAT_VERSION, 2, 0, 0, 0, 0, 1, DATA_TYPE_SEC_IF, 0, 2, 0, 0, 0, 0, 1]"
proof -
  obtain my where my: "first_if example_state = Some (10, my)" "hw_addr my = MAC 2 0 0 0 0 1"
    by (simp add: first_if_def example_state_def)
  have "hash_entries (orig_hash example_state) = []" by (simp add: example_state_def)
  moreover have "vis_hosts example_state = []" by (simp add: vis_hosts_def) (simp add: example_state_def)
  ultimately have body: "vis_body example_state (hw_addr my) = [DATA_TYPE_SEC_IF, 0, 2, 0, 0, 0, 0, 1]"
    by (simp add: vis_body_def) (simp add: vis_if_entry_def example_state_def my(2) bytes_of_vis_data_def)
  have "g_num_hna example_state \<le> 255" "gateway_class example_state = 0" by (simp_all add: example_state_def)
  with generate_vis_packet_spec [OF example_bat_ok my(1) _ refl, of "\<lambda>_. 0"] show ?thesis
    by (simp add: bytes_of_vis_packet_def my(2) body [unfolded my(2)])
qed

end
