(* ===== verification/Purge.thy ===== *)
theory Purge
  imports Send_Inv
begin

text \<open>
  \<open>purge_orig\<close> of \<open>src/originator.c\<close>: which originators and neighbours leave, under which conditions
  the code returns and keeps the invariant of the daemon, and where it does not.
\<close>

section \<open>Neighbours\<close>

text \<open>A neighbour was not heard of for \<open>PURGE_TIMEOUT\<close>.\<close>

definition expired :: "u32 \<Rightarrow> bat_state \<Rightarrow> nat \<Rightarrow> bool" where
  "expired now s q \<longleftrightarrow> n_last_valid (the (neigh_heap s q)) + PURGE_TIMEOUT < now"

abbreviation tq_of :: "bat_state \<Rightarrow> nat \<Rightarrow> u8" where
  "tq_of s q \<equiv> tq_avg (the (neigh_heap s q))"

abbreviation free_set :: "nat set \<Rightarrow> bat_state \<Rightarrow> bat_state" where
  "free_set A s \<equiv> s\<lparr>neigh_heap := (neigh_heap s) |` (- A)\<rparr>"

lemma free_neighs_eq:
  "distinct ps \<Longrightarrow> set ps \<subseteq> dom (neigh_heap s) \<Longrightarrow> free_neighs ps s = Some (free_set (set ps) s)"
proof (induction ps arbitrary: s)
  case (Cons p ps)
  have "free_neigh p s = Some (s\<lparr>neigh_heap := (neigh_heap s)(p := None)\<rparr>)"
    using Cons.prems(2) by (auto simp: free_neigh_def)
  moreover have "free_neighs ps (s\<lparr>neigh_heap := (neigh_heap s)(p := None)\<rparr>) =
      Some (free_set (set ps) (s\<lparr>neigh_heap := (neigh_heap s)(p := None)\<rparr>))"
    using Cons.prems by (intro Cons.IH) auto
  moreover have "((neigh_heap s)(p := None)) |` (- set ps) = (neigh_heap s) |` (- set (p # ps))"
    by (simp add: restrict_map_def fun_eq_iff)
  ultimately show ?case by simp
qed (simp add: restrict_map_def)

text \<open>The loop over the neighbours of a live originator: the best of the kept ones is one of the maximal ones.\<close>

definition best_of :: "bat_state \<Rightarrow> nat set \<Rightarrow> nat option \<Rightarrow> bool" where
  "best_of s A best \<longleftrightarrow> (case best of None \<Rightarrow> A = {} | Some q \<Rightarrow> q \<in> A \<and> (\<forall>x \<in> A. tq_of s x \<le> tq_of s q))"

lemma best_of_cong: "(\<And>q. q \<in> A \<Longrightarrow> tq_of t q = tq_of s q) \<Longrightarrow> best_of t A best = best_of s A best"
  by (cases best) (auto simp: best_of_def)

text \<open>The first of the best ones, as the loop finds it.\<close>

fun pick :: "bat_state \<Rightarrow> nat option \<Rightarrow> nat list \<Rightarrow> nat option" where
  "pick s b [] = b"
| "pick s b (p # ps) = pick s (case b of None \<Rightarrow> Some p | Some q \<Rightarrow> if tq_of s p > tq_of s q then Some p else Some q) ps"

lemma pick_best_of: "best_of s A b \<Longrightarrow> best_of s (A \<union> set ps) (pick s b ps)"
proof (induction ps arbitrary: A b)
  case (Cons p ps)
  have "best_of s (insert p A) (case b of None \<Rightarrow> Some p | Some q \<Rightarrow> if tq_of s p > tq_of s q then Some p else Some q)"
    using Cons.prems by (fastforce simp: best_of_def split: option.split)
  from Cons.IH [OF this] show ?case by simp
qed simp

lemma pick_best: "best_of s (set ps) (pick s None ps)"
  using pick_best_of [of s "{}" None ps] by (simp add: best_of_def)

lemma pick_mem: "pick s None ps = Some q \<Longrightarrow> q \<in> set ps"
  using pick_best [of s ps] by (simp add: best_of_def)

lemma pick_cong:
  "(\<And>q. b = Some q \<Longrightarrow> tq_of t q = tq_of s q) \<Longrightarrow> (\<And>q. q \<in> set ps \<Longrightarrow> tq_of t q = tq_of s q) \<Longrightarrow> pick t b ps = pick s b ps"
proof (induction ps arbitrary: b)
  case (Cons p ps)
  have "(case b of None \<Rightarrow> Some p | Some q \<Rightarrow> if tq_of t p > tq_of t q then Some p else Some q) =
      (case b of None \<Rightarrow> Some p | Some q \<Rightarrow> if tq_of s p > tq_of s q then Some p else Some q)"
    using Cons.prems by (auto split: option.split)
  moreover have "pick t (case b of None \<Rightarrow> Some p | Some q \<Rightarrow> if tq_of s p > tq_of s q then Some p else Some q) ps =
      pick s (case b of None \<Rightarrow> Some p | Some q \<Rightarrow> if tq_of s p > tq_of s q then Some p else Some q) ps"
    using Cons.prems by (intro Cons.IH) (auto split: option.splits if_splits)
  ultimately show ?case by simp
qed simp

lemma purge_neighs_eq:
  assumes "distinct ps" "set ps \<subseteq> dom (neigh_heap s)" "\<And>q. best = Some q \<Longrightarrow> q \<in> dom (neigh_heap s) \<and> q \<notin> set ps"
  shows "purge_neighs now ps best s = Some (filter (\<lambda>q. \<not> expired now s q) ps, \<exists>q \<in> set ps. expired now s q,
      pick s best (filter (\<lambda>q. \<not> expired now s q) ps), free_set {q \<in> set ps. expired now s q} s)"
  using assms
proof (induction ps arbitrary: s best)
  case Nil
  have "free_set {} s = s" by (simp add: restrict_map_def)
  then show ?case by simp
next
  case (Cons p ps)
  obtain n where n: "neigh_heap s p = Some n" using Cons.prems(2) by auto
  have p: "p \<notin> set ps" "best \<noteq> Some p" using Cons.prems(1,3) by auto
  show ?case
  proof (cases "expired now s p")
    case True
    define t where "t = s\<lparr>neigh_heap := (neigh_heap s)(p := None)\<rparr>"
    have same: "expired now t q = expired now s q" "tq_of t q = tq_of s q" if "q \<noteq> p" for q using that by (simp_all add: expired_def t_def)
    have free: "free_neigh p s = Some t" using n by (simp add: free_neigh_def t_def)
    have "set ps \<subseteq> dom (neigh_heap t)" using Cons.prems(2) p by (auto simp: t_def)
    moreover have "q \<in> dom (neigh_heap t) \<and> q \<notin> set ps" if "best = Some q" for q using Cons.prems(3) [OF that] p(2) that by (auto simp: t_def)
    ultimately have b: "purge_neighs now ps best t = Some (filter (\<lambda>q. \<not> expired now t q) ps, \<exists>q \<in> set ps. expired now t q,
        pick t best (filter (\<lambda>q. \<not> expired now t q) ps), free_set {q \<in> set ps. expired now t q} t)"
      using Cons.prems(1) by (intro Cons.IH) simp_all
    have ex: "expired now t q = expired now s q" "tq_of t q = tq_of s q" if "q \<in> set ps" for q using same [of q] that p(1) by blast+
    have sets: "filter (\<lambda>q. \<not> expired now t q) ps = filter (\<lambda>q. \<not> expired now s q) ps" "{q \<in> set ps. expired now t q} = {q \<in> set ps. expired now s q}"
      using ex(1) by (auto intro!: filter_cong)
    have pick: "pick t best (filter (\<lambda>q. \<not> expired now s q) ps) = pick s best (filter (\<lambda>q. \<not> expired now s q) ps)"
      using p(2) same(2) ex(2) by (intro pick_cong) auto
    have heap: "(neigh_heap t) |` (- {q \<in> set ps. expired now s q}) = (neigh_heap s) |` (- {q \<in> set (p # ps). expired now s q})"
      using True by (auto simp: t_def restrict_map_def fun_eq_iff)
    have st: "free_set {q \<in> set ps. expired now s q} t = free_set {q \<in> set (p # ps). expired now s q} s"
      unfolding heap by (simp add: t_def)
    show ?thesis using n True free b unfolding sets st pick by (simp add: expired_def)
  next
    case False
    let ?b = "case best of None \<Rightarrow> Some p | Some q \<Rightarrow> if tq_of s p > tq_of s q then Some p else Some q"
    have b1: "(case best of None \<Rightarrow> Some (Some p) | Some q \<Rightarrow> do { m \<leftarrow> neigh_heap s q;
          Some (if tq_avg n > tq_avg m then Some p else Some q) }) = Some ?b"
      using Cons.prems(3) n by (cases best) auto
    have b: "purge_neighs now ps ?b s = Some (filter (\<lambda>q. \<not> expired now s q) ps, \<exists>q \<in> set ps. expired now s q,
        pick s ?b (filter (\<lambda>q. \<not> expired now s q) ps), free_set {q \<in> set ps. expired now s q} s)"
      using Cons.prems p n by (intro Cons.IH) (auto split: option.splits if_splits)
    have set1: "{q \<in> set (p # ps). expired now s q} = {q \<in> set ps. expired now s q}" using False by auto
    have ex: "(\<exists>q \<in> set (p # ps). expired now s q) = (\<exists>q \<in> set ps. expired now s q)" using False by simp
    show ?thesis using n False b1 b unfolding set1 ex by (simp add: expired_def)
  qed
qed

lemmas purge_neighs_start = purge_neighs_eq [where best = None, simplified]

section \<open>Live originators\<close>

text \<open>
  A live originator is rerouted when a neighbour of it is freed and it has no router, no neighbour is
  left, or one that is left is better than the router.
\<close>

definition rerouted :: "u32 \<Rightarrow> bat_state \<Rightarrow> orig_node \<Rightarrow> bool" where
  "rerouted now s n \<longleftrightarrow> (\<exists>q \<in> set (neigh_list n). expired now s q) \<and>
     (case router n of
        None \<Rightarrow> True
      | Some r \<Rightarrow> (\<forall>q \<in> set (neigh_list n). expired now s q) \<or>
          (\<exists>q \<in> set (neigh_list n). \<not> expired now s q \<and> tq_of s r < tq_of s q))"

text \<open>
  Where the code stays away from freed memory: when the router is freed no neighbour is left, because
  otherwise the best one is compared with it; and an originator that is rerouted has no announcement,
  because \<open>update_routes\<close> would copy the announcement from the buffer that it has just freed.
\<close>

definition routes_safe :: "u32 \<Rightarrow> bat_state \<Rightarrow> orig_node \<Rightarrow> bool" where
  "routes_safe now s n \<longleftrightarrow> (rerouted now s n \<longrightarrow> o_hna_buff n = None) \<and>
     (\<forall>r. router n = Some r \<longrightarrow> expired now s r \<longrightarrow> (\<forall>q \<in> set (neigh_list n). expired now s q))"

text \<open>A live originator after its neighbours were purged.\<close>

definition live_node :: "u32 \<Rightarrow> bat_state \<Rightarrow> orig_node \<Rightarrow> orig_node" where
  "live_node now s n =
     (let kept = filter (\<lambda>q. \<not> expired now s q) (neigh_list n); best = pick s None kept; n' = n\<lparr>neigh_list := kept\<rparr> in
      if rerouted now s n
      then n'\<lparr>router := best, o_batman_if := (case best of None \<Rightarrow> o_batman_if n | Some q \<Rightarrow> Some (n_if_incoming (the (neigh_heap s q))))\<rparr>
      else n')"

lemma routes_hosts [simp]:
  "rerouted now s (n\<lparr>o_hna_list := l\<rparr>) = rerouted now s n" "routes_safe now s (n\<lparr>o_hna_list := l\<rparr>) = routes_safe now s n"
  by (simp_all add: rerouted_def routes_safe_def split: option.split)

lemma live_node_simps [simp]:
  "neigh_list (live_node now s n) = filter (\<lambda>q. \<not> expired now s q) (neigh_list n)" "o_orig (live_node now s n) = o_orig n"
  "o_hna_buff (live_node now s n) = o_hna_buff n" "o_hna_list (live_node now s n) = o_hna_list n" "hna_buff_len (live_node now s n) = hna_buff_len n"
  "bcast_own (live_node now s n) = bcast_own n" "bcast_own_sum (live_node now s n) = bcast_own_sum n" "seq_bits (live_node now s n) = seq_bits n"
  "live_node now s (n\<lparr>o_hna_list := l\<rparr>) = (live_node now s n)\<lparr>o_hna_list := l\<rparr>"
  by (simp_all add: live_node_def Let_def split: option.split)

lemma live_node_cong:
  assumes "\<And>q. q \<in> set (neigh_list n) \<Longrightarrow> neigh_heap t q = neigh_heap s q" "\<And>r. router n = Some r \<Longrightarrow> r \<in> set (neigh_list n)"
  shows "live_node now t n = live_node now s n" "rerouted now t n = rerouted now s n" "routes_safe now t n = routes_safe now s n"
proof -
  have ex: "expired now t q = expired now s q" "tq_of t q = tq_of s q" if "q \<in> set (neigh_list n)" for q using assms(1) [OF that] by (simp_all add: expired_def)
  have fil: "filter (\<lambda>q. \<not> expired now t q) (neigh_list n) = filter (\<lambda>q. \<not> expired now s q) (neigh_list n)" using ex(1) by (auto intro!: filter_cong)
  have pick: "pick t None (filter (\<lambda>q. \<not> expired now s q) (neigh_list n)) = pick s None (filter (\<lambda>q. \<not> expired now s q) (neigh_list n))"
    using ex(2) by (intro pick_cong) auto
  have ball: "(\<forall>q \<in> set (neigh_list n). expired now t q) = (\<forall>q \<in> set (neigh_list n). expired now s q)"
    "(\<exists>q \<in> set (neigh_list n). expired now t q) = (\<exists>q \<in> set (neigh_list n). expired now s q)" using ex(1) by simp_all
  have better: "(\<exists>q \<in> set (neigh_list n). \<not> expired now t q \<and> tq_of t r < tq_of t q) = (\<exists>q \<in> set (neigh_list n). \<not> expired now s q \<and> tq_of s r < tq_of s q)"
    if "router n = Some r" for r using ex ex(2) [OF assms(2) [OF that]] by simp
  show rr: "rerouted now t n = rerouted now s n" by (cases "router n") (simp_all add: rerouted_def ball better)
  have "expired now t r = expired now s r" if "router n = Some r" for r using ex(1) [OF assms(2) [OF that]] .
  then show "routes_safe now t n = routes_safe now s n" by (simp add: routes_safe_def rr ball)
  have "neigh_heap t q = neigh_heap s q" if "pick s None (filter (\<lambda>q. \<not> expired now s q) (neigh_list n)) = Some q" for q
    using pick_mem [OF that] assms(1) by simp
  then show "live_node now t n = live_node now s n"
    by (auto simp: live_node_def Let_def rr fil pick split: option.split)
qed

lemma purge_live_orig_eq:
  assumes "orig_heap s p = Some n" "distinct (neigh_list n)" "set (neigh_list n) \<subseteq> dom (neigh_heap s)" "routes_safe now s n"
    and "\<And>r. router n = Some r \<Longrightarrow> r \<in> set (neigh_list n)"
  shows "purge_live_orig now p s = Some (put_orig p (live_node now s n) (free_set {q \<in> set (neigh_list n). expired now s q} s))"
proof -
  let ?kept = "filter (\<lambda>q. \<not> expired now s q) (neigh_list n)"
  let ?t = "free_set {q \<in> set (neigh_list n). expired now s q} s"
  let ?n = "n\<lparr>neigh_list := ?kept\<rparr>"
  let ?u = "put_orig p ?n ?t"
  define best where "best = pick s None ?kept"
  note b = purge_neighs_start [OF assms(2,3), of now, folded best_def]
  have u: "orig_heap ?u p = Some ?n" "neigh_heap ?u = neigh_heap ?t" by (simp_all add: put_orig_def)
  have best: "best_of s (set ?kept) best" unfolding best_def by (rule pick_best)
  have live: "neigh_heap ?t q = neigh_heap s q \<and> neigh_heap s q \<noteq> None" if "q \<in> set ?kept" for q using that assms(3) by auto
  have routes: "update_routes p best (case o_hna_buff n of None \<Rightarrow> No_hna | Some b \<Rightarrow> Heap_hna b) (hna_buff_len n) ?u = Some (put_orig p (live_node now s n) ?t)"
    if rr: "rerouted now s n"
  proof -
    have none: "o_hna_buff n = None" using assms(4) rr by (simp add: routes_safe_def)
    have "update_router p best ?u = Some (put_orig p (live_node now s n) ?t)"
    proof (cases best)
      case None
      have l: "live_node now s n = ?n\<lparr>router := None\<rparr>" using rr None by (simp add: live_node_def best_def Let_def)
      show ?thesis
      proof (cases "router n")
        case none: None
        then have "live_node now s n = ?n" unfolding l by (cases n) simp
        then show ?thesis using u(1) None none by (simp add: update_router_def)
      next
        case (Some r)
        then show ?thesis using u(1) None unfolding l by (simp add: update_router_def put_orig_def)
      qed
    next
      case (Some q)
      then obtain m where m: "neigh_heap ?t q = Some m" "neigh_heap s q = Some m" using live [of q] best by (auto simp: best_of_def)
      have "router n \<noteq> Some q"
      proof
        assume r: "router n = Some q"
        have "q \<in> set (neigh_list n)" "\<not> expired now s q" "\<forall>x \<in> set ?kept. tq_of s x \<le> tq_of s q"
          using best Some by (auto simp: best_of_def)
        with rr r show False by (fastforce simp: rerouted_def)
      qed
      moreover have l: "live_node now s n = ?n\<lparr>o_batman_if := Some (n_if_incoming m), router := Some q\<rparr>"
        using rr Some m(2) by (simp add: live_node_def best_def Let_def)
      moreover have "neigh_heap ?u q = Some m" using m(1) u(2) by (simp only: u(2))
      ultimately show ?thesis using u(1) Some by (cases "router n") (simp_all add: update_router_def put_orig_def)
    qed
    then show ?thesis using none by (simp add: update_routes_def update_hna_def put_orig_def)
  qed
  have start: "purge_live_orig now p s =
      (if \<exists>q \<in> set (neigh_list n). expired now s q then
         (case (best, router n) of
            (None, _) \<Rightarrow> update_routes p best (case o_hna_buff n of None \<Rightarrow> No_hna | Some b \<Rightarrow> Heap_hna b) (hna_buff_len n) ?u
          | (Some q, None) \<Rightarrow> update_routes p best (case o_hna_buff n of None \<Rightarrow> No_hna | Some b \<Rightarrow> Heap_hna b) (hna_buff_len n) ?u
          | (Some q, Some r) \<Rightarrow> do {
              nq \<leftarrow> neigh_heap ?t q;
              nr \<leftarrow> neigh_heap ?t r;
              if tq_avg nq > tq_avg nr
              then update_routes p best (case o_hna_buff n of None \<Rightarrow> No_hna | Some b \<Rightarrow> Heap_hna b) (hna_buff_len n) ?u else Some ?u
            })
       else Some ?u)"
    using assms(1) b by (cases best; cases "router n") (simp_all add: purge_live_orig_def Let_def put_orig_def cong: if_cong)
  have stay: "Some ?u = Some (put_orig p (live_node now s n) ?t)" if "\<not> rerouted now s n" using that by (simp add: live_node_def)
  show ?thesis
  proof (cases "\<exists>q \<in> set (neigh_list n). expired now s q")
    case False
    then have "\<not> rerouted now s n" by (simp add: rerouted_def)
    from stay [OF this] False show ?thesis unfolding start by simp
  next
    case True
    show ?thesis
    proof (cases "best = None \<or> router n = None")
      case some: True
      have "rerouted now s n" using True some best by (cases "router n") (auto simp: rerouted_def best_of_def filter_empty_conv)
      from routes [OF this] True some show ?thesis unfolding start by (cases best; cases "router n") simp_all
    next
      case False
      then obtain q r where qr: "best = Some q" "router n = Some r" by auto
      have q: "q \<in> set ?kept" "\<forall>x \<in> set ?kept. tq_of s x \<le> tq_of s q" using best qr(1) by (simp_all add: best_of_def)
      then have "r \<in> set ?kept" using assms(4) assms(5) [OF qr(2)] qr(2) by (auto simp: routes_safe_def)
      then obtain m mr where m: "neigh_heap ?t q = Some m" "neigh_heap s q = Some m" "neigh_heap ?t r = Some mr" "neigh_heap s r = Some mr"
        using live [of r] live [of q] q(1) by auto
      have "rerouted now s n \<longleftrightarrow> tq_avg m > tq_avg mr"
      proof
        assume "rerouted now s n"
        then obtain x where "x \<in> set ?kept" "tq_of s r < tq_of s x" using q(1) qr(2) by (auto simp: rerouted_def)
        with q(2) m show "tq_avg m > tq_avg mr" by fastforce
      next
        assume "tq_avg m > tq_avg mr"
        with True qr(2) q(1) m show "rerouted now s n" by (auto simp: rerouted_def)
      qed
      with routes stay True qr m show ?thesis unfolding start by (cases "rerouted now s n") (simp_all del: restrict_in)
    qed
  qed
qed

section \<open>Dead originators\<close>

lemma purge_gw_of_same:
  obtains g t where "purge_gw_of p s = s\<lparr>gw_list := g, ticks := t\<rparr>"
proof -
  have "purge_gw_of p s = s\<lparr>gw_list := gw_list (purge_gw_of p s), ticks := ticks (purge_gw_of p s)\<rparr>"
    by (simp add: purge_gw_of_def get_time_def)
  with that show thesis by blast
qed

lemma elem_key_free [simp]:
  "elem_key (s\<lparr>neigh_heap := h\<rparr>) = elem_key s" "elem_key (s\<lparr>gw_list := g\<rparr>) = elem_key s"
  "elem_key (s\<lparr>ticks := k\<rparr>) = elem_key s" "elem_key (s\<lparr>orig_heap := oh\<rparr>) = elem_key s"
  by (simp_all add: elem_key_def fun_eq_iff)

text \<open>Taking an originator without hosts off the heap.\<close>

lemma trans_ok_free_orig:
  assumes "trans_ok s" "orig_heap s p = Some n" "o_hna_list n = []"
  shows "trans_ok (s\<lparr>orig_heap := (orig_heap s)(p := None)\<rparr>)"
proof -
  have links: "links_ok s" using assms(1) by (simp add: trans_ok_def)
  have "map_option list_link (elem_heap s q) \<noteq> Some (In_orig_list p)" for q
    using links assms(2,3) unfolding links_ok_def by (metis empty_iff list.set(1))
  then have "list_link e \<noteq> In_orig_list p" if "elem_heap s q = Some e" for q e using that by fastforce
  with links have "links_ok (s\<lparr>orig_heap := (orig_heap s)(p := None)\<rparr>)" by (auto simp: links_ok_def)
  with assms(1) show ?thesis by (simp add: trans_ok_def ifs_ok_def)
qed

text \<open>Removing elements leaves no new ones in the lists of the originators.\<close>

lemma hosts_shrink:
  assumes "trans_ok s" "trans_ok s'" "elem_heap s' \<subseteq>\<^sub>m elem_heap s" "orig_heap s h = Some n" "orig_heap s' h = Some n'" "o_hna_list n = []"
  shows "o_hna_list n' = []"
proof -
  have l: "links_ok s" "links_ok s'" using assms(1,2) by (simp_all add: trans_ok_def)
  have "q \<notin> set (o_hna_list n')" for q
  proof
    assume "q \<in> set (o_hna_list n')"
    then obtain e where e: "elem_heap s' q = Some e" "list_link e = In_orig_list h" using l(2) assms(5) unfolding links_ok_def by fastforce
    then have "elem_heap s q = Some e" using assms(3) by (auto simp: map_le_def dom_def)
    then have "q \<in> set (o_hna_list n)" using l(1) assms(4) e(2) unfolding links_ok_def by fastforce
    with assms(6) show False by simp
  qed
  then show ?thesis by (cases "o_hna_list n'") auto
qed

lemma purge_dead_orig_eq:
  assumes "trans_ok s" "orig_heap s p = Some n" "distinct (neigh_list n)" "set (neigh_list n) \<subseteq> dom (neigh_heap s)"
    and buf: "\<And>b. o_hna_buff n = Some b \<Longrightarrow> buf_heap s b \<noteq> None" and none: "o_hna_buff n = None \<Longrightarrow> o_hna_list n = []"
  shows "\<exists>s'. purge_dead_orig p s = Some s' \<and> trans_ok s' \<and> statics s' = statics s \<and> brk s \<le> brk s' \<and> orig_hash s' = orig_hash s \<and>
    orig_heap s' p = None \<and> (\<forall>h. h \<noteq> p \<longrightarrow> map_option bare (orig_heap s' h) = map_option bare (orig_heap s h)) \<and>
    neigh_heap s' = (neigh_heap s) |` (- set (neigh_list n)) \<and> elem_heap s' \<subseteq>\<^sub>m elem_heap s \<and>
    buf_heap s' = (case o_hna_buff n of None \<Rightarrow> buf_heap s | Some b \<Rightarrow> (buf_heap s)(b := None))"
proof -
  let ?h = "(neigh_heap s) |` (- set (neigh_list n))"
  obtain g k where gk: "purge_gw_of p (free_set (set (neigh_list n)) (put_orig p (n\<lparr>neigh_list := []\<rparr>) s)) =
      (free_set (set (neigh_list n)) (put_orig p (n\<lparr>neigh_list := []\<rparr>) s))\<lparr>gw_list := g, ticks := k\<rparr>" by (rule purge_gw_of_same)
  define n1 where "n1 = n\<lparr>neigh_list := [], router := None\<rparr>"
  define u where "u = s\<lparr>orig_heap := (orig_heap s)(p \<mapsto> n1), neigh_heap := ?h, gw_list := g, ticks := k\<rparr>"
  have up: "update_router p None (purge_gw_of p (free_set (set (neigh_list n)) (put_orig p (n\<lparr>neigh_list := []\<rparr>) s))) = Some u"
  proof (cases "router n")
    case None
    then have "n1 = n\<lparr>neigh_list := []\<rparr>" by (cases n) (simp add: n1_def)
    then show ?thesis using None unfolding gk by (simp add: update_router_def u_def put_orig_def)
  next
    case (Some r)
    then show ?thesis unfolding gk by (simp add: update_router_def u_def n1_def put_orig_def)
  qed
  have pd: "purge_dead_orig p s = map_option (\<lambda>s. s\<lparr>orig_heap := (orig_heap s)(p := None)\<rparr>) (update_hna p No_hna 0 u)"
    using assms(2-4) up by (simp add: purge_dead_orig_def free_neighs_eq put_orig_def update_routes_def map_option_case split: option.split)
  have up1: "orig_heap u p = Some n1" by (simp add: u_def)
  have tu: "trans_ok u \<and> host_map u = host_map s"
    by (rule trans_ok_fields [OF _ _ _ _ _ _ _ assms(1)]) (simp_all add: u_def n1_def assms(2))
  have us: "statics u = statics s" "brk u = brk s" "orig_hash u = orig_hash s" "neigh_heap u = ?h" "elem_heap u = elem_heap s" "buf_heap u = buf_heap s"
    "\<And>h. h \<noteq> p \<Longrightarrow> orig_heap u h = orig_heap s h" by (simp_all add: u_def statics_def)
  show ?thesis
  proof (cases "o_hna_buff n")
    case None
    then have "update_hna p No_hna 0 u = Some u" by (simp add: update_hna_def up1 n1_def)
    moreover have "trans_ok (u\<lparr>orig_heap := (orig_heap u)(p := None)\<rparr>)"
      using tu none [OF None] by (intro trans_ok_free_orig [OF _ up1]) (simp_all add: n1_def)
    ultimately show ?thesis using pd us None by (simp add: statics_def)
  next
    case (Some b)
    then obtain bytes where b: "buf_heap u b = Some bytes" using buf us(6) by auto
    have n1b: "o_hna_buff n1 = Some b" using Some by (simp add: n1_def)
    obtain v t where v: "hna_del_buff p u = Some v" "trans_ok v" "orig_heap v p = Some (n1\<lparr>o_hna_list := [], hna_buff_len := 0\<rparr>)"
        "buf_heap v = (buf_heap u)(b := None)" "elem_heap v = (elem_heap u) |` (- set (o_hna_list n1))" "trans_frame u t"
        "v = put_orig p (n1\<lparr>o_hna_list := [], hna_buff_len := 0\<rparr>) (t\<lparr>buf_heap := (buf_heap u)(b := None)\<rparr>)"
      using hna_del_buff_eq [OF conjunct1 [OF tu] up1 n1b b] by blast
    have vs: "statics v = statics u" "brk u \<le> brk v" "orig_hash v = orig_hash u" "neigh_heap v = neigh_heap u"
        "\<And>h. h \<noteq> p \<Longrightarrow> map_option bare (orig_heap v h) = map_option bare (orig_heap u h)"
      using v(6) unfolding v(7) by (simp_all add: trans_frame_def statics_def put_orig_def)
    have "update_hna p No_hna 0 u = Some v" using v(1) n1b by (simp add: update_hna_def up1)
    moreover have "trans_ok (v\<lparr>orig_heap := (orig_heap v)(p := None)\<rparr>)" by (intro trans_ok_free_orig [OF v(2,3)]) simp
    moreover have "elem_heap v \<subseteq>\<^sub>m elem_heap s" unfolding v(5) us(5) by (auto simp: map_le_def)
    ultimately show ?thesis using pd us vs v(4) Some by (simp add: statics_def)
  qed
qed

section \<open>The loop over the originators\<close>

definition dead :: "u32 \<Rightarrow> bat_state \<Rightarrow> nat \<Rightarrow> bool" where
  "dead now s p \<longleftrightarrow> (\<exists>n. orig_heap s p = Some n \<and> o_last_valid n + PURGE_TIMEOUT < now)"

text \<open>The neighbour entries that the originators in \<open>D\<close> lose.\<close>

definition lost :: "u32 \<Rightarrow> bat_state \<Rightarrow> nat set \<Rightarrow> nat set" where
  "lost now s D = {q. \<exists>p n. p \<in> D \<and> orig_heap s p = Some n \<and> q \<in> set (neigh_list n) \<and> (dead now s p \<or> expired now s q)}"

definition kept_neighs :: "u32 \<Rightarrow> bat_state \<Rightarrow> nat set \<Rightarrow> nat \<Rightarrow> orig_node \<Rightarrow> nat list" where
  "kept_neighs now s D p n = (if p \<in> D then filter (\<lambda>q. \<not> expired now s q) (neigh_list n) else neigh_list n)"

text \<open>An originator that stays, when the loop has seen the ones in \<open>D\<close>.\<close>

definition kept_node :: "u32 \<Rightarrow> bat_state \<Rightarrow> nat set \<Rightarrow> nat \<Rightarrow> orig_node \<Rightarrow> orig_node" where
  "kept_node now s D p n = (if p \<in> D then live_node now s n else n)"

lemma kept_node_simps [simp]:
  "neigh_list (kept_node now s D p n) = kept_neighs now s D p n" "o_orig (kept_node now s D p n) = o_orig n"
  "o_hna_buff (kept_node now s D p n) = o_hna_buff n" "hna_buff_len (kept_node now s D p n) = hna_buff_len n"
  "bcast_own (kept_node now s D p n) = bcast_own n" "bcast_own_sum (kept_node now s D p n) = bcast_own_sum n"
  "seq_bits (kept_node now s D p n) = seq_bits n"
  by (simp_all add: kept_node_def kept_neighs_def)

text \<open>
  When a table can be purged without touching freed memory. The routers of the originators that stay
  are safe, an originator that leaves has hosts only with a buffer, and every neighbour entry that
  refers to it leaves, too.
\<close>

definition purge_safe :: "u32 \<Rightarrow> bat_state \<Rightarrow> bool" where
  "purge_safe now s \<longleftrightarrow>
     (\<forall>p n. orig_heap s p = Some n \<longrightarrow> p \<in> set (hash_entries (orig_hash s)) \<longrightarrow>
        (if dead now s p then o_hna_buff n = None \<longrightarrow> o_hna_list n = [] else routes_safe now s n)) \<and>
     (\<forall>q m. neigh_heap s q = Some m \<longrightarrow> dead now s (n_orig_node m) \<longrightarrow>
        n_orig_node m \<in> set (hash_entries (orig_hash s)) \<longrightarrow> q \<in> lost now s (set (hash_entries (orig_hash s))))"

text \<open>The state after the originators in \<open>D\<close>, relative to the one before the loop.\<close>

definition purged :: "u32 \<Rightarrow> bat_state \<Rightarrow> nat set \<Rightarrow> bat_state \<Rightarrow> bool" where
  "purged now s0 D s \<longleftrightarrow> trans_ok s \<and> statics s = statics s0 \<and> brk s0 \<le> brk s \<and> orig_hash s = orig_hash s0 \<and>
     neigh_heap s = (neigh_heap s0) |` (- lost now s0 D) \<and> elem_heap s \<subseteq>\<^sub>m elem_heap s0 \<and>
     (\<forall>p. map_option bare (orig_heap s p) =
        (if p \<in> D \<and> dead now s0 p then None
         else map_option (\<lambda>n. bare (kept_node now s0 D p n)) (orig_heap s0 p))) \<and>
     (\<forall>b. buf_heap s b = buf_heap s0 b \<or>
        buf_heap s b = None \<and> (\<exists>p \<in> D. dead now s0 p \<and> o_hna_buff (the (orig_heap s0 p)) = Some b))"

lemma bare_Some:
  assumes "map_option bare x = map_option (\<lambda>n. bare (f n)) (Some n)"
  obtains l where "x = Some ((f n)\<lparr>o_hna_list := l\<rparr>)"
proof -
  obtain m where m: "x = Some m" "bare m = bare (f n)" using assms by auto
  have "m = (bare m)\<lparr>o_hna_list := o_hna_list m\<rparr>" by (cases m) (simp add: bare_def)
  with m(2) have "m = (f n)\<lparr>o_hna_list := o_hna_list m\<rparr>" by (simp add: bare_def)
  with m(1) that show thesis by blast
qed

lemma purged_orig:
  assumes "purged now s0 D s" "orig_heap s0 p = Some n" "\<not> (p \<in> D \<and> dead now s0 p)"
  obtains l where "orig_heap s p = Some ((kept_node now s0 D p n)\<lparr>o_hna_list := l\<rparr>)"
proof -
  have "map_option bare (orig_heap s p) = map_option (\<lambda>n. bare (kept_node now s0 D p n)) (Some n)"
    using assms by (simp add: purged_def)
  then show thesis by (rule bare_Some) (use that in simp)
qed

lemma purged_start: "trans_ok s \<Longrightarrow> purged now s {} s"
  by (simp add: purged_def lost_def kept_node_def restrict_map_def option.map_id)

lemma lost_insert:
  "orig_heap s p = Some n \<Longrightarrow> lost now s (insert p D) = lost now s D \<union> {q \<in> set (neigh_list n). dead now s p \<or> expired now s q}"
  by (auto simp: lost_def)

lemma neighs_not_lost:
  assumes "net_ok s0" "orig_heap s0 p = Some n" "p \<notin> D" "q \<in> set (neigh_list n)"
  shows "q \<notin> lost now s0 D"
  using assms unfolding lost_def net_ok_def entries_ok_def by blast

lemma restrict_more: "(f |` (- A)) |` (- B) = f |` (- (A \<union> B))"
  by (auto simp: restrict_map_def fun_eq_iff)

text \<open>The next originator of the loop is still as it was, except for its hosts.\<close>

lemma purged_next:
  assumes "net_ok s0" "p \<in> set (hash_entries (orig_hash s0))" "p \<notin> D" "purged now s0 D s"
  obtains n l where "orig_heap s0 p = Some n" "orig_heap s p = Some (n\<lparr>o_hna_list := l\<rparr>)" "o_hna_list n = [] \<longrightarrow> l = []"
    "dead now s0 p \<longleftrightarrow> o_last_valid n + PURGE_TIMEOUT < now" "distinct (neigh_list n)" "set (neigh_list n) \<subseteq> dom (neigh_heap s)"
    "\<forall>q \<in> set (neigh_list n). neigh_heap s q = neigh_heap s0 q"
proof -
  have "origs_ok s0" using assms(1) by (simp add: net_ok_def)
  then obtain n where n: "orig_heap s0 p = Some n" using assms(2) by (auto simp: origs_ok_def)
  have ok: "orig_ok s0 n" by (rule net_ok_orig [OF assms(1) n])
  obtain l where "orig_heap s p = Some ((kept_node now s0 D p n)\<lparr>o_hna_list := l\<rparr>)"
    using purged_orig [OF assms(4) n] assms(3) by blast
  moreover have "(kept_node now s0 D p n)\<lparr>o_hna_list := l\<rparr> = n\<lparr>o_hna_list := l\<rparr>" using assms(3) by (simp add: kept_node_def)
  ultimately have n': "orig_heap s p = Some (n\<lparr>o_hna_list := l\<rparr>)" by simp
  have here: "neigh_heap s q = neigh_heap s0 q" if "q \<in> set (neigh_list n)" for q
    using neighs_not_lost [OF assms(1) n assms(3) that] assms(4) by (simp add: purged_def)
  have live: "distinct (neigh_list n)" "set (neigh_list n) \<subseteq> dom (neigh_heap s)" using ok here by (auto simp: orig_ok_def)
  have "trans_ok s" "trans_ok s0" "elem_heap s \<subseteq>\<^sub>m elem_heap s0" using assms(1,4) by (simp_all add: purged_def net_ok_def)
  then have l: "o_hna_list n = [] \<longrightarrow> l = []" using hosts_shrink [OF _ _ _ n n'] by auto
  have d: "dead now s0 p \<longleftrightarrow> o_last_valid n + PURGE_TIMEOUT < now" using n by (simp add: dead_def)
  have "\<forall>q \<in> set (neigh_list n). neigh_heap s q = neigh_heap s0 q" using here by blast
  from that [OF n n' l d live this] show thesis .
qed

text \<open>The buffer of an originator that was not freed is there.\<close>

lemma purged_buf:
  assumes "net_ok s0" "purged now s0 D s" "orig_heap s0 p = Some n" "\<not> (p \<in> D \<and> dead now s0 p)" "o_hna_buff n = Some b"
  shows "buf_heap s b = buf_heap s0 b"
proof -
  have "\<not> (\<exists>p' \<in> D. dead now s0 p' \<and> o_hna_buff (the (orig_heap s0 p')) = Some b)"
  proof
    assume "\<exists>p' \<in> D. dead now s0 p' \<and> o_hna_buff (the (orig_heap s0 p')) = Some b"
    then obtain p' m where p': "p' \<in> D" "dead now s0 p'" "orig_heap s0 p' = Some m" "o_hna_buff m = Some b" by (auto simp: dead_def)
    have "bufs_ok s0" using assms(1) by (simp add: net_ok_def)
    then have "p' = p" using assms(3,5) p'(3,4) unfolding bufs_ok_def by blast
    with p'(1,2) assms(4) show False by simp
  qed
  then show ?thesis using assms(2) by (auto simp: purged_def)
qed

lemma purge_body_dead:
  assumes "net_ok s0" "purge_safe now s0" "p \<in> set (hash_entries (orig_hash s0))" "p \<notin> D" "purged now s0 D s" "dead now s0 p"
  shows "\<exists>s'. purge_body now p s = Some (True, s') \<and> purged now s0 (insert p D) s'"
proof -
  obtain n l where n: "orig_heap s0 p = Some n" "orig_heap s p = Some (n\<lparr>o_hna_list := l\<rparr>)" "o_hna_list n = [] \<longrightarrow> l = []"
      "dead now s0 p \<longleftrightarrow> o_last_valid n + PURGE_TIMEOUT < now" "distinct (neigh_list n)" "set (neigh_list n) \<subseteq> dom (neigh_heap s)"
      "\<forall>q \<in> set (neigh_list n). neigh_heap s q = neigh_heap s0 q"
    using purged_next [OF assms(1,3-5)] .
  have buf: "buf_heap s b \<noteq> None" if "o_hna_buff n = Some b" for b
  proof -
    have "buf_heap s0 b \<noteq> None" using net_ok_orig [OF assms(1) n(1)] that by (auto simp: orig_ok_def)
    moreover have "\<not> (p \<in> D \<and> dead now s0 p)" using assms(4) by simp
    ultimately show ?thesis using purged_buf [OF assms(1,5) n(1) _ that] by simp
  qed
  have none: "l = []" if "o_hna_buff n = None" using that assms(2,3,6) n(1,3) by (simp add: purge_safe_def)
  have trs: "trans_ok s" "elem_heap s \<subseteq>\<^sub>m elem_heap s0" using assms(5) by (simp_all add: purged_def)
  obtain s' where s': "purge_dead_orig p s = Some s'" "trans_ok s'" "statics s' = statics s" "brk s \<le> brk s'" "orig_hash s' = orig_hash s"
      "orig_heap s' p = None" "\<And>h. h \<noteq> p \<Longrightarrow> map_option bare (orig_heap s' h) = map_option bare (orig_heap s h)"
      "neigh_heap s' = (neigh_heap s) |` (- set (neigh_list n))" "elem_heap s' \<subseteq>\<^sub>m elem_heap s"
      "buf_heap s' = (case o_hna_buff n of None \<Rightarrow> buf_heap s | Some b \<Rightarrow> (buf_heap s)(b := None))"
    using purge_dead_orig_eq [OF trs(1) n(2)] n(5,6) buf none by auto
  have nh: "neigh_heap s' = (neigh_heap s0) |` (- lost now s0 (insert p D))"
    unfolding s'(8) lost_insert [OF n(1)] restrict_more [symmetric] using assms(5,6) by (simp add: purged_def)
  have eh: "elem_heap s' \<subseteq>\<^sub>m elem_heap s0" using s'(9) trs(2) by (rule map_le_trans)
  have oh: "map_option bare (orig_heap s' h) = (if h \<in> insert p D \<and> dead now s0 h then None
      else map_option (\<lambda>n. bare (kept_node now s0 (insert p D) h n)) (orig_heap s0 h))" for h
    using s'(6) s'(7) [of h] assms(5,6) by (cases "h = p") (simp_all add: purged_def kept_node_def)
  have bh: "buf_heap s' b = buf_heap s0 b \<or> buf_heap s' b = None \<and> (\<exists>x \<in> insert p D. dead now s0 x \<and> o_hna_buff (the (orig_heap s0 x)) = Some b)" for b
  proof -
    have "buf_heap s b = buf_heap s0 b \<or> buf_heap s b = None \<and> (\<exists>x \<in> D. dead now s0 x \<and> o_hna_buff (the (orig_heap s0 x)) = Some b)"
      using assms(5) by (simp add: purged_def)
    then show ?thesis unfolding s'(10) using assms(6) n(1) by (auto split: option.split)
  qed
  have "purged now s0 (insert p D) s'" unfolding purged_def using s'(2-5) assms(5) nh eh oh bh by (simp add: purged_def)
  then show ?thesis using n(2,4) s'(1) assms(6) by (simp add: purge_body_def)
qed

lemma purge_body_live:
  assumes "net_ok s0" "purge_safe now s0" "p \<in> set (hash_entries (orig_hash s0))" "p \<notin> D" "purged now s0 D s" "\<not> dead now s0 p"
  shows "\<exists>s'. purge_body now p s = Some (False, s') \<and> purged now s0 (insert p D) s'"
proof -
  obtain n l where n: "orig_heap s0 p = Some n" "orig_heap s p = Some (n\<lparr>o_hna_list := l\<rparr>)" "o_hna_list n = [] \<longrightarrow> l = []"
      "dead now s0 p \<longleftrightarrow> o_last_valid n + PURGE_TIMEOUT < now" "distinct (neigh_list n)" "set (neigh_list n) \<subseteq> dom (neigh_heap s)"
      "\<forall>q \<in> set (neigh_list n). neigh_heap s q = neigh_heap s0 q"
    using purged_next [OF assms(1,3-5)] .
  have router: "r \<in> set (neigh_list n)" if "router n = Some r" for r using net_ok_orig [OF assms(1) n(1)] that by (simp add: orig_ok_def)
  have ex: "expired now s q = expired now s0 q" if "q \<in> set (neigh_list n)" for q using bspec [OF n(7) that] by (simp add: expired_def)
  have same: "live_node now s n = live_node now s0 n" "routes_safe now s n = routes_safe now s0 n"
    by (rule live_node_cong; use n(7) router in blast)+
  have "routes_safe now s0 n" using assms(2,3,6) n(1) by (simp add: purge_safe_def)
  then have rs: "routes_safe now s (n\<lparr>o_hna_list := l\<rparr>)" by (simp add: same(2))
  have fil: "{q \<in> set (neigh_list n). expired now s q} = {q \<in> set (neigh_list n). expired now s0 q}" using ex by auto
  define s' where "s' = put_orig p ((live_node now s0 n)\<lparr>o_hna_list := l\<rparr>) (free_set {q \<in> set (neigh_list n). expired now s0 q} s)"
  have "purge_live_orig now p s = Some s'"
    using purge_live_orig_eq [OF n(2) _ _ rs] n(5,6) router unfolding s'_def by (simp add: fil same(1))
  then have body: "purge_body now p s = Some (False, s')" using n(2,4) assms(6) by (simp add: purge_body_def)
  have heap: "neigh_heap s = (neigh_heap s0) |` (- lost now s0 D)" "trans_ok s" using assms(5) by (simp_all add: purged_def)
  have nh: "neigh_heap s' = (neigh_heap s0) |` (- lost now s0 (insert p D))"
    unfolding lost_insert [OF n(1)] restrict_more [symmetric] heap(1) [symmetric] using assms(6) by (simp add: s'_def put_orig_def)
  have "trans_ok s' \<and> host_map s' = host_map s"
    by (rule trans_ok_fields [OF _ _ _ _ _ _ _ heap(2)]) (simp_all add: s'_def put_orig_def n(2))
  moreover have "map_option bare (orig_heap s' h) = (if h \<in> insert p D \<and> dead now s0 h then None
      else map_option (\<lambda>n. bare (kept_node now s0 (insert p D) h n)) (orig_heap s0 h))" for h
    using assms(5,6) n(1) by (cases "h = p") (simp_all add: purged_def kept_node_def s'_def put_orig_def bare_def)
  moreover have "statics s' = statics s" "brk s' = brk s" "orig_hash s' = orig_hash s" "elem_heap s' = elem_heap s" "buf_heap s' = buf_heap s"
    by (simp_all add: s'_def put_orig_def statics_def)
  ultimately have "purged now s0 (insert p D) s'" unfolding purged_def using assms(5) nh by (auto simp: purged_def)
  with body show ?thesis by blast
qed

lemma purge_loop_eq:
  assumes "net_ok s" "purge_safe now s"
  shows "\<exists>s'. hash_loop (purge_body now) (orig_hash s) None s = Some (without (dead now s) (orig_hash s), s') \<and>
    purged now s (set (hash_entries (orig_hash s))) s'"
proof (rule hash_loop_inv)
  show "hash_ok (orig_key s) (orig_hash s)" "purged now s {} s" using assms(1) purged_start by (simp_all add: net_ok_def origs_ok_def mac_hash_ok_def)
  fix D d t assume "d \<in> set (hash_entries (orig_hash s))" "d \<notin> D" "purged now s D t"
  then show "\<exists>s'. purge_body now d t = Some (dead now s d, s') \<and> purged now s (insert d D) s'"
    using purge_body_dead [OF assms, of d D t] purge_body_live [OF assms, of d D t] by (cases "dead now s d") simp_all
qed

section \<open>The state after the loop\<close>

lemma purged_other:
  assumes "purged now s0 E s" "orig_heap s p = Some n'"
  obtains n l where "orig_heap s0 p = Some n" "\<not> (p \<in> E \<and> dead now s0 p)" "n' = (kept_node now s0 E p n)\<lparr>o_hna_list := l\<rparr>"
proof -
  have pe: "map_option bare (orig_heap s p) = (if p \<in> E \<and> dead now s0 p then None
        else map_option (\<lambda>n. bare (kept_node now s0 E p n)) (orig_heap s0 p))" using assms(1) by (simp add: purged_def)
  then have alive: "\<not> (p \<in> E \<and> dead now s0 p)" using assms(2) by (auto split: if_splits)
  then obtain n where n: "orig_heap s0 p = Some n" using pe assms(2) by (cases "orig_heap s0 p") (simp_all add: if_not_P)
  obtain l where "orig_heap s p = Some ((kept_node now s0 E p n)\<lparr>o_hna_list := l\<rparr>)"
    by (rule purged_orig [OF assms(1) n alive])
  then have "n' = (kept_node now s0 E p n)\<lparr>o_hna_list := l\<rparr>" using assms(2) by simp
  from that [OF n alive this] show thesis .
qed

lemma kept_neighs_sub: "set (kept_neighs now s E p n) \<subseteq> set (neigh_list n)" "distinct (neigh_list n) \<Longrightarrow> distinct (kept_neighs now s E p n)"
  by (auto simp: kept_neighs_def)

lemma kept_not_lost:
  assumes "net_ok s0" "orig_heap s0 p = Some n" "\<not> (p \<in> E \<and> dead now s0 p)" "q \<in> set (kept_neighs now s0 E p n)"
  shows "q \<notin> lost now s0 E"
proof
  assume "q \<in> lost now s0 E"
  then obtain p' n' where p': "p' \<in> E" "orig_heap s0 p' = Some n'" "q \<in> set (neigh_list n')" "dead now s0 p' \<or> expired now s0 q"
    by (auto simp: lost_def)
  have "entries_ok s0" "q \<in> set (neigh_list n)" using assms(1) subsetD [OF kept_neighs_sub(1) assms(4)] by (simp_all add: net_ok_def)
  with assms(2) p'(2,3) have "p' = p" unfolding entries_ok_def by blast
  with p' assms(3,4) show False by (auto simp: kept_neighs_def)
qed

text \<open>The router of an originator that stays is one of its neighbours.\<close>

lemma kept_node_links:
  assumes "net_ok s" "orig_heap s p = Some n" "p \<in> E \<longrightarrow> routes_safe now s n"
  shows "\<forall>q. router (kept_node now s E p n) = Some q \<longrightarrow> q \<in> set (kept_neighs now s E p n)"
    and "\<forall>i. o_batman_if (kept_node now s E p n) = Some i \<longrightarrow> i \<in> set (if_list s)"
proof -
  let ?kept = "filter (\<lambda>q. \<not> expired now s q) (neigh_list n)"
  have ok: "orig_ok s n" by (rule net_ok_orig [OF assms(1,2)])
  have new: "q \<in> set ?kept \<and> n_if_incoming (the (neigh_heap s q)) \<in> set (if_list s)" if q: "pick s None ?kept = Some q" for q
  proof -
    have "q \<in> set ?kept" by (rule pick_mem [OF q])
    then obtain m where m: "neigh_heap s q = Some m" using ok by (auto simp: orig_ok_def)
    with \<open>q \<in> set ?kept\<close> net_ok_neigh [OF assms(1) m] show ?thesis by (simp add: neigh_ok_def)
  qed
  have old: "q \<in> set ?kept" if "\<not> rerouted now s n" "router n = Some q" "routes_safe now s n" for q
    using that ok by (auto simp: rerouted_def routes_safe_def orig_ok_def)
  show "\<forall>q. router (kept_node now s E p n) = Some q \<longrightarrow> q \<in> set (kept_neighs now s E p n)"
  proof (cases "p \<in> E")
    case True
    then have "kept_node now s E p n = live_node now s n" "kept_neighs now s E p n = ?kept" "routes_safe now s n"
      using assms(3) by (simp_all add: kept_node_def kept_neighs_def)
    moreover have "router (live_node now s n) = (if rerouted now s n then pick s None ?kept else router n)" by (simp add: live_node_def Let_def)
    ultimately show ?thesis using new old by (cases "rerouted now s n") metis+
  qed (use ok in \<open>simp add: kept_node_def kept_neighs_def orig_ok_def\<close>)
  show "\<forall>i. o_batman_if (kept_node now s E p n) = Some i \<longrightarrow> i \<in> set (if_list s)"
  proof (cases "p \<in> E \<and> rerouted now s n")
    case True
    then show ?thesis using ok new by (cases "pick s None ?kept") (simp_all add: kept_node_def live_node_def Let_def orig_ok_def)
  qed (use ok in \<open>auto simp: kept_node_def live_node_def Let_def orig_ok_def\<close>)
qed

lemma purged_orig_ok:
  assumes "net_ok s0" "purge_safe now s0" "E = set (hash_entries (orig_hash s0))" "purged now s0 E s" "orig_heap s p = Some n'"
  shows "orig_ok s n'"
proof -
  obtain n l where n: "orig_heap s0 p = Some n" "\<not> (p \<in> E \<and> dead now s0 p)" "n' = (kept_node now s0 E p n)\<lparr>o_hna_list := l\<rparr>"
    by (rule purged_other [OF assms(4,5)])
  have ok: "orig_ok s0 n" by (rule net_ok_orig [OF assms(1) n(1)])
  have st: "statics s = statics s0" "neigh_heap s = (neigh_heap s0) |` (- lost now s0 E)" using assms(4) by (simp_all add: purged_def)
  have here: "neigh_heap s q = neigh_heap s0 q" if "q \<in> set (kept_neighs now s0 E p n)" for q
    using kept_not_lost [OF assms(1) n(1,2) that] by (simp add: st(2))
  have key: "neigh_key s q = neigh_key s0 q" if "q \<in> set (kept_neighs now s0 E p n)" for q using here [OF that] by (simp add: neigh_key_def)
  have "inj_on (neigh_key s0) (set (kept_neighs now s0 E p n))" using ok by (intro inj_on_subset [OF _ kept_neighs_sub(1)]) (simp add: orig_ok_def)
  then have inj: "inj_on (neigh_key s) (set (kept_neighs now s0 E p n))" using key by (simp add: inj_on_def)
  have safe: "p \<in> E \<longrightarrow> routes_safe now s0 n" using assms(2,3) n(1,2) by (simp add: purge_safe_def)
  have links: "\<forall>q. router n' = Some q \<longrightarrow> q \<in> set (kept_neighs now s0 E p n)" "\<forall>i. o_batman_if n' = Some i \<longrightarrow> i \<in> set (if_list s0)"
    using kept_node_links [OF assms(1) n(1) safe] by (simp_all add: n(3))
  have buf: "buf_heap s b = buf_heap s0 b" if "o_hna_buff n = Some b" for b using purged_buf [OF assms(1,4) n(1,2) that] .
  show ?thesis
    using ok inj links buf here kept_neighs_sub(1) [of now s0 E p n] kept_neighs_sub(2) [of n now s0 E p] st(1)
    by (simp add: orig_ok_def n(3) statics_def subset_iff)
qed

lemma purged_neigh_ok:
  assumes "net_ok s0" "purge_safe now s0" "E = set (hash_entries (orig_hash s0))" "purged now s0 E s" "neigh_heap s q = Some m"
  shows "neigh_ok s m"
proof -
  have st: "statics s = statics s0" "neigh_heap s = (neigh_heap s0) |` (- lost now s0 E)" using assms(4) by (simp_all add: purged_def)
  have m: "neigh_heap s0 q = Some m" "q \<notin> lost now s0 E" using assms(5) by (auto simp: st(2) restrict_map_def split: if_splits)
  have ok: "neigh_ok s0 m" using assms(1) m(1) by (simp add: net_ok_def)
  then obtain n where n: "orig_heap s0 (n_orig_node m) = Some n" by (auto simp: neigh_ok_def)
  have alive: "\<not> (n_orig_node m \<in> E \<and> dead now s0 (n_orig_node m))" using assms(2,3) m by (auto simp: purge_safe_def)
  obtain l where "orig_heap s (n_orig_node m) = Some ((kept_node now s0 E (n_orig_node m) n)\<lparr>o_hna_list := l\<rparr>)"
    by (rule purged_orig [OF assms(4) n alive])
  with ok st(1) show ?thesis by (simp add: neigh_ok_def statics_def)
qed

text \<open>The state that the loop leaves, with the table that it leaves.\<close>

lemma purged_table:
  assumes "net_ok s0" "E = set (hash_entries (orig_hash s0))" "purged now s0 E s"
    and "s' = s\<lparr>orig_hash := without (dead now s0) (orig_hash s0), gw_list := g\<rparr>"
  shows "origs_ok s' \<and> orig_map s' = (\<lambda>a. case orig_map s0 a of None \<Rightarrow> None | Some p \<Rightarrow> if dead now s0 p then None else Some p)"
proof -
  let ?h = "without (dead now s0) (orig_hash s0)"
  have o: "origs_ok s0" using assms(1) by (simp add: net_ok_def)
  have brk: "brk s0 \<le> brk s" using assms(3) by (simp add: purged_def)
  have sub: "orig_heap s0 p \<noteq> None" if sp: "orig_heap s p \<noteq> None" for p
  proof -
    obtain n where "orig_heap s p = Some n" using sp by blast
    then show ?thesis by (rule purged_other [OF assms(3)]) simp
  qed
  have key: "orig_key s' p = orig_key s0 p" and live: "orig_heap s' p \<noteq> None" if pE: "p \<in> E" "\<not> dead now s0 p" for p
  proof -
    obtain n where n: "orig_heap s0 p = Some n" using o pE(1) assms(2) by (auto simp: origs_ok_def)
    obtain l where "orig_heap s p = Some ((kept_node now s0 E p n)\<lparr>o_hna_list := l\<rparr>)"
      using purged_orig [OF assms(3) n] pE by blast
    with n show "orig_key s' p = orig_key s0 p" "orig_heap s' p \<noteq> None" by (simp_all add: orig_key_def assms(4))
  qed
  have h0: "hash_ok (orig_key s0) (orig_hash s0)" using o by (simp add: origs_ok_def mac_hash_ok_def)
  have h1: "hash_ok (orig_key s') ?h"
    using without_ok [OF h0, of "dead now s0"] hash_ok_cong [of ?h "orig_key s'" "orig_key s0"] key assms(2) by simp
  have "elements ?h \<le> elements (orig_hash s0)" using h0 h1 by (simp add: hash_ok_def)
  then have small: "elements ?h * 4 \<le> table_size ?h" "4 \<le> table_size ?h" using o by (simp_all add: origs_ok_def)
  have c0: "\<forall>c \<in> fst ` set (concat (table (orig_hash s0))). c < brk s0" "\<forall>p \<in> set (hash_entries (orig_hash s0)). p < brk s0"
      "\<forall>p. orig_heap s0 p \<noteq> None \<longrightarrow> p < brk s0" "compare_cb (orig_hash s0) = compare_orig" "choose_cb (orig_hash s0) = choose_orig"
    using o by (simp_all add: origs_ok_def mac_hash_ok_def del: set_concat)
  have s': "orig_hash s' = ?h" "brk s' = brk s" "orig_heap s' = orig_heap s" by (simp_all add: assms(4))
  have "\<forall>c \<in> fst ` set (concat (table ?h)). c < brk s" unfolding concat_without using c0(1) brk by (auto simp del: set_concat)
  moreover have "\<forall>p \<in> set (hash_entries ?h). p < brk s" using c0(2) brk by auto
  ultimately have "mac_hash_ok (orig_key s') (brk s') (orig_hash s')" using h1 c0(4,5) by (simp add: mac_hash_ok_def s' del: set_concat)
  moreover have "p < brk s'" if "orig_heap s' p \<noteq> None" for p
  proof -
    have "p < brk s0" using c0(3) sub [of p] that s'(3) by simp
    with brk show ?thesis by (simp add: s'(2))
  qed
  moreover have "\<forall>p \<in> set (hash_entries (orig_hash s')). orig_heap s' p \<noteq> None" using live assms(2) by (simp add: s'(1))
  ultimately have "origs_ok s'" using small unfolding origs_ok_def s'(1) by blast
  moreover have "orig_map s' a = (case orig_map s0 a of None \<Rightarrow> None | Some p \<Rightarrow> if dead now s0 p then None else Some p)" for a
  proof (rule option_eqI)
    fix p
    have new: "orig_map s' a = Some p \<longleftrightarrow> \<not> dead now s0 p \<and> p \<in> E \<and> orig_key s0 p = a"
      using hash_map_Some [OF h1, of a p] key [of p] assms(2) by (auto simp: orig_map_def s'(1))
    have old: "p \<in> E \<and> orig_key s0 p = a \<longleftrightarrow> orig_map s0 a = Some p"
      using hash_map_Some [OF h0, of a p] assms(2) by (simp add: orig_map_def)
    show "orig_map s' a = Some p \<longleftrightarrow> (case orig_map s0 a of None \<Rightarrow> None | Some p \<Rightarrow> if dead now s0 p then None else Some p) = Some p"
      unfolding new old by (cases "orig_map s0 a") auto
  qed
  ultimately show ?thesis by auto
qed

lemma purged_net:
  assumes "net_ok s0" "purge_safe now s0" "E = set (hash_entries (orig_hash s0))" "purged now s0 E s"
    and "s' = s\<lparr>orig_hash := without (dead now s0) (orig_hash s0), gw_list := g\<rparr>"
  shows "net_ok s'"
proof -
  have st: "statics s = statics s0" "brk s0 \<le> brk s" "neigh_heap s = (neigh_heap s0) |` (- lost now s0 E)" "trans_ok s"
    using assms(4) by (simp_all add: purged_def)
  have sub: "\<exists>m. orig_heap s0 p = Some m \<and> o_hna_buff m = o_hna_buff n \<and> set (neigh_list n) \<subseteq> set (neigh_list m)"
    if "orig_heap s p = Some n" for p n
    by (rule purged_other [OF assms(4) that]) (simp add: kept_neighs_sub(1))
  have "trans_ok s' \<and> host_map s' = host_map s"
    by (rule trans_ok_fields [OF _ _ _ _ _ _ _ st(4)]) (simp_all add: assms(5))
  moreover have "origs_ok s'" using purged_table [OF assms(1,3,4,5)] ..
  moreover have "orig_ok s' n" if "orig_heap s' p = Some n" for p n
    using purged_orig_ok [OF assms(1-4), of p n] that by (simp add: assms(5) orig_ok_def neigh_key_def [abs_def])
  moreover have "neigh_ok s' m" if "neigh_heap s' q = Some m" for q m
    using purged_neigh_ok [OF assms(1-4), of q m] that by (simp add: assms(5) neigh_ok_def)
  moreover have "if_nums_ok s'" using assms(1) st(1) by (simp add: net_ok_def if_nums_ok_def assms(5) statics_def)
  moreover have "bufs_ok s'"
  proof -
    have ok: "bufs_ok s0" using assms(1) by (simp add: net_ok_def)
    have "b < brk s'" if "buf_heap s' b \<noteq> None" for b
    proof -
      have "buf_heap s b = buf_heap s0 b \<or> buf_heap s b = None \<and> (\<exists>p \<in> E. dead now s0 p \<and> o_hna_buff (the (orig_heap s0 p)) = Some b)"
        using assms(4) by (simp add: purged_def)
      then have "buf_heap s0 b \<noteq> None" using that by (auto simp: assms(5))
      then have "b < brk s0" using ok by (simp add: bufs_ok_def)
      with st(2) show ?thesis by (simp add: assms(5))
    qed
    moreover have "p = p'" if "orig_heap s' p = Some n" "orig_heap s' p' = Some n'" "o_hna_buff n = Some b" "o_hna_buff n' = Some b"
      for p p' n n' b
      using sub [of p n] sub [of p' n'] that ok unfolding bufs_ok_def by (auto simp: assms(5))
    ultimately show ?thesis unfolding bufs_ok_def by blast
  qed
  moreover have "entries_ok s'"
  proof -
    have "entries_ok s0" using assms(1) by (simp add: net_ok_def)
    then have "p = p'" if "orig_heap s' p = Some n" "orig_heap s' p' = Some n'" "q \<in> set (neigh_list n)" "q \<in> set (neigh_list n')"
      for p p' n n' q
      using sub [of p n] sub [of p' n'] that unfolding entries_ok_def by (simp add: assms(5)) blast
    then show ?thesis unfolding entries_ok_def by blast
  qed
  moreover have "\<forall>q. neigh_heap s' q \<noteq> None \<longrightarrow> q < brk s'"
    using assms(1) st(2,3) by (auto simp: net_ok_def assms(5) restrict_map_def intro: less_le_trans split: if_splits)
  ultimately show ?thesis by (simp add: net_ok_def)
qed

lemma purge_orig_eq:
  assumes "bat_ok s" "purge_safe now s" "E = set (hash_entries (orig_hash s))"
  shows "\<exists>s'. purge_orig now s = Some s' \<and> bat_ok s' \<and> statics s' = statics s \<and>
    orig_map s' = (\<lambda>a. case orig_map s a of None \<Rightarrow> None | Some p \<Rightarrow> if dead now s p then None else Some p) \<and>
    neigh_heap s' = (neigh_heap s) |` (- lost now s E) \<and>
    (\<forall>p \<in> E. \<forall>n. orig_heap s p = Some n \<longrightarrow> (if dead now s p then orig_heap s' p = None
       else \<exists>l. orig_heap s' p = Some ((live_node now s n)\<lparr>o_hna_list := l\<rparr>)))"
proof -
  have net: "net_ok s" using bat_ok_net [OF assms(1)] .
  obtain t where t: "hash_loop (purge_body now) (orig_hash s) None s = Some (without (dead now s) (orig_hash s), t)" "purged now s E t"
    using purge_loop_eq [OF net assms(2)] assms(3) by blast
  define g where "g = filter (\<lambda>g. \<not> (deleted g \<noteq> 0 \<and> deleted g + 3 * PURGE_TIMEOUT < now)) (gw_list t)"
  define s' where "s' = t\<lparr>orig_hash := without (dead now s) (orig_hash s), gw_list := g\<rparr>"
  have pg: "purge_orig now s = Some s'" using t(1) by (simp add: purge_orig_def s'_def g_def)
  have ok: "net_ok s'" by (rule purged_net [OF net assms(2,3) t(2) s'_def])
  have map: "orig_map s' = (\<lambda>a. case orig_map s a of None \<Rightarrow> None | Some p \<Rightarrow> if dead now s p then None else Some p)"
    using purged_table [OF net assms(3) t(2) s'_def] by blast
  have same: "statics s' = statics t" "brk s' = brk t" "neigh_heap s' = neigh_heap t" "orig_heap s' = orig_heap t" by (simp_all add: s'_def statics_def)
  have st: "statics s' = statics s" "brk s \<le> brk s'" "neigh_heap s' = (neigh_heap s) |` (- lost now s E)"
    using t(2) by (simp_all add: purged_def same)
  have "if dead now s p then orig_heap s' p = None
       else \<exists>l. orig_heap s' p = Some ((live_node now s n)\<lparr>o_hna_list := l\<rparr>)"
    if pn: "p \<in> E" "orig_heap s p = Some n" for p n
  proof (cases "dead now s p")
    case True
    then have "map_option bare (orig_heap t p) = None" using t(2) pn(1) by (simp add: purged_def)
    with True show ?thesis by (simp add: same)
  next
    case False
    then obtain l where "orig_heap t p = Some ((kept_node now s E p n)\<lparr>o_hna_list := l\<rparr>)"
      using purged_orig [OF t(2) pn(2)] by blast
    with False pn(1) show ?thesis by (auto simp: same kept_node_def)
  qed
  with pg ok map st bat_ok_fields [OF assms(1) ok st(1,2)] show ?thesis by blast
qed

text \<open>The router of a live originator in the terms of the property.\<close>

lemma live_node_router:
  obtains r b where "live_node now s n = n\<lparr>neigh_list := filter (\<lambda>q. \<not> expired now s q) (neigh_list n), router := r, o_batman_if := b\<rparr>"
    "if rerouted now s n
     then best_of s {q \<in> set (neigh_list n). \<not> expired now s q} r \<and>
       b = (case r of None \<Rightarrow> o_batman_if n | Some q \<Rightarrow> Some (n_if_incoming (the (neigh_heap s q))))
     else r = router n \<and> b = o_batman_if n"
proof -
  let ?l = "live_node now s n"
  have b: "best_of s {q \<in> set (neigh_list n). \<not> expired now s q} (pick s None (filter (\<lambda>q. \<not> expired now s q) (neigh_list n)))"
    using pick_best [of s "filter (\<lambda>q. \<not> expired now s q) (neigh_list n)"] by (simp only: set_filter)
  have "n\<lparr>neigh_list := x\<rparr> = n\<lparr>neigh_list := x, router := router n, o_batman_if := o_batman_if n\<rparr>" for x by (cases n) simp
  then have eq: "?l = n\<lparr>neigh_list := filter (\<lambda>q. \<not> expired now s q) (neigh_list n), router := router ?l, o_batman_if := o_batman_if ?l\<rparr>"
    unfolding live_node_def Let_def by (cases "rerouted now s n") simp_all
  have "if rerouted now s n
    then best_of s {q \<in> set (neigh_list n). \<not> expired now s q} (router ?l) \<and>
      o_batman_if ?l = (case router ?l of None \<Rightarrow> o_batman_if n | Some q \<Rightarrow> Some (n_if_incoming (the (neigh_heap s q))))
    else router ?l = router n \<and> o_batman_if ?l = o_batman_if n"
    using b unfolding live_node_def Let_def by (cases "rerouted now s n") simp_all
  from that [OF eq this] show thesis .
qed

text \<open>Nothing is expired: nothing happens to the originators.\<close>

lemma purge_safe_quiet:
  assumes "\<And>p. \<not> dead now s p" "\<And>q. \<not> expired now s q"
  shows "purge_safe now s"
  using assms by (simp add: purge_safe_def routes_safe_def rerouted_def)

section \<open>Examples\<close>

text \<open>A node that knows one originator, which is its own and only neighbour.\<close>

lemma example_alone:
  "\<exists>s q n. bat_ok s \<and> orig_map s (MAC 2 0 0 0 0 9) = Some 1000 \<and> orig_heap s = [1000 \<mapsto> n] \<and>
     n = (new_orig_node (MAC 2 0 0 0 0 9) 2)\<lparr>neigh_list := [q]\<rparr> \<and> neigh_heap s = [q \<mapsto> new_neigh_node (MAC 2 0 0 0 0 9) 1000 10] \<and>
     if_list s = [10, 11] \<and> set (hash_entries (orig_hash s)) = {1000}"
proof -
  let ?a = "MAC 2 0 0 0 0 9"
  have none: "orig_map example_state ?a = None" by (simp add: orig_map_def hash_map_def example_state_def)
  have e: "brk example_state = 1000" "orig_heap example_state = Map.empty" "neigh_heap example_state = Map.empty"
      "found_ifs example_state = 2" "if_list example_state = [10, 11]" by (simp_all add: example_state_def)
  obtain s h b where s: "get_orig_node ?a example_state = Some (1000, s)" "orig_map s ?a = Some 1000"
      "s = (put_orig 1000 (new_orig_node ?a 2) example_state)\<lparr>orig_hash := h, brk := b\<rparr>"
    using get_orig_node_new [OF example_origs_ok none] unfolding e by auto
  have net: "net_ok s" "keeps example_state s" using get_orig_node_net [OF example_net_ok, of ?a] s(1) by auto
  have heaps: "orig_heap s 1000 = Some (new_orig_node ?a 2)" "orig_heap s = [1000 \<mapsto> new_orig_node ?a 2]" "neigh_heap s = Map.empty" "if_list s = [10, 11]"
    using e by (simp_all add: s(3) put_orig_def)
  obtain t where t: "net_ok t" "keeps s t" "neigh_heap t = (neigh_heap s)(brk s \<mapsto> new_neigh_node ?a 1000 10)"
      "orig_heap t = (orig_heap s)(1000 \<mapsto> (new_orig_node ?a 2)\<lparr>neigh_list := neigh_list (new_orig_node ?a 2) @ [brk s]\<rparr>)"
    using create_neighbor_net [OF net(1) heaps(1), of 1000 10 ?a] heaps(1,4) by (auto simp: new_orig_node_def)
  have "orig_map t ?a = Some 1000" using keeps_map [OF t(2) s(2)] .
  moreover have "bat_ok t" using bat_ok_keeps [OF example_bat_ok t(1) keeps_trans [OF net(2) t(2)]] .
  moreover have "if_list t = [10, 11]" using keeps_if_list [OF t(2)] heaps(4) by simp
  moreover have "orig_heap t = [1000 \<mapsto> (new_orig_node ?a 2)\<lparr>neigh_list := [brk s]\<rparr>]"
    unfolding t(4) heaps(2) by (simp add: new_orig_node_def)
  moreover have "set (hash_entries (orig_hash t)) = {1000}"
  proof -
    have o: "origs_ok t" using t(1) by (simp add: net_ok_def)
    then have "set (hash_entries (orig_hash t)) \<subseteq> dom (orig_heap t)" by (auto simp: origs_ok_def)
    moreover have "1000 \<in> set (hash_entries (orig_hash t))" using orig_map_Some [OF o] \<open>orig_map t ?a = Some 1000\<close> by blast
    ultimately show ?thesis by (auto simp: t(4) heaps(2) split: if_splits)
  qed
  ultimately show ?thesis using t(3) heaps(3)
    by (intro exI [of _ t] exI [of _ "brk s"] exI [of _ "(new_orig_node ?a 2)\<lparr>neigh_list := [brk s]\<rparr>"]) simp
qed

text \<open>
  The same node when it has heard the originator over its second interface, too; the first neighbour
  entry is old, and it is the router or there is none.
\<close>

lemma example_two:
  "\<exists>s q x n. bat_ok s \<and> x \<noteq> q \<and> orig_heap s = [1000 \<mapsto> n] \<and>
     n = (new_orig_node (MAC 2 0 0 0 0 9) 2)\<lparr>neigh_list := [q, x], router := (if with_router then Some q else None), o_last_valid := 290000\<rparr> \<and>
     neigh_heap s = [q \<mapsto> new_neigh_node (MAC 2 0 0 0 0 9) 1000 10, x \<mapsto> (new_neigh_node (MAC 2 0 0 0 0 9) 1000 11)\<lparr>n_last_valid := 290000\<rparr>] \<and>
     set (hash_entries (orig_hash s)) \<subseteq> {1000} \<and> 1000 \<in> set (hash_entries (orig_hash s))"
proof -
  obtain s q n where s: "bat_ok s" "orig_heap s = [1000 \<mapsto> n]" "n = (new_orig_node (MAC 2 0 0 0 0 9) 2)\<lparr>neigh_list := [q]\<rparr>"
      "neigh_heap s = [q \<mapsto> new_neigh_node (MAC 2 0 0 0 0 9) 1000 10]" "if_list s = [10, 11]" "orig_map s (MAC 2 0 0 0 0 9) = Some 1000"
    using example_alone by blast
  have net: "net_ok s" and np: "orig_heap s 1000 = Some n" using bat_ok_net [OF s(1)] s(2) by simp_all
  define x where "x = brk s"
  obtain t where t: "net_ok t" "keeps s t" "neigh_heap s x = None" "neigh_heap t = (neigh_heap s)(x \<mapsto> new_neigh_node (MAC 2 0 0 0 0 9) 1000 11)"
      "orig_heap t = (orig_heap s)(1000 \<mapsto> n\<lparr>neigh_list := neigh_list n @ [x]\<rparr>)"
    using create_neighbor_net [OF net np, of 1000 11 "MAC 2 0 0 0 0 9"] np s(3-5)
    by (auto simp: neigh_key_def new_neigh_node_def x_def)
  have xq: "x \<noteq> q" using t(3) s(4) by auto
  let ?m = "(new_neigh_node (MAC 2 0 0 0 0 9) 1000 11)\<lparr>n_last_valid := 290000\<rparr>"
  let ?n = "n\<lparr>neigh_list := [q, x], router := (if with_router then Some q else None), o_last_valid := 290000\<rparr>"
  let ?t = "put_orig 1000 ?n (put_neigh x ?m t)"
  have mx: "neigh_heap t x = Some (new_neigh_node (MAC 2 0 0 0 0 9) 1000 11)" by (simp add: t(4))
  have "neigh_ok t ?m" using net_ok_neigh [OF t(1) mx] by (simp add: neigh_ok_def)
  then have u: "net_ok (put_neigh x ?m t)" by (intro put_neigh_net(1) [OF t(1) mx]) simp_all
  have nu: "orig_heap (put_neigh x ?m t) 1000 = Some (n\<lparr>neigh_list := [q, x]\<rparr>)" using s(3) by (simp add: put_neigh_def t(5))
  have "orig_ok (put_neigh x ?m t) ?n" using net_ok_orig [OF u nu] unfolding orig_ok_def by auto
  then have v: "net_ok ?t" using net_ok_put_orig [OF u nu, of ?n] by simp
  have same: "statics ?t = statics t" "brk ?t = brk t" "orig_hash ?t = orig_hash t" by (simp_all add: put_orig_def put_neigh_def statics_def)
  have tk: "bat_ok t" by (rule bat_ok_keeps [OF s(1) t(1,2)])
  have ok: "bat_ok ?t" by (rule bat_ok_fields [OF tk v]) (simp_all add: same)
  have ot: "origs_ok t" using t(1) by (simp add: net_ok_def)
  then have "set (hash_entries (orig_hash t)) \<subseteq> dom (orig_heap t)" by (auto simp: origs_ok_def)
  then have tab: "set (hash_entries (orig_hash ?t)) \<subseteq> {1000}" by (auto simp: same t(5) s(2) split: if_splits)
  have "orig_map t (MAC 2 0 0 0 0 9) = Some 1000" by (rule keeps_map [OF t(2) s(6)])
  then have tab1: "1000 \<in> set (hash_entries (orig_hash ?t))" using orig_map_Some [OF ot] same(3) by simp
  have heaps: "orig_heap ?t = [1000 \<mapsto> ?n]" "neigh_heap ?t = [q \<mapsto> new_neigh_node (MAC 2 0 0 0 0 9) 1000 10, x \<mapsto> ?m]"
    by (simp_all add: put_orig_def put_neigh_def t(4,5) s(2,4))
  have n: "?n = (new_orig_node (MAC 2 0 0 0 0 9) 2)\<lparr>neigh_list := [q, x], router := (if with_router then Some q else None), o_last_valid := 290000\<rparr>"
    by (simp add: s(3))
  show ?thesis
    by (rule exI [of _ ?t], rule exI [of _ q], rule exI [of _ x], rule exI [of _ ?n], intro conjI) (fact ok xq heaps n tab tab1)+
qed

section \<open>Properties\<close>

text \<open>
  C13: \<open>purge_orig\<close> when it does not touch freed memory (\<open>purge_safe\<close>). It returns, exactly the
  originators that were not heard of for \<open>PURGE_TIMEOUT\<close> leave the table and are freed, every other
  one keeps its entry with exactly the neighbours that are not too old, exactly the other neighbours
  are freed, and the invariant of the daemon is kept. An originator that lost a neighbour, and that
  has no router, no neighbour left or a better one than the router, gets the best of the neighbours
  that are left as its router, and the interface of that neighbour; no router if none is left. Every
  other originator keeps its router.
\<close>

theorem purge_orig_spec:
  assumes "bat_ok s" "purge_safe now s" "E = set (hash_entries (orig_hash s))"
  shows "\<exists>s'. purge_orig now s = Some s' \<and> bat_ok s' \<and>
    orig_map s' = (\<lambda>a. case orig_map s a of None \<Rightarrow> None | Some p \<Rightarrow> if dead now s p then None else Some p) \<and>
    neigh_heap s' = (neigh_heap s) |` (- lost now s E) \<and>
    (\<forall>p \<in> E. \<forall>n. orig_heap s p = Some n \<longrightarrow>
       (if dead now s p then orig_heap s' p = None
        else \<exists>l r b.
          orig_heap s' p = Some (n\<lparr>neigh_list := filter (\<lambda>q. \<not> expired now s q) (neigh_list n), router := r, o_batman_if := b, o_hna_list := l\<rparr>) \<and>
          (if rerouted now s n
           then best_of s {q \<in> set (neigh_list n). \<not> expired now s q} r \<and>
             b = (case r of None \<Rightarrow> o_batman_if n | Some q \<Rightarrow> Some (n_if_incoming (the (neigh_heap s q))))
           else r = router n \<and> b = o_batman_if n)))"
proof -
  obtain s' where s': "purge_orig now s = Some s'" "bat_ok s'"
      "orig_map s' = (\<lambda>a. case orig_map s a of None \<Rightarrow> None | Some p \<Rightarrow> if dead now s p then None else Some p)"
      "neigh_heap s' = (neigh_heap s) |` (- lost now s E)"
      "\<And>p n. p \<in> E \<Longrightarrow> orig_heap s p = Some n \<Longrightarrow> if dead now s p then orig_heap s' p = None
        else \<exists>l. orig_heap s' p = Some ((live_node now s n)\<lparr>o_hna_list := l\<rparr>)"
    using purge_orig_eq [OF assms] by blast
  show ?thesis
  proof (intro exI [of _ s'] conjI s' ballI allI impI)
    fix p n assume p: "p \<in> E" "orig_heap s p = Some n"
    show "if dead now s p then orig_heap s' p = None
        else \<exists>l r b.
          orig_heap s' p = Some (n\<lparr>neigh_list := filter (\<lambda>q. \<not> expired now s q) (neigh_list n), router := r, o_batman_if := b, o_hna_list := l\<rparr>) \<and>
          (if rerouted now s n
           then best_of s {q \<in> set (neigh_list n). \<not> expired now s q} r \<and>
             b = (case r of None \<Rightarrow> o_batman_if n | Some q \<Rightarrow> Some (n_if_incoming (the (neigh_heap s q))))
           else r = router n \<and> b = o_batman_if n)"
      using s'(5) [OF p] by (cases "dead now s p") (simp, rule live_node_router [of now s n], fastforce)
  qed
qed

theorem purge_orig_spec_witness:
  "(\<exists>s s'. orig_map s (MAC 2 0 0 0 0 9) = Some 1000 \<and> purge_orig 300000 s = Some s' \<and> bat_ok s' \<and>
     orig_map s' (MAC 2 0 0 0 0 9) = None \<and> neigh_heap s' = Map.empty) \<and>
   (\<exists>s s' q x. neigh_list (the (orig_heap s 1000)) = [q, x] \<and> router (the (orig_heap s 1000)) = None \<and> purge_orig 300000 s = Some s' \<and>
     bat_ok s' \<and> neigh_list (the (orig_heap s' 1000)) = [x] \<and> router (the (orig_heap s' 1000)) = Some x \<and>
     o_batman_if (the (orig_heap s' 1000)) = Some 11)"
proof (rule conjI)
  obtain s q n where s: "bat_ok s" "orig_map s (MAC 2 0 0 0 0 9) = Some 1000" "orig_heap s = [1000 \<mapsto> n]"
      "n = (new_orig_node (MAC 2 0 0 0 0 9) 2)\<lparr>neigh_list := [q]\<rparr>" "neigh_heap s = [q \<mapsto> new_neigh_node (MAC 2 0 0 0 0 9) 1000 10]"
      "set (hash_entries (orig_hash s)) = {1000}" using example_alone by blast
  have d: "dead 300000 s 1000" using s(3,4) by (simp add: dead_def new_orig_node_def PURGE_TIMEOUT_def)
  have l: "q \<in> lost 300000 s {1000}" using d s(3,4) by (simp add: lost_def)
  have "purge_safe 300000 s" using s(3-6) d l by (auto simp: purge_safe_def new_orig_node_def split: if_splits)
  from purge_orig_spec [OF s(1) this refl] obtain s' where s': "purge_orig 300000 s = Some s'" "bat_ok s'"
      "orig_map s' = (\<lambda>a. case orig_map s a of None \<Rightarrow> None | Some p \<Rightarrow> if dead 300000 s p then None else Some p)"
      "neigh_heap s' = (neigh_heap s) |` (- lost 300000 s (set (hash_entries (orig_hash s))))" by blast
  have "orig_map s' (MAC 2 0 0 0 0 9) = None" using s(2) d by (simp add: s'(3))
  moreover have "neigh_heap s' = Map.empty" using l by (simp add: s'(4) s(5,6) restrict_map_def fun_eq_iff)
  ultimately show "\<exists>s s'. orig_map s (MAC 2 0 0 0 0 9) = Some 1000 \<and> purge_orig 300000 s = Some s' \<and> bat_ok s' \<and>
     orig_map s' (MAC 2 0 0 0 0 9) = None \<and> neigh_heap s' = Map.empty" using s(2) s'(1,2) by blast
next
  obtain s q x n where s: "bat_ok s" "x \<noteq> q" "orig_heap s = [1000 \<mapsto> n]"
      "n = (new_orig_node (MAC 2 0 0 0 0 9) 2)\<lparr>neigh_list := [q, x], router := None, o_last_valid := 290000\<rparr>"
      "neigh_heap s = [q \<mapsto> new_neigh_node (MAC 2 0 0 0 0 9) 1000 10, x \<mapsto> (new_neigh_node (MAC 2 0 0 0 0 9) 1000 11)\<lparr>n_last_valid := 290000\<rparr>]"
      "1000 \<in> set (hash_entries (orig_hash s))"
    using example_two [of False] by (simp only: if_False) blast
  have dead: "\<not> dead 300000 s p" for p using s(3,4) by (auto simp: dead_def PURGE_TIMEOUT_def word_less_nat_alt split: if_splits)
  have ex: "expired 300000 s q" "\<not> expired 300000 s x"
    using s(2) by (simp_all add: expired_def s(5) new_neigh_node_def PURGE_TIMEOUT_def word_less_nat_alt)
  have rr: "rerouted 300000 s n" using ex(1) by (simp add: rerouted_def s(4))
  have "purge_safe 300000 s" using dead s(3,4) by (auto simp: purge_safe_def routes_safe_def new_orig_node_def split: if_splits)
  from purge_orig_spec [OF s(1) this refl] obtain s' where s': "purge_orig 300000 s = Some s'" "bat_ok s'"
      "\<forall>p \<in> set (hash_entries (orig_hash s)). \<forall>n. orig_heap s p = Some n \<longrightarrow>
       (if dead 300000 s p then orig_heap s' p = None
        else \<exists>l r b.
          orig_heap s' p = Some (n\<lparr>neigh_list := filter (\<lambda>q. \<not> expired 300000 s q) (neigh_list n), router := r, o_batman_if := b, o_hna_list := l\<rparr>) \<and>
          (if rerouted 300000 s n
           then best_of s {q \<in> set (neigh_list n). \<not> expired 300000 s q} r \<and>
             b = (case r of None \<Rightarrow> o_batman_if n | Some q \<Rightarrow> Some (n_if_incoming (the (neigh_heap s q))))
           else r = router n \<and> b = o_batman_if n))" by blast
  obtain l r b where n': "orig_heap s' 1000 = Some (n\<lparr>neigh_list := [x], router := r, o_batman_if := b, o_hna_list := l\<rparr>)"
      "best_of s {q' \<in> {q, x}. \<not> expired 300000 s q'} r" "b = (case r of None \<Rightarrow> o_batman_if n | Some q \<Rightarrow> Some (n_if_incoming (the (neigh_heap s q))))"
  proof -
    have "neigh_list n = [q, x]" "filter (\<lambda>q. \<not> expired 300000 s q) [q, x] = [x]" "set [q, x] = {q, x}" using ex by (simp_all add: s(4))
    moreover have "orig_heap s 1000 = Some n" by (simp add: s(3))
    note bspec [OF s'(3) s(6), rule_format, OF this]
    ultimately show thesis using that by (simp only: dead rr if_False if_True) blast
  qed
  have "{q' \<in> {q, x}. \<not> expired 300000 s q'} = {x}" using ex by auto
  then have r: "r = Some x" using n'(2) by (cases r) (simp_all add: best_of_def)
  then have "b = Some 11" using n'(3) by (simp add: s(5) new_neigh_node_def)
  then show "\<exists>s s' q x. neigh_list (the (orig_heap s 1000)) = [q, x] \<and> router (the (orig_heap s 1000)) = None \<and> purge_orig 300000 s = Some s' \<and>
     bat_ok s' \<and> neigh_list (the (orig_heap s' 1000)) = [x] \<and> router (the (orig_heap s' 1000)) = Some x \<and>
     o_batman_if (the (orig_heap s' 1000)) = Some 11"
    using s'(1,2) s(3,4) n'(1) r by (intro exI [of _ s] exI [of _ s'] exI [of _ q] exI [of _ x]) simp
qed

text \<open>
  C19: when the router of an originator that stays is too old and another neighbour is not, the code
  frees the router and then compares its quality with that of the best other neighbour: it reads
  freed memory, whatever the qualities are.
\<close>

theorem purge_router_use_after_free:
  assumes "net_ok s" "orig_heap s p = Some n" "\<not> o_last_valid n + PURGE_TIMEOUT < now" "router n = Some r"
    and "expired now s r" "q \<in> set (neigh_list n)" "\<not> expired now s q"
  shows "purge_body now p s = None"
proof -
  have ok: "orig_ok s n" by (rule net_ok_orig [OF assms(1,2)])
  then have d: "distinct (neigh_list n)" "set (neigh_list n) \<subseteq> dom (neigh_heap s)" "r \<in> set (neigh_list n)"
    using assms(4) by (auto simp: orig_ok_def)
  let ?t = "free_set {q \<in> set (neigh_list n). expired now s q} s"
  note b = purge_neighs_start [OF d(1,2), of now]
  obtain x where x: "pick s None (filter (\<lambda>q. \<not> expired now s q) (neigh_list n)) = Some x"
    using pick_best [of s "filter (\<lambda>q. \<not> expired now s q) (neigh_list n)"] assms(6,7)
    by (cases "pick s None (filter (\<lambda>q. \<not> expired now s q) (neigh_list n))") (auto simp: best_of_def)
  have "\<exists>q \<in> set (neigh_list n). expired now s q" "neigh_heap ?t r = None" using assms(5) d(3) by auto
  then have "purge_live_orig now p s = None"
    using assms(2,4) b x by (simp add: purge_live_orig_def put_orig_def Let_def bind_eq_None_conv)
  then show ?thesis using assms(2,3) by (simp add: purge_body_def)
qed

theorem purge_router_use_after_free_witness:
  "\<exists>s n. net_ok s \<and> orig_heap s 1000 = Some n \<and> length (neigh_list n) = 2 \<and> purge_body 300000 1000 s = None"
proof -
  obtain s q x n where s: "bat_ok s" "x \<noteq> q" "orig_heap s = [1000 \<mapsto> n]"
      "n = (new_orig_node (MAC 2 0 0 0 0 9) 2)\<lparr>neigh_list := [q, x], router := Some q, o_last_valid := 290000\<rparr>"
      "neigh_heap s = [q \<mapsto> new_neigh_node (MAC 2 0 0 0 0 9) 1000 10, x \<mapsto> (new_neigh_node (MAC 2 0 0 0 0 9) 1000 11)\<lparr>n_last_valid := 290000\<rparr>]"
    using example_two [of True] by (simp only: if_True) blast
  have net: "net_ok s" and n: "orig_heap s 1000 = Some n" using bat_ok_net [OF s(1)] s(3) by simp_all
  have "purge_body 300000 1000 s = None"
    by (rule purge_router_use_after_free [OF net n, of 300000 q x])
      (use s(2) in \<open>simp_all add: expired_def s(4,5) new_neigh_node_def PURGE_TIMEOUT_def word_less_nat_alt\<close>)
  with net n s(4) show ?thesis by (intro exI [of _ s] exI [of _ n]) simp
qed

end
