(* ===== verification/Daemon.thy ===== *)
theory Daemon
  imports Purge Tap_Inv Vis
begin

text \<open>
  The daemon as a state machine: the actions of its main loop, the states it can reach, and the
  invariant of all of them. The start is \<open>batman_init\<close>.
\<close>

section \<open>Packets of the clients\<close>

lemma handle_packet_ok:
  assumes "bat_ok s" "icmp_packet_at (little_endian s) buff = Some (p, rest)"
  shows "\<exists>s'. handle_packet buff u sock s = Some s' \<and> bat_ok s' \<and> queue_same s s'"
proof (cases "icmp_packet_type p = BAT_ICMP \<and> msg_type p = ECHO_REQUEST")
  case True
  have nh: "next_hop (dst p) s = Some (hop_of s (dst p))" by (rule next_hop_eq [OF bat_ok_net [OF assms(1)]])
  have unix: "\<exists>s'. Some (s\<lparr>unix_written := w # unix_written s\<rparr>) = Some s' \<and> bat_ok s' \<and> queue_same s s'" for w
    using bat_ok_unix [OF assms(1)] by simp
  show ?thesis
  proof (cases "hop_of s (dst p)")
    case None
    with True nh assms(2) unix show ?thesis by (simp add: handle_packet_def)
  next
    case (Some x)
    obtain b addr where x: "x = (b, addr)" by fastforce
    obtain res w fs where "rawsock_write (raw_sock b) (hw_addr b) addr
        (bytes_of_icmp_packet (little_endian s) (p\<lparr>uid := u, icmp_orig := hw_addr b\<rparr>) @ rest) s = (res, wrote s w fs)"
      using rawsock_write_once by blast
    with True Some x nh assms(2) unix bat_ok_wrote [OF assms(1), of w fs] show ?thesis by (simp add: handle_packet_def)
  qed
next
  case False
  with assms show ?thesis by (auto simp: handle_packet_def)
qed

section \<open>Own messages\<close>

text \<open>
  The interfaces for which an own message is queued. The invariant of the daemon: every interface
  has exactly one, and the interval is longer than the jitter.
\<close>

definition own_ifs :: "bat_state \<Rightarrow> nat multiset" where
  "own_ifs s = mset (map (\<lambda>x. the (if_outgoing (snd x))) (filter (\<lambda>x. own (snd x)) (forw_list s)))"

definition daemon_ok :: "bat_state \<Rightarrow> bool" where
  "daemon_ok s \<longleftrightarrow> bat_ok s \<and> own_ifs s = mset (if_list s) \<and> JITTER < originator_interval s"

lemma daemon_ok_same: "daemon_ok s \<Longrightarrow> bat_ok s' \<Longrightarrow> queue_same s s' \<Longrightarrow> daemon_ok s' \<and> if_list s' = if_list s"
  by (simp add: daemon_ok_def queue_same_def own_ifs_def)

lemma daemon_ok_queued: "daemon_ok s \<Longrightarrow> bat_ok s' \<Longrightarrow> queued neigh inp tail s s' \<Longrightarrow> daemon_ok s' \<and> if_list s' = if_list s"
  by (auto simp: daemon_ok_def queued_def own_ifs_def)

lemma own_ifs_requeued:
  assumes "requeued now due later (forw_list s')" "forw_list s = due @ later"
  shows "own_ifs s' = own_ifs s"
proof -
  let ?f = "\<lambda>x :: nat \<times> forw_node. the (if_outgoing (snd x))" and ?o = "\<lambda>x :: nat \<times> forw_node. own (snd x)"
  obtain news where n: "mset (forw_list s') = mset later + mset news"
      "map (\<lambda>x. if_outgoing (snd x)) news = map (\<lambda>x. if_outgoing (snd x)) (filter ?o due)" "\<forall>x \<in> set news. ?o x"
    using assms(1) by (auto simp: requeued_def)
  have "map ?f news = map ?f (filter ?o due)" using arg_cong [OF n(2), of "map the"] by (simp add: comp_def)
  moreover have "filter ?o news = news" using n(3) by simp
  ultimately have m: "image_mset ?f (filter_mset ?o (mset news)) = image_mset ?f (filter_mset ?o (mset due))"
    by (metis mset_filter mset_map)
  have "own_ifs s' = image_mset ?f (filter_mset ?o (mset (forw_list s')))" by (simp add: own_ifs_def)
  also have "\<dots> = image_mset ?f (filter_mset ?o (mset later)) + image_mset ?f (filter_mset ?o (mset due))" by (simp add: n(1) m)
  also have "\<dots> = own_ifs s" by (simp add: own_ifs_def assms(2))
  finally show ?thesis .
qed

lemma daemon_send:
  assumes "daemon_ok s" "clock_ok (clock s (ticks s)) s"
  shows "\<exists>ok s'. send_outstanding_packets s = Some (ok, s') \<and> if_list s' = if_list s \<and> (ok \<longrightarrow> daemon_ok s')"
proof -
  have s: "bat_ok s" "JITTER < originator_interval s" "own_ifs s = mset (if_list s)" using assms(1) by (simp_all add: daemon_ok_def)
  obtain ok s' where s': "send_outstanding_packets s = Some (ok, s')" "bat_ok s'" "io_same s s'"
      "ok \<longrightarrow> requeued (clock s (ticks s)) (takeWhile (is_due (clock s (ticks s))) (forw_list s))
         (dropWhile (is_due (clock s (ticks s))) (forw_list s)) (forw_list s')"
    using send_outstanding_ok [OF s(1,2) assms(2) refl refl refl] by blast
  have "own_ifs s' = own_ifs s" if ok using that s'(4) by (intro own_ifs_requeued) auto
  then show ?thesis using s s' by (auto simp: daemon_ok_def io_same_def)
qed

text \<open>With an own message in the queue the timeout of \<open>select\<close> is defined.\<close>

lemma daemon_timeout: "daemon_ok s \<Longrightarrow> select_timeout s \<noteq> None"
proof -
  assume ok: "daemon_ok s"
  then have "if_list s \<noteq> []" by (simp add: daemon_ok_def bat_ok_def net_ok_def trans_ok_def ifs_ok_def)
  with ok have "forw_list s \<noteq> []" by (auto simp: daemon_ok_def own_ifs_def)
  then show ?thesis by (cases "forw_list s") (auto simp: select_timeout_def)
qed

section \<open>Actions\<close>

text \<open>
  What the main loop does, one action at a time: reading the clock at the start of an iteration,
  reading the tap interface or a raw socket, treating the frame that was read from the tap interface or
  from the raw socket of an interface, an originator message that \<open>receive_packet\<close> returned, a packet of
  a client, and the housekeeping.
\<close>

datatype action = Read_clock | Read_tap | Read_raw int | Tap_action mac mac "u8 list" | Raw_action nat mac mac "u8 list"
  | Ogm_action mac batman_packet "u8 list" nat | Client_action "u8 list" u8 int
  | Hna_action | Send_action | Purge_action | Debug_action debug_env | Vis_action "nat \<Rightarrow> u8"

definition act :: "action \<Rightarrow> bat_state \<Rightarrow> bat_state option" where
  "act a s =
     (case a of
        Read_clock \<Rightarrow> let (now, s) = get_time s in Some (s\<lparr>curr_time := now\<rparr>)
      | Read_tap \<Rightarrow> Some (s\<lparr>tap_pos := Suc (tap_pos s)\<rparr>)
      | Read_raw sock \<Rightarrow> Some (s\<lparr>raw_pos := (raw_pos s)(sock := Suc (raw_pos s sock))\<rparr>)
      | Tap_action d h rest \<Rightarrow> map_option snd (tap_frame d h rest s)
      | Raw_action i d h bytes \<Rightarrow> map_option (\<lambda>(res, cur, s). s) (recv_frame i d h bytes s)
      | Ogm_action neigh p tail i \<Rightarrow> process_ogm neigh p tail i s
      | Client_action buff u sock \<Rightarrow> handle_packet buff u sock s
      | Hna_action \<Rightarrow> hna_update s
      | Send_action \<Rightarrow> map_option snd (send_outstanding_packets s)
      | Purge_action \<Rightarrow> purge_orig (curr_time s) s
      | Debug_action e \<Rightarrow> map_option snd (debug_orig e s)
      | Vis_action junk \<Rightarrow> generate_vis_packet junk s)"

text \<open>
  What the actions rely on. The numbers in received messages are at a safe distance, the gateway
  class is a known one, a client sends a whole packet, the announced hosts fit into memory, the
  clock does not run backwards or overflow, purging leaves no pointer behind, and the packet for the
  visualisation server is shorter than 65536 bytes.
\<close>

definition enabled :: "action \<Rightarrow> bat_state \<Rightarrow> bool" where
  "enabled a s \<longleftrightarrow>
     (case a of
        Raw_action i d h bytes \<Rightarrow> i \<in> set (if_list s) \<and> bcast_safe s bytes
      | Ogm_action neigh p tail i \<Rightarrow> i \<in> set (if_list s) \<and> ogm_safe s p
      | Client_action buff u sock \<Rightarrow> icmp_packet_at (little_endian s) buff \<noteq> None
      | Hna_action \<Rightarrow> length (hna_list s) * 6 < 2 ^ 32
      | Send_action \<Rightarrow> clock_ok (clock s (ticks s)) s
      | Purge_action \<Rightarrow> purge_safe (curr_time s) s
      | Vis_action junk \<Rightarrow> vis_safe s
      | _ \<Rightarrow> True)"

text \<open>The daemon exits when a message could not be sent; otherwise it goes on.\<close>

definition goes_on :: "action \<Rightarrow> bat_state \<Rightarrow> bool" where
  "goes_on a s \<longleftrightarrow> (a = Send_action \<longrightarrow> map_option fst (send_outstanding_packets s) = Some True)"

lemma bat_ok_pos: "bat_ok s \<Longrightarrow> bat_ok (s\<lparr>tap_pos := n\<rparr>) \<and> bat_ok (s\<lparr>raw_pos := r\<rparr>)"
  using net_ok_fields [of "s\<lparr>tap_pos := n\<rparr>" s] net_ok_fields [of "s\<lparr>raw_pos := r\<rparr>" s] by (simp add: bat_ok_def queue_ok_def)

lemma debug_orig_ok:
  assumes "bat_ok s"
  shows "\<exists>ms. debug_orig e s = Some (ms, s\<lparr>ticks := Suc (ticks s)\<rparr>) \<and> bat_ok (s\<lparr>ticks := Suc (ticks s)\<rparr>)"
proof -
  have net: "net_ok s" by (rule bat_ok_net [OF assms])
  then have o: "origs_ok s" by (simp add: net_ok_def)
  have "tables_live s" using o net_ok_orig [OF net] unfolding tables_live_def origs_ok_def orig_ok_def by fastforce
  moreover have "table_ok (orig_hash s)" using o by (simp add: origs_ok_def mac_hash_ok_def hash_ok_def table_ok_def)
  moreover obtain i my where "first_if s = Some (i, my)" using first_if_ok [OF net] .
  moreover have "bat_ok (s\<lparr>ticks := Suc (ticks s)\<rparr>)"
    using assms net_ok_fields [of "s\<lparr>ticks := Suc (ticks s)\<rparr>" s] by (simp add: bat_ok_def queue_ok_def)
  ultimately show ?thesis using debug_orig_returns by blast
qed

lemma act_ok:
  assumes "daemon_ok s" "enabled a s"
  shows "\<exists>s'. act a s = Some s' \<and> if_list s' = if_list s \<and> (goes_on a s \<longrightarrow> daemon_ok s')"
proof -
  have ok: "bat_ok s" using assms(1) by (simp add: daemon_ok_def)
  note same = daemon_ok_same [OF assms(1)]
  show ?thesis
  proof (cases a)
    case Read_clock
    have "bat_ok (s\<lparr>ticks := Suc (ticks s), curr_time := clock s (ticks s)\<rparr>)" using bat_ok_clock [OF ok] by simp
    with Read_clock same show ?thesis by (simp add: act_def get_time_def queue_same_def)
  next
    case Read_tap
    with bat_ok_pos [OF ok] same show ?thesis by (simp add: act_def queue_same_def)
  next
    case (Read_raw sock)
    with bat_ok_pos [OF ok] same show ?thesis by (simp add: act_def queue_same_def)
  next
    case (Tap_action d h rest)
    obtain i my where "first_if s = Some (i, my)" using first_if_ok [OF bat_ok_net [OF ok]] .
    from tap_frame_eq [OF ok this refl refl, of d h rest] same Tap_action show ?thesis by (auto simp: act_def)
  next
    case (Raw_action i d h bytes)
    with recv_frame_ok [OF ok, of bytes i d h] assms(2) same show ?thesis by (auto simp: act_def enabled_def)
  next
    case (Ogm_action neigh p tail i)
    with process_ogm_ok [OF ok, of i p neigh tail] assms(2) daemon_ok_queued [OF assms(1)] show ?thesis
      by (auto simp: act_def enabled_def)
  next
    case (Client_action buff u sock)
    with handle_packet_ok [OF ok, of buff _ _ u sock] assms(2) same show ?thesis by (auto simp: act_def enabled_def)
  next
    case Hna_action
    with hna_update_ok [OF ok] assms(2) same show ?thesis by (auto simp: act_def enabled_def)
  next
    case Send_action
    with daemon_send [OF assms(1)] assms(2) show ?thesis by (auto simp: act_def enabled_def goes_on_def)
  next
    case Purge_action
    with purge_orig_eq [OF ok _ refl] assms(2) same queue_same_statics show ?thesis by (fastforce simp: act_def enabled_def)
  next
    case (Debug_action e)
    with debug_orig_ok [OF ok, of e] same show ?thesis by (auto simp: act_def queue_same_def)
  next
    case (Vis_action junk)
    then have "vis_safe s" using assms(2) by (simp add: enabled_def)
    from generate_vis_packet_ok [OF ok this, of junk] same Vis_action show ?thesis by (auto simp: act_def queue_same_def)
  qed
qed

section \<open>The start\<close>

text \<open>
  The state in which \<open>batman\<close> is called: the interfaces are set up, the lists are empty, nothing is
  allocated yet. The two hash tables and the list of the local hosts are not initialised.
\<close>

definition start_ok :: "bat_state \<Rightarrow> bool" where
  "start_ok s \<longleftrightarrow> ifs_ok s \<and> if_nums_ok s \<and> orig_heap s = Map.empty \<and> neigh_heap s = Map.empty \<and> elem_heap s = Map.empty \<and>
     buf_heap s = Map.empty \<and> forw_list s = [] \<and> g_num_hna s = 0 \<and> JITTER < originator_interval s \<and>
     (\<forall>k \<ge> ticks s. unat (clock s k) + nat (originator_interval s + JITTER) < 2 ^ 32)"

text \<open>A state with the empty translation table that \<open>transtable_init\<close> puts into it.\<close>

definition no_hosts :: "bat_state \<Rightarrow> bat_state" where
  "no_hosts s = s\<lparr>hna_list := [], trans_hash := hash_new 4096 compare_orig choose_orig\<rparr>"

lemma no_hosts_simps [simp]:
  "if_heap (no_hosts s) = if_heap s" "if_list (no_hosts s) = if_list s" "forw_list (no_hosts s) = forw_list s" "clock (no_hosts s) = clock s"
  "ticks (no_hosts s) = ticks s" "originator_interval (no_hosts s) = originator_interval s" "orig_hash (no_hosts s) = orig_hash s"
  "own_ifs (no_hosts s) = own_ifs s"
  by (simp_all add: no_hosts_def own_ifs_def)

lemma empty_loop:
  assumes "hash_entries hash = []" "table_ok hash"
  shows "hash_loop body hash None s = Some (hash, s)"
  using hash_loop_keep [OF assms(2), of "\<lambda>t. t = s" s body] assms(1) by auto

lemma schedule_own_no_hosts:
  assumes "hash_entries (orig_hash s) = []" "table_ok (orig_hash s)"
  shows "schedule_own_packet i (no_hosts s) = map_option no_hosts (schedule_own_packet i s)"
proof (cases "if_heap s i")
  case None
  then show ?thesis by (simp add: schedule_own_packet_def own_forw_node_def)
next
  case (Some b)
  then show ?thesis using assms
    by (simp add: schedule_own_packet_def own_forw_node_def get_time_def rand_num_def empty_loop no_hosts_def put_if_def JITTER_def Let_def)
qed

lemma schedule_own_table:
  assumes "hash_entries (orig_hash s) = []" "table_ok (orig_hash s)" "schedule_own_packet i s = Some s'"
  shows "orig_hash s' = orig_hash s"
  using assms by (auto simp: schedule_own_packet_def own_forw_node_def get_time_def rand_num_def empty_loop put_if_def JITTER_def Let_def
      bind_eq_Some_conv split: if_splits)

text \<open>What holds while the interfaces are initialised.\<close>

definition starting :: "bat_state \<Rightarrow> bool" where
  "starting s \<longleftrightarrow> bat_ok (no_hosts s) \<and> hash_entries (orig_hash s) = [] \<and> table_ok (orig_hash s) \<and> JITTER < originator_interval s \<and>
     (\<forall>k \<ge> ticks s. unat (clock s k) + nat (originator_interval s + JITTER) < 2 ^ 32)"

lemma init_if_ok:
  assumes "starting s" "i \<in> set (if_list s)"
  shows "\<exists>s'. init_if i s = Some s' \<and> starting s' \<and> if_list s' = if_list s \<and> own_ifs s' = add_mset i (own_ifs s)"
proof -
  have st: "bat_ok (no_hosts s)" "hash_entries (orig_hash s) = []" "table_ok (orig_hash s)" "JITTER < originator_interval s"
      "\<forall>k \<ge> ticks s. unat (clock s k) + nat (originator_interval s + JITTER) < 2 ^ 32" using assms(1) by (simp_all add: starting_def)
  have "i \<in> set (if_list (no_hosts s))" using assms(2) by simp
  from net_ok_if [OF bat_ok_net [OF st(1)] this] obtain b where b: "if_heap s i = Some b" by auto
  define b' where "b' = b\<lparr>out := (out b)\<lparr>packet_type := BAT_PACKET, version := COMPAT_VERSION, flags := 0, ttl := TTL,
       gwflags := gateway_class s, tq := word_of_int TQ_MAX_VALUE, seqno := 1, num_hna := 0, orig := hw_addr b, old_orig := hw_addr b\<rparr>, bcast_seqno := 1\<rparr>"
  define t where "t = put_if i b' s"
  have eq: "init_if i s = schedule_own_packet i t" using b by (simp add: init_if_def t_def b'_def Let_def)
  have same: "if_list t = if_list s" "originator_interval t = originator_interval s" "clock t = clock s" "ticks t = ticks s" "orig_hash t = orig_hash s"
      "own_ifs t = own_ifs s" by (simp_all add: t_def put_if_def own_ifs_def)
  have "net_ok (no_hosts t)" using net_ok_fields [of "no_hosts t" "no_hosts s"] bat_ok_net [OF st(1)] b
    by (auto simp: t_def no_hosts_def put_if_def b'_def fun_eq_iff)
  then have ok: "bat_ok (no_hosts t)" using st(1) by (simp add: bat_ok_def queue_ok_def) (simp add: t_def no_hosts_def put_if_def)
  obtain u f where u: "schedule_own_packet i (no_hosts t) = Some u" "bat_ok u" "io_same (no_hosts t) u" "ticks u = Suc (ticks t)"
      "forw_list u = forw_insert (brk (no_hosts t), f) (forw_list t)" "own f" "if_outgoing f = Some i"
    using schedule_own_packet_ok [OF ok, of i] assms(2) st(4,5) by (auto simp: same)
  obtain s' where s': "schedule_own_packet i t = Some s'" "u = no_hosts s'"
    using u(1) schedule_own_no_hosts [of t i] st(2,3) by (auto simp: same)
  have oh: "orig_hash s' = orig_hash s" using schedule_own_table [OF _ _ s'(1)] st(2,3) by (simp add: same)
  have io: "if_list s' = if_list s" "originator_interval s' = originator_interval s" "clock s' = clock s" "ticks s' = Suc (ticks s)"
    using u(3,4) by (simp_all add: s'(2) io_same_def same)
  have "own_ifs s' = add_mset i (own_ifs s)"
  proof -
    have "mset (forw_list s') = add_mset (brk (no_hosts t), f) (mset (forw_list t))" using u(5) by (simp add: s'(2) forw_insert_mset)
    then have "own_ifs s' = add_mset i (own_ifs t)" using u(6,7) by (simp add: own_ifs_def)
    then show ?thesis by (simp add: same)
  qed
  moreover have "starting s'" using u(2) st oh io by (auto simp: starting_def s'(2) dest: Suc_leD)
  ultimately show ?thesis using eq s'(1) io(1) by auto
qed

lemma init_ifs_ok:
  assumes "starting s" "set js \<subseteq> set (if_list s)"
  shows "\<exists>s'. init_ifs js s = Some s' \<and> starting s' \<and> if_list s' = if_list s \<and> own_ifs s' = own_ifs s + mset js"
  using assms
proof (induction js arbitrary: s)
  case (Cons j js)
  obtain t where t: "init_if j s = Some t" "starting t" "if_list t = if_list s" "own_ifs t = add_mset j (own_ifs s)"
    using init_if_ok [OF Cons.prems(1), of j] Cons.prems(2) by auto
  obtain s' where "init_ifs js t = Some s'" "starting s'" "if_list s' = if_list t" "own_ifs s' = own_ifs t + mset js"
    using Cons.IH [OF t(2)] Cons.prems(2) t(3) by auto
  with t show ?case by simp
qed simp

lemma starting_state:
  assumes "start_ok s"
  shows "starting (s\<lparr>ticks := Suc (ticks s), orig_hash := hash_new 128 compare_orig choose_orig\<rparr>)"
proof -
  let ?s = "no_hosts (s\<lparr>ticks := Suc (ticks s), orig_hash := hash_new 128 compare_orig choose_orig\<rparr>)"
  have h: "orig_heap s = Map.empty" "neigh_heap s = Map.empty" "elem_heap s = Map.empty" "buf_heap s = Map.empty" "ifs_ok s" "if_nums_ok s"
    using assms by (simp_all add: start_ok_def)
  have "origs_ok ?s" by (simp add: origs_ok_def no_hosts_def hash_new_mac_ok h(1))
  moreover have "links_ok ?s" "ifs_ok ?s" using h(3,5) by (simp_all add: links_ok_def ifs_ok_def no_hosts_def h(1))
  then have "trans_ok ?s" by (simp add: trans_ok_def) (simp add: no_hosts_def hash_new_mac_ok h(3))
  moreover have "if_nums_ok ?s" "bufs_ok ?s" "entries_ok ?s" using h(6) by (simp_all add: if_nums_ok_def bufs_ok_def entries_ok_def no_hosts_def h(1,4))
  ultimately have "net_ok ?s" by (simp add: net_ok_def) (simp add: no_hosts_def h(1,2))
  then have "bat_ok ?s" using assms by (simp add: bat_ok_def queue_ok_def start_ok_def) (simp add: no_hosts_def)
  moreover have "table_ok (hash_new 128 compare_orig choose_orig :: (nat, mac) hashtable_t)"
    by (simp add: table_ok_def) (simp add: hash_new_def hash_init_def)
  ultimately show ?thesis using assms by (auto simp: starting_def start_ok_def)
qed

lemma batman_init_ok:
  assumes "start_ok s"
  shows "\<exists>d s'. batman_init s = Some (d, s') \<and> daemon_ok s' \<and> if_list s' = if_list s \<and> hash_entries (orig_hash s') = []"
proof -
  let ?s = "s\<lparr>ticks := Suc (ticks s), orig_hash := hash_new 128 compare_orig choose_orig\<rparr>"
  obtain t where t: "init_ifs (if_list s) ?s = Some t" "starting t" "if_list t = if_list s" "own_ifs t = mset (if_list s)"
    using init_ifs_ok [OF starting_state [OF assms], of "if_list s"] assms by (auto simp: own_ifs_def start_ok_def)
  have ok: "bat_ok (no_hosts t)" "JITTER < originator_interval t" using t(2) by (simp_all add: starting_def)
  obtain i my where my: "first_if (no_hosts t) = Some (i, my)" using first_if_ok [OF bat_ok_net [OF ok(1)]] .
  obtain s' where s': "hna_add (hw_addr my) (hw_addr my) (no_hosts t) = Some s'" "bat_ok s'" "keeps (no_hosts t) s'"
    using hna_add_ok [OF ok(1)] by blast
  have "batman_init s = Some (clock s (ticks s), s')"
    using t(1) my s'(1) by (simp add: batman_init_def get_time_def transtable_init_def no_hosts_def)
  moreover have "daemon_ok s'" using s'(2) queue_same_keeps [OF s'(3)] t(3,4) ok(2)
    by (simp add: daemon_ok_def queue_same_def own_ifs_def)
  moreover have "trans_ok (no_hosts t)" using bat_ok_net [OF ok(1)] by (simp add: net_ok_def)
  from hna_add_eq [OF this, of "hw_addr my" "hw_addr my"] s'(1) have "orig_hash s' = orig_hash t" by (auto simp: trans_frame_def)
  then have "hash_entries (orig_hash s') = []" using t(2) by (simp add: starting_def)
  ultimately show ?thesis using queue_same_keeps [OF s'(3)] t(3) by (simp add: queue_same_def)
qed

section \<open>Reachable states\<close>

inductive reachable :: "bat_state \<Rightarrow> bat_state \<Rightarrow> bool" for s0 where
  start: "batman_init s0 = Some (d, s) \<Longrightarrow> reachable s0 s"
| step: "reachable s0 s \<Longrightarrow> enabled a s \<Longrightarrow> goes_on a s \<Longrightarrow> act a s = Some s' \<Longrightarrow> reachable s0 s'"

lemma reachable_daemon_ok:
  assumes "reachable s0 s" "start_ok s0"
  shows "daemon_ok s"
  using assms
proof (induction rule: reachable.induct)
  case (start d s)
  with batman_init_ok [of s0] show ?case by auto
next
  case (step s a s')
  then show ?case using act_ok [of s a] by auto
qed

section \<open>Properties\<close>

text \<open>
  C1: the invariant of the daemon. From a start state \<open>batman_init\<close> returns, and every state that
  the main loop reaches satisfies the invariant: the tables are well-formed, every pointer is live,
  every window, ring buffer and array has its size, and exactly one own originator message is queued
  for every interface. None of the actions of the loop runs into undefined behaviour there under the
  condition that \<open>enabled\<close> names for it (for the packet to the visualisation server, that its size fits
  into 16 bits), and the timeout of the next \<open>select\<close> is defined because the queue is never empty.
\<close>

theorem daemon_invariant:
  assumes "start_ok s0" "reachable s0 s"
  shows "bat_ok s \<and> own_ifs s = mset (if_list s) \<and> select_timeout s \<noteq> None \<and> (\<forall>a. enabled a s \<longrightarrow> act a s \<noteq> None)"
proof -
  have ok: "daemon_ok s" by (rule reachable_daemon_ok [OF assms(2,1)])
  moreover have "act a s \<noteq> None" if "enabled a s" for a using act_ok [OF ok that] by auto
  ultimately show ?thesis using daemon_timeout [OF ok] by (simp add: daemon_ok_def)
qed

lemma example_start_ok: "start_ok example_state"
proof -
  have "if_nums_ok example_state" using example_net_ok by (simp add: net_ok_def)
  moreover have "ifs_ok example_state" using example_trans_ok by (simp add: trans_ok_def)
  ultimately show ?thesis by (simp add: start_ok_def) (simp add: example_state_def JITTER_def)
qed

theorem daemon_invariant_witness:
  "\<exists>d s s'. batman_init example_state = Some (d, s) \<and> act Read_clock s = Some s' \<and> reachable example_state s' \<and>
     bat_ok s' \<and> own_ifs s' = {#10, 11#} \<and> select_timeout s' \<noteq> None \<and> (\<forall>d h rest. act (Tap_action d h rest) s' \<noteq> None)"
proof -
  obtain d s where s: "batman_init example_state = Some (d, s)" "if_list s = [10, 11]"
    using batman_init_ok [OF example_start_ok] by (auto simp: example_state_def)
  define s' where "s' = s\<lparr>ticks := Suc (ticks s), curr_time := clock s (ticks s)\<rparr>"
  have a: "act Read_clock s = Some s'" by (simp add: act_def get_time_def s'_def)
  have "reachable example_state s'"
    by (rule reachable.step [OF reachable.start [OF s(1)] _ _ a]) (simp_all add: enabled_def goes_on_def)
  moreover have "enabled (Tap_action d h rest) s'" for d h rest by (simp add: enabled_def)
  moreover have "if_list s' = [10, 11]" using s(2) by (simp add: s'_def)
  ultimately show ?thesis using daemon_invariant [OF example_start_ok, of s'] s(1) a
    by (intro exI [of _ d] exI [of _ s] exI [of _ s']) simp
qed

end
