(* ===== verification/Main_Loop.thy ===== *)
theory Main_Loop
  imports Daemon
begin

text \<open>
  The whole function \<open>batman\<close> of \<open>src/batman-adv.c\<close>: the iterations of its loop are sequences of the
  actions of \<open>Daemon\<close>, the loop over a list of iterations (until the daemon is aborted), and the
  shutdown behind the loop.
\<close>

section \<open>Moves\<close>

text \<open>One action that is enabled and after which the daemon goes on.\<close>

inductive moves :: "bat_state \<Rightarrow> bat_state \<Rightarrow> bool" where
  move: "enabled a s \<Longrightarrow> goes_on a s \<Longrightarrow> act a s = Some t \<Longrightarrow> moves s t"

inductive_cases movesE: "moves s t"

interpretation daemon_moves: invariant_system moves "\<lambda>t. daemon_ok t \<and> if_list t = ifs" for ifs
proof
  fix s t
  assume "moves s t" "daemon_ok s \<and> if_list s = ifs"
  then show "daemon_ok t \<and> if_list t = ifs" by (elim movesE) (use act_ok in fastforce)
qed

lemma daemon_ok_moves: "moves\<^sup>*\<^sup>* s t \<Longrightarrow> daemon_ok s \<Longrightarrow> daemon_ok t \<and> if_list t = if_list s"
  by (rule daemon_moves.star_inv) auto

lemma reachable_moves: "moves\<^sup>*\<^sup>* s t \<Longrightarrow> reachable s0 s \<Longrightarrow> reachable s0 t"
  by (induction rule: rtranclp_induct) (auto elim!: movesE intro: reachable.step)

text \<open>An enabled action happens, and is a move unless the daemon exits.\<close>

lemma act_moves:
  assumes "daemon_ok s" "enabled a s" "a \<noteq> Send_action"
  shows "\<exists>t. act a s = Some t \<and> daemon_ok t \<and> moves\<^sup>*\<^sup>* s t"
proof -
  have go: "goes_on a s" using assms(3) by (simp add: goes_on_def)
  with act_ok [OF assms(1,2)] obtain t where "act a s = Some t" "daemon_ok t" by auto
  with move [OF assms(2) go] show ?thesis by auto
qed

section \<open>Reading packets\<close>

lemma read_tap_moves: "moves\<^sup>*\<^sup>* s (s\<lparr>tap_pos := Suc (tap_pos s)\<rparr>)"
  by (intro r_into_rtranclp move [of Read_tap]) (simp_all add: enabled_def goes_on_def act_def)

lemma read_raw_moves: "moves\<^sup>*\<^sup>* s (s\<lparr>raw_pos := (raw_pos s)(k := Suc (raw_pos s k))\<rparr>)"
  by (intro r_into_rtranclp move [of "Read_raw k"]) (simp_all add: enabled_def goes_on_def act_def)

lemma receive_packet_tap_moves:
  "daemon_ok s \<Longrightarrow> \<exists>r t. receive_packet_tap n s = Some (r, t) \<and> moves\<^sup>*\<^sup>* s t"
proof (induction n arbitrary: s)
  case (Suc n)
  define u where "u = s\<lparr>tap_pos := Suc (tap_pos s)\<rparr>"
  have u: "moves\<^sup>*\<^sup>* s u" unfolding u_def by (rule read_tap_moves)
  have ok: "daemon_ok u" using daemon_ok_moves [OF u Suc.prems] ..
  show ?case
  proof (cases "tap_reads s (tap_pos s)")
    case (Tap_frame d h rest)
    have "enabled (Tap_action d h rest) u" by (simp add: enabled_def)
    from act_moves [OF ok this] obtain b v where v: "tap_frame d h rest u = Some (b, v)" "daemon_ok v" "moves\<^sup>*\<^sup>* u v"
      by (auto simp: act_def)
    show ?thesis
    proof (cases b)
      case True
      with Suc.IH [OF v(2)] v(1,3) u Tap_frame show ?thesis by (auto simp: u_def [symmetric] intro: rtranclp_trans)
    next
      case False
      with v(1,3) u Tap_frame show ?thesis by (auto simp: u_def [symmetric] intro: rtranclp_trans)
    qed
  qed (use u in \<open>auto simp: u_def [symmetric]\<close>)
qed simp

text \<open>What reading from a raw socket relies on: every frame that is read keeps the windows safe.\<close>

fun batiface_safe :: "nat \<Rightarrow> nat \<Rightarrow> bat_state \<Rightarrow> bool" where
  "batiface_safe 0 cur s = True"
| "batiface_safe (Suc n) cur s =
     (case if_heap s cur of
        None \<Rightarrow> True
      | Some b \<Rightarrow>
          let k = raw_sock b; u = s\<lparr>raw_pos := (raw_pos s)(k := Suc (raw_pos s k))\<rparr> in
          case raw_reads s k (raw_pos s k) of
            Raw_frame d h bytes \<Rightarrow> bcast_safe u bytes \<and>
              (case recv_frame cur d h bytes u of Some (Rx_next, c, v) \<Rightarrow> batiface_safe n c v | _ \<Rightarrow> True)
          | _ \<Rightarrow> True)"

definition result_on :: "bat_state \<Rightarrow> recv_result \<Rightarrow> bool" where
  "result_on s r \<longleftrightarrow> (\<forall>neigh p tail i. r = Recv_ogm neigh p tail i \<longrightarrow> i \<in> set (if_list s))"

lemma raw_action_moves:
  assumes "daemon_ok s" "cur \<in> set (if_list s)" "bcast_safe s bytes"
  shows "\<exists>res c t. recv_frame cur d h bytes s = Some (res, c, t) \<and> daemon_ok t \<and> moves\<^sup>*\<^sup>* s t \<and> c \<in> set (if_list t) \<and>
    (\<forall>neigh p tail i. res = Rx_ogm neigh p tail i \<longrightarrow> i \<in> set (if_list t))"
proof -
  have "bat_ok s" using assms(1) by (simp add: daemon_ok_def)
  from recv_frame_ok [OF this assms(3,2)] obtain res c t where t: "recv_frame cur d h bytes s = Some (res, c, t)" "queue_same s t"
      "c \<in> set (if_list s)" "\<forall>neigh p tail i. res = Rx_ogm neigh p tail i \<longrightarrow> t = s \<and> i = cur" by blast
  have "enabled (Raw_action cur d h bytes) s" using assms(2,3) by (simp add: enabled_def)
  from act_moves [OF assms(1) this] t(1) have "daemon_ok t" "moves\<^sup>*\<^sup>* s t" by (auto simp: act_def)
  with t assms(2) show ?thesis by (auto simp: queue_same_def)
qed

lemma batiface_moves:
  assumes "daemon_ok s" "cur \<in> set (if_list s)" "batiface_safe n cur s"
  shows "\<exists>r t. receive_packet_batiface n cur s = Some (r, t) \<and> daemon_ok t \<and> moves\<^sup>*\<^sup>* s t \<and> result_on t r"
  using assms
proof (induction n arbitrary: cur s)
  case (Suc n)
  have "net_ok s" using Suc.prems(1) by (simp add: daemon_ok_def bat_ok_def)
  with net_ok_if Suc.prems(2) obtain b where b: "if_heap s cur = Some b" by blast
  define k where "k = raw_sock b"
  define u where "u = s\<lparr>raw_pos := (raw_pos s)(k := Suc (raw_pos s k))\<rparr>"
  have u: "moves\<^sup>*\<^sup>* s u" "if_list u = if_list s" using read_raw_moves [of s k] by (simp_all add: u_def)
  have ok: "daemon_ok u" using daemon_ok_moves [OF u(1) Suc.prems(1)] ..
  note defs = rawsock_read_def u_def [symmetric] k_def [symmetric]
  show ?case
  proof (cases "raw_reads s k (raw_pos s k)")
    case (Raw_frame d h bytes)
    have safe: "bcast_safe u bytes" "\<And>c v. recv_frame cur d h bytes u = Some (Rx_next, c, v) \<Longrightarrow> batiface_safe n c v"
      using Suc.prems(3) b Raw_frame by (simp_all add: defs Let_def)
    from raw_action_moves [OF ok _ safe(1), of cur d h] Suc.prems(2) u(2) obtain res c t where
      t: "recv_frame cur d h bytes u = Some (res, c, t)" "daemon_ok t" "moves\<^sup>*\<^sup>* u t" "c \<in> set (if_list t)"
        "\<forall>neigh p tail i. res = Rx_ogm neigh p tail i \<longrightarrow> i \<in> set (if_list t)" by auto
    show ?thesis
    proof (cases res)
      case Rx_next
      with Suc.IH [OF t(2,4) safe(2)] t obtain r v where "receive_packet_batiface n c t = Some (r, v)" "daemon_ok v" "moves\<^sup>*\<^sup>* t v" "result_on v r"
        by auto
      with Rx_next t b u(1) Raw_frame show ?thesis by (auto simp: defs Let_def intro: rtranclp_trans)
    qed (use t b u(1) Raw_frame in \<open>auto simp: defs Let_def result_on_def intro: rtranclp_trans\<close>)
  qed (use u ok b in \<open>auto simp: defs Let_def result_on_def\<close>)
qed (auto simp: result_on_def)

fun ifs_safe :: "int set \<Rightarrow> nat list \<Rightarrow> bat_state \<Rightarrow> bool" where
  "ifs_safe ready [] s = True"
| "ifs_safe ready (i # js) s =
     (case if_heap s i of
        None \<Rightarrow> True
      | Some b \<Rightarrow>
          if raw_sock b \<in> ready then batiface_safe PACKETS_PER_CYCLE i s \<and>
            (case receive_packet_batiface PACKETS_PER_CYCLE i s of Some (Recv_none, t) \<Rightarrow> ifs_safe ready js t | _ \<Rightarrow> True)
          else ifs_safe ready js s)"

lemma receive_ifs_moves:
  assumes "daemon_ok s" "set is \<subseteq> set (if_list s)" "ifs_safe ready is s"
  shows "\<exists>r t. receive_ifs ready is s = Some (r, t) \<and> daemon_ok t \<and> moves\<^sup>*\<^sup>* s t \<and> result_on t r"
  using assms
proof (induction "is" arbitrary: s)
  case (Cons i js)
  have "net_ok s" using Cons.prems(1) by (simp add: daemon_ok_def bat_ok_def)
  with net_ok_if Cons.prems(2) obtain b where b: "if_heap s i = Some b" by force
  show ?case
  proof (cases "raw_sock b \<in> ready")
    case True
    with Cons.prems b obtain r t where t: "receive_packet_batiface PACKETS_PER_CYCLE i s = Some (r, t)" "daemon_ok t" "moves\<^sup>*\<^sup>* s t" "result_on t r"
      using batiface_moves [of s i PACKETS_PER_CYCLE] by auto
    have "set js \<subseteq> set (if_list t)" using daemon_ok_moves [OF t(3) Cons.prems(1)] Cons.prems(2) by simp
    with Cons.IH [OF t(2)] Cons.prems(3) True b t show ?thesis
      by (cases r) (auto intro: rtranclp_trans)
  qed (use Cons b in auto)
qed (auto simp: result_on_def)

definition receive_safe :: "(bool \<times> int set) option \<Rightarrow> bat_state \<Rightarrow> bool" where
  "receive_safe selected s =
     (case selected of
        Some (tap, ready) \<Rightarrow>
          (case if tap then receive_packet_tap PACKETS_PER_CYCLE s else Some (0, s) of
             Some (ret, t) \<Rightarrow> ret = 0 \<longrightarrow> ifs_safe ready (if_list t) t
           | None \<Rightarrow> True)
      | None \<Rightarrow> True)"

lemma receive_packet_moves:
  assumes "daemon_ok s" "receive_safe selected s"
  shows "\<exists>r t. receive_packet selected s = Some (r, t) \<and> daemon_ok t \<and> moves\<^sup>*\<^sup>* s t \<and> result_on t r"
proof (cases "selected = None \<or> selected = Some (False, {})")
  case True
  with assms(1) show ?thesis by (auto simp: receive_packet_def result_on_def)
next
  case False
  then obtain tap ready where sel: "selected = Some (tap, ready)" "\<not> (\<not> tap \<and> ready = {})" by auto
  obtain ret u where u: "(if tap then receive_packet_tap PACKETS_PER_CYCLE s else Some (0, s)) = Some (ret, u)" "moves\<^sup>*\<^sup>* s u"
    using receive_packet_tap_moves [OF assms(1), of PACKETS_PER_CYCLE] by (cases tap) auto
  have ok: "daemon_ok u" using daemon_ok_moves [OF u(2) assms(1)] ..
  have eq: "receive_packet selected s = (if ret \<noteq> 0 then Some (Recv_error, u) else receive_ifs ready (if_list u) u)"
    unfolding receive_packet_def sel(1) option.case prod.case if_not_P [OF sel(2)] u(1) by simp
  show ?thesis
  proof (cases "ret = 0")
    case True
    with assms(2) have "ifs_safe ready (if_list u) u" unfolding receive_safe_def sel(1) option.case prod.case u(1) by simp
    from receive_ifs_moves [OF ok subset_refl this] True eq u(2) show ?thesis by (auto intro: rtranclp_trans)
  qed (use eq ok u(2) in \<open>auto simp: result_on_def\<close>)
qed

section \<open>An iteration\<close>

text \<open>What the housekeeping and a whole iteration rely on.\<close>

definition housekeeping_safe :: "round_env \<Rightarrow> u32 \<Rightarrow> bat_state \<Rightarrow> bool" where
  "housekeeping_safe env debug_timeout s \<longleftrightarrow> length (hna_list s) * 6 < 2 ^ 32 \<and>
     (\<forall>t. hna_update s = Some t \<longrightarrow> clock_ok (clock t (ticks t)) t \<and>
        (\<forall>u. send_outstanding_packets t = Some (True, u) \<longrightarrow> debug_timeout + 1000 < curr_time u \<longrightarrow>
           purge_safe (curr_time u) u \<and> (vis_sock env \<longrightarrow> (\<forall>w ms x. purge_orig (curr_time u) u = Some w \<longrightarrow>
             debug_orig (debug_levels env) w = Some (ms, x) \<longrightarrow> vis_safe x))))"

definition iteration_safe :: "(u32 \<Rightarrow> (bool \<times> int set) option) \<Rightarrow> round_env \<Rightarrow> u32 \<Rightarrow> bat_state \<Rightarrow> bool" where
  "iteration_safe select env debug_timeout s \<longleftrightarrow>
     (let s = s\<lparr>ticks := Suc (ticks s), curr_time := clock s (ticks s)\<rparr>; selected = select (the (select_timeout s)) in
      receive_safe selected s \<and>
      (\<forall>res t. receive_packet selected s = Some (res, t) \<longrightarrow>
         (case res of
            Recv_error \<Rightarrow> True
          | Recv_none \<Rightarrow> housekeeping_safe env debug_timeout t
          | Recv_ogm neigh p tail i \<Rightarrow> ogm_safe t p \<and>
              (\<forall>u. process_ogm neigh p tail i t = Some u \<longrightarrow> housekeeping_safe env debug_timeout u))))"

text \<open>How an iteration of a good state ends.\<close>

definition ended :: "bat_state \<Rightarrow> iteration \<Rightarrow> bool" where
  "ended s r = (case r of
     Goes_on d t \<Rightarrow> moves\<^sup>*\<^sup>* s t
   | Returns_error t \<Rightarrow> moves\<^sup>*\<^sup>* s t
   | Exits t \<Rightarrow> \<exists>u. moves\<^sup>*\<^sup>* s u \<and> send_outstanding_packets u = Some (False, t))"

lemma ended_moves: "moves\<^sup>*\<^sup>* s t \<Longrightarrow> ended t r \<Longrightarrow> ended s r"
  by (cases r) (auto simp: ended_def intro: rtranclp_trans)

lemma housekeeping_moves:
  assumes "daemon_ok s" "housekeeping_safe env d s"
  shows "\<exists>r. batman_housekeeping env d s = Some r \<and> ended s r \<and> (\<forall>t. r \<noteq> Returns_error t)"
proof -
  have safe: "length (hna_list s) * 6 < 2 ^ 32" using assms(2) by (simp add: housekeeping_safe_def)
  then have "enabled Hna_action s" by (simp add: enabled_def)
  from act_moves [OF assms(1) this] obtain t where t: "hna_update s = Some t" "daemon_ok t" "moves\<^sup>*\<^sup>* s t" by (auto simp: act_def)
  have clk: "clock_ok (clock t (ticks t)) t"
    and pur: "\<And>u. send_outstanding_packets t = Some (True, u) \<Longrightarrow> d + 1000 < curr_time u \<Longrightarrow> purge_safe (curr_time u) u"
    and vis: "\<And>u w ms x. send_outstanding_packets t = Some (True, u) \<Longrightarrow> d + 1000 < curr_time u \<Longrightarrow> vis_sock env \<Longrightarrow>
      purge_orig (curr_time u) u = Some w \<Longrightarrow> debug_orig (debug_levels env) w = Some (ms, x) \<Longrightarrow> vis_safe x"
    using assms(2) t(1) by (simp_all add: housekeeping_safe_def)
  from daemon_send [OF t(2) clk] obtain ok u where u: "send_outstanding_packets t = Some (ok, u)" "ok \<longrightarrow> daemon_ok u" by blast
  show ?thesis
  proof (cases ok)
    case False
    with t u show ?thesis by (auto simp: batman_housekeeping_def ended_def)
  next
    case True
    have "moves t u" by (rule move [of Send_action]) (use clk u(1) True in \<open>simp_all add: enabled_def goes_on_def act_def\<close>)
    with t(3) have mu: "moves\<^sup>*\<^sup>* s u" by simp
    show ?thesis
    proof (cases "d + 1000 < curr_time u")
      case False
      with True t u mu show ?thesis by (simp add: batman_housekeeping_def ended_def)
    next
      case late: True
      then have "enabled Purge_action u" using pur u(1) True by (simp add: enabled_def)
      from act_moves [OF _ this] u(2) True obtain w where w: "purge_orig (curr_time u) u = Some w" "daemon_ok w" "moves\<^sup>*\<^sup>* u w" by (auto simp: act_def)
      obtain ms y where y: "debug_orig (debug_levels env) w = Some (ms, y)" "daemon_ok y" "moves\<^sup>*\<^sup>* w y"
        using act_moves [OF w(2), of "Debug_action (debug_levels env)"] by (auto simp: act_def enabled_def)
      have "\<exists>x. (if vis_sock env then generate_vis_packet (vis_junk env) y else Some y) = Some x \<and> moves\<^sup>*\<^sup>* y x"
        using act_moves [OF y(2), of "Vis_action (vis_junk env)"] vis [of u w ms y] u(1) True late w(1) y(1)
        by (cases "vis_sock env") (auto simp: act_def enabled_def)
      then obtain x where x: "(if vis_sock env then generate_vis_packet (vis_junk env) y else Some y) = Some x" "moves\<^sup>*\<^sup>* y x" by blast
      then have "batman_housekeeping env d s = Some (Goes_on (curr_time u) x)"
        using True t(1) u(1) late w(1) y(1) by (auto simp: batman_housekeeping_def split: if_splits)
      moreover have "moves\<^sup>*\<^sup>* s x" using mu w(3) y(3) x(2) by (meson rtranclp_trans)
      ultimately show ?thesis by (simp add: ended_def)
    qed
  qed
qed

lemma iteration_moves:
  assumes "daemon_ok s" "iteration_safe select env d s"
  shows "\<exists>r. batman_iteration select env d s = Some r \<and> ended s r"
proof -
  define u where "u = s\<lparr>ticks := Suc (ticks s), curr_time := clock s (ticks s)\<rparr>"
  have "act Read_clock s = Some u" by (simp add: act_def get_time_def u_def)
  then have u: "moves\<^sup>*\<^sup>* s u" using move [of Read_clock s u] by (auto simp: enabled_def goes_on_def)
  have ok: "daemon_ok u" using daemon_ok_moves [OF u assms(1)] ..
  obtain timeout where out: "select_timeout u = Some timeout" using daemon_timeout [OF ok] by blast
  have safe: "receive_safe (select timeout) u" "\<And>res t. receive_packet (select timeout) u = Some (res, t) \<Longrightarrow>
      (case res of Recv_error \<Rightarrow> True | Recv_none \<Rightarrow> housekeeping_safe env d t
       | Recv_ogm neigh p tail i \<Rightarrow> ogm_safe t p \<and> (\<forall>u. process_ogm neigh p tail i t = Some u \<longrightarrow> housekeeping_safe env d u))"
    using assms(2) out by (simp_all add: iteration_safe_def Let_def u_def [symmetric])
  from receive_packet_moves [OF ok safe(1)] obtain res t where
    t: "receive_packet (select timeout) u = Some (res, t)" "daemon_ok t" "moves\<^sup>*\<^sup>* u t" "result_on t res" by blast
  have st: "moves\<^sup>*\<^sup>* s t" using u t(3) by (rule rtranclp_trans)
  have eq: "batman_iteration select env d s = (case res of Recv_error \<Rightarrow> Some (Returns_error t)
      | Recv_none \<Rightarrow> batman_housekeeping env d t
      | Recv_ogm neigh p tail i \<Rightarrow> do { w \<leftarrow> process_ogm neigh p tail i t; batman_housekeeping env d w })"
    using t(1) by (simp add: batman_iteration_def get_time_def Let_def u_def [symmetric] out)
  show ?thesis
  proof (cases res)
    case Recv_none
    with safe(2) [OF t(1)] housekeeping_moves [OF t(2), of env d] eq show ?thesis by (auto intro: ended_moves [OF st])
  next
    case Recv_error
    with st eq show ?thesis by (simp add: ended_def)
  next
    case (Recv_ogm neigh p tail i)
    have "enabled (Ogm_action neigh p tail i) t" using Recv_ogm safe(2) [OF t(1)] t(4) by (simp add: enabled_def result_on_def)
    from act_moves [OF t(2) this] obtain w where w: "process_ogm neigh p tail i t = Some w" "daemon_ok w" "moves\<^sup>*\<^sup>* t w" by (auto simp: act_def)
    have sw: "moves\<^sup>*\<^sup>* s w" using st w(3) by (rule rtranclp_trans)
    have "housekeeping_safe env d w" using Recv_ogm safe(2) [OF t(1)] w(1) by simp
    with housekeeping_moves [OF w(2) this] eq w(1) Recv_ogm show ?thesis by (auto intro: ended_moves [OF sw])
  qed
qed

section \<open>The loop\<close>

text \<open>
  The environments of the iterations. The end of the list is the abortion of the daemon.
\<close>

type_synonym bat_round = "(u32 \<Rightarrow> (bool \<times> int set) option) \<times> round_env"

fun batman_loop :: "bat_round list \<Rightarrow> u32 \<Rightarrow> bat_state \<Rightarrow> iteration option" where
  "batman_loop [] debug_timeout s = Some (Goes_on debug_timeout s)"
| "batman_loop ((select, env) # rounds) debug_timeout s = do {
     r \<leftarrow> batman_iteration select env debug_timeout s;
     (case r of Goes_on debug_timeout s \<Rightarrow> batman_loop rounds debug_timeout s | _ \<Rightarrow> Some r)
   }"

text \<open>\<open>batman\<close> returns a value, or the daemon exits in the middle of it.\<close>

datatype batman_end = Returned int bat_state | Exited bat_state

definition batman :: "bat_round list \<Rightarrow> bat_state \<Rightarrow> batman_end option" where
  "batman rounds s = do {
     (debug_timeout, s) \<leftarrow> batman_init s;
     r \<leftarrow> batman_loop rounds debug_timeout s;
     (case r of
        Goes_on debug_timeout s \<Rightarrow> do { s \<leftarrow> batman_shutdown s; Some (Returned 0 s) }
      | Returns_error s \<Rightarrow> Some (Returned (- 1) s)
      | Exits s \<Rightarrow> Some (Exited s))
   }"

fun loop_safe :: "bat_round list \<Rightarrow> u32 \<Rightarrow> bat_state \<Rightarrow> bool" where
  "loop_safe [] d s = True"
| "loop_safe ((select, env) # rounds) d s \<longleftrightarrow> iteration_safe select env d s \<and>
     (\<forall>d' t. batman_iteration select env d s = Some (Goes_on d' t) \<longrightarrow> loop_safe rounds d' t)"

lemma loop_moves:
  "daemon_ok s \<Longrightarrow> loop_safe rounds d s \<Longrightarrow> \<exists>r. batman_loop rounds d s = Some r \<and> ended s r"
proof (induction rounds arbitrary: d s)
  case (Cons x rounds)
  obtain select env where x: "x = (select, env)" by (cases x)
  have "iteration_safe select env d s" using Cons.prems(2) by (simp add: x)
  from iteration_moves [OF Cons.prems(1) this] obtain r where
    r: "batman_iteration select env d s = Some r" "ended s r" by blast
  show ?case
  proof (cases r)
    case (Goes_on d' t)
    have t: "moves\<^sup>*\<^sup>* s t" using r(2) Goes_on by (simp add: ended_def)
    have "loop_safe rounds d' t" using Cons.prems(2) r(1) Goes_on by (simp add: x)
    from Cons.IH [OF _ this] daemon_ok_moves [OF t Cons.prems(1)] r(1) Goes_on show ?thesis
      by (auto simp: x intro: ended_moves [OF t])
  qed (use r in \<open>simp_all add: x\<close>)
qed (simp add: ended_def)

section \<open>Shutdown\<close>

lemma fold_free_elem: "fold free_elem ps s = s\<lparr>elem_heap := (elem_heap s) |` (- set ps)\<rparr>"
  by (induction ps arbitrary: s) (auto simp: free_elem_def fun_eq_iff restrict_map_def intro!: bat_state.equality)

lemma batman_shutdown_ok:
  assumes "bat_ok s" "now = clock s (ticks s) + 5 * PURGE_TIMEOUT + word_of_int (originator_interval s)"
    and "purge_safe now (s\<lparr>ticks := Suc (ticks s)\<rparr>)"
  shows "\<exists>t. batman_shutdown s = Some t \<and> forw_list t = [] \<and> elem_heap t = Map.empty \<and>
    orig_map t = (\<lambda>a. case orig_map s a of None \<Rightarrow> None | Some p \<Rightarrow> if dead now s p then None else Some p)"
proof -
  let ?s = "s\<lparr>ticks := Suc (ticks s)\<rparr>"
  have "?s = s\<lparr>ticks := Suc (ticks s), curr_time := curr_time s\<rparr>" by simp
  then have ok: "bat_ok ?s" "orig_map ?s = orig_map s" using bat_ok_clock [OF assms(1), where t = "Suc (ticks s)" and now = "curr_time s"] by simp_all
  from purge_orig_eq [OF ok(1) assms(3) refl] obtain u where u: "purge_orig now ?s = Some u" "bat_ok u"
      "orig_map u = (\<lambda>a. case orig_map s a of None \<Rightarrow> None | Some p \<Rightarrow> if dead now ?s p then None else Some p)" using ok(2) by auto
  have "trans_ok u" using u(2) by (simp add: bat_ok_def net_ok_def)
  then have dom: "set (hash_delete (trans_hash u)) = dom (elem_heap u)" by (simp add: trans_ok_def hash_delete_def hash_entries_def map_concat)
  define t where "t = (transtable_quit u)\<lparr>forw_list := []\<rparr>"
  have "batman_shutdown s = Some t" using u(1) by (simp add: batman_shutdown_def get_time_def t_def assms(2))
  moreover have "elem_heap t = Map.empty" unfolding t_def transtable_quit_def fold_free_elem dom
    by (auto simp: restrict_map_def fun_eq_iff)
  moreover have "orig_map t = orig_map u"
    by (simp add: orig_map_def t_def transtable_quit_def fold_free_elem orig_key_def [abs_def])
  moreover have d: "dead now ?s = dead now s" by (simp add: dead_def fun_eq_iff)
  ultimately show ?thesis using u(3) [unfolded d] by (simp add: t_def)
qed

section \<open>Properties\<close>

text \<open>
  C2: \<open>batman\<close> from a start state. When the environment is safe in every iteration and at the end,
  it returns: \<open>0\<close> when it was aborted, with no originator in the table that was too old, no host and no
  queued message; \<open>- 1\<close> after an error in receiving, or the daemon exits because a message could not
  be sent, in both cases from a state that the actions of the main loop reach.
\<close>

theorem batman_returns:
  assumes "start_ok s0" "batman_init s0 = Some (d, s)" "loop_safe rounds d s"
    and "\<forall>d' t. batman_loop rounds d s = Some (Goes_on d' t) \<longrightarrow>
      purge_safe (clock t (ticks t) + 5 * PURGE_TIMEOUT + word_of_int (originator_interval t)) (t\<lparr>ticks := Suc (ticks t)\<rparr>)"
  shows "\<exists>r. batman rounds s0 = Some r \<and>
    (case r of
       Returned n u \<Rightarrow> \<exists>d' t. reachable s0 t \<and>
         (n = 0 \<and> batman_loop rounds d s = Some (Goes_on d' t) \<and> forw_list u = [] \<and> elem_heap u = Map.empty \<and>
            orig_map u = (\<lambda>a. case orig_map t a of None \<Rightarrow> None
              | Some p \<Rightarrow> if dead (clock t (ticks t) + 5 * PURGE_TIMEOUT + word_of_int (originator_interval t)) t p then None else Some p) \<or>
          n = - 1 \<and> u = t)
     | Exited u \<Rightarrow> \<exists>t. reachable s0 t \<and> send_outstanding_packets t = Some (False, u))"
proof -
  have ok: "daemon_ok s" using batman_init_ok [OF assms(1)] assms(2) by auto
  have re: "reachable s0 s" by (rule reachable.start [OF assms(2)])
  from loop_moves [OF ok assms(3)] obtain r where r: "batman_loop rounds d s = Some r" "ended s r" by blast
  show ?thesis
  proof (cases r)
    case (Goes_on d' t)
    then have t: "moves\<^sup>*\<^sup>* s t" using r(2) by (simp add: ended_def)
    have "bat_ok t" using daemon_ok_moves [OF t ok] by (simp add: daemon_ok_def)
    from batman_shutdown_ok [OF this refl] assms(4) r(1) Goes_on obtain u where
      "batman_shutdown t = Some u" "forw_list u = []" "elem_heap u = Map.empty"
      "orig_map u = (\<lambda>a. case orig_map t a of None \<Rightarrow> None
         | Some p \<Rightarrow> if dead (clock t (ticks t) + 5 * PURGE_TIMEOUT + word_of_int (originator_interval t)) t p then None else Some p)" by auto
    moreover have "batman rounds s0 = (do { s \<leftarrow> batman_shutdown t; Some (Returned 0 s) })"
      using assms(2) r(1) Goes_on by (simp add: batman_def)
    ultimately show ?thesis using reachable_moves [OF t re] r(1) Goes_on by (intro exI [of _ "Returned 0 u"]) auto
  next
    case (Returns_error t)
    then have "moves\<^sup>*\<^sup>* s t" using r(2) by (simp add: ended_def)
    from reachable_moves [OF this re] show ?thesis using assms(2) r(1) Returns_error by (auto simp: batman_def)
  next
    case (Exits u)
    then obtain t where t: "moves\<^sup>*\<^sup>* s t" "send_outstanding_packets t = Some (False, u)" using r(2) by (auto simp: ended_def)
    from reachable_moves [OF t(1) re] t(2) show ?thesis using assms(2) r(1) Exits by (auto simp: batman_def)
  qed
qed

definition example_round :: round_env where
  "example_round = \<lparr>vis_sock = False, vis_junk = (\<lambda>_. 0), debug_levels = \<lparr>levels = (\<lambda>_. False), if_dev = (\<lambda>_. ''eth0''), rev_version = ''0''\<rparr>\<rparr>"

theorem batman_returns_witness:
  "(\<exists>u. batman [] example_state = Some (Returned 0 u) \<and> forw_list u = [] \<and> elem_heap u = Map.empty) \<and>
   (\<exists>t. batman [(\<lambda>_. None, example_round)] example_state = Some (Returned (- 1) t) \<and> reachable example_state t)"
proof
  obtain d s where s: "batman_init example_state = Some (d, s)" "hash_entries (orig_hash s) = []" "daemon_ok s"
    using batman_init_ok [OF example_start_ok] by auto
  have "purge_safe now (s\<lparr>ticks := n\<rparr>)" for now n using s(2) by (simp add: purge_safe_def)
  with batman_returns [OF example_start_ok s(1), of "[]"] obtain r where r: "batman [] example_state = Some r"
      "case r of
         Returned n u \<Rightarrow> \<exists>d' t. reachable example_state t \<and>
           (n = 0 \<and> batman_loop [] d s = Some (Goes_on d' t) \<and> forw_list u = [] \<and> elem_heap u = Map.empty \<and>
              orig_map u = (\<lambda>a. case orig_map t a of None \<Rightarrow> None
                | Some p \<Rightarrow> if dead (clock t (ticks t) + 5 * PURGE_TIMEOUT + word_of_int (originator_interval t)) t p then None else Some p) \<or>
            n = - 1 \<and> u = t)
       | Exited u \<Rightarrow> \<exists>t. reachable example_state t \<and> send_outstanding_packets t = Some (False, u)" by auto
  have "\<exists>u. r = Returned 0 u" using r(1) s(1) by (auto simp: batman_def bind_eq_Some_conv)
  then obtain u where u: "r = Returned 0 u" ..
  from r(2) have "forw_list u = [] \<and> elem_heap u = Map.empty" unfolding u by auto
  with r(1) u show "\<exists>u. batman [] example_state = Some (Returned 0 u) \<and> forw_list u = [] \<and> elem_heap u = Map.empty" by simp
  let ?rounds = "[(\<lambda>_. None, example_round)] :: bat_round list"
  have safe: "loop_safe ?rounds d s" by (simp add: iteration_safe_def receive_safe_def receive_packet_def Let_def)
  have err: "batman_loop ?rounds d s \<noteq> Some (Goes_on d' t)" for d' t
    by (auto simp: batman_iteration_def receive_packet_def bind_eq_Some_conv get_time_def Let_def)
  then have "\<forall>d' t. batman_loop ?rounds d s = Some (Goes_on d' t) \<longrightarrow>
      purge_safe (clock t (ticks t) + 5 * PURGE_TIMEOUT + word_of_int (originator_interval t)) (t\<lparr>ticks := Suc (ticks t)\<rparr>)" by blast
  from batman_returns [OF example_start_ok s(1) safe this] obtain r' where r': "batman ?rounds example_state = Some r'"
      "\<And>n u. r' = Returned n u \<Longrightarrow> n \<noteq> 0 \<Longrightarrow> reachable example_state u" by (elim exE conjE) (rename_tac r', case_tac r', auto)
  have "\<exists>u. r' = Returned (- 1) u" using r'(1) s(1)
    by (auto simp: batman_def batman_iteration_def receive_packet_def bind_eq_Some_conv get_time_def Let_def)
  then obtain u where u: "r' = Returned (- 1) u" ..
  from r'(2) [OF u] have "reachable example_state u" by simp
  with r'(1) u show "\<exists>t. batman ?rounds example_state = Some (Returned (- 1) t) \<and> reachable example_state t" by blast
qed

end
