(* ===== verification/Allocate.thy ===== *)
theory Allocate
  imports Bat_Prelude
begin

text \<open>
  The debugging allocator of \<open>src/allocate.c\<close> (compiled with \<open>DEBUG_MALLOC\<close> and \<open>MEMORY_USAGE\<close>).
  Every block has a \<open>struct chunkHeader\<close> in front of the memory that is handed out and a
  \<open>struct chunkTrailer\<close> behind it, both with a magic number; the blocks form a list, and a counter
  per tag tells how many blocks of the tag are in use.

  A block is a record of its header and of the bytes behind it, in which the trailer is read and
  written at the offset \<open>length\<close>. Its address stands for the pointer to the header and for the one
  that is handed out. Reading an address without a block (a null pointer, freed memory), reading or
  writing beyond a block, and a list that does not end are \<^term>\<open>None\<close>, undefined behaviour; the exits
  through \<open>restore_and_exit\<close> are values. The C library gives the answers to the calls of \<open>malloc\<close>:
  whether there is memory, and what is in it. The sizes are those of a 32 bit target.
\<close>

section \<open>State\<close>

definition MAGIC_NUMBER :: u32 where "MAGIC_NUMBER = 0x12345678"

definition sizeof_chunkHeader :: u32 where "sizeof_chunkHeader = 16"
definition sizeof_chunkTrailer :: u32 where "sizeof_chunkTrailer = 4"

record chunkHeader =
  c_next :: "nat option"
  c_length :: u32
  c_tag :: int
  c_magic :: u32
  c_area :: "u8 list"

record memoryUsage =
  mu_length :: u32
  mu_counter :: u32
  mu_tag :: int

record alloc_state =
  a_little_endian :: bool
  malloc_gives :: "nat \<Rightarrow> (nat \<Rightarrow> u8) option"
  requests :: nat
  a_brk :: nat
  chunks :: "nat \<rightharpoonup> chunkHeader"
  chunkList :: "nat option"
  memoryList :: "memoryUsage list"

text \<open>Why the daemon exits.\<close>

datatype alloc_exit = Cannot_allocate | Invalid_header | Invalid_trailer | Double_free | Freeing_more | Never_allocated

section \<open>Bytes\<close>

definition u32_bytes :: "bool \<Rightarrow> u32 \<Rightarrow> u8 list" where
  "u32_bytes le w =
     (let bs = [ucast w, ucast (drop_bit 8 w), ucast (drop_bit 16 w), ucast (drop_bit 24 w)] in if le then bs else rev bs)"

fun u32_of :: "u8 list \<Rightarrow> u32" where
  "u32_of [] = 0"
| "u32_of (b # bs) = ucast b OR push_bit 8 (u32_of bs)"

text \<open>The number in the four bytes at an offset.\<close>

definition area_get32 :: "bool \<Rightarrow> u8 list \<Rightarrow> nat \<Rightarrow> u32 option" where
  "area_get32 le area off =
     (if off + 4 \<le> length area
      then let bs = take 4 (drop off area) in Some (u32_of (if le then bs else rev bs)) else None)"

definition area_put :: "u8 list \<Rightarrow> nat \<Rightarrow> u8 list \<Rightarrow> u8 list option" where
  "area_put area off bs =
     (if off + length bs \<le> length area then Some (take off area @ bs @ drop (off + length bs) area) else None)"

section \<open>Usage counters\<close>

text \<open>The search for the tag; \<^term>\<open>None\<close> when the loop ends without it.\<close>

fun usage_inc :: "int \<Rightarrow> memoryUsage list \<Rightarrow> memoryUsage list option" where
  "usage_inc tag [] = None"
| "usage_inc tag (w # ws) =
     (if mu_tag w = tag then Some (w\<lparr>mu_counter := mu_counter w + 1\<rparr> # ws) else map_option ((#) w) (usage_inc tag ws))"

definition addMemory :: "u32 \<Rightarrow> int \<Rightarrow> alloc_state \<Rightarrow> alloc_state option" where
  "addMemory len tag s =
     (case usage_inc tag (memoryList s) of
        Some ws \<Rightarrow> Some (s\<lparr>memoryList := ws\<rparr>)
      | None \<Rightarrow>
          (case malloc_gives s (requests s) of
             None \<Rightarrow> None
           | Some _ \<Rightarrow> Some (s\<lparr>requests := Suc (requests s),
               memoryList := \<lparr>mu_length = len, mu_counter = 1, mu_tag = tag\<rparr> # memoryList s\<rparr>)))"

fun usage_dec :: "int \<Rightarrow> memoryUsage list \<Rightarrow> alloc_exit + memoryUsage list" where
  "usage_dec tag [] = Inl Never_allocated"
| "usage_dec tag (w # ws) =
     (if mu_tag w = tag then if mu_counter w = 0 then Inl Freeing_more else Inr (w\<lparr>mu_counter := mu_counter w - 1\<rparr> # ws)
      else map_sum id ((#) w) (usage_dec tag ws))"

definition removeMemory :: "int \<Rightarrow> alloc_state \<Rightarrow> alloc_exit + alloc_state" where
  "removeMemory tag s = map_sum id (\<lambda>ws. s\<lparr>memoryList := ws\<rparr>) (usage_dec tag (memoryList s))"

section \<open>Allocating and freeing\<close>

text \<open>The size is computed in the 32 bits of \<open>size_t\<close>.\<close>

definition debugMalloc :: "u32 \<Rightarrow> int \<Rightarrow> alloc_state \<Rightarrow> (alloc_exit + nat \<times> alloc_state) option" where
  "debugMalloc len tag s =
     (let total = len + sizeof_chunkHeader + sizeof_chunkTrailer in
      case malloc_gives s (requests s) of
        None \<Rightarrow> Some (Inl Cannot_allocate)
      | Some junk \<Rightarrow>
          if total < sizeof_chunkHeader then None
          else do {
            let p = a_brk s;
            area \<leftarrow> area_put (map junk [0 ..< unat total - 16]) (unat len) (u32_bytes (a_little_endian s) MAGIC_NUMBER);
            let chunk = \<lparr>c_next = chunkList s, c_length = len, c_tag = tag, c_magic = MAGIC_NUMBER, c_area = area\<rparr>;
            s \<leftarrow> addMemory len tag (s\<lparr>requests := Suc (requests s), a_brk := Suc p,
              chunks := (chunks s)(p \<mapsto> chunk), chunkList := Some p\<rparr>);
            Some (Inr (p, s))
          })"

text \<open>
  The search for a block in the list, with the block before it: the result is \<^term>\<open>None\<close> inside of
  \<^term>\<open>Some\<close> when the list ends without it.
\<close>

partial_function (option) find_chunk ::
    "(nat \<rightharpoonup> chunkHeader) \<Rightarrow> nat \<Rightarrow> nat option \<Rightarrow> nat option \<Rightarrow> nat option option option" where
  "find_chunk mem p previous walker =
     (if walker = None then Some None
      else if walker = Some p then Some (Some previous)
      else do { c \<leftarrow> mem (the walker); find_chunk mem p walker (c_next c) })"

text \<open>The two checks of the magic numbers of a block.\<close>

definition trailer_of :: "bool \<Rightarrow> chunkHeader \<Rightarrow> u32 option" where
  "trailer_of le c = area_get32 le (c_area c) (unat (c_length c))"

definition debugFree :: "nat \<Rightarrow> alloc_state \<Rightarrow> (alloc_exit + alloc_state) option" where
  "debugFree p s = do {
     c \<leftarrow> chunks s p;
     if c_magic c \<noteq> MAGIC_NUMBER then Some (Inl Invalid_header)
     else do {
       found \<leftarrow> find_chunk (chunks s) p None (chunkList s);
       (case found of
          None \<Rightarrow> Some (Inl Double_free)
        | Some previous \<Rightarrow> do {
            s \<leftarrow>
              (case previous of
                 None \<Rightarrow> Some (s\<lparr>chunkList := c_next c\<rparr>)
               | Some q \<Rightarrow> do { d \<leftarrow> chunks s q; Some (s\<lparr>chunks := (chunks s)(q \<mapsto> d\<lparr>c_next := c_next c\<rparr>)\<rparr>) });
            m \<leftarrow> trailer_of (a_little_endian s) c;
            Some (if m \<noteq> MAGIC_NUMBER then Inl Invalid_trailer
                  else map_sum id (\<lambda>s. s\<lparr>chunks := (chunks s)(p := None)\<rparr>) (removeMemory (c_tag c) s))
          })
     }
   }"

text \<open>Copying between two blocks.\<close>

definition copy_area :: "nat \<Rightarrow> nat \<Rightarrow> nat \<Rightarrow> alloc_state \<Rightarrow> alloc_state option" where
  "copy_area dst src n s = do {
     c \<leftarrow> chunks s src;
     d \<leftarrow> chunks s dst;
     if length (c_area c) < n then None
     else do {
       area \<leftarrow> area_put (c_area d) 0 (take n (c_area c));
       Some (s\<lparr>chunks := (chunks s)(dst \<mapsto> d\<lparr>c_area := area\<rparr>)\<rparr>)
     }
   }"

definition debugRealloc :: "nat option \<Rightarrow> u32 \<Rightarrow> int \<Rightarrow> alloc_state \<Rightarrow> (alloc_exit + nat \<times> alloc_state) option" where
  "debugRealloc memoryParameter len tag s =
     (case memoryParameter of
        None \<Rightarrow> debugMalloc len tag s
      | Some p \<Rightarrow> do {
          c \<leftarrow> chunks s p;
          if c_magic c \<noteq> MAGIC_NUMBER then Some (Inl Invalid_header)
          else do {
            m \<leftarrow> trailer_of (a_little_endian s) c;
            if m \<noteq> MAGIC_NUMBER then Some (Inl Invalid_trailer)
            else do {
              r \<leftarrow> debugMalloc len tag s;
              (case r of
                 Inl e \<Rightarrow> Some (Inl e)
               | Inr (q, s) \<Rightarrow> do {
                   c \<leftarrow> chunks s p;
                   let copyLength = (if len > c_length c then c_length c else len);
                   s \<leftarrow> copy_area q p (unat copyLength) s;
                   r \<leftarrow> debugFree p s;
                   Some (map_sum id (\<lambda>s. (q, s)) r)
                 })
            }
          }
        })"

section \<open>Checks\<close>

partial_function (option) check_chunks :: "bool \<Rightarrow> (nat \<rightharpoonup> chunkHeader) \<Rightarrow> nat option \<Rightarrow> (alloc_exit + unit) option" where
  "check_chunks le mem walker =
     (case walker of
        None \<Rightarrow> Some (Inr ())
      | Some a \<Rightarrow> do {
          c \<leftarrow> mem a;
          if c_magic c \<noteq> MAGIC_NUMBER then Some (Inl Invalid_header)
          else do {
            m \<leftarrow> trailer_of le c;
            if m \<noteq> MAGIC_NUMBER then Some (Inl Invalid_trailer) else check_chunks le mem (c_next c)
          }
        })"

definition checkIntegrity :: "alloc_state \<Rightarrow> (alloc_exit + unit) option" where
  "checkIntegrity s = check_chunks (a_little_endian s) (chunks s) (chunkList s)"

text \<open>\<open>checkLeak\<close> reports the tags of all blocks in the list.\<close>

partial_function (option) leaked_tags :: "(nat \<rightharpoonup> chunkHeader) \<Rightarrow> nat option \<Rightarrow> int list option" where
  "leaked_tags mem walker =
     (case walker of
        None \<Rightarrow> Some []
      | Some a \<Rightarrow> do { c \<leftarrow> mem a; tags \<leftarrow> leaked_tags mem (c_next c); Some (c_tag c # tags) })"

definition checkLeak :: "alloc_state \<Rightarrow> int list option" where
  "checkLeak s = leaked_tags (chunks s) (chunkList s)"

section \<open>The trailer\<close>

lemma u32_of_bytes: "u32_of (u32_bytes True w) = w"
proof (rule bit_word_eqI)
  fix n assume "n < LENGTH(32)"
  then show "bit (u32_of (u32_bytes True w)) n = bit w n"
    by (cases "n < 8"; cases "n < 16"; cases "n < 24") (auto simp: u32_bytes_def Let_def bit_simps)
qed

lemma bytes_u32_of: "u32_bytes True (u32_of [a, b, c, d]) = [a, b, c, d]"
  by (auto simp: u32_bytes_def Let_def intro!: bit_word_eqI) (auto simp: bit_simps dest: bit_imp_le_length)

lemma length_u32_bytes [simp]: "length (u32_bytes le w) = 4"
  by (simp add: u32_bytes_def Let_def)

lemma u32_of_iff: "length bs = 4 \<Longrightarrow> u32_of (if le then bs else rev bs) = w \<longleftrightarrow> bs = u32_bytes le w"
proof -
  assume len: "length bs = 4"
  have key: "u32_of xs = w \<longleftrightarrow> xs = u32_bytes True w" if l: "length xs = 4" for xs
  proof -
    obtain a b c d where "xs = [a, b, c, d]" using l by (auto simp: eval_nat_numeral length_Suc_conv)
    then show ?thesis using bytes_u32_of [of a b c d] u32_of_bytes [of w] by metis
  qed
  have "rev bs = u32_bytes True w \<longleftrightarrow> bs = u32_bytes False w"
    unfolding rev_swap by (simp add: u32_bytes_def Let_def)
  with key [of bs] key [of "rev bs"] len show ?thesis by (cases le) simp_all
qed

text \<open>A block of the right size with both magic numbers.\<close>

definition intact :: "bool \<Rightarrow> chunkHeader \<Rightarrow> bool" where
  "intact le c \<longleftrightarrow> c_magic c = MAGIC_NUMBER \<and> length (c_area c) = unat (c_length c) + 4 \<and>
     drop (unat (c_length c)) (c_area c) = u32_bytes le MAGIC_NUMBER"

definition payload :: "chunkHeader \<Rightarrow> u8 list" where
  "payload c = take (unat (c_length c)) (c_area c)"

lemma trailer_of_eq:
  assumes "length (c_area c) = unat (c_length c) + 4"
  shows "\<exists>m. trailer_of le c = Some m \<and> (m = MAGIC_NUMBER \<longleftrightarrow> drop (unat (c_length c)) (c_area c) = u32_bytes le MAGIC_NUMBER)"
proof -
  let ?t = "drop (unat (c_length c)) (c_area c)"
  have len: "length ?t = 4" using assms by simp
  then have "trailer_of le c = Some (u32_of (if le then ?t else rev ?t))"
    using assms by (simp add: trailer_of_def area_get32_def Let_def)
  with u32_of_iff [OF len, of le MAGIC_NUMBER] show ?thesis by simp
qed

lemma intact_trailer: "intact le c \<Longrightarrow> trailer_of le c = Some MAGIC_NUMBER"
  using trailer_of_eq [of c le] by (auto simp: intact_def)

section \<open>The list of the blocks\<close>

fun seg :: "(nat \<rightharpoonup> chunkHeader) \<Rightarrow> nat option \<Rightarrow> nat list \<Rightarrow> nat option \<Rightarrow> bool" where
  "seg mem w [] v \<longleftrightarrow> w = v"
| "seg mem w (a # as) v \<longleftrightarrow> w = Some a \<and> (\<exists>c. mem a = Some c \<and> seg mem (c_next c) as v)"

lemma seg_append: "seg mem w (as @ bs) v \<longleftrightarrow> (\<exists>u. seg mem w as u \<and> seg mem u bs v)"
  by (induction as arbitrary: w) auto

lemma seg_same: "(\<And>a. a \<in> set as \<Longrightarrow> map_option c_next (mem' a) = map_option c_next (mem a)) \<Longrightarrow> seg mem' w as v = seg mem w as v"
proof (induction as arbitrary: w)
  case (Cons a as)
  have "map_option c_next (mem' a) = map_option c_next (mem a)" using Cons.prems by simp
  then show ?case using Cons by (cases "mem a"; cases "mem' a") auto
qed simp

lemma seg_upd [simp]: "a \<notin> set as \<Longrightarrow> seg (mem(a := x)) w as v = seg mem w as v"
  by (rule seg_same) auto

lemma find_chunk_absent: "seg mem w cs None \<Longrightarrow> p \<notin> set cs \<Longrightarrow> find_chunk mem p previous w = Some None"
  by (induction cs arbitrary: w previous) (auto simp: find_chunk.simps)

lemma find_chunk_in:
  "seg mem w (as @ [p]) v \<Longrightarrow> p \<notin> set as \<Longrightarrow>
   find_chunk mem p previous w = Some (Some (if as = [] then previous else Some (last as)))"
  by (induction as arbitrary: w previous) (auto simp: find_chunk.simps)

text \<open>Unlinking a block.\<close>

definition unlink :: "nat list \<Rightarrow> nat option \<Rightarrow> alloc_state \<Rightarrow> alloc_state" where
  "unlink as nxt s =
     (if as = [] then s\<lparr>chunkList := nxt\<rparr>
      else s\<lparr>chunks := (chunks s)(last as \<mapsto> (the (chunks s (last as)))\<lparr>c_next := nxt\<rparr>)\<rparr>)"

lemma seg_unlink:
  assumes "seg (chunks s) (chunkList s) (as @ p # bs) None" "distinct (as @ p # bs)" "chunks s p = Some c"
  shows "seg (chunks (unlink as (c_next c) s)) (chunkList (unlink as (c_next c) s)) (as @ bs) None"
proof (cases as rule: rev_cases)
  case Nil
  with assms show ?thesis by (simp add: unlink_def)
next
  case (snoc zs q)
  obtain d where d: "seg (chunks s) (chunkList s) zs (Some q)" "chunks s q = Some d" "seg (chunks s) (c_next c) bs None"
    using assms(1,3) by (auto simp: snoc seg_append)
  let ?mem = "(chunks s)(q \<mapsto> d\<lparr>c_next := c_next c\<rparr>)"
  have "seg ?mem (chunkList s) zs (Some q)" "seg ?mem (c_next c) bs None"
    using d(1,3) assms(2) by (simp_all add: snoc)
  with d(2) show ?thesis by (auto simp: unlink_def snoc seg_append)
qed

section \<open>Usage counters\<close>

text \<open>The number of blocks in use that the counter of a tag says.\<close>

fun usage_of :: "memoryUsage list \<Rightarrow> int \<Rightarrow> nat" where
  "usage_of [] tag = 0"
| "usage_of (w # ws) tag = (if mu_tag w = tag then unat (mu_counter w) else usage_of ws tag)"

lemma usage_inc_eq:
  "(case usage_inc tag ws of
      None \<Rightarrow> usage_of ws tag = 0
    | Some ws' \<Rightarrow> usage_of ws tag < 2 ^ 32 - 1 \<longrightarrow> usage_of ws' = (usage_of ws)(tag := Suc (usage_of ws tag)))"
proof (induction ws)
  case (Cons w ws)
  show ?case
  proof (cases "mu_tag w = tag")
    case True
    have "unat (mu_counter w + 1) = Suc (unat (mu_counter w))" if "unat (mu_counter w) < 2 ^ 32 - 1"
      using that by (subst unat_add_lem [THEN iffD1]) simp_all
    with True show ?thesis by (auto simp: fun_eq_iff)
  next
    case False
    with Cons show ?thesis by (cases "usage_inc tag ws") (auto simp: fun_eq_iff)
  qed
qed simp

lemma usage_dec_eq:
  assumes "0 < usage_of ws tag"
  shows "\<exists>ws'. usage_dec tag ws = Inr ws' \<and> usage_of ws' = (usage_of ws)(tag := usage_of ws tag - 1)"
  using assms
proof (induction ws)
  case (Cons w ws)
  show ?case
  proof (cases "mu_tag w = tag")
    case True
    then have "mu_counter w \<noteq> 0" using Cons.prems by auto
    then have "unat (mu_counter w - 1) = unat (mu_counter w) - 1" by (rule unat_minus_one)
    with True \<open>mu_counter w \<noteq> 0\<close> show ?thesis by (auto simp: fun_eq_iff)
  next
    case False
    then have "0 < usage_of ws tag" using Cons.prems by simp
    then obtain ws' where "usage_dec tag ws = Inr ws'" "usage_of ws' = (usage_of ws)(tag := usage_of ws tag - 1)"
      using Cons.IH by blast
    with False show ?thesis by (auto simp: fun_eq_iff)
  qed
qed simp

section \<open>Invariant\<close>

text \<open>The blocks of the list are all blocks, they are intact, and the counters count them.\<close>

definition with_tag :: "alloc_state \<Rightarrow> nat list \<Rightarrow> int \<Rightarrow> nat" where
  "with_tag s cs tag = length (filter (\<lambda>p. map_option c_tag (chunks s p) = Some tag) cs)"

definition alloc_ok :: "alloc_state \<Rightarrow> nat list \<Rightarrow> bool" where
  "alloc_ok s cs \<longleftrightarrow> seg (chunks s) (chunkList s) cs None \<and> distinct cs \<and> set cs = dom (chunks s) \<and>
     (\<forall>p c. chunks s p = Some c \<longrightarrow> p < a_brk s \<and> intact (a_little_endian s) c) \<and> usage_of (memoryList s) = with_tag s cs"

text \<open>The blocks as a map from addresses to tags and contents.\<close>

definition blocks :: "alloc_state \<Rightarrow> nat \<rightharpoonup> int \<times> u8 list" where
  "blocks s p = map_option (\<lambda>c. (c_tag c, payload c)) (chunks s p)"

lemma with_tag_cong: "(\<And>p. p \<in> set cs \<Longrightarrow> map_option c_tag (chunks s p) = map_option c_tag (chunks t p)) \<Longrightarrow> with_tag s cs = with_tag t cs"
  by (simp add: with_tag_def fun_eq_iff cong: filter_cong)

lemma with_tag_Cons: "chunks s p = Some c \<Longrightarrow> with_tag s (p # cs) = (with_tag s cs)(c_tag c := Suc (with_tag s cs (c_tag c)))"
  by (auto simp: with_tag_def fun_eq_iff)

lemma unlink_same:
  "map_option (\<lambda>c. c\<lparr>c_next := None\<rparr>) (chunks (unlink as nxt s) p) = map_option (\<lambda>c. c\<lparr>c_next := None\<rparr>) (chunks s p)"
  if "set as \<subseteq> dom (chunks s)"
  using that by (cases as rule: rev_cases) (auto simp: unlink_def)

lemma unlink_simps [simp]:
  "a_little_endian (unlink as nxt s) = a_little_endian s" "a_brk (unlink as nxt s) = a_brk s" "memoryList (unlink as nxt s) = memoryList s"
  by (simp_all add: unlink_def)

lemma same_fields:
  assumes "map_option (\<lambda>c. c\<lparr>c_next := None\<rparr>) x = map_option (\<lambda>c. c\<lparr>c_next := None\<rparr>) y"
  shows "map_option c_tag x = map_option c_tag y" "map_option payload x = map_option payload y" "x = None \<longleftrightarrow> y = None"
    "(\<forall>c. x = Some c \<longrightarrow> intact le c) \<longleftrightarrow> (\<forall>c. y = Some c \<longrightarrow> intact le c)"
proof -
  have eq: "c_tag = c_tag \<circ> (\<lambda>c. c\<lparr>c_next := None\<rparr>)" "payload = payload \<circ> (\<lambda>c. c\<lparr>c_next := None\<rparr>)"
    "intact le = intact le \<circ> (\<lambda>c. c\<lparr>c_next := None\<rparr>)" by (auto simp: fun_eq_iff payload_def intact_def)
  show "map_option c_tag x = map_option c_tag y" by (subst (1 2) eq(1)) (simp add: option.map_comp [symmetric] assms)
  show "map_option payload x = map_option payload y" by (subst (1 2) eq(2)) (simp add: option.map_comp [symmetric] assms)
  show "x = None \<longleftrightarrow> y = None" using arg_cong [OF assms, of "\<lambda>z. z = None"] by simp
  have "map_option (intact le) x = map_option (intact le) y" by (subst (1 2) eq(3)) (simp add: option.map_comp [symmetric] assms)
  then show "(\<forall>c. x = Some c \<longrightarrow> intact le c) \<longleftrightarrow> (\<forall>c. y = Some c \<longrightarrow> intact le c)" by (cases x; cases y) auto
qed

section \<open>Freeing\<close>

lemma find_chunk_ok:
  assumes "alloc_ok s cs" "p \<in> set cs"
  obtains as bs c where "cs = as @ p # bs" "chunks s p = Some c" "intact (a_little_endian s) c"
    "find_chunk (chunks s) p None (chunkList s) = Some (Some (if as = [] then None else Some (last as)))"
    "set as \<subseteq> dom (chunks s)" "p \<notin> set as" "p \<notin> set bs"
proof -
  obtain as bs where cs: "cs = as @ p # bs" using split_list [OF assms(2)] by blast
  have ok: "seg (chunks s) (chunkList s) cs None" "distinct cs" "set cs = dom (chunks s)" using assms(1) by (simp_all add: alloc_ok_def)
  obtain c where c: "chunks s p = Some c" using ok(3) assms(2) by blast
  have int: "intact (a_little_endian s) c" using assms(1) c by (simp add: alloc_ok_def)
  have dis: "p \<notin> set as" "p \<notin> set bs" "set as \<subseteq> dom (chunks s)" using ok(2,3) cs by auto
  have "\<exists>v. seg (chunks s) (chunkList s) (as @ [p]) v" using ok(1) by (auto simp: cs seg_append)
  then have "find_chunk (chunks s) p None (chunkList s) = Some (Some (if as = [] then None else Some (last as)))"
    using find_chunk_in dis(1) by blast
  from that [OF cs c int this dis(3,1,2)] show thesis .
qed

text \<open>What \<open>debugFree\<close> does with a block of the list, whatever its trailer is.\<close>

lemma debugFree_eq:
  assumes "chunks s p = Some c" "c_magic c = MAGIC_NUMBER"
    and "find_chunk (chunks s) p None (chunkList s) = Some (Some (if as = [] then None else Some (last as)))" "set as \<subseteq> dom (chunks s)"
  shows "debugFree p s = do {
      m \<leftarrow> trailer_of (a_little_endian s) c;
      Some (if m \<noteq> MAGIC_NUMBER then Inl Invalid_trailer
            else map_sum id (\<lambda>s. s\<lparr>chunks := (chunks s)(p := None)\<rparr>) (removeMemory (c_tag c) (unlink as (c_next c) s))) }"
proof (cases "as = []")
  case True
  with assms show ?thesis by (simp add: debugFree_def unlink_def cong: if_cong)
next
  case False
  then have "last as \<in> dom (chunks s)" using assms(4) last_in_set [of as] by blast
  then obtain d where "chunks s (last as) = Some d" by blast
  with False assms show ?thesis by (simp add: debugFree_def unlink_def cong: if_cong)
qed

lemma debugFree_ok:
  assumes "alloc_ok s cs" "p \<in> set cs"
  shows "\<exists>s'. debugFree p s = Some (Inr s') \<and> alloc_ok s' (remove1 p cs) \<and> blocks s' = (blocks s)(p := None) \<and>
    requests s' = requests s \<and> malloc_gives s' = malloc_gives s \<and> a_little_endian s' = a_little_endian s \<and> a_brk s' = a_brk s \<and> chunks s' p = None"
proof -
  obtain as bs c where f: "cs = as @ p # bs" "chunks s p = Some c" "intact (a_little_endian s) c"
      "find_chunk (chunks s) p None (chunkList s) = Some (Some (if as = [] then None else Some (last as)))"
      "set as \<subseteq> dom (chunks s)" "p \<notin> set as" "p \<notin> set bs"
    by (rule find_chunk_ok [OF assms])
  have ok: "seg (chunks s) (chunkList s) cs None" "distinct cs" "set cs = dom (chunks s)" "usage_of (memoryList s) = with_tag s cs"
    using assms(1) by (simp_all add: alloc_ok_def)
  define u where "u = unlink as (c_next c) s"
  have "0 < with_tag s cs (c_tag c)" using f(2) by (simp add: with_tag_def f(1))
  then obtain ws where ws: "usage_dec (c_tag c) (memoryList s) = Inr ws"
      "usage_of ws = (usage_of (memoryList s))(c_tag c := usage_of (memoryList s) (c_tag c) - 1)"
    using usage_dec_eq [of "memoryList s" "c_tag c"] ok(4) by auto
  define s' where "s' = u\<lparr>memoryList := ws, chunks := (chunks u)(p := None)\<rparr>"
  have "c_magic c = MAGIC_NUMBER" using f(3) by (simp add: intact_def)
  then have free: "debugFree p s = Some (Inr s')"
    using debugFree_eq [OF f(2) _ f(4,5)] intact_trailer [OF f(3)] ws(1)
    by (simp add: removeMemory_def u_def [symmetric] s'_def) (simp add: u_def s'_def)
  have same: "map_option (\<lambda>c. c\<lparr>c_next := None\<rparr>) (chunks s' q) = map_option (\<lambda>c. c\<lparr>c_next := None\<rparr>) (chunks s q)" if "q \<noteq> p" for q
    using unlink_same [OF f(5), of "c_next c" q] that by (simp add: s'_def u_def)
  note fields = same_fields [OF same]
  have gone: "chunks s' p = None" by (simp add: s'_def)
  have rem: "remove1 p cs = as @ bs" using f(6) by (simp add: f(1) remove1_append)
  have seg: "seg (chunks s') (chunkList s') (as @ bs) None"
    using seg_unlink [of s as p bs c] ok(1,2) f(1,2,6,7) by (simp add: s'_def u_def)
  have dom: "set (as @ bs) = dom (chunks s')"
  proof -
    have "q \<in> dom (chunks s') \<longleftrightarrow> q \<noteq> p \<and> q \<in> set cs" for q using fields(3) [of q] gone ok(3) by (cases "q = p") auto
    then show ?thesis using f(6,7) unfolding f(1) by (intro set_eqI) auto
  qed
  have usage: "usage_of (memoryList s') = with_tag s' (as @ bs)"
  proof
    fix tag
    have "with_tag s' (as @ bs) = with_tag s (as @ bs)"
    proof (rule with_tag_cong)
      fix q assume "q \<in> set (as @ bs)"
      then have "q \<noteq> p" using f(6,7) by auto
      then show "map_option c_tag (chunks s' q) = map_option c_tag (chunks s q)" by (rule fields(1))
    qed
    then show "usage_of (memoryList s') tag = with_tag s' (as @ bs) tag"
      using ws(2) ok(4) f(2) by (simp add: s'_def) (simp add: with_tag_def f(1))
  qed
  have each: "\<forall>q d. chunks s' q = Some d \<longrightarrow> q < a_brk s' \<and> intact (a_little_endian s') d"
  proof (intro allI impI)
    fix q d assume q: "chunks s' q = Some d"
    then have "q \<noteq> p" using gone by auto
    have pres: "a_brk s' = a_brk s" "a_little_endian s' = a_little_endian s" by (simp_all add: s'_def u_def)
    have "chunks s q \<noteq> None" using fields(3) [OF \<open>q \<noteq> p\<close>] q by auto
    then show "q < a_brk s' \<and> intact (a_little_endian s') d"
      using assms(1) fields(4) [OF \<open>q \<noteq> p\<close>, of "a_little_endian s"] q unfolding pres alloc_ok_def by blast
  qed
  have bl: "blocks s' = (blocks s)(p := None)"
  proof
    fix q show "blocks s' q = ((blocks s)(p := None)) q"
    proof (cases "q = p")
      case False
      have "map_option c_tag (chunks s' q) = map_option c_tag (chunks s q)" "map_option payload (chunks s' q) = map_option payload (chunks s q)"
        using fields(1,2) [OF False] by simp_all
      with False show ?thesis by (cases "chunks s q"; cases "chunks s' q") (simp_all add: blocks_def)
    qed (simp add: blocks_def gone)
  qed
  have "alloc_ok s' (remove1 p cs)" using seg dom usage each ok(2) f(1) unfolding rem alloc_ok_def by auto
  then show ?thesis using free bl gone by (simp add: s'_def u_def) (simp add: unlink_def)
qed

section \<open>Allocating\<close>

lemma total_size:
  assumes "unat len < 2 ^ 32 - 20"
  shows "unat (len + sizeof_chunkHeader + sizeof_chunkTrailer) = unat len + 20" "\<not> len + sizeof_chunkHeader + sizeof_chunkTrailer < sizeof_chunkHeader"
proof -
  have eq: "len + sizeof_chunkHeader + sizeof_chunkTrailer = len + 20" by (simp add: sizeof_chunkHeader_def sizeof_chunkTrailer_def)
  have "unat (len + 20) = unat len + 20" using assms by (subst unat_add_lem [THEN iffD1]) simp_all
  then show "unat (len + sizeof_chunkHeader + sizeof_chunkTrailer) = unat len + 20"
    "\<not> len + sizeof_chunkHeader + sizeof_chunkTrailer < sizeof_chunkHeader"
    unfolding eq by (simp_all add: word_less_nat_alt sizeof_chunkHeader_def)
qed

lemma addMemory_ok:
  assumes "malloc_gives s (requests s) \<noteq> None" "usage_of (memoryList s) tag < 2 ^ 32 - 1"
  shows "\<exists>ws k. addMemory len tag s = Some (s\<lparr>memoryList := ws, requests := k\<rparr>) \<and> k \<le> Suc (requests s) \<and>
    usage_of ws = (usage_of (memoryList s))(tag := Suc (usage_of (memoryList s) tag))"
proof (cases "usage_inc tag (memoryList s)")
  case None
  then have "usage_of (memoryList s) tag = 0" using usage_inc_eq [of "memoryList s" tag] by simp
  with None assms(1) show ?thesis
    by (intro exI [of _ "\<lparr>mu_length = len, mu_counter = 1, mu_tag = tag\<rparr> # memoryList s"] exI [of _ "Suc (requests s)"])
      (auto simp: addMemory_def fun_eq_iff)
next
  case (Some ws)
  with usage_inc_eq [of "memoryList s" tag] assms(2) show ?thesis
    by (intro exI [of _ ws] exI [of _ "requests s"]) (simp add: addMemory_def)
qed

lemma debugMalloc_ok:
  assumes "alloc_ok s cs" "unat len < 2 ^ 32 - 20" "length cs < 2 ^ 32 - 1"
    and "malloc_gives s (requests s) = Some junk" "malloc_gives s (Suc (requests s)) \<noteq> None"
  shows "\<exists>s' c. debugMalloc len tag s = Some (Inr (a_brk s, s')) \<and> alloc_ok s' (a_brk s # cs) \<and> chunks s (a_brk s) = None \<and>
    chunks s' = (chunks s)(a_brk s \<mapsto> c) \<and> c_length c = len \<and> c_tag c = tag \<and> a_little_endian s' = a_little_endian s"
proof -
  have ok: "seg (chunks s) (chunkList s) cs None" "distinct cs" "set cs = dom (chunks s)" "usage_of (memoryList s) = with_tag s cs"
      "\<And>p c. chunks s p = Some c \<Longrightarrow> p < a_brk s \<and> intact (a_little_endian s) c" using assms(1) by (simp_all add: alloc_ok_def)
  define q where "q = a_brk s"
  define area where "area = map junk [0 ..< unat len] @ u32_bytes (a_little_endian s) MAGIC_NUMBER"
  define c where "c = \<lparr>c_next = chunkList s, c_length = len, c_tag = tag, c_magic = MAGIC_NUMBER, c_area = area\<rparr>"
  define t where "t = s\<lparr>requests := Suc (requests s), a_brk := Suc q, chunks := (chunks s)(q \<mapsto> c), chunkList := Some q\<rparr>"
  have fresh: "chunks s q = None" using ok(5) by (cases "chunks s q") (auto simp: q_def)
  have put: "area_put (map junk [0 ..< 4 + unat len]) (unat len) (u32_bytes (a_little_endian s) MAGIC_NUMBER) = Some area"
    by (simp add: area_put_def area_def take_map)
  have le: "with_tag s cs tag \<le> length cs" by (simp add: with_tag_def)
  then have "usage_of (memoryList t) tag < 2 ^ 32 - 1" using assms(3) ok(4) by (simp add: t_def)
  moreover have "malloc_gives t (requests t) \<noteq> None" using assms(5) by (simp add: t_def)
  ultimately obtain ws k where ws: "addMemory len tag t = Some (t\<lparr>memoryList := ws, requests := k\<rparr>)"
      "usage_of ws = (usage_of (memoryList s))(tag := Suc (usage_of (memoryList s) tag))"
    using addMemory_ok [of t tag len] by (auto simp: t_def)
  define s' where "s' = t\<lparr>memoryList := ws, requests := k\<rparr>"
  have "debugMalloc len tag s = Some (Inr (q, s'))"
    using assms(4) put ws(1) total_size [OF assms(2)] by (simp add: debugMalloc_def Let_def q_def [symmetric] s'_def) (simp add: c_def t_def)
  moreover have "alloc_ok s' (q # cs)"
  proof -
    have "q \<notin> set cs" using fresh ok(3) by blast
    moreover have "intact (a_little_endian s) c" by (simp add: intact_def c_def area_def)
    moreover have "usage_of (memoryList s') = with_tag s' (q # cs)"
    proof -
      have "with_tag s' cs = with_tag s cs" using \<open>q \<notin> set cs\<close> by (intro with_tag_cong) (auto simp: s'_def t_def)
      moreover have "chunks s' q = Some c" "c_tag c = tag" "memoryList s' = ws" by (simp_all add: s'_def t_def c_def)
      ultimately show ?thesis using with_tag_Cons [of s' q c cs] ws(2) ok(4) by simp
    qed
    moreover have s': "chunks s' = (chunks s)(q \<mapsto> c)" "chunkList s' = Some q" "a_brk s' = Suc (a_brk s)" "a_little_endian s' = a_little_endian s"
        "c_next c = chunkList s" by (simp_all add: s'_def t_def q_def c_def)
    moreover have "set (q # cs) = dom (chunks s')" using ok(3) by (simp add: s'(1))
    moreover have "seg (chunks s') (chunkList s') (q # cs) None" using ok(1) \<open>q \<notin> set cs\<close> by (simp add: s'(1,2,5))
    moreover have "p < a_brk s' \<and> intact (a_little_endian s') d" if "chunks s' p = Some d" for p d
      using that ok(5) [of p d] \<open>intact (a_little_endian s) c\<close> by (cases "p = q") (auto simp: s'(1,3,4) q_def)
    ultimately show ?thesis using ok(2) by (simp add: alloc_ok_def)
  qed
  moreover have "c_length c = len" "c_tag c = tag" "chunks s' = (chunks s)(q \<mapsto> c)" "a_little_endian s' = a_little_endian s"
    by (simp_all add: c_def s'_def t_def)
  ultimately show ?thesis using fresh unfolding q_def by blast
qed

text \<open>Writing into the memory that was handed out.\<close>

lemma alloc_ok_write:
  assumes "alloc_ok s cs" "chunks s q = Some d" "length area = length (c_area d)" "drop (unat (c_length d)) area = drop (unat (c_length d)) (c_area d)"
  shows "alloc_ok (s\<lparr>chunks := (chunks s)(q \<mapsto> d\<lparr>c_area := area\<rparr>)\<rparr>) cs \<and>
    blocks (s\<lparr>chunks := (chunks s)(q \<mapsto> d\<lparr>c_area := area\<rparr>)\<rparr>) = (blocks s)(q \<mapsto> (c_tag d, take (unat (c_length d)) area))"
proof -
  let ?s = "s\<lparr>chunks := (chunks s)(q \<mapsto> d\<lparr>c_area := area\<rparr>)\<rparr>"
  have "intact (a_little_endian s) d" using assms(1,2) by (simp add: alloc_ok_def)
  then have "intact (a_little_endian s) (d\<lparr>c_area := area\<rparr>)" using assms(3,4) by (simp add: intact_def)
  moreover have "seg (chunks ?s) (chunkList ?s) cs None = seg (chunks s) (chunkList s) cs None"
    using seg_same [of cs "chunks ?s" "chunks s"] assms(2) by simp
  moreover have "with_tag ?s cs = with_tag s cs" using assms(2) by (intro with_tag_cong) simp
  ultimately show ?thesis using assms(1,2) by (auto simp: alloc_ok_def blocks_def payload_def fun_eq_iff)
qed

lemma debugRealloc_ok:
  assumes "alloc_ok s cs" "p \<in> set cs" "blocks s p = Some (tag0, old)" "unat len < 2 ^ 32 - 20" "length cs < 2 ^ 32 - 1"
    and "malloc_gives s (requests s) = Some junk" "malloc_gives s (Suc (requests s)) \<noteq> None"
  shows "\<exists>s' q rest. debugRealloc (Some p) len tag s = Some (Inr (q, s')) \<and> q \<notin> set cs \<and> alloc_ok s' (q # remove1 p cs) \<and>
    length (take (unat len) old @ rest) = unat len \<and> blocks s' = (blocks s)(p := None, q \<mapsto> (tag, take (unat len) old @ rest))"
proof -
  obtain c where c: "chunks s p = Some c" "tag0 = c_tag c" "old = payload c" using assms(3) by (auto simp: blocks_def)
  have int: "intact (a_little_endian s) c" using assms(1) c(1) by (simp add: alloc_ok_def)
  obtain t d where t: "debugMalloc len tag s = Some (Inr (a_brk s, t))" "alloc_ok t (a_brk s # cs)" "chunks s (a_brk s) = None"
      "chunks t = (chunks s)(a_brk s \<mapsto> d)" "c_length d = len" "c_tag d = tag" "a_little_endian t = a_little_endian s"
    using debugMalloc_ok [OF assms(1,4-7)] by blast
  define q where "q = a_brk s"
  have qp: "q \<noteq> p" "q \<notin> set cs" using t(3) c(1) assms(1) by (auto simp: q_def alloc_ok_def)
  have tp: "chunks t p = Some c" "chunks t q = Some d" using qp c(1) t(4) by (simp_all add: q_def)
  have dint: "intact (a_little_endian s) d" using t(2,7) tp(2) by (auto simp: alloc_ok_def)
  define n where "n = min (unat len) (unat (c_length c))"
  have nn: "unat (if len > c_length c then c_length c else len) = n" by (auto simp: n_def word_less_nat_alt)
  define area where "area = take n (c_area c) @ drop n (c_area d)"
  have lens: "length (c_area c) = unat (c_length c) + 4" "length (c_area d) = unat len + 4" using int dint t(5) by (simp_all add: intact_def)
  have put: "area_put (c_area d) 0 (take n (c_area c)) = Some area" using lens by (simp add: area_put_def area_def n_def)
  define u where "u = t\<lparr>chunks := (chunks t)(q \<mapsto> d\<lparr>c_area := area\<rparr>)\<rparr>"
  have copy: "copy_area q p n t = Some u" using tp put lens by (simp add: copy_area_def u_def n_def)
  have "length area = length (c_area d)" "drop (unat (c_length d)) area = drop (unat (c_length d)) (c_area d)"
    using lens t(5) by (simp_all add: area_def n_def drop_append)
  from alloc_ok_write [OF t(2) tp(2) this]
  have u: "alloc_ok u (q # cs)" "blocks u = (blocks t)(q \<mapsto> (tag, take (unat len) area))" by (simp_all add: u_def q_def t(5,6))
  obtain s' where s': "debugFree p u = Some (Inr s')" "alloc_ok s' (remove1 p (q # cs))" "blocks s' = (blocks u)(p := None)"
    using debugFree_ok [OF u(1), of p] assms(2) by auto
  have "debugRealloc (Some p) len tag s = Some (Inr (q, s'))"
    using c(1) int intact_trailer [OF int] t(1) tp(1) nn copy s'(1) by (simp add: debugRealloc_def intact_def q_def [symmetric] Let_def)
  moreover have "take (unat len) area = take (unat len) old @ take (unat len - n) (drop n (c_area d))"
    using lens by (simp add: area_def c(3) payload_def n_def min_def take_append)
  moreover have "length (take (unat len) area) = unat len" using lens by (simp add: area_def n_def)
  moreover have "blocks t = (blocks s)(q \<mapsto> (tag, payload d))" by (simp add: blocks_def fun_eq_iff t(4,6) q_def)
  ultimately show ?thesis using s'(2,3) u(2) qp
    by (intro exI [of _ s'] exI [of _ q] exI [of _ "take (unat len - n) (drop n (c_area d))"]) (auto simp: fun_eq_iff)
qed

section \<open>Checking\<close>

lemma check_chunks_seg:
  assumes "seg mem w as v" "\<And>a c. a \<in> set as \<Longrightarrow> mem a = Some c \<Longrightarrow> intact le c"
  shows "check_chunks le mem w = check_chunks le mem v"
  using assms
proof (induction as arbitrary: w)
  case (Cons a as)
  then obtain c where c: "w = Some a" "mem a = Some c" "seg mem (c_next c) as v" by auto
  have int: "intact le c" using Cons.prems(2) [of a c] c(2) by simp
  have "check_chunks le mem w = check_chunks le mem (c_next c)"
    using c(1,2) int intact_trailer [OF int] by (simp add: check_chunks.simps [of le mem "Some a"] intact_def)
  also have "\<dots> = check_chunks le mem v" by (rule Cons.IH [OF c(3) Cons.prems(2)]) simp_all
  finally show ?case .
qed simp

lemma leaked_tags_seg: "seg mem w cs None \<Longrightarrow> leaked_tags mem w = Some (map (\<lambda>p. c_tag (the (mem p))) cs)"
  by (induction cs arbitrary: w) (auto simp: leaked_tags.simps)

section \<open>Examples\<close>

definition example_alloc :: alloc_state where
  "example_alloc = \<lparr>a_little_endian = True, malloc_gives = (\<lambda>_. Some (\<lambda>_. 0)), requests = 0, a_brk = 100, chunks = Map.empty,
     chunkList = None, memoryList = []\<rparr>"

lemma example_alloc_ok: "alloc_ok example_alloc []"
  by (simp add: alloc_ok_def example_alloc_def with_tag_def fun_eq_iff)

lemma example_block:
  "\<exists>s c. alloc_ok s [100] \<and> chunks s 100 = Some c \<and> c_length c = 6 \<and> c_tag c = 401 \<and>
     malloc_gives s = (\<lambda>_. Some (\<lambda>_. 0)) \<and> a_little_endian s \<and> chunkList s = Some 100 \<and> c_next c = None"
proof -
  obtain s where s: "debugMalloc 6 401 example_alloc = Some (Inr (100, s))"
      "s = \<lparr>a_little_endian = True, malloc_gives = (\<lambda>_. Some (\<lambda>_. 0)), requests = 2, a_brk = 101,
        chunks = [100 \<mapsto> \<lparr>c_next = None, c_length = 6, c_tag = 401, c_magic = MAGIC_NUMBER,
          c_area = [0, 0, 0, 0, 0, 0] @ u32_bytes True MAGIC_NUMBER\<rparr>], chunkList = Some 100,
        memoryList = [\<lparr>mu_length = 6, mu_counter = 1, mu_tag = 401\<rparr>]\<rparr>"
    by (simp add: debugMalloc_def example_alloc_def addMemory_def sizeof_chunkHeader_def sizeof_chunkTrailer_def area_put_def upt_rec Let_def)
  obtain t c where t: "debugMalloc 6 401 example_alloc = Some (Inr (a_brk example_alloc, t))" "alloc_ok t [a_brk example_alloc]"
    using debugMalloc_ok [OF example_alloc_ok, of 6 "\<lambda>_. 0" 401] by (auto simp: example_alloc_def)
  have "alloc_ok s [100]" using t s(1) by (simp add: example_alloc_def)
  then show ?thesis by (intro exI [of _ s]) (simp add: s(2))
qed

section \<open>Properties\<close>

text \<open>
  C14: the allocator implements a map from addresses to tagged byte strings. In a state whose blocks
  are all intact and counted, \<open>debugMalloc\<close> adds a new block of the length, \<open>debugFree\<close> removes
  exactly the block, and \<open>debugRealloc\<close> replaces it by a new one that begins with the old contents,
  cut to the new length; the list, the magic numbers and the usage counters stay correct.
  \<open>checkIntegrity\<close> finds nothing and \<open>checkLeak\<close> reports the tags of all blocks. Freeing a
  block again is undefined behaviour: the header is read before the check for a double free.
\<close>

theorem allocator_refines_map:
  assumes "alloc_ok s cs" "p \<in> set cs" "blocks s p = Some (tag0, old)" "unat len < 2 ^ 32 - 20" "length cs < 2 ^ 32 - 1"
    and "malloc_gives s (requests s) = Some junk" "malloc_gives s (Suc (requests s)) \<noteq> None"
  shows "(\<exists>s' q bytes. debugMalloc len tag s = Some (Inr (q, s')) \<and> q \<notin> set cs \<and> alloc_ok s' (q # cs) \<and>
       length bytes = unat len \<and> blocks s' = (blocks s)(q \<mapsto> (tag, bytes))) \<and>
    (\<exists>s'. debugFree p s = Some (Inr s') \<and> alloc_ok s' (remove1 p cs) \<and> blocks s' = (blocks s)(p := None) \<and> debugFree p s' = None) \<and>
    (\<exists>s' q rest. debugRealloc (Some p) len tag s = Some (Inr (q, s')) \<and> q \<notin> set cs \<and> alloc_ok s' (q # remove1 p cs) \<and>
       length (take (unat len) old @ rest) = unat len \<and> blocks s' = (blocks s)(p := None, q \<mapsto> (tag, take (unat len) old @ rest))) \<and>
    checkIntegrity s = Some (Inr ()) \<and> checkLeak s = Some (map (\<lambda>p. fst (the (blocks s p))) cs)"
proof -
  obtain s1 c where s1: "debugMalloc len tag s = Some (Inr (a_brk s, s1))" "alloc_ok s1 (a_brk s # cs)" "chunks s (a_brk s) = None"
      "chunks s1 = (chunks s)(a_brk s \<mapsto> c)" "c_length c = len" "c_tag c = tag"
    using debugMalloc_ok [OF assms(1,4-7)] by blast
  have cs: "seg (chunks s) (chunkList s) cs None" "set cs = dom (chunks s)" "\<And>p c. chunks s p = Some c \<Longrightarrow> intact (a_little_endian s) c"
    using assms(1) by (simp_all add: alloc_ok_def)
  have "chunks s1 (a_brk s) = Some c" by (simp add: s1(4))
  with s1(2) have "intact (a_little_endian s1) c" unfolding alloc_ok_def by blast
  then have "length (payload c) = unat len" by (simp add: payload_def intact_def s1(5))
  moreover have "blocks s1 = (blocks s)(a_brk s \<mapsto> (tag, payload c))" by (simp add: blocks_def fun_eq_iff s1(4,6))
  moreover have "a_brk s \<notin> set cs" using s1(3) cs(2) by blast
  moreover obtain s2 where s2: "debugFree p s = Some (Inr s2)" "alloc_ok s2 (remove1 p cs)" "blocks s2 = (blocks s)(p := None)" "chunks s2 p = None"
    using debugFree_ok [OF assms(1,2)] by blast
  moreover have "debugFree p s2 = None" using s2(4) by (simp add: debugFree_def)
  moreover have "check_chunks (a_little_endian s) (chunks s) (chunkList s) = check_chunks (a_little_endian s) (chunks s) None"
    using check_chunks_seg [OF cs(1)] cs(3) by blast
  then have "checkIntegrity s = Some (Inr ())" by (simp add: checkIntegrity_def check_chunks.simps [of _ _ None])
  moreover have "checkLeak s = Some (map (\<lambda>p. fst (the (blocks s p))) cs)"
    using cs(2) by (auto simp: checkLeak_def leaked_tags_seg [OF cs(1)] blocks_def)
  ultimately show ?thesis using s1(1,2) debugRealloc_ok [OF assms] by blast
qed

theorem allocator_refines_map_witness:
  "\<exists>s s' q rest. blocks s 100 = Some (401, rest) \<and> debugRealloc (Some 100) 4 77 s = Some (Inr (q, s')) \<and>
     blocks s' = (blocks s)(100 := None, q \<mapsto> (77, take 4 rest)) \<and> checkLeak s = Some [401]"
proof -
  obtain s c where s: "alloc_ok s [100]" "chunks s 100 = Some c" "c_length c = 6" "c_tag c = 401" "malloc_gives s = (\<lambda>_. Some (\<lambda>_. 0))"
    using example_block by blast
  have b: "blocks s 100 = Some (401, payload c)" using s(2,4) by (simp add: blocks_def)
  have len: "length (payload c) = 6" using s(1-3) by (auto simp: payload_def alloc_ok_def intact_def)
  have p: "100 \<in> set [100]" "unat (4 :: u32) < 2 ^ 32 - 20" "length [100] < 2 ^ 32 - 1" "malloc_gives s (requests s) = Some (\<lambda>_. 0)"
      "malloc_gives s (Suc (requests s)) \<noteq> None" by (simp_all add: s(5))
  from allocator_refines_map [OF s(1) p(1) b p(2-5), of 77] obtain s' q rest where
    "debugRealloc (Some 100) 4 77 s = Some (Inr (q, s'))" "length (take (unat (4 :: u32)) (payload c) @ rest) = unat (4 :: u32)"
    "blocks s' = (blocks s)(100 := None, q \<mapsto> (77, take (unat (4 :: u32)) (payload c) @ rest))"
    "checkLeak s = Some (map (\<lambda>p. fst (the (blocks s p))) [100])" by blast
  with b len show ?thesis by (intro exI [of _ s] exI [of _ s'] exI [of _ q] exI [of _ "payload c"]) simp
qed

text \<open>
  C37: writing beyond the memory of a block. A write inside of it keeps everything in order; a write
  that reaches into the trailer and changes it lets \<open>debugFree\<close>, \<open>debugRealloc\<close> and
  \<open>checkIntegrity\<close> stop the daemon with an invalid trailer.
\<close>

theorem allocator_detects_overrun:
  assumes "alloc_ok s cs" "chunks s p = Some c" "area_put (c_area c) off bs = Some area"
    and "s' = s\<lparr>chunks := (chunks s)(p \<mapsto> c\<lparr>c_area := area\<rparr>)\<rparr>"
  shows "if off + length bs \<le> unat (c_length c) then alloc_ok s' cs
    else drop (unat (c_length c)) area \<noteq> u32_bytes (a_little_endian s) MAGIC_NUMBER \<longrightarrow>
      debugFree p s' = Some (Inl Invalid_trailer) \<and> debugRealloc (Some p) len tag s' = Some (Inl Invalid_trailer) \<and>
      checkIntegrity s' = Some (Inl Invalid_trailer)"
proof -
  have ok: "seg (chunks s) (chunkList s) cs None" "distinct cs" "set cs = dom (chunks s)" and int: "intact (a_little_endian s) c"
    using assms(1,2) by (simp_all add: alloc_ok_def)
  have area: "length area = length (c_area c)" "area = take off (c_area c) @ bs @ drop (off + length bs) (c_area c)" "off + length bs \<le> length (c_area c)"
    using assms(3) by (auto simp: area_put_def split: if_splits)
  show ?thesis
  proof (cases "off + length bs \<le> unat (c_length c)")
    case True
    then have "drop (unat (c_length c)) area = drop (unat (c_length c)) (c_area c)" using area(3) by (simp add: area(2) drop_append)
    from alloc_ok_write [OF assms(1,2) area(1) this] True show ?thesis by (simp add: assms(4))
  next
    case False
    obtain as bs' c' where f: "cs = as @ p # bs'" "set as \<subseteq> dom (chunks s)" "p \<notin> set as"
      using find_chunk_ok [OF assms(1), of p] assms(2) ok(3) by (metis domI)
    let ?c = "c\<lparr>c_area := area\<rparr>" and ?le = "a_little_endian s"
    have s': "chunks s' = (chunks s)(p \<mapsto> ?c)" "chunkList s' = chunkList s" "a_little_endian s' = ?le" by (simp_all add: assms(4))
    have magic: "c_magic ?c = MAGIC_NUMBER" using int by (simp add: intact_def)
    obtain m where m: "trailer_of ?le ?c = Some m" "m = MAGIC_NUMBER \<longleftrightarrow> drop (unat (c_length c)) area = u32_bytes ?le MAGIC_NUMBER"
      using trailer_of_eq [of ?c ?le] int area(1) by (auto simp: intact_def)
    have seg': "seg (chunks s') (chunkList s') cs None"
      using ok(1) seg_same [of cs "chunks s'" "chunks s"] assms(2) by (simp add: s'(1,2))
    then have pre: "seg (chunks s') (chunkList s') as (Some p)" by (auto simp: f(1) seg_append)
    have "seg (chunks s') (chunkList s') (as @ [p]) (c_next c)" using pre by (simp add: seg_append s'(1))
    then have find: "find_chunk (chunks s') p None (chunkList s') = Some (Some (if as = [] then None else Some (last as)))"
      using find_chunk_in [OF _ f(3)] by blast
    have asd: "set as \<subseteq> dom (chunks s')" using f(2) by (auto simp: s'(1))
    have free: "debugFree p s' = Some (Inl Invalid_trailer)" if "m \<noteq> MAGIC_NUMBER"
      using debugFree_eq [OF _ magic find asd] m(1) that by (simp add: s'(1,3))
    have realloc: "debugRealloc (Some p) len tag s' = Some (Inl Invalid_trailer)" if "m \<noteq> MAGIC_NUMBER"
      using that m(1) magic by (simp add: debugRealloc_def s'(1,3))
    have "intact ?le d" if "a \<in> set as" "chunks s' a = Some d" for a d
    proof -
      have "a \<noteq> p" using that(1) f(3) by blast
      with that(2) assms(1) show ?thesis by (simp add: s'(1) alloc_ok_def)
    qed
    from check_chunks_seg [OF pre this]
    have "checkIntegrity s' = Some (Inl Invalid_trailer)" if "m \<noteq> MAGIC_NUMBER"
      using that m(1) magic by (simp add: checkIntegrity_def s'(3) check_chunks.simps [of _ _ "Some p"]) (simp add: s'(1))
    with free realloc m(2) False show ?thesis by simp
  qed
qed

theorem allocator_detects_overrun_witness:
  "\<exists>s c area. chunks s 100 = Some c \<and> area_put (c_area c) 4 [1, 2, 3] = Some area \<and>
     debugFree 100 (s\<lparr>chunks := (chunks s)(100 \<mapsto> c\<lparr>c_area := area\<rparr>)\<rparr>) = Some (Inl Invalid_trailer)"
proof -
  obtain s c where s: "alloc_ok s [100]" "chunks s 100 = Some c" "c_length c = 6" "a_little_endian s" using example_block by blast
  have "intact (a_little_endian s) c" using s(1,2) unfolding alloc_ok_def by blast
  then have int: "length (c_area c) = 10" "drop 6 (c_area c) = u32_bytes True MAGIC_NUMBER" using s(3,4) by (simp_all add: intact_def)
  define area where "area = take 4 (c_area c) @ [1, 2, 3] @ drop 7 (c_area c)"
  have put: "area_put (c_area c) 4 [1, 2, 3] = Some area" using int(1) by (simp add: area_put_def area_def)
  have "drop 6 area = 3 # drop 7 (c_area c)" using int(1) by (simp add: area_def)
  moreover have "u32_bytes True MAGIC_NUMBER = [0x78, 0x56, 0x34, 0x12]" by (simp add: u32_bytes_def MAGIC_NUMBER_def)
  ultimately have "drop (unat (c_length c)) area \<noteq> u32_bytes (a_little_endian s) MAGIC_NUMBER" using s(3,4) by simp
  with allocator_detects_overrun [OF s(1,2) put refl] s(3)
  have "debugFree 100 (s\<lparr>chunks := (chunks s)(100 \<mapsto> c\<lparr>c_area := area\<rparr>)\<rparr>) = Some (Inl Invalid_trailer)" by simp
  with s(2) put show ?thesis by (intro exI [of _ s] exI [of _ c] exI [of _ area]) simp
qed

text \<open>
  The size of the block is computed in 32 bits without a check. For the 20 largest lengths it
  wraps around: the C library is asked for less than 20 bytes, and the header or the trailer is
  written outside of the block.
\<close>

theorem debugMalloc_overflow:
  assumes "2 ^ 32 - 20 \<le> unat len" "malloc_gives s (requests s) = Some junk"
  shows "debugMalloc len tag s = None"
proof -
  let ?total = "len + sizeof_chunkHeader + sizeof_chunkTrailer"
  have eq: "?total = len + 20" by (simp add: sizeof_chunkHeader_def sizeof_chunkTrailer_def)
  have lt: "unat len < 2 ^ 32" using unsigned_less [of len] by simp
  have "unat (len + 20) = (unat len + 20) mod 2 ^ 32" by (simp add: unat_word_ariths)
  also have "\<dots> = unat len + 20 - 2 ^ 32" using assms(1) lt by (subst le_mod_geq) simp_all
  finally have small: "unat ?total < 20" unfolding eq using lt by linarith
  have "unat ?total - 16 < unat len" using small assms(1) by simp
  then have "area_put (map junk [0 ..< unat ?total - 16]) (unat len) bs = None" for bs by (simp add: area_put_def)
  with assms(2) show ?thesis by (simp add: debugMalloc_def Let_def)
qed

theorem debugMalloc_overflow_witness: "debugMalloc 0xfffffff0 401 example_alloc = None"
  by (rule debugMalloc_overflow) (simp_all add: example_alloc_def)

end
