(* ===== verification/Debug_Clients.thy ===== *)
theory Debug_Clients
  imports Bat_Prelude
begin

text \<open>
  The debug levels of the daemon (\<open>struct debug_clients\<close> and \<open>debug_output\<close> of
  \<open>src/posix-specific.c\<close>): for every level the list of the file descriptors that get its output, and
  their number. Clients of the unix socket subscribe to a level and leave it again.

  A \<open>struct debug_level_info\<close> is owned by the list that it is in, so a level is a list of descriptors.
  The output is kept in \<open>outputs\<close>, the latest first, as the format string; an index outside of the
  arrays and a second use of the argument list are \<^term>\<open>None\<close>, undefined behaviour. The environment
  decides whether \<open>pthread_mutex_trylock\<close> gets the mutex.
\<close>

section \<open>State\<close>

datatype sink = Syslog | Stdout | Fd int | Clear_screen

record debug_state =
  debug_level :: u8
  debug_level_max :: u8
  fd_list :: "int list list"
  clients_num :: "16 word list"
  outputs :: "(sink \<times> string) list"
  trylock_works :: "nat \<Rightarrow> bool"
  locks_tried :: nat

definition emit :: "sink \<Rightarrow> string \<Rightarrow> debug_state \<Rightarrow> debug_state" where
  "emit w fmt d = d\<lparr>outputs := (w, fmt) # outputs d\<rparr>"

section \<open>Levels\<close>

definition debug_init :: "debug_state \<Rightarrow> debug_state" where
  "debug_init d = d\<lparr>fd_list := replicate (unat (debug_level_max d)) [], clients_num := replicate (unat (debug_level_max d)) 0\<rparr>"

text \<open>A descriptor is added in front, and the number is increased.\<close>

definition debug_add :: "int \<Rightarrow> int \<Rightarrow> debug_state \<Rightarrow> debug_state option" where
  "debug_add i fd d = do {
     fds \<leftarrow> array_get (fd_list d) i;
     n \<leftarrow> array_get (clients_num d) i;
     Some (d\<lparr>fd_list := (fd_list d)[nat i := fd # fds], clients_num := (clients_num d)[nat i := n + 1]\<rparr>)
   }"

text \<open>At the start a daemon that stays in the foreground subscribes its own standard output.\<close>

definition debug_foreground :: "debug_state \<Rightarrow> debug_state option" where
  "debug_foreground d = (if debug_level d = 0 then Some d else debug_add (uint (debug_level d) - 1) 1 d)"

text \<open>The first entry with the descriptor is removed, if there is one.\<close>

definition debug_del :: "int \<Rightarrow> int \<Rightarrow> debug_state \<Rightarrow> debug_state option" where
  "debug_del i fd d = do {
     fds \<leftarrow> array_get (fd_list d) i;
     if fd \<in> set fds then do {
       n \<leftarrow> array_get (clients_num d) i;
       Some (d\<lparr>fd_list := (fd_list d)[nat i := remove1 fd fds], clients_num := (clients_num d)[nat i := n - 1]\<rparr>)
     }
     else Some d
   }"

text \<open>
  At the end of \<open>unix_listen\<close> the head of the list is passed to \<open>list_del\<close> as the predecessor, which
  drops the entries in front as well (\<open>List_Batman\<close>).
\<close>

definition debug_del_head :: "int \<Rightarrow> int \<Rightarrow> debug_state \<Rightarrow> debug_state option" where
  "debug_del_head i fd d = do {
     fds \<leftarrow> array_get (fd_list d) i;
     if fd \<in> set fds then do {
       n \<leftarrow> array_get (clients_num d) i;
       Some (d\<lparr>fd_list := (fd_list d)[nat i := tl (dropWhile ((\<noteq>) fd) fds)], clients_num := (clients_num d)[nat i := n - 1]\<rparr>)
     }
     else Some d
   }"

text \<open>\<open>cleanup\<close> frees the entries of the levels with a positive number; what is left is leaked.\<close>

definition debug_cleanup :: "debug_state \<Rightarrow> int list list" where
  "debug_cleanup d = map (\<lambda>(fds, n). if sint n > 0 then [] else fds) (zip (fd_list d) (clients_num d))"

section \<open>Output\<close>

text \<open>Does \<open>vprintf\<close> take an argument?\<close>

fun takes_arguments :: "string \<Rightarrow> bool" where
  "takes_arguments (c # e # cs) =
     (if c = CHR ''%'' then if e = CHR ''%'' then takes_arguments cs else True else takes_arguments (e # cs))"
| "takes_arguments cs = False"

text \<open>Does a descriptor show the screen of the foreground daemon?\<close>

definition on_screen :: "debug_state \<Rightarrow> int \<Rightarrow> bool" where
  "on_screen d fd \<longleftrightarrow> (debug_level d = 1 \<or> debug_level d = 2) \<and> fd = 1"

text \<open>
  The loop over the descriptors. The argument list was started once before the loop: when a second
  \<open>vdprintf\<close> takes arguments from it, the behaviour is undefined.
\<close>

fun debug_write :: "int \<Rightarrow> string \<Rightarrow> bool \<Rightarrow> int list \<Rightarrow> debug_state \<Rightarrow> debug_state option" where
  "debug_write prio fmt used [] d = Some d"
| "debug_write prio fmt used (fd # fds) d =
     (let d = (if prio = 3 then emit (Fd fd) ''[%10u] '' d else d) in
      if on_screen d fd \<and> take 3 fmt = ''BOD'' then debug_write prio fmt used fds (emit Clear_screen '''' d)
      else if \<not> on_screen d fd \<or> take 3 fmt \<noteq> ''EOD'' then
        if used \<and> takes_arguments fmt then None else debug_write prio fmt True fds (emit (Fd fd) fmt d)
      else debug_write prio fmt used fds d)"

partial_function (option) debug_output :: "int \<Rightarrow> string \<Rightarrow> debug_state \<Rightarrow> debug_state option" where
  "debug_output prio fmt d =
     (let d = (if prio = 0 then
                 if debug_level d = 0 then emit Syslog fmt d
                 else if debug_level d = 3 then emit Stdout fmt d
                 else if debug_level d = 4 then emit Stdout fmt (emit Stdout ''[%10u] '' d) else d
               else d);
          intern = (if prio = 0 then 3 else prio - 1)
      in do {
        n \<leftarrow> array_get (clients_num d) intern;
        if sint n > 0 then
          if trylock_works d (locks_tried d) then do {
            fds \<leftarrow> array_get (fd_list d) intern;
            debug_write intern fmt False fds (d\<lparr>locks_tried := Suc (locks_tried d)\<rparr>)
          }
          else debug_output 0 ''Error - could not trylock mutex (debug_output): %s'' (d\<lparr>locks_tried := Suc (locks_tried d)\<rparr>)
        else Some d
      })"

section \<open>Invariant\<close>

text \<open>Descriptors fit into an \<open>fd_set\<close>.\<close>

definition FD_SETSIZE :: int where "FD_SETSIZE = 1024"

definition level_ok :: "int list \<Rightarrow> 16 word \<Rightarrow> bool" where
  "level_ok fds n \<longleftrightarrow> distinct fds \<and> set fds \<subseteq> {0 ..< FD_SETSIZE} \<and> n = of_nat (length fds)"

definition debug_ok :: "debug_state \<Rightarrow> bool" where
  "debug_ok d \<longleftrightarrow> length (fd_list d) = unat (debug_level_max d) \<and> list_all2 level_ok (fd_list d) (clients_num d)"

lemma level_ok_count: "level_ok fds n \<Longrightarrow> sint n = int (length fds) \<and> length fds \<le> 1024"
proof -
  assume ok: "level_ok fds n"
  have "length fds = card (set fds)" using ok by (simp add: level_ok_def distinct_card)
  also have "\<dots> \<le> card {0 ..< FD_SETSIZE}" using ok by (intro card_mono) (simp_all add: level_ok_def)
  finally have len: "length fds \<le> 1024" by (simp add: FD_SETSIZE_def)
  then have "sint (of_nat (length fds) :: 16 word) = int (length fds)"
    by (simp add: sint_uint unsigned_of_nat take_bit_nat_eq_self signed_take_bit_int_eq_self)
  with len ok show ?thesis by (simp add: level_ok_def)
qed

lemma debug_ok_get:
  assumes "debug_ok d" "0 \<le> i" "i < uint (debug_level_max d)"
  shows "array_get (fd_list d) i = Some (fd_list d ! nat i) \<and> array_get (clients_num d) i = Some (clients_num d ! nat i) \<and>
    level_ok (fd_list d ! nat i) (clients_num d ! nat i) \<and> nat i < length (fd_list d)"
proof -
  have "int (length (fd_list d)) = uint (debug_level_max d)" using assms(1) by (simp add: debug_ok_def)
  moreover have len: "length (clients_num d) = length (fd_list d)" using assms(1) by (auto simp: debug_ok_def dest: list_all2_lengthD)
  ultimately have i: "nat i < length (fd_list d)" "i < int (length (fd_list d))" using assms(2,3) by (simp_all add: nat_less_iff)
  moreover have "level_ok (fd_list d ! nat i) (clients_num d ! nat i)" using assms(1) i(1) by (simp add: debug_ok_def list_all2_nthD)
  ultimately show ?thesis using assms(2) len by simp
qed

lemma level_ok_update:
  "list_all2 level_ok fdss ns \<Longrightarrow> level_ok fds n \<Longrightarrow> list_all2 level_ok (fdss[i := fds]) (ns[i := n])"
  by (rule list_all2_update_cong)

lemma debug_init_ok: "debug_ok (debug_init d)"
  by (auto simp: debug_ok_def debug_init_def level_ok_def list_all2_conv_all_nth)

lemma debug_add_ok:
  assumes "debug_ok d" "0 \<le> i" "i < uint (debug_level_max d)" "fd \<notin> set (fd_list d ! nat i)" "fd \<in> {0 ..< FD_SETSIZE}"
  shows "\<exists>d'. debug_add i fd d = Some d' \<and> debug_ok d' \<and> fd_list d' = (fd_list d)[nat i := fd # fd_list d ! nat i] \<and>
    debug_level_max d' = debug_level_max d"
proof -
  note get = debug_ok_get [OF assms(1-3)]
  have "level_ok (fd # fd_list d ! nat i) (clients_num d ! nat i + 1)" using get assms(4,5) by (simp add: level_ok_def)
  with level_ok_update assms(1) have "debug_ok (d\<lparr>fd_list := (fd_list d)[nat i := fd # fd_list d ! nat i],
      clients_num := (clients_num d)[nat i := clients_num d ! nat i + 1]\<rparr>)" by (simp add: debug_ok_def)
  with get show ?thesis by (simp add: debug_add_def)
qed

lemma debug_del_ok:
  assumes "debug_ok d" "0 \<le> i" "i < uint (debug_level_max d)"
  shows "\<exists>d'. debug_del i fd d = Some d' \<and> debug_ok d' \<and> fd_list d' = (fd_list d)[nat i := remove1 fd (fd_list d ! nat i)] \<and>
    debug_level_max d' = debug_level_max d"
proof (cases "fd \<in> set (fd_list d ! nat i)")
  case True
  note get = debug_ok_get [OF assms]
  have "0 < length (fd_list d ! nat i)" using True by (cases "fd_list d ! nat i") auto
  then have "level_ok (remove1 fd (fd_list d ! nat i)) (clients_num d ! nat i - 1)"
    using get True set_remove1_subset [of fd "fd_list d ! nat i"] by (auto simp: level_ok_def length_remove1 of_nat_diff Suc_le_eq)
  with level_ok_update assms(1) have "debug_ok (d\<lparr>fd_list := (fd_list d)[nat i := remove1 fd (fd_list d ! nat i)],
      clients_num := (clients_num d)[nat i := clients_num d ! nat i - 1]\<rparr>)" by (simp add: debug_ok_def)
  with get True show ?thesis by (simp add: debug_del_def)
next
  case False
  with debug_ok_get [OF assms] assms(1) show ?thesis by (simp add: debug_del_def remove1_idem)
qed

lemma debug_cleanup_ok: "debug_ok d \<Longrightarrow> debug_cleanup d = replicate (unat (debug_level_max d)) []"
proof -
  assume ok: "debug_ok d"
  have "map (\<lambda>(fds, n). if sint n > 0 then [] else fds) (zip fdss ns) = replicate (length fdss) []"
    if "list_all2 level_ok fdss ns" for fdss ns
    using that by (induction rule: list_all2_induct) (auto dest: level_ok_count)
  with ok show ?thesis by (auto simp: debug_ok_def debug_cleanup_def)
qed

section \<open>What the output is\<close>

text \<open>Is the message printed to a descriptor, and everything that one descriptor gets.\<close>

definition prints :: "debug_state \<Rightarrow> string \<Rightarrow> int \<Rightarrow> bool" where
  "prints d fmt fd \<longleftrightarrow> \<not> (on_screen d fd \<and> take 3 fmt \<in> {''BOD'', ''EOD''})"

definition shown :: "debug_state \<Rightarrow> int \<Rightarrow> string \<Rightarrow> int \<Rightarrow> (sink \<times> string) list" where
  "shown d prio fmt fd =
     (if prio = 3 then [(Fd fd, ''[%10u] '')] else []) @
     (if prints d fmt fd then [(Fd fd, fmt)] else if take 3 fmt = ''BOD'' then [(Clear_screen, '''')] else [])"

definition logged :: "debug_state \<Rightarrow> int \<Rightarrow> string \<Rightarrow> (sink \<times> string) list" where
  "logged d prio fmt =
     (if prio \<noteq> 0 then [] else if debug_level d = 0 then [(Syslog, fmt)] else if debug_level d = 3 then [(Stdout, fmt)]
      else if debug_level d = 4 then [(Stdout, ''[%10u] ''), (Stdout, fmt)] else [])"

lemma prints_same: "debug_level d' = debug_level d \<Longrightarrow> prints d' = prints d \<and> shown d' = shown d \<and> on_screen d' = on_screen d"
  by (simp add: prints_def shown_def on_screen_def fun_eq_iff)

lemma debug_write_step:
  "debug_write prio fmt used (fd # fds) d =
     (if prints d fmt fd \<and> used \<and> takes_arguments fmt then None
      else debug_write prio fmt (used \<or> prints d fmt fd) fds (d\<lparr>outputs := rev (shown d prio fmt fd) @ outputs d\<rparr>))"
proof -
  have same: "on_screen (if prio = 3 then emit w f d else d) = on_screen d" for w f by (simp add: on_screen_def emit_def fun_eq_iff)
  consider (clear) "on_screen d fd" "take 3 fmt = ''BOD''" | (finish) "on_screen d fd" "take 3 fmt = ''EOD''" | (print) "prints d fmt fd"
    by (auto simp: prints_def)
  then show ?thesis
  proof cases
    case clear
    then have "\<not> prints d fmt fd" by (simp add: prints_def)
    with clear show ?thesis by (simp add: same shown_def Let_def) (simp add: emit_def)
  next
    case finish
    then have "\<not> prints d fmt fd" by (simp add: prints_def)
    with finish show ?thesis by (simp add: same shown_def Let_def) (simp add: emit_def)
  next
    case print
    then have "\<not> (on_screen d fd \<and> take 3 fmt = ''BOD'')" "\<not> on_screen d fd \<or> take 3 fmt \<noteq> ''EOD''" by (auto simp: prints_def)
    with print show ?thesis by (cases "on_screen d fd"; simp add: same shown_def Let_def; simp add: emit_def)
  qed
qed

lemma debug_write_eq:
  "debug_write prio fmt used fds d =
     (if takes_arguments fmt \<and> (if used then 1 else 2) \<le> length (filter (prints d fmt) fds) then None
      else Some (d\<lparr>outputs := rev (concat (map (shown d prio fmt) fds)) @ outputs d\<rparr>))"
proof (induction fds arbitrary: used d)
  case (Cons fd fds)
  let ?d = "d\<lparr>outputs := rev (shown d prio fmt fd) @ outputs d\<rparr>"
  have same: "prints ?d = prints d" "shown ?d = shown d" using prints_same [of ?d d] by simp_all
  show ?case unfolding debug_write_step Cons.IH [of _ ?d] same by (cases used; cases "prints d fmt fd") auto
qed simp

section \<open>Property\<close>

text \<open>
  C38: \<open>debug_output\<close>. When the mutex of the level is free and the numbers of the levels are right, the
  log (for an error of level 0) and every subscribed descriptor get the message, in the order of the
  list, and the errors with the time in front; on the screen of the foreground daemon the mark
  \<open>BOD\<close> clears the screen and \<open>EOD\<close> is not shown. When the message has arguments and goes to
  two descriptors, the argument list is used twice, which is undefined behaviour.
\<close>

theorem debug_output_spec:
  assumes "debug_ok d" "0 \<le> prio" "prio \<le> uint (debug_level_max d)" "prio = 0 \<longrightarrow> 4 \<le> debug_level_max d"
    and "trylock_works d (locks_tried d)" "intern = (if prio = 0 then 3 else prio - 1)" "fds = fd_list d ! nat intern"
  shows "debug_output prio fmt d =
    (if takes_arguments fmt \<and> 2 \<le> length (filter (prints d fmt) fds) then None
     else Some (d\<lparr>outputs := rev (logged d prio fmt @ concat (map (shown d intern fmt) fds)) @ outputs d,
       locks_tried := locks_tried d + (if fds = [] then 0 else 1)\<rparr>))"
proof -
  define e where "e = d\<lparr>outputs := rev (logged d prio fmt) @ outputs d\<rparr>"
  have "4 \<le> uint (debug_level_max d)" if "prio = 0" using assms(4) that by (simp add: word_le_def)
  then have i: "0 \<le> intern" "intern < uint (debug_level_max d)" using assms(2,3) by (auto simp: assms(6))
  note get = debug_ok_get [OF assms(1) i]
  then have n: "sint (clients_num d ! nat intern) = int (length fds)" using level_ok_count assms(7) by simp
  have "debug_output prio fmt d = (if 0 < length fds then debug_write intern fmt False fds (e\<lparr>locks_tried := Suc (locks_tried d)\<rparr>) else Some e)"
    using get assms(5) by (subst debug_output.simps)
      (auto simp: e_def logged_def emit_def assms(6,7) [symmetric] n Let_def simp flip: assms(7))
  moreover have "prints (e\<lparr>locks_tried := Suc (locks_tried d)\<rparr>) = prints d" "shown (e\<lparr>locks_tried := Suc (locks_tried d)\<rparr>) = shown d"
    using prints_same [of "e\<lparr>locks_tried := Suc (locks_tried d)\<rparr>" d] by (simp_all add: e_def)
  ultimately show ?thesis by (simp add: debug_write_eq) (simp add: e_def)
qed

definition example_debug :: debug_state where
  "example_debug = \<lparr>debug_level = 4, debug_level_max = 4, fd_list = [[], [], [], [5, 1]], clients_num = [0, 0, 0, 2], outputs = [],
     trylock_works = (\<lambda>_. True), locks_tried = 0\<rparr>"

lemma example_debug_ok: "debug_ok example_debug"
  by (simp add: debug_ok_def example_debug_def level_ok_def FD_SETSIZE_def)

theorem debug_output_spec_witness:
  "debug_output 0 ''Stop'' example_debug = Some (example_debug\<lparr>outputs :=
     [(Fd 1, ''Stop''), (Fd 1, ''[%10u] ''), (Fd 5, ''Stop''), (Fd 5, ''[%10u] ''), (Stdout, ''Stop''), (Stdout, ''[%10u] '')],
     locks_tried := 1\<rparr>) \<and>
   debug_output 4 ''Error: %s'' example_debug = None"
proof
  have d: "debug_level example_debug = 4" "debug_level_max example_debug = 4" "trylock_works example_debug (locks_tried example_debug)"
      "fd_list example_debug ! nat 3 = [5, 1]" "outputs example_debug = []" "locks_tried example_debug = 0" by (simp_all add: example_debug_def)
  show "debug_output 0 ''Stop'' example_debug = Some (example_debug\<lparr>outputs :=
     [(Fd 1, ''Stop''), (Fd 1, ''[%10u] ''), (Fd 5, ''Stop''), (Fd 5, ''[%10u] ''), (Stdout, ''Stop''), (Stdout, ''[%10u] '')],
     locks_tried := 1\<rparr>)"
    using debug_output_spec [OF example_debug_ok, of 0 3 "[5, 1]" "''Stop''"] d by (simp add: shown_def prints_def on_screen_def logged_def)
  show "debug_output 4 ''Error: %s'' example_debug = None"
    using debug_output_spec [OF example_debug_ok, of 4 3 "[5, 1]" "''Error: %s''"] d by (simp add: prints_def on_screen_def)
qed

end
