(* ===== verification/Clients.thy ===== *)
theory Clients
  imports Daemon Debug_Clients
begin

text \<open>
  The thread \<open>unix_listen\<close> of \<open>src/posix-specific.c\<close>, which serves the clients of the unix socket:
  it accepts connections, hands packets of the clients to \<open>handle_packet\<close>, and lets them subscribe to
  debug levels. What the system calls return in a round of the loop is an event; the rounds are a
  list of events, until the daemon is aborted.

  Clients live in a map from addresses to records; \<open>client_list\<close> is the list \<open>unix_if.client_list\<close> and
  \<open>unix_packet_ptr\<close> the array \<open>unix_packet\<close> of pointers to clients. Reading an address without a client
  (freed memory) and adding a descriptor that does not fit into an \<open>fd_set\<close> are \<^term>\<open>None\<close>, undefined
  behaviour. A round is atomic: the accesses of this thread to the tables of the main loop are not
  synchronised in the code.
\<close>

section \<open>State\<close>

record unix_client =
  cl_sock :: int
  cl_level :: u8
  cl_uid :: u8

record client_state =
  daemon :: bat_state
  debug :: debug_state
  unix_sock :: int
  clients :: "nat \<rightharpoonup> unix_client"
  client_list :: "nat list"
  unix_packet_ptr :: "u8 \<Rightarrow> nat option"
  wait_sockets :: "int set"
  max_sock :: int
  cl_brk :: nat

text \<open>
  The results of one round: of \<open>select\<close> and whether it was interrupted, the descriptors that it leaves
  in the set, the result of \<open>accept\<close>, and for every descriptor what \<open>read\<close> gives (\<^term>\<open>None\<close> is an error,
  the empty list the end of the connection).
\<close>

record unix_event =
  ev_res :: int
  ev_eintr :: bool
  ev_ready :: "int set"
  ev_accept :: int
  ev_reads :: "int \<Rightarrow> u8 list option"

definition put_client :: "nat \<Rightarrow> unix_client \<Rightarrow> client_state \<Rightarrow> client_state" where
  "put_client p c s = s\<lparr>clients := (clients s)(p \<mapsto> c)\<rparr>"

section \<open>A new client\<close>

text \<open>When \<open>accept\<close> fails, the memory of the new client is not freed.\<close>

definition accept_client :: "int \<Rightarrow> client_state \<Rightarrow> client_state option" where
  "accept_client sock s =
     (let p = cl_brk s;
          s = put_client p \<lparr>cl_sock = sock, cl_level = 0, cl_uid = 0\<rparr> (s\<lparr>cl_brk := Suc p\<rparr>)
      in if sock = -1 then Some s
         else if sock < 0 \<or> FD_SETSIZE \<le> sock then None
         else Some (s\<lparr>wait_sockets := insert sock (wait_sockets s), max_sock := (if sock > max_sock s then sock else max_sock s),
           client_list := client_list s @ [p]\<rparr>))"

section \<open>Data of a client\<close>

text \<open>The first free entry of the table, of which the last one is not used.\<close>

definition free_uid :: "client_state \<Rightarrow> u8 option" where
  "free_uid s = find (\<lambda>i. unix_packet_ptr s i = None) (map word_of_nat [0 ..< 255])"

definition assign_uid :: "nat \<Rightarrow> client_state \<Rightarrow> client_state option" where
  "assign_uid p s =
     (case free_uid s of
        None \<Rightarrow> Some s
      | Some i \<Rightarrow> do {
          c \<leftarrow> clients s p;
          Some (put_client p (c\<lparr>cl_uid := i\<rparr>) (s\<lparr>unix_packet_ptr := (unix_packet_ptr s)(i := Some p)\<rparr>))
        })"

definition client_packet :: "u8 list \<Rightarrow> nat \<Rightarrow> client_state \<Rightarrow> client_state option" where
  "client_packet buff p s =
     (if int (length buff) = sizeof_icmp_packet + 2 then do {
        c \<leftarrow> clients s p;
        s \<leftarrow> (if cl_uid c = 0 then assign_uid p s else Some s);
        c \<leftarrow> clients s p;
        if unix_packet_ptr s (cl_uid c) = Some p then do {
          b \<leftarrow> handle_packet (drop 2 buff) (cl_uid c) (cl_sock c) (daemon s);
          Some (s\<lparr>daemon := b\<rparr>)
        }
        else Some s
      }
      else Some s)"

text \<open>
  A client that asks for the level it has leaves it, otherwise it changes to the new level. The level
  is kept as the digit that was sent.
\<close>

definition client_debug :: "u8 list \<Rightarrow> nat \<Rightarrow> client_state \<Rightarrow> client_state option" where
  "client_debug buff p s =
     (if length buff > 2 \<and> buff ! 2 > 48 \<and> uint (buff ! 2) \<le> uint (debug_level_max (debug s)) + 48 then do {
        c \<leftarrow> clients s p;
        d \<leftarrow> (if cl_level c \<noteq> 0 then debug_del (uint (cl_level c) - 49) (cl_sock c) (debug s) else Some (debug s));
        if cl_level c \<noteq> buff ! 2 then do {
          d \<leftarrow> debug_add (uint (buff ! 2) - 49) (cl_sock c) d;
          Some (put_client p (c\<lparr>cl_level := buff ! 2\<rparr>) (s\<lparr>debug := d\<rparr>))
        }
        else Some (put_client p (c\<lparr>cl_level := 0\<rparr>) (s\<lparr>debug := d\<rparr>))
      }
      else Some s)"

definition client_data :: "u8 list \<Rightarrow> nat \<Rightarrow> client_state \<Rightarrow> client_state option" where
  "client_data buff p s =
     (if buff ! 0 = 112 then client_packet buff p s
      else if buff ! 0 = 100 then client_debug buff p s
      else Some s)"

section \<open>The end of a client\<close>

text \<open>
  The predecessor that is passed to \<open>list_del\<close> is always the head of the list, so the entries in front
  are dropped as well (\<open>List_Batman\<close>).
\<close>

definition client_gone :: "nat \<Rightarrow> client_state \<Rightarrow> client_state option" where
  "client_gone p s = do {
     c \<leftarrow> clients s p;
     d \<leftarrow> (if cl_level c \<noteq> 0 then debug_del (uint (cl_level c) - 49) (cl_sock c) (debug s) else Some (debug s));
     Some (s\<lparr>debug := d,
       unix_packet_ptr := (if cl_uid c \<noteq> 0 then (unix_packet_ptr s)(cl_uid c := None) else unix_packet_ptr s),
       wait_sockets := wait_sockets s - {cl_sock c},
       client_list := tl (dropWhile ((\<noteq>) p) (client_list s)),
       clients := (clients s)(p := None)\<rparr>)
   }"

section \<open>A round\<close>

definition client_turn :: "unix_event \<Rightarrow> int set \<Rightarrow> nat \<Rightarrow> client_state \<Rightarrow> client_state option" where
  "client_turn e ready p s = do {
     c \<leftarrow> clients s p;
     let higher = s\<lparr>max_sock := (if cl_sock c > max_sock s then cl_sock c else max_sock s)\<rparr>;
     if cl_sock c \<in> ready then
       (case ev_reads e (cl_sock c) of
          Some (b # buff) \<Rightarrow> client_data (b # buff) p higher
        | _ \<Rightarrow> client_gone p s)
     else Some higher
   }"

fun client_turns :: "unix_event \<Rightarrow> int set \<Rightarrow> nat list \<Rightarrow> client_state \<Rightarrow> client_state option" where
  "client_turns e ready [] s = Some s"
| "client_turns e ready (p # ps) s = do { s \<leftarrow> client_turn e ready p s; client_turns e ready ps s }"

text \<open>The result of \<open>select\<close> is kept in 8 bits. The boolean says whether the loop goes on.\<close>

definition unix_round :: "unix_event \<Rightarrow> client_state \<Rightarrow> (bool \<times> client_state) option" where
  "unix_round e s =
     (let res = sint (word_of_int (ev_res e) :: u8);
          ready = {k \<in> ev_ready e. k \<in> wait_sockets s \<and> k \<le> max_sock s}
      in if res > 0 then
           if unix_sock s \<in> ready then map_option (Pair True) (accept_client (ev_accept e) s)
           else map_option (Pair True) (client_turns e ready (client_list s) (s\<lparr>max_sock := unix_sock s\<rparr>))
         else Some (\<not> (res < 0 \<and> \<not> ev_eintr e), s))"

section \<open>The thread\<close>

definition unix_start :: "client_state \<Rightarrow> client_state" where
  "unix_start s = s\<lparr>client_list := [], wait_sockets := {unix_sock s}, max_sock := unix_sock s,
     unix_packet_ptr := (\<lambda>i. if i \<noteq> 255 then None else unix_packet_ptr s i)\<rparr>"

fun unix_loop :: "unix_event list \<Rightarrow> client_state \<Rightarrow> client_state option" where
  "unix_loop [] s = Some s"
| "unix_loop (e # es) s = do { (go, s) \<leftarrow> unix_round e s; if go then unix_loop es s else Some s }"

definition client_close :: "nat \<Rightarrow> client_state \<Rightarrow> client_state option" where
  "client_close p s = do {
     c \<leftarrow> clients s p;
     d \<leftarrow> (if cl_level c \<noteq> 0 then debug_del_head (uint (cl_level c) - 49) (cl_sock c) (debug s) else Some (debug s));
     Some (s\<lparr>debug := d, client_list := tl (dropWhile ((\<noteq>) p) (client_list s)), clients := (clients s)(p := None)\<rparr>)
   }"

fun clients_close :: "nat list \<Rightarrow> client_state \<Rightarrow> client_state option" where
  "clients_close [] s = Some s"
| "clients_close (p # ps) s = do { s \<leftarrow> client_close p s; clients_close ps s }"

definition unix_listen :: "unix_event list \<Rightarrow> client_state \<Rightarrow> client_state option" where
  "unix_listen es s = do { s \<leftarrow> unix_loop es (unix_start s); clients_close (client_list s) s }"

section \<open>Invariant\<close>

text \<open>
  A client that the thread serves, or that was dropped from the list without being closed (the memory
  of a connection that was not accepted is no client): its descriptor is in the set, and it is
  subscribed exactly to the level it has.
\<close>

definition open_client :: "client_state \<Rightarrow> nat \<Rightarrow> unix_client \<Rightarrow> bool" where
  "open_client s p c \<longleftrightarrow> clients s p = Some c \<and> cl_sock c \<noteq> -1"

definition level_valid :: "debug_state \<Rightarrow> u8 \<Rightarrow> bool" where
  "level_valid d l \<longleftrightarrow> 48 < l \<and> uint l \<le> uint (debug_level_max d) + 48"

definition serving :: "client_state \<Rightarrow> unix_client \<Rightarrow> bool" where
  "serving s c \<longleftrightarrow> cl_sock c \<in> wait_sockets s - {unix_sock s} \<and> (cl_level c = 0 \<or> level_valid (debug s) (cl_level c)) \<and>
     (\<forall>i < length (fd_list (debug s)). cl_sock c \<in> set (fd_list (debug s) ! i) \<longleftrightarrow> uint (cl_level c) = int i + 49)"

definition table_live :: "client_state \<Rightarrow> bool" where
  "table_live s \<longleftrightarrow> (\<forall>i p. i \<noteq> 0 \<longrightarrow> unix_packet_ptr s i = Some p \<longrightarrow> (\<exists>c. open_client s p c \<and> cl_uid c = i))"

definition clients_ok :: "client_state \<Rightarrow> bool" where
  "clients_ok s \<longleftrightarrow> debug_ok (debug s) \<and> distinct (client_list s) \<and> (\<forall>p \<in> set (client_list s). \<exists>c. open_client s p c) \<and>
     (\<forall>p c. open_client s p c \<longrightarrow> serving s c) \<and> (\<forall>p. clients s p \<noteq> None \<longrightarrow> p < cl_brk s) \<and>
     (\<forall>p q c d. open_client s p c \<longrightarrow> open_client s q d \<longrightarrow> cl_sock c = cl_sock d \<longrightarrow> p = q) \<and>
     table_live s \<and> (\<forall>i < length (fd_list (debug s)). set (fd_list (debug s) ! i) \<subseteq> insert 1 (wait_sockets s)) \<and>
     1 \<notin> wait_sockets s \<and> wait_sockets s \<subseteq> {0 ..< FD_SETSIZE} \<and> daemon_ok (daemon s)"

text \<open>The descriptors of the listed clients are small enough for \<open>select\<close>.\<close>

definition audible :: "client_state \<Rightarrow> nat list \<Rightarrow> bool" where
  "audible s ps \<longleftrightarrow> (\<forall>p \<in> set ps. \<forall>c. clients s p = Some c \<longrightarrow> cl_sock c \<le> max_sock s)"

lemma unsubscribe:
  assumes "debug_ok (debug s)" "serving s c"
  shows "\<exists>d. (if cl_level c \<noteq> 0 then debug_del (uint (cl_level c) - 49) (cl_sock c) (debug s) else Some (debug s)) = Some d \<and>
    debug_ok d \<and> debug_level_max d = debug_level_max (debug s) \<and> length (fd_list d) = length (fd_list (debug s)) \<and>
    (\<forall>i < length (fd_list d). set (fd_list d ! i) = set (fd_list (debug s) ! i) - {cl_sock c})"
proof (cases "cl_level c = 0")
  case True
  then have "cl_sock c \<notin> set (fd_list (debug s) ! i)" if "i < length (fd_list (debug s))" for i using assms(2) that by (simp add: serving_def)
  then show ?thesis using True assms(1) by simp
next
  case False
  define k where "k = uint (cl_level c) - 49"
  have "48 < cl_level c" "uint (cl_level c) \<le> uint (debug_level_max (debug s)) + 48" using False assms(2) by (auto simp: serving_def level_valid_def)
  then have k: "0 \<le> k" "k < uint (debug_level_max (debug s))" by (simp_all add: k_def word_less_def)
  from debug_del_ok [OF assms(1) k, of "cl_sock c"] obtain d where d: "debug_del k (cl_sock c) (debug s) = Some d" "debug_ok d"
      "fd_list d = (fd_list (debug s))[nat k := remove1 (cl_sock c) (fd_list (debug s) ! nat k)]" "debug_level_max d = debug_level_max (debug s)"
    by blast
  have dist: "distinct (fd_list (debug s) ! nat k)" using debug_ok_get [OF assms(1) k] by (simp add: level_ok_def)
  have "set (fd_list d ! i) = set (fd_list (debug s) ! i) - {cl_sock c}" if i: "i < length (fd_list (debug s))" for i
  proof (cases "i = nat k")
    case True
    with i dist show ?thesis by (simp add: d(3))
  next
    case False
    then have "uint (cl_level c) \<noteq> int i + 49" using k(1) by (simp add: k_def)
    then have "cl_sock c \<notin> set (fd_list (debug s) ! i)" using assms(2) i by (simp add: serving_def)
    with False show ?thesis by (simp add: d(3))
  qed
  with d False show ?thesis by (simp add: k_def)
qed

lemma subscribe:
  assumes "debug_ok d" "level_valid d l" "fd \<in> {0 ..< FD_SETSIZE}" "\<forall>i < length (fd_list d). fd \<notin> set (fd_list d ! i)"
  shows "\<exists>d'. debug_add (uint l - 49) fd d = Some d' \<and> debug_ok d' \<and> debug_level_max d' = debug_level_max d \<and>
    length (fd_list d') = length (fd_list d) \<and>
    (\<forall>i < length (fd_list d). set (fd_list d' ! i) = (if uint l = int i + 49 then insert fd (set (fd_list d ! i)) else set (fd_list d ! i)))"
proof -
  define k where "k = uint l - 49"
  have k: "0 \<le> k" "k < uint (debug_level_max d)" using assms(2) by (simp_all add: k_def level_valid_def word_less_def)
  have n: "nat k < length (fd_list d)" using debug_ok_get [OF assms(1) k] by simp
  with assms(4) have "fd \<notin> set (fd_list d ! nat k)" by simp
  from debug_add_ok [OF assms(1) k this assms(3)] obtain d' where d': "debug_add k fd d = Some d'" "debug_ok d'"
      "fd_list d' = (fd_list d)[nat k := fd # fd_list d ! nat k]" "debug_level_max d' = debug_level_max d" by blast
  have "uint l = int i + 49 \<longleftrightarrow> i = nat k" for i using k(1) by (auto simp: k_def)
  with d' show ?thesis by (auto simp: k_def [symmetric] nth_list_update)
qed

section \<open>The operations keep the invariant\<close>

lemma put_client_simps [simp]:
  "debug (put_client p c s) = debug s" "wait_sockets (put_client p c s) = wait_sockets s" "unix_sock (put_client p c s) = unix_sock s"
  "client_list (put_client p c s) = client_list s" "unix_packet_ptr (put_client p c s) = unix_packet_ptr s" "max_sock (put_client p c s) = max_sock s"
  "cl_brk (put_client p c s) = cl_brk s" "daemon (put_client p c s) = daemon s" "clients (put_client p c s) = (clients s)(p \<mapsto> c)"
  by (simp_all add: put_client_def)

lemma accept_client_ok:
  assumes "clients_ok s" "audible s (client_list s)"
    and "sock = -1 \<or> sock \<in> {0 ..< FD_SETSIZE} - insert 1 (insert (unix_sock s) (wait_sockets s))"
  shows "\<exists>s'. accept_client sock s = Some s' \<and> clients_ok s' \<and> audible s' (client_list s') \<and>
    client_list s' = client_list s @ (if sock = -1 then [] else [cl_brk s])"
proof -
  let ?p = "cl_brk s" and ?c = "\<lparr>cl_sock = sock, cl_level = 0, cl_uid = 0\<rparr>"
  have ok: "debug_ok (debug s)" "distinct (client_list s)" "\<forall>p \<in> set (client_list s). \<exists>c. open_client s p c"
      "\<forall>p c. open_client s p c \<longrightarrow> serving s c" "\<forall>p. clients s p \<noteq> None \<longrightarrow> p < cl_brk s"
      "\<forall>p q c d. open_client s p c \<longrightarrow> open_client s q d \<longrightarrow> cl_sock c = cl_sock d \<longrightarrow> p = q" "table_live s"
      "\<forall>i < length (fd_list (debug s)). set (fd_list (debug s) ! i) \<subseteq> insert 1 (wait_sockets s)" "1 \<notin> wait_sockets s"
      "wait_sockets s \<subseteq> {0 ..< FD_SETSIZE}" "daemon_ok (daemon s)" using assms(1) by (simp_all add: clients_ok_def)
  have brk: "clients s ?p = None" using ok(5) by blast
  then have none: "\<not> open_client s ?p c" for c by (simp add: open_client_def)
  with ok(3) have fresh: "?p \<notin> set (client_list s)" by blast
  show ?thesis
  proof (cases "sock = -1")
    case True
    define s' where "s' = put_client ?p ?c (s\<lparr>cl_brk := Suc ?p\<rparr>)"
    have eq: "accept_client sock s = Some s'" using True by (simp add: accept_client_def s'_def Let_def)
    have "open_client s' = open_client s" using brk True by (auto simp: open_client_def s'_def fun_eq_iff)
    moreover have "serving s' = serving s" by (simp add: serving_def s'_def fun_eq_iff)
    ultimately have "clients_ok s'" using ok unfolding clients_ok_def table_live_def by (simp add: s'_def) (auto simp: less_Suc_eq)
    moreover have "audible s' (client_list s')" using assms(2) fresh by (auto simp: audible_def s'_def)
    ultimately show ?thesis using eq True by (simp add: s'_def)
  next
    case False
    with assms(3) have new: "sock \<noteq> 1" "sock \<noteq> unix_sock s" "sock \<notin> wait_sockets s" "0 \<le> sock" "sock < FD_SETSIZE" by auto
    define s' where "s' = put_client ?p ?c (s\<lparr>cl_brk := Suc ?p\<rparr>)\<lparr>wait_sockets := insert sock (wait_sockets s),
      max_sock := (if sock > max_sock s then sock else max_sock s), client_list := client_list s @ [?p]\<rparr>"
    have eq: "accept_client sock s = Some s'" using False new by (simp add: accept_client_def s'_def Let_def)
    have op: "open_client s' p c \<longleftrightarrow> (if p = ?p then c = ?c else open_client s p c)" for p c
      using brk False by (auto simp: open_client_def s'_def)
    have unsub: "sock \<notin> set (fd_list (debug s) ! i)" if "i < length (fd_list (debug s))" for i using ok(8) that new by blast
    have sv: "serving s' c" if "serving s c" for c using that by (auto simp: serving_def s'_def)
    have "serving s' ?c" using unsub new by (auto simp: serving_def s'_def)
    with ok(4) op sv none have "\<forall>p c. open_client s' p c \<longrightarrow> serving s' c" by auto
    moreover have "cl_sock c \<noteq> sock" if "open_client s p c" for p c using ok(4) that new(3) by (auto simp: serving_def)
    then have "\<forall>p q c d. open_client s' p c \<longrightarrow> open_client s' q d \<longrightarrow> cl_sock c = cl_sock d \<longrightarrow> p = q"
      using ok(6) by (auto simp: op)
    moreover have ptr: "unix_packet_ptr s' = unix_packet_ptr s" by (simp add: s'_def)
    have "table_live s'" using ok(7) none op unfolding table_live_def ptr by metis
    moreover have "\<forall>p \<in> set (client_list s'). \<exists>c. open_client s' p c" using ok(3) fresh by (auto simp: op) (auto simp: s'_def)
    ultimately have "clients_ok s'" using ok fresh new unfolding clients_ok_def by (auto simp: s'_def)
    moreover have "audible s' (client_list s')" using assms(2) fresh by (auto simp: audible_def s'_def)
    ultimately show ?thesis using eq False by (simp add: s'_def)
  qed
qed

lemma clients_ok_fields [simp]:
  "clients_ok (s\<lparr>max_sock := m\<rparr>) = clients_ok s"
  "daemon_ok b \<Longrightarrow> clients_ok s \<Longrightarrow> clients_ok (s\<lparr>daemon := b\<rparr>)"
proof -
  have "open_client (s\<lparr>max_sock := m\<rparr>) = open_client s" "serving (s\<lparr>max_sock := m\<rparr>) = serving s"
      "open_client (s\<lparr>daemon := b\<rparr>) = open_client s" "serving (s\<lparr>daemon := b\<rparr>) = serving s"
    by (simp_all add: open_client_def serving_def fun_eq_iff)
  then show "clients_ok (s\<lparr>max_sock := m\<rparr>) = clients_ok s"
      "daemon_ok b \<Longrightarrow> clients_ok s \<Longrightarrow> clients_ok (s\<lparr>daemon := b\<rparr>)"
    by (simp_all add: clients_ok_def table_live_def)
qed

text \<open>What a client's data does not change.\<close>

definition socks_same :: "client_state \<Rightarrow> client_state \<Rightarrow> bool" where
  "socks_same s s' \<longleftrightarrow> client_list s' = client_list s \<and> max_sock s' = max_sock s \<and> unix_sock s' = unix_sock s \<and>
     (\<forall>q. map_option cl_sock (clients s' q) = map_option cl_sock (clients s q))"

lemma socks_same_refl [simp]: "socks_same s s"
  by (simp add: socks_same_def)

lemma socks_same_audible: "socks_same s s' \<Longrightarrow> audible s ps \<Longrightarrow> audible s' ps"
  unfolding socks_same_def audible_def
proof (intro ballI allI impI, elim conjE)
  fix p c
  assume h: "\<forall>p \<in> set ps. \<forall>c. clients s p = Some c \<longrightarrow> cl_sock c \<le> max_sock s" "p \<in> set ps" "clients s' p = Some c"
    "max_sock s' = max_sock s" "\<forall>q. map_option cl_sock (clients s' q) = map_option cl_sock (clients s q)"
  from spec [OF h(5), of p] h(3) obtain d where "clients s p = Some d" "cl_sock d = cl_sock c" by (auto simp: map_option_case split: option.splits)
  with h(1,2,4) show "cl_sock c \<le> max_sock s'" by fastforce
qed

text \<open>Changing the record of a client, but not its descriptor.\<close>

lemma open_client_put:
  "open_client s p c \<Longrightarrow> clients t = (clients s)(p \<mapsto> c') \<Longrightarrow> cl_sock c' = cl_sock c \<Longrightarrow>
   open_client t q d \<longleftrightarrow> (if q = p then d = c' else open_client s q d)"
  by (auto simp: open_client_def)

lemma clients_ok_replace:
  assumes "clients_ok s" "open_client s p c" "clients t = (clients s)(p \<mapsto> c')" "cl_sock c' = cl_sock c"
    and "client_list t = client_list s" "wait_sockets t = wait_sockets s" "cl_brk t = cl_brk s" "debug_ok (debug t)" "daemon_ok (daemon t)"
    and "serving t c'" "\<forall>q d. q \<noteq> p \<longrightarrow> open_client s q d \<longrightarrow> serving t d"
    and "\<forall>i q. i \<noteq> 0 \<longrightarrow> unix_packet_ptr t i = Some q \<longrightarrow> (if q = p then cl_uid c' = i else \<exists>d. open_client s q d \<and> cl_uid d = i)"
    and "\<forall>i < length (fd_list (debug t)). set (fd_list (debug t) ! i) \<subseteq> insert 1 (wait_sockets s)"
  shows "clients_ok t"
proof -
  note op = open_client_put [OF assms(2,3,4)]
  have "q = r" if qr: "open_client t q d" "open_client t r e" "cl_sock d = cl_sock e" for q r d e
  proof -
    have "\<exists>d'. open_client s q d' \<and> cl_sock d' = cl_sock d" "\<exists>e'. open_client s r e' \<and> cl_sock e' = cl_sock e"
      using qr(1,2) assms(2,4) by (auto simp: op split: if_splits)
    with qr(3) assms(1) show ?thesis unfolding clients_ok_def by metis
  qed
  moreover have "serving t d" if "open_client t q d" for q d using that assms(10,11) by (auto simp: op split: if_splits)
  moreover have "table_live t" using assms(12) unfolding table_live_def op by metis
  moreover have "\<exists>d. open_client t q d" if "q \<in> set (client_list s)" for q
    using that assms(1) op unfolding clients_ok_def by (cases "q = p") auto
  moreover have "clients s p \<noteq> None" using assms(2) by (simp add: open_client_def)
  ultimately show ?thesis using assms(1,3,5-9,13) unfolding clients_ok_def by auto
qed

lemma clients_ok_uid:
  assumes "clients_ok s" "open_client s p c" "cl_uid c = 0"
  shows "clients_ok (put_client p (c\<lparr>cl_uid := i\<rparr>) (s\<lparr>unix_packet_ptr := (unix_packet_ptr s)(i := Some p)\<rparr>))"
proof (rule clients_ok_replace [OF assms(1,2)])
  let ?t = "put_client p (c\<lparr>cl_uid := i\<rparr>) (s\<lparr>unix_packet_ptr := (unix_packet_ptr s)(i := Some p)\<rparr>)"
  have ok: "\<forall>q d. open_client s q d \<longrightarrow> serving s d" "table_live s" using assms(1) by (simp_all add: clients_ok_def)
  have sv: "serving ?t d = serving s d" "serving s (c\<lparr>cl_uid := i\<rparr>) = serving s c" for d by (simp_all add: serving_def)
  show "serving ?t (c\<lparr>cl_uid := i\<rparr>)" "\<forall>q d. q \<noteq> p \<longrightarrow> open_client s q d \<longrightarrow> serving ?t d" using ok(1) assms(2) by (auto simp: sv)
  show "\<forall>j q. j \<noteq> 0 \<longrightarrow> unix_packet_ptr ?t j = Some q \<longrightarrow>
      (if q = p then cl_uid (c\<lparr>cl_uid := i\<rparr>) = j else \<exists>d. open_client s q d \<and> cl_uid d = j)"
  proof (intro allI impI)
    fix j q
    assume j: "j \<noteq> 0" "unix_packet_ptr ?t j = Some q"
    show "if q = p then cl_uid (c\<lparr>cl_uid := i\<rparr>) = j else \<exists>d. open_client s q d \<and> cl_uid d = j"
    proof (cases "j = i")
      case False
      with j have "unix_packet_ptr s j = Some q" by simp
      then have d: "\<exists>d. open_client s q d \<and> cl_uid d = j" using ok(2) j(1) unfolding table_live_def by blast
      with assms(2,3) j(1) have "q \<noteq> p" by (auto simp: open_client_def)
      with d show ?thesis by simp
    qed (use j in simp)
  qed
qed (use assms(1) in \<open>simp_all add: clients_ok_def\<close>)

lemma assign_uid_ok:
  assumes "clients_ok s" "open_client s p c" "cl_uid c = 0"
  shows "\<exists>s' u. assign_uid p s = Some s' \<and> clients_ok s' \<and> socks_same s s' \<and> open_client s' p (c\<lparr>cl_uid := u\<rparr>) \<and> daemon s' = daemon s \<and>
    s' = (case free_uid s of None \<Rightarrow> s | Some i \<Rightarrow>
      put_client p (c\<lparr>cl_uid := i\<rparr>) (s\<lparr>unix_packet_ptr := (unix_packet_ptr s)(i := Some p)\<rparr>))"
proof (cases "free_uid s")
  case None
  have "c\<lparr>cl_uid := 0\<rparr> = c" using assms(3) by (cases c) simp
  with assms(2) have "open_client s p (c\<lparr>cl_uid := 0\<rparr>)" by simp
  with None assms(1) show ?thesis by (auto simp: assign_uid_def)
next
  case (Some i)
  have c: "clients s p = Some c" "cl_sock c \<noteq> -1" using assms(2) by (simp_all add: open_client_def)
  with Some clients_ok_uid [OF assms, of i] show ?thesis
    by (intro exI [of _ "put_client p (c\<lparr>cl_uid := i\<rparr>) (s\<lparr>unix_packet_ptr := (unix_packet_ptr s)(i := Some p)\<rparr>)"] exI [of _ i])
      (simp add: assign_uid_def socks_same_def open_client_def)
qed

lemma icmp_packet_at_whole: "int (length bs) = sizeof_icmp_packet \<Longrightarrow> icmp_packet_at le bs \<noteq> None"
  by (simp add: sizeof_icmp_packet_def eval_nat_numeral length_Suc_conv) auto

lemma client_packet_ok:
  assumes "clients_ok s" "open_client s p c"
  shows "\<exists>s'. client_packet buff p s = Some s' \<and> clients_ok s' \<and> socks_same s s'"
proof (cases "int (length buff) = sizeof_icmp_packet + 2")
  case True
  have c: "clients s p = Some c" using assms(2) by (simp add: open_client_def)
  obtain t u where t: "(if cl_uid c = 0 then assign_uid p s else Some s) = Some t" "clients_ok t" "socks_same s t"
      "open_client t p (c\<lparr>cl_uid := u\<rparr>)" "daemon t = daemon s"
  proof (cases "cl_uid c = 0")
    case True
    with assign_uid_ok [OF assms True] that show ?thesis by auto
  next
    case False
    have "c\<lparr>cl_uid := cl_uid c\<rparr> = c" by (cases c) simp
    with False assms that [of s "cl_uid c"] show ?thesis by simp
  qed
  have ok: "daemon_ok (daemon s)" using assms(1) by (simp add: clients_ok_def)
  have "icmp_packet_at (little_endian (daemon s)) (drop 2 buff) \<noteq> None" using True by (intro icmp_packet_at_whole) (simp add: sizeof_icmp_packet_def)
  then obtain q rest where q: "icmp_packet_at (little_endian (daemon s)) (drop 2 buff) = Some (q, rest)" by fast
  obtain b where b: "handle_packet (drop 2 buff) u (cl_sock c) (daemon s) = Some b" "daemon_ok b"
    using handle_packet_ok [OF _ q, of u "cl_sock c"] ok daemon_ok_same [OF ok] by (auto simp: daemon_ok_def)
  have "socks_same s (t\<lparr>daemon := b\<rparr>)" using t(3) by (simp add: socks_same_def)
  moreover have "clients t p = Some (c\<lparr>cl_uid := u\<rparr>)" using t(4) by (simp add: open_client_def)
  ultimately show ?thesis using True c t b by (simp add: client_packet_def)
qed (use assms in \<open>simp add: client_packet_def\<close>)

lemma client_debug_ok:
  assumes "clients_ok s" "open_client s p c"
  shows "\<exists>s'. client_debug buff p s = Some s' \<and> clients_ok s' \<and> socks_same s s' \<and>
    (let l = buff ! 2; new = (if cl_level c = l then 0 else l) in
     if length buff > 2 \<and> level_valid (debug s) l
     then clients s' = (clients s)(p \<mapsto> c\<lparr>cl_level := new\<rparr>) \<and> length (fd_list (debug s')) = length (fd_list (debug s)) \<and>
       (\<forall>i < length (fd_list (debug s)). set (fd_list (debug s') ! i) =
          (if uint new = int i + 49 then {cl_sock c} else {}) \<union> (set (fd_list (debug s) ! i) - {cl_sock c}))
     else s' = s)"
proof (cases "length buff > 2 \<and> level_valid (debug s) (buff ! 2)")
  case True
  define l where "l = buff ! 2"
  define new where "new = (if cl_level c = l then 0 else l)"
  have cl: "clients s p = Some c" "cl_sock c \<noteq> -1" using assms(2) by (simp_all add: open_client_def)
  have ok: "debug_ok (debug s)" "serving s c" "wait_sockets s \<subseteq> {0 ..< FD_SETSIZE}" "daemon_ok (daemon s)" "table_live s"
      "\<forall>i < length (fd_list (debug s)). set (fd_list (debug s) ! i) \<subseteq> insert 1 (wait_sockets s)"
    using assms by (simp_all add: clients_ok_def)
  have sock: "cl_sock c \<in> {0 ..< FD_SETSIZE}" "cl_sock c \<in> wait_sockets s" "cl_sock c \<noteq> unix_sock s" using ok(2,3) by (auto simp: serving_def)
  obtain d where d: "(if cl_level c \<noteq> 0 then debug_del (uint (cl_level c) - 49) (cl_sock c) (debug s) else Some (debug s)) = Some d"
      "debug_ok d" "debug_level_max d = debug_level_max (debug s)" "length (fd_list d) = length (fd_list (debug s))"
      "\<forall>i < length (fd_list d). set (fd_list d ! i) = set (fd_list (debug s) ! i) - {cl_sock c}"
    using unsubscribe [OF ok(1,2)] by blast
  have valid: "level_valid d l" "length buff > 2" using True d(3) by (simp_all add: level_valid_def l_def)
  obtain d' where d': "(if cl_level c \<noteq> l then debug_add (uint l - 49) (cl_sock c) d else Some d) = Some d'" "debug_ok d'"
      "debug_level_max d' = debug_level_max (debug s)" "length (fd_list d') = length (fd_list (debug s))"
      "\<forall>i < length (fd_list (debug s)). set (fd_list d' ! i) =
          (if uint new = int i + 49 then {cl_sock c} else {}) \<union> (set (fd_list (debug s) ! i) - {cl_sock c})"
  proof (cases "cl_level c = l")
    case True
    with that [of d] d show ?thesis by (simp add: new_def)
  next
    case False
    have "\<forall>i < length (fd_list d). cl_sock c \<notin> set (fd_list d ! i)" using d(5) by simp
    from subscribe [OF d(2) valid(1) sock(1) this] obtain d' where "debug_add (uint l - 49) (cl_sock c) d = Some d'" "debug_ok d'"
        "debug_level_max d' = debug_level_max d" "length (fd_list d') = length (fd_list d)"
        "\<forall>i < length (fd_list d). set (fd_list d' ! i) = (if uint l = int i + 49 then insert (cl_sock c) (set (fd_list d ! i)) else set (fd_list d ! i))"
      by blast
    with that [of d'] d False show ?thesis by (simp add: new_def)
  qed
  define c' where "c' = c\<lparr>cl_level := new\<rparr>"
  define t where "t = put_client p c' (s\<lparr>debug := d'\<rparr>)"
  have t: "clients t = (clients s)(p \<mapsto> c')" "debug t = d'" "wait_sockets t = wait_sockets s" "unix_sock t = unix_sock s"
      "unix_packet_ptr t = unix_packet_ptr s" "client_list t = client_list s" "cl_brk t = cl_brk s" "daemon t = daemon s" "max_sock t = max_sock s"
    and c': "cl_sock c' = cl_sock c" "cl_level c' = new" "cl_uid c' = cl_uid c" by (simp_all add: t_def c'_def)
  have "48 < l \<and> uint l \<le> uint (debug_level_max (debug s)) + 48" using valid(1) d(3) by (simp add: level_valid_def)
  then have cond: "2 < length buff \<and> buff ! 2 > 48 \<and> uint (buff ! 2) \<le> uint (debug_level_max (debug s)) + 48" using valid(2) by (simp add: l_def)
  have eq: "client_debug buff p s = Some t"
    using cl d(1) d'(1) unfolding client_debug_def if_P [OF cond]
    by (cases "cl_level c = l") (simp_all add: t_def c'_def new_def l_def [symmetric] cong: if_cong split del: if_split)
  have "serving t c'" using ok(2) sock d' valid(1) d(3) by (auto simp: serving_def t c' new_def level_valid_def)
  moreover have "serving t e" if "q \<noteq> p" "open_client s q e" for q e
  proof -
    have "cl_sock e \<noteq> cl_sock c" using assms that unfolding clients_ok_def by metis
    moreover have "serving s e" using assms(1) that(2) by (simp add: clients_ok_def)
    ultimately show ?thesis using d' by (auto simp: serving_def t level_valid_def)
  qed
  moreover have "if q = p then cl_uid c' = i else \<exists>e. open_client s q e \<and> cl_uid e = i" if "i \<noteq> 0" "unix_packet_ptr t i = Some q" for i q
  proof -
    have "\<exists>e. open_client s q e \<and> cl_uid e = i" using ok(5) that unfolding table_live_def t(5) by blast
    then show ?thesis using cl c'(3) by (auto simp: open_client_def)
  qed
  moreover have "set (fd_list (debug t) ! i) \<subseteq> insert 1 (wait_sockets s)" if "i < length (fd_list (debug t))" for i
    using that d'(4,5) ok(6) sock(2) by (auto simp: t split: if_splits)
  ultimately have "clients_ok t"
    by (intro clients_ok_replace [OF assms t(1) c'(1)]) (simp_all add: t d'(2) ok(4))
  moreover have "socks_same s t" using cl by (auto simp: socks_same_def t c')
  ultimately show ?thesis using eq True d' by (simp add: Let_def l_def [symmetric] new_def [symmetric] c'_def [symmetric] t)
next
  case False
  then show ?thesis using assms(1) by (auto simp: client_debug_def level_valid_def Let_def)
qed

lemma client_gone_ok:
  assumes "clients_ok s" "open_client s p c" "client_list s = as @ p # bs"
  shows "\<exists>s'. client_gone p s = Some s' \<and> clients_ok s' \<and> client_list s' = bs \<and> clients s' = (clients s)(p := None) \<and>
    max_sock s' = max_sock s \<and> unix_sock s' = unix_sock s \<and> wait_sockets s' = wait_sockets s - {cl_sock c} \<and>
    unix_packet_ptr s' = (if cl_uid c = 0 then unix_packet_ptr s else (unix_packet_ptr s)(cl_uid c := None)) \<and>
    (\<forall>i < length (fd_list (debug s)). set (fd_list (debug s') ! i) = set (fd_list (debug s) ! i) - {cl_sock c})"
proof -
  have cl: "clients s p = Some c" "cl_sock c \<noteq> -1" using assms(2) by (simp_all add: open_client_def)
  have ok: "debug_ok (debug s)" "serving s c" "table_live s" "distinct (as @ p # bs)"
      "\<forall>i < length (fd_list (debug s)). set (fd_list (debug s) ! i) \<subseteq> insert 1 (wait_sockets s)"
    using assms(1,2) by (simp_all add: clients_ok_def flip: assms(3))
  have inj: "q = r" if "open_client s q d" "open_client s r e" "cl_sock d = cl_sock e" for q r d e
    using assms(1) that unfolding clients_ok_def by metis
  obtain d where d: "(if cl_level c \<noteq> 0 then debug_del (uint (cl_level c) - 49) (cl_sock c) (debug s) else Some (debug s)) = Some d"
      "debug_ok d" "debug_level_max d = debug_level_max (debug s)" "length (fd_list d) = length (fd_list (debug s))"
      "\<forall>i < length (fd_list d). set (fd_list d ! i) = set (fd_list (debug s) ! i) - {cl_sock c}"
    using unsubscribe [OF ok(1,2)] by blast
  define ptr where "ptr = (if cl_uid c \<noteq> 0 then (unix_packet_ptr s)(cl_uid c := None) else unix_packet_ptr s)"
  define t where "t = s\<lparr>debug := d, unix_packet_ptr := ptr, wait_sockets := wait_sockets s - {cl_sock c}, client_list := bs,
    clients := (clients s)(p := None)\<rparr>"
  have "tl (dropWhile ((\<noteq>) p) (client_list s)) = bs" unfolding assms(3) using ok(4) by (subst dropWhile_append2) auto
  then have eq: "client_gone p s = Some t"
    using cl(1) d(1) by (simp add: client_gone_def t_def ptr_def cong: if_cong split del: if_split)
  have op: "open_client t q e \<longleftrightarrow> q \<noteq> p \<and> open_client s q e" for q e by (auto simp: open_client_def t_def)
  have "serving t e" if "open_client t q e" for q e
  proof -
    have q: "q \<noteq> p" "open_client s q e" using that by (simp_all add: op)
    then have "cl_sock e \<noteq> cl_sock c" using inj [OF q(2) assms(2)] by blast
    moreover have "serving s e" using assms(1) q(2) by (simp add: clients_ok_def)
    ultimately show ?thesis using d by (auto simp: serving_def t_def level_valid_def)
  qed
  moreover have "\<exists>e. open_client t q e \<and> cl_uid e = i" if i: "i \<noteq> 0" "unix_packet_ptr t i = Some q" for i q
  proof -
    have ne: "cl_uid c \<noteq> i" "unix_packet_ptr s i = Some q" using i by (auto simp: t_def ptr_def split: if_splits)
    then have "\<exists>e. open_client s q e \<and> cl_uid e = i" using ok(3) i(1) unfolding table_live_def by blast
    with ne(1) cl show ?thesis by (auto simp: op) (auto simp: open_client_def)
  qed
  then have "table_live t" by (auto simp: table_live_def)
  moreover have "\<exists>e. open_client t q e" if "q \<in> set bs" for q
  proof -
    have "q \<noteq> p" "\<exists>e. open_client s q e" using that ok(4) assms(1) by (auto simp: clients_ok_def assms(3))
    then show ?thesis by (simp add: op)
  qed
  moreover have "\<forall>i < length (fd_list d). set (fd_list d ! i) \<subseteq> insert 1 (wait_sockets s - {cl_sock c})" using d(4,5) ok(5) by auto
  moreover have "\<forall>q r e f. open_client t q e \<longrightarrow> open_client t r f \<longrightarrow> cl_sock e = cl_sock f \<longrightarrow> q = r"
    using inj unfolding op by blast
  moreover have "distinct bs" "\<forall>q. clients s q \<noteq> None \<longrightarrow> q < cl_brk s" "1 \<notin> wait_sockets s" "wait_sockets s \<subseteq> {0 ..< FD_SETSIZE}" "daemon_ok (daemon s)"
    using assms(1) ok(4) by (simp_all add: clients_ok_def)
  ultimately have "clients_ok t" unfolding clients_ok_def using d(2) by (auto simp: t_def)
  then show ?thesis using eq d(4,5) by (simp add: t_def ptr_def)
qed

section \<open>Rounds\<close>

lemma client_turn_ok:
  assumes "clients_ok s" "client_list s = as @ p # bs" "audible s as"
  shows "\<exists>s' as'. client_turn e ready p s = Some s' \<and> clients_ok s' \<and> client_list s' = as' @ bs \<and> audible s' as' \<and> unix_sock s' = unix_sock s"
proof -
  obtain c where c: "open_client s p c" using assms(1,2) by (auto simp: clients_ok_def)
  then have cl: "clients s p = Some c" by (simp add: open_client_def)
  define t where "t = s\<lparr>max_sock := (if cl_sock c > max_sock s then cl_sock c else max_sock s)\<rparr>"
  have t: "clients_ok t" "open_client t p c" "client_list t = as @ p # bs" "unix_sock t = unix_sock s"
    using assms c by (simp_all add: t_def open_client_def)
  have h: "audible t (as @ [p])" using assms(3) cl by (fastforce simp: audible_def t_def)
  show ?thesis
  proof (cases "cl_sock c \<in> ready \<and> (\<exists>b buff. ev_reads e (cl_sock c) = Some (b # buff))")
    case True
    then obtain b buff where r: "cl_sock c \<in> ready" "ev_reads e (cl_sock c) = Some (b # buff)" by blast
    have "\<exists>s'. client_data (b # buff) p t = Some s' \<and> clients_ok s' \<and> socks_same t s'"
      using client_packet_ok [OF t(1,2)] client_debug_ok [OF t(1,2), of "b # buff"] t(1) by (auto simp: client_data_def)
    then obtain s' where s': "client_data (b # buff) p t = Some s'" "clients_ok s'" "socks_same t s'" by blast
    have "audible s' (as @ [p])" by (rule socks_same_audible [OF s'(3) h])
    moreover have "client_list s' = (as @ [p]) @ bs" "unix_sock s' = unix_sock s" using s'(3) t(3,4) by (simp_all add: socks_same_def)
    moreover have "client_turn e ready p s = Some s'" using cl r s'(1) by (simp add: client_turn_def t_def Let_def)
    ultimately show ?thesis using s'(2) by blast
  next
    case False
    show ?thesis
    proof (cases "cl_sock c \<in> ready")
      case True
      obtain s' where s': "client_gone p s = Some s'" "clients_ok s'" "client_list s' = [] @ bs" "unix_sock s' = unix_sock s"
        using client_gone_ok [OF assms(1) c assms(2)] by auto
      moreover have "client_turn e ready p s = Some s'"
        using True False cl s'(1) by (auto simp: client_turn_def split: option.splits list.splits)
      moreover have "audible s' []" by (simp add: audible_def)
      ultimately show ?thesis by blast
    next
      case False
      then have "client_turn e ready p s = Some t" using cl by (simp add: client_turn_def t_def Let_def)
      with t h show ?thesis by (intro exI [of _ t] exI [of _ "as @ [p]"]) simp
    qed
  qed
qed

lemma client_turns_ok:
  "clients_ok s \<Longrightarrow> client_list s = as @ ps \<Longrightarrow> audible s as \<Longrightarrow>
   \<exists>s'. client_turns e ready ps s = Some s' \<and> clients_ok s' \<and> audible s' (client_list s') \<and> unix_sock s' = unix_sock s"
proof (induction ps arbitrary: s as)
  case (Cons p ps)
  obtain t as' where t: "client_turn e ready p s = Some t" "clients_ok t" "client_list t = as' @ ps" "audible t as'" "unix_sock t = unix_sock s"
    using client_turn_ok [OF Cons.prems] by blast
  from Cons.IH [OF t(2-4)] t(1,5) show ?case by auto
qed simp

text \<open>\<open>accept\<close> returns a descriptor that is not in use, and fits into an \<open>fd_set\<close>.\<close>

definition event_ok :: "unix_event \<Rightarrow> client_state \<Rightarrow> bool" where
  "event_ok e s \<longleftrightarrow> ev_accept e = -1 \<or> ev_accept e \<in> {0 ..< FD_SETSIZE} - insert 1 (insert (unix_sock s) (wait_sockets s))"

lemma unix_round_ok:
  assumes "clients_ok s" "audible s (client_list s)" "event_ok e s"
  shows "\<exists>go s'. unix_round e s = Some (go, s') \<and> clients_ok s' \<and> audible s' (client_list s')"
proof -
  let ?ready = "{k \<in> ev_ready e. k \<in> wait_sockets s \<and> k \<le> max_sock s}"
  obtain a where a: "accept_client (ev_accept e) s = Some a" "clients_ok a" "audible a (client_list a)"
    using accept_client_ok [OF assms(1,2)] assms(3) by (auto simp: event_ok_def)
  have "clients_ok (s\<lparr>max_sock := unix_sock s\<rparr>)" "client_list (s\<lparr>max_sock := unix_sock s\<rparr>) = [] @ client_list s" "audible (s\<lparr>max_sock := unix_sock s\<rparr>) []"
    using assms(1) by (simp_all add: audible_def)
  from client_turns_ok [OF this] obtain t where
    "client_turns e ?ready (client_list s) (s\<lparr>max_sock := unix_sock s\<rparr>) = Some t" "clients_ok t" "audible t (client_list t)" by blast
  with a assms(1,2) show ?thesis by (auto simp: unix_round_def Let_def)
qed

fun events_ok :: "unix_event list \<Rightarrow> client_state \<Rightarrow> bool" where
  "events_ok [] s \<longleftrightarrow> True"
| "events_ok (e # es) s \<longleftrightarrow> event_ok e s \<and> (case unix_round e s of Some (True, s) \<Rightarrow> events_ok es s | _ \<Rightarrow> True)"

lemma unix_loop_ok:
  "clients_ok s \<Longrightarrow> audible s (client_list s) \<Longrightarrow> events_ok es s \<Longrightarrow>
   \<exists>s'. unix_loop es s = Some s' \<and> clients_ok s' \<and> audible s' (client_list s')"
proof (induction es arbitrary: s)
  case (Cons e es)
  obtain go t where t: "unix_round e s = Some (go, t)" "clients_ok t" "audible t (client_list t)"
    using unix_round_ok [OF Cons.prems(1,2), of e] Cons.prems(3) by auto
  with Cons.IH [OF t(2,3)] Cons.prems(3) show ?case by (cases go) auto
qed simp

text \<open>The end of the thread.\<close>

lemma debug_del_head_defined:
  assumes "0 \<le> i" "i < uint (debug_level_max d)" "length (fd_list d) = unat (debug_level_max d)" "length (clients_num d) = unat (debug_level_max d)"
  shows "\<exists>d'. debug_del_head i fd d = Some d' \<and> debug_level_max d' = debug_level_max d \<and> length (fd_list d') = length (fd_list d) \<and>
    length (clients_num d') = length (clients_num d)"
proof -
  have "i < int (length (fd_list d))" "i < int (length (clients_num d))" using assms by simp_all
  with assms(1) show ?thesis by (simp add: debug_del_head_def)
qed

definition closing_ok :: "client_state \<Rightarrow> bool" where
  "closing_ok s \<longleftrightarrow> length (fd_list (debug s)) = unat (debug_level_max (debug s)) \<and> length (clients_num (debug s)) = unat (debug_level_max (debug s)) \<and>
     distinct (client_list s) \<and> (\<forall>p \<in> set (client_list s). \<exists>c. clients s p = Some c \<and> (cl_level c = 0 \<or> level_valid (debug s) (cl_level c)))"

lemma clients_close_ok:
  "closing_ok s \<Longrightarrow> client_list s = ps \<Longrightarrow>
   \<exists>s'. clients_close ps s = Some s' \<and> client_list s' = [] \<and> clients s' = (\<lambda>q. if q \<in> set ps then None else clients s q) \<and>
     unix_packet_ptr s' = unix_packet_ptr s \<and> daemon s' = daemon s"
proof (induction ps arbitrary: s)
  case (Cons p ps)
  obtain c where c: "clients s p = Some c" "cl_level c = 0 \<or> level_valid (debug s) (cl_level c)"
    using Cons.prems by (auto simp: closing_ok_def)
  obtain d where d: "(if cl_level c \<noteq> 0 then debug_del_head (uint (cl_level c) - 49) (cl_sock c) (debug s) else Some (debug s)) = Some d"
      "debug_level_max d = debug_level_max (debug s)" "length (fd_list d) = length (fd_list (debug s))"
      "length (clients_num d) = length (clients_num (debug s))"
  proof (cases "cl_level c = 0")
    case True
    with that show ?thesis by simp
  next
    case False
    then have "0 \<le> uint (cl_level c) - 49" "uint (cl_level c) - 49 < uint (debug_level_max (debug s))"
      using c(2) by (simp_all add: level_valid_def word_less_def)
    from debug_del_head_defined [OF this, of "cl_sock c"] Cons.prems(1) False that show ?thesis by (auto simp: closing_ok_def)
  qed
  define t where "t = s\<lparr>debug := d, client_list := ps, clients := (clients s)(p := None)\<rparr>"
  have "client_close p s = Some t" using c(1) d(1) Cons.prems(2) by (simp add: client_close_def t_def cong: if_cong split del: if_split)
  moreover have "closing_ok t" using Cons.prems d(2-4) by (auto simp: closing_ok_def t_def level_valid_def)
  from Cons.IH [OF this] have "\<exists>s'. clients_close ps t = Some s' \<and> client_list s' = [] \<and> clients s' = (\<lambda>q. if q \<in> set ps then None else clients t q) \<and>
      unix_packet_ptr s' = unix_packet_ptr t \<and> daemon s' = daemon t" by (simp add: t_def)
  ultimately show ?case by (auto simp: t_def fun_eq_iff)
qed auto

lemma clients_ok_closing: "clients_ok s \<Longrightarrow> closing_ok s"
proof -
  assume ok: "clients_ok s"
  then have "length (clients_num (debug s)) = length (fd_list (debug s))" by (auto simp: clients_ok_def debug_ok_def dest: list_all2_lengthD)
  moreover have "\<exists>c. clients s p = Some c \<and> (cl_level c = 0 \<or> level_valid (debug s) (cl_level c))" if "p \<in> set (client_list s)" for p
  proof -
    have "\<exists>c. open_client s p c" using ok that by (simp add: clients_ok_def)
    then obtain c where "open_client s p c" ..
    moreover from this have "serving s c" using ok by (simp add: clients_ok_def)
    ultimately show ?thesis by (auto simp: open_client_def serving_def)
  qed
  ultimately show ?thesis using ok by (simp add: closing_ok_def clients_ok_def debug_ok_def)
qed

section \<open>The start\<close>

text \<open>The state in which the thread is created: no clients, only the standard output may be subscribed.\<close>

definition clients_start :: "client_state \<Rightarrow> bool" where
  "clients_start s \<longleftrightarrow> debug_ok (debug s) \<and> (\<forall>i < length (fd_list (debug s)). set (fd_list (debug s) ! i) \<subseteq> {1}) \<and>
     clients s = Map.empty \<and> unix_packet_ptr s 255 = None \<and> unix_sock s \<in> {0 ..< FD_SETSIZE} - {1} \<and> daemon_ok (daemon s)"

lemma unix_start_ok:
  assumes "clients_start s"
  shows "clients_ok (unix_start s) \<and> audible (unix_start s) (client_list (unix_start s))"
proof -
  have "\<not> open_client (unix_start s) p c" for p c using assms by (simp add: open_client_def unix_start_def clients_start_def)
  moreover have "unix_packet_ptr (unix_start s) = (\<lambda>_. None)" using assms by (simp add: unix_start_def clients_start_def fun_eq_iff)
  ultimately have "table_live (unix_start s)" "clients_ok (unix_start s) = clients_ok (unix_start s)" by (simp_all add: table_live_def)
  moreover have "\<not> open_client (unix_start s) p c" for p c using assms by (simp add: open_client_def unix_start_def clients_start_def)
  ultimately show ?thesis using assms by (simp add: clients_ok_def) (fastforce simp: unix_start_def audible_def clients_start_def)
qed

lemma client_packet_first:
  assumes "clients_ok s" "open_client s p c" "cl_uid c = 0" "int (length buff) = sizeof_icmp_packet + 2" "free_uid s = Some i"
  shows "\<exists>s'. client_packet buff p s = Some s' \<and> clients_ok s' \<and> open_client s' p (c\<lparr>cl_uid := i\<rparr>) \<and> client_list s' = client_list s \<and>
    unix_packet_ptr s' = (unix_packet_ptr s)(i := Some p)"
proof -
  obtain t u where t: "assign_uid p s = Some t" "t = put_client p (c\<lparr>cl_uid := i\<rparr>) (s\<lparr>unix_packet_ptr := (unix_packet_ptr s)(i := Some p)\<rparr>)"
    using assign_uid_ok [OF assms(1-3)] assms(5) by auto
  obtain s' where s': "client_packet buff p s = Some s'" "clients_ok s'" using client_packet_ok [OF assms(1,2)] by blast
  have "cl_sock c \<noteq> -1" "clients s p = Some c" using assms(2) by (simp_all add: open_client_def)
  then have "\<exists>b. s' = t\<lparr>daemon := b\<rparr>" using s'(1) assms(3,4) t by (auto simp: client_packet_def bind_eq_Some_conv)
  with s' t(2) assms(2) show ?thesis by (auto simp: open_client_def)
qed

lemma free_uid_0: "unix_packet_ptr s 0 = None \<Longrightarrow> free_uid s = Some 0"
  by (simp add: free_uid_def upt_conv_Cons)

lemma free_uid_None: "free_uid s = Some i \<Longrightarrow> unix_packet_ptr s i = None"
  by (auto simp: free_uid_def find_Some_iff)

section \<open>Examples\<close>

definition example_clients :: "bat_state \<Rightarrow> client_state" where
  "example_clients b = \<lparr>daemon = b, debug = example_debug\<lparr>fd_list := [[], [], [], [1]], clients_num := [0, 0, 0, 1]\<rparr>, unix_sock = 3,
     clients = Map.empty, client_list = [], unix_packet_ptr = (\<lambda>_. None), wait_sockets = {}, max_sock = 0, cl_brk = 50\<rparr>"

lemma example_clients_start: "\<exists>b. clients_start (example_clients b)"
proof -
  obtain b where b: "daemon_ok b" using batman_init_ok [OF example_start_ok] by blast
  have "debug_ok (example_debug\<lparr>fd_list := [[], [], [], [1]], clients_num := [0, 0, 0, 1]\<rparr>)"
    by (simp add: debug_ok_def example_debug_def level_ok_def FD_SETSIZE_def)
  with b have "clients_start (example_clients b)"
    by (auto simp: clients_start_def example_clients_def FD_SETSIZE_def less_Suc_eq eval_nat_numeral)
  then show ?thesis ..
qed

text \<open>Two connections are accepted.\<close>

definition connect :: "int \<Rightarrow> unix_event" where
  "connect k = \<lparr>ev_res = 1, ev_eintr = False, ev_ready = {3}, ev_accept = k, ev_reads = (\<lambda>_. None)\<rparr>"

lemma example_connected:
  "\<exists>b s. clients_start (example_clients b) \<and> events_ok [connect 7, connect 8] (unix_start (example_clients b)) \<and>
     unix_loop [connect 7, connect 8] (unix_start (example_clients b)) = Some s \<and> clients_ok s \<and> client_list s = [50, 51] \<and>
     open_client s 50 \<lparr>cl_sock = 7, cl_level = 0, cl_uid = 0\<rparr> \<and> open_client s 51 \<lparr>cl_sock = 8, cl_level = 0, cl_uid = 0\<rparr> \<and>
     unix_packet_ptr s = (\<lambda>_. None) \<and> debug s = debug (example_clients b)"
proof -
  obtain b where b: "clients_start (example_clients b)" using example_clients_start ..
  let ?s = "unix_start (example_clients b)"
  have s: "?s = (example_clients b)\<lparr>wait_sockets := {3}, max_sock := 3\<rparr>"
    by (simp add: unix_start_def) (simp add: example_clients_def fun_eq_iff)
  define t where "t = (example_clients b)\<lparr>wait_sockets := {7, 3}, max_sock := 7, cl_brk := 51, client_list := [50],
    clients := [50 \<mapsto> \<lparr>cl_sock = 7, cl_level = 0, cl_uid = 0\<rparr>]\<rparr>"
  define u where "u = t\<lparr>wait_sockets := {8, 7, 3}, max_sock := 8, cl_brk := 52, client_list := [50, 51],
    clients := [50 \<mapsto> \<lparr>cl_sock = 7, cl_level = 0, cl_uid = 0\<rparr>, 51 \<mapsto> \<lparr>cl_sock = 8, cl_level = 0, cl_uid = 0\<rparr>]\<rparr>"
  have one: "sint (word_of_int 1 :: u8) = 1" by simp
  have r1: "unix_round (connect 7) ?s = Some (True, t)"
    unfolding s by (simp add: unix_round_def connect_def accept_client_def put_client_def t_def s example_clients_def FD_SETSIZE_def Let_def)
  have r2: "unix_round (connect 8) t = Some (True, u)"
    by (simp add: unix_round_def connect_def accept_client_def put_client_def t_def u_def s example_clients_def FD_SETSIZE_def Let_def)
  have ev: "events_ok [connect 7, connect 8] ?s"
    by (simp add: r1 r2) (simp add: event_ok_def connect_def t_def s, simp add: example_clients_def FD_SETSIZE_def)
  have loop: "unix_loop [connect 7, connect 8] ?s = Some u" by (simp add: r1 r2)
  with unix_loop_ok [OF _ _ ev] unix_start_ok [OF b] have "clients_ok u" by auto
  then show ?thesis using b ev loop
    by (intro exI [of _ b] exI [of _ u]) (simp add: u_def t_def s open_client_def example_clients_def)
qed

section \<open>Properties\<close>

text \<open>
  C6: the invariant of the thread that serves the clients. From its start, for every sequence of
  results of the system calls, no round runs into undefined behaviour, and after every prefix of
  rounds: every listed client is alive and its descriptor is within the range that \<open>select\<close> looks at;
  the entries of \<open>unix_packet\<close> but the first one point to the client with that number; a client is
  subscribed exactly to its level, and the numbers of the levels are right; the daemon keeps its
  invariant. When the thread ends, the listed clients are freed.
\<close>

theorem clients_invariant:
  assumes "clients_start s" "events_ok es (unix_start s)"
  shows "\<exists>t s'. unix_loop es (unix_start s) = Some t \<and> unix_listen es s = Some s' \<and>
    debug_ok (debug t) \<and> daemon_ok (daemon t) \<and>
    (\<forall>p \<in> set (client_list t). \<exists>c. clients t p = Some c \<and> cl_sock c \<in> wait_sockets t \<and> cl_sock c \<le> max_sock t \<and>
       (\<forall>i < length (fd_list (debug t)). cl_sock c \<in> set (fd_list (debug t) ! i) \<longleftrightarrow> uint (cl_level c) = int i + 49)) \<and>
    (\<forall>i p. i \<noteq> 0 \<longrightarrow> unix_packet_ptr t i = Some p \<longrightarrow> (\<exists>c. clients t p = Some c \<and> cl_uid c = i)) \<and>
    client_list s' = [] \<and> (\<forall>p \<in> set (client_list t). clients s' p = None)"
proof -
  obtain t where t: "unix_loop es (unix_start s) = Some t" "clients_ok t" "audible t (client_list t)"
    using unix_loop_ok [of "unix_start s" es] unix_start_ok [OF assms(1)] assms(2) by blast
  obtain s' where s': "clients_close (client_list t) t = Some s'" "client_list s' = []"
      "clients s' = (\<lambda>q. if q \<in> set (client_list t) then None else clients t q)"
    using clients_close_ok [OF clients_ok_closing [OF t(2)] refl] by blast
  have ok: "debug_ok (debug t)" "daemon_ok (daemon t)" "table_live t" using t(2) by (simp_all add: clients_ok_def)
  have "\<exists>c. clients t p = Some c \<and> cl_sock c \<in> wait_sockets t \<and> cl_sock c \<le> max_sock t \<and>
       (\<forall>i < length (fd_list (debug t)). cl_sock c \<in> set (fd_list (debug t) ! i) \<longleftrightarrow> uint (cl_level c) = int i + 49)"
    if p: "p \<in> set (client_list t)" for p
  proof -
    have "\<exists>c. open_client t p c" using p t(2) by (simp add: clients_ok_def)
    then obtain c where c: "open_client t p c" ..
    then have cl: "clients t p = Some c" by (simp add: open_client_def)
    have "serving t c" using c t(2) by (simp add: clients_ok_def)
    moreover have "cl_sock c \<le> max_sock t" using t(3) p cl by (simp add: audible_def)
    ultimately show ?thesis using cl by (auto simp: serving_def)
  qed
  moreover have "\<exists>c. clients t p = Some c \<and> cl_uid c = i" if "i \<noteq> 0" "unix_packet_ptr t i = Some p" for i p
    using ok(3) that unfolding table_live_def open_client_def by blast
  moreover have "unix_listen es s = Some s'" using t(1) s'(1) by (simp add: unix_listen_def)
  ultimately show ?thesis using t(1) s'(2,3) ok(1,2) by (intro exI [of _ t] exI [of _ s']) simp
qed

theorem clients_invariant_witness:
  "\<exists>b t s'. unix_loop [connect 7, connect 8] (unix_start (example_clients b)) = Some t \<and> client_list t = [50, 51] \<and>
     unix_listen [connect 7, connect 8] (example_clients b) = Some s' \<and> client_list s' = []"
proof -
  obtain b s where s: "clients_start (example_clients b)" "events_ok [connect 7, connect 8] (unix_start (example_clients b))"
      "unix_loop [connect 7, connect 8] (unix_start (example_clients b)) = Some s" "client_list s = [50, 51]"
    using example_connected by blast
  obtain s' where "unix_listen [connect 7, connect 8] (example_clients b) = Some s'" "client_list s' = []"
    using clients_invariant [OF s(1,2)] by blast
  with s(3,4) show ?thesis by blast
qed

text \<open>
  The first entry of \<open>unix_packet\<close> is left dangling. A client without a number that sends a packet
  while the first entry is free gets the number 0, which also stands for no number: with its next
  packet it takes a second entry, and when it is gone the first entry still points to its memory.
  \<open>receive_packet_batiface\<close> then writes to the descriptor that it reads from the freed memory when an
  answer with the number 0 arrives.
\<close>

theorem client_number_dangles:
  assumes "clients_ok s" "open_client s p c" "cl_uid c = 0" "client_list s = as @ p # bs" "unix_packet_ptr s 0 = None"
    and "int (length buff) = sizeof_icmp_packet + 2"
  shows "\<exists>s1 s2. client_packet buff p s = Some s1 \<and> client_gone p s1 = Some s2 \<and> unix_packet_ptr s2 0 = Some p \<and> clients s2 p = None \<and>
    (\<forall>k. free_uid s1 = Some k \<longrightarrow> k \<noteq> 0 \<and> (\<exists>s3 s4. client_packet buff p s1 = Some s3 \<and> unix_packet_ptr s3 0 = Some p \<and> unix_packet_ptr s3 k = Some p \<and>
       client_gone p s3 = Some s4 \<and> unix_packet_ptr s4 0 = Some p \<and> clients s4 p = None))"
proof -
  have c0: "c\<lparr>cl_uid := 0\<rparr> = c" using assms(3) by (cases c) simp
  obtain s1 where s1: "client_packet buff p s = Some s1" "clients_ok s1" "open_client s1 p c" "client_list s1 = as @ p # bs"
      "unix_packet_ptr s1 = (unix_packet_ptr s)(0 := Some p)"
    using client_packet_first [OF assms(1,2,3,6) free_uid_0 [OF assms(5)]] by (auto simp: c0 assms(4))
  obtain s2 where s2: "client_gone p s1 = Some s2" "clients s2 p = None" "unix_packet_ptr s2 = unix_packet_ptr s1"
    using client_gone_ok [OF s1(2-4)] assms(3) by auto
  have "k \<noteq> 0 \<and> (\<exists>s3 s4. client_packet buff p s1 = Some s3 \<and> unix_packet_ptr s3 0 = Some p \<and> unix_packet_ptr s3 k = Some p \<and>
       client_gone p s3 = Some s4 \<and> unix_packet_ptr s4 0 = Some p \<and> clients s4 p = None)" if k: "free_uid s1 = Some k" for k
  proof -
    have k0: "k \<noteq> 0" using free_uid_None [OF k] by (auto simp: s1(5))
    obtain s3 where s3: "client_packet buff p s1 = Some s3" "clients_ok s3" "open_client s3 p (c\<lparr>cl_uid := k\<rparr>)" "client_list s3 = as @ p # bs"
        "unix_packet_ptr s3 = (unix_packet_ptr s1)(k := Some p)"
      using client_packet_first [OF s1(2,3) assms(3,6) k] by (auto simp: s1(4))
    obtain s4 where "client_gone p s3 = Some s4" "clients s4 p = None" "unix_packet_ptr s4 = (unix_packet_ptr s3)(k := None)"
      using client_gone_ok [OF s3(2-4)] k0 by auto
    with s3 k0 show ?thesis by (auto simp: s1(5))
  qed
  with s1 s2 show ?thesis by auto
qed

theorem client_number_dangles_witness:
  "\<exists>s s1 s2. client_packet (replicate 21 112) 50 s = Some s1 \<and> client_gone 50 s1 = Some s2 \<and> unix_packet_ptr s2 0 = Some 50 \<and> clients s2 50 = None"
proof -
  obtain s where s: "clients_ok s" "client_list s = [] @ 50 # [51]" "open_client s 50 \<lparr>cl_sock = 7, cl_level = 0, cl_uid = 0\<rparr>" "unix_packet_ptr s 0 = None"
    using example_connected by (auto simp: fun_eq_iff)
  have "int (length (replicate 21 (112 :: u8))) = sizeof_icmp_packet + 2" by (simp add: sizeof_icmp_packet_def)
  from client_number_dangles [OF s(1,3) _ s(2,4) this] show ?thesis by auto
qed

text \<open>
  C18: what the end of a client does. It is freed, leaves the set and its debug level, and its number
  becomes free. But all the clients in front of it leave the list as well: they stay allocated and
  in the set with an open connection, and no later round serves them.
\<close>

theorem client_gone_spec:
  assumes "clients_ok s" "open_client s p c" "client_list s = as @ p # bs"
  shows "\<exists>s'. client_gone p s = Some s' \<and> clients s' = (clients s)(p := None) \<and> wait_sockets s' = wait_sockets s - {cl_sock c} \<and>
    (\<forall>i < length (fd_list (debug s)). set (fd_list (debug s') ! i) = set (fd_list (debug s) ! i) - {cl_sock c}) \<and>
    (cl_uid c \<noteq> 0 \<longrightarrow> unix_packet_ptr s' (cl_uid c) = None) \<and> client_list s' = bs \<and>
    (\<forall>a \<in> set as. \<exists>d. clients s' a = Some d \<and> cl_sock d \<in> wait_sockets s' \<and> a \<notin> set (client_list s'))"
proof -
  obtain s' where s': "client_gone p s = Some s'" "clients s' = (clients s)(p := None)" "wait_sockets s' = wait_sockets s - {cl_sock c}"
      "unix_packet_ptr s' = (if cl_uid c = 0 then unix_packet_ptr s else (unix_packet_ptr s)(cl_uid c := None))" "client_list s' = bs"
      "\<forall>i < length (fd_list (debug s)). set (fd_list (debug s') ! i) = set (fd_list (debug s) ! i) - {cl_sock c}"
    using client_gone_ok [OF assms] by blast
  have "\<exists>d. clients s' a = Some d \<and> cl_sock d \<in> wait_sockets s' \<and> a \<notin> set bs" if a: "a \<in> set as" for a
  proof -
    have dist: "distinct (as @ p # bs)" "\<exists>d. open_client s a d" using assms(1) a by (simp_all add: clients_ok_def assms(3))
    then obtain d where d: "open_client s a d" by blast
    have "a \<noteq> p" "a \<notin> set bs" using dist(1) a by auto
    moreover from this have "cl_sock d \<noteq> cl_sock c" using assms(1,2) d unfolding clients_ok_def by metis
    moreover have "serving s d" using assms(1) d by (simp add: clients_ok_def)
    ultimately show ?thesis using d by (auto simp: s'(2,3) open_client_def serving_def)
  qed
  with s' show ?thesis by auto
qed

theorem client_gone_spec_witness:
  "\<exists>s s'. client_list s = [50, 51] \<and> client_gone 51 s = Some s' \<and> client_list s' = [] \<and> clients s' 50 \<noteq> None"
proof -
  obtain s where s: "clients_ok s" "client_list s = [50] @ 51 # []" "open_client s 51 \<lparr>cl_sock = 8, cl_level = 0, cl_uid = 0\<rparr>"
    using example_connected by auto
  from client_gone_spec [OF s(1,3,2)] s(2) show ?thesis by auto
qed

text \<open>
  Subscribing to a debug level. A command with a valid level moves the client to that level, or
  takes it away from the level when it is the one it has; the subscriptions of the other descriptors
  stay. Other commands do nothing.
\<close>

theorem client_debug_spec:
  assumes "clients_ok s" "open_client s p c" "l = buff ! 2" "new = (if cl_level c = l then 0 else l)"
  shows "\<exists>s'. client_debug buff p s = Some s' \<and> debug_ok (debug s') \<and>
    (if length buff > 2 \<and> level_valid (debug s) l
     then clients s' = (clients s)(p \<mapsto> c\<lparr>cl_level := new\<rparr>) \<and>
       (\<forall>i < length (fd_list (debug s)). \<forall>fd. fd \<in> set (fd_list (debug s') ! i) \<longleftrightarrow>
          (if fd = cl_sock c then uint new = int i + 49 else fd \<in> set (fd_list (debug s) ! i)))
     else s' = s)"
proof -
  obtain s' where s': "client_debug buff p s = Some s'" "clients_ok s'"
      "if length buff > 2 \<and> level_valid (debug s) l
       then clients s' = (clients s)(p \<mapsto> c\<lparr>cl_level := new\<rparr>) \<and> length (fd_list (debug s')) = length (fd_list (debug s)) \<and>
         (\<forall>i < length (fd_list (debug s)). set (fd_list (debug s') ! i) =
            (if uint new = int i + 49 then {cl_sock c} else {}) \<union> (set (fd_list (debug s) ! i) - {cl_sock c}))
       else s' = s"
    using client_debug_ok [OF assms(1,2), of buff] by (auto simp: assms(3,4) Let_def)
  have "debug_ok (debug s')" using s'(2) by (simp add: clients_ok_def)
  with s'(1,3) show ?thesis by (auto split: if_splits)
qed

theorem client_debug_spec_witness:
  "\<exists>s s'. clients s 51 = Some \<lparr>cl_sock = 8, cl_level = 0, cl_uid = 0\<rparr> \<and> client_debug [100, 58, 52] 51 s = Some s' \<and>
     clients s' 51 = Some \<lparr>cl_sock = 8, cl_level = 52, cl_uid = 0\<rparr> \<and> 8 \<in> set (fd_list (debug s') ! 3)"
proof -
  let ?c = "\<lparr>cl_sock = 8, cl_level = 0, cl_uid = 0\<rparr>"
  obtain b s where s: "clients_ok s" "open_client s 51 ?c" "debug s = debug (example_clients b)"
    using example_connected by blast
  have d: "level_valid (debug s) 52" "length (fd_list (debug s)) = 4" by (simp_all add: s(3) level_valid_def example_clients_def example_debug_def)
  obtain s' where "client_debug [100, 58, 52] 51 s = Some s'" "clients s' = (clients s)(51 \<mapsto> ?c\<lparr>cl_level := 52\<rparr>)"
      "\<forall>i < length (fd_list (debug s)). \<forall>fd. fd \<in> set (fd_list (debug s') ! i) \<longleftrightarrow>
          (if fd = 8 then uint (52 :: u8) = int i + 49 else fd \<in> set (fd_list (debug s) ! i))"
    using client_debug_spec [OF s(1,2), of 52 "[100, 58, 52]" 52] d(1) by auto
  with d(2) s(2) show ?thesis by (intro exI [of _ s] exI [of _ s']) (simp add: open_client_def)
qed

end
