(* ===== verification/Start_Up.thy ===== *)
theory Start_Up
  imports Clients Allocate
begin

text \<open>
  The start of the program: \<open>apply_init_args\<close> and \<open>init_interface\<close> of \<open>src/posix-specific.c\<close>,
  \<open>rawsock_create\<close> and \<open>tap_create\<close> of \<open>src/linux.c\<close>. The command line is read with \<open>getopt\<close>, the
  options are checked, and the interfaces and the tap device are set up. Started as a client, the
  program connects to the daemon, asks for a debug level and shows what it gets.

  The functions of the C library are written out for what is used of them: \<open>getopt\<close> with the
  permutation of the arguments, \<open>strtol\<close> to the base 10, and \<open>inet_pton\<close> for IPv4. The results of
  the system calls are given by the environment. The result of a phase is the exit status of the
  program or the state with which it goes on.
\<close>

section \<open>The C library\<close>

text \<open>
  \<open>getopt\<close>: an element that starts with a minus sign holds options, of which the last one may take the
  rest of the element or the next element as its argument. The result are the options, the elements
  that were options, and the other arguments; afterwards the elements of \<open>argv\<close> stand in this order.
\<close>

definition flag_options :: "char set" where "flag_options = set ''bchHvV''"
definition arg_options :: "char set" where "arg_options = set ''dogprs''"

fun getopt_element :: "string \<Rightarrow> string list \<Rightarrow> (char \<times> string) list \<times> bool" where
  "getopt_element [] args = ([], False)"
| "getopt_element (c # cs) args =
     (if c \<in> arg_options then
        if cs \<noteq> [] then ([(c, cs)], False)
        else (case args of [] \<Rightarrow> ([(CHR ''?'', '''')], False) | a # _ \<Rightarrow> ([(c, a)], True))
      else let (opts, used) = getopt_element cs args in ((if c \<in> flag_options then c else CHR ''?'', '''') # opts, used))"

function getopt :: "string list \<Rightarrow> (char \<times> string) list \<times> string list \<times> string list" where
  "getopt [] = ([], [], [])"
| "getopt (a # args) =
     (if a = ''--'' then ([], [a], args)
      else if 2 \<le> length a \<and> hd a = CHR ''-'' then
        let (opts, used) = getopt_element (tl a) args;
            (opts', elems, rest) = getopt (if used then tl args else args)
        in (opts @ opts', a # (if used then take 1 args else []) @ elems, rest)
      else let (opts, elems, rest) = getopt args in (opts, elems, a # rest))"
  by pat_completeness auto
termination by (relation "measure length") (auto simp: le_diff_conv)

text \<open>\<open>strtol\<close> to the base 10 in a \<open>long\<close> of 32 bits: the value, and whether it was out of range.\<close>

definition digit :: "char \<Rightarrow> int" where "digit c = int (of_char c :: nat) - 48"

definition is_digit :: "char \<Rightarrow> bool" where "is_digit c \<longleftrightarrow> digit c \<in> {0 .. 9}"

definition decimal :: "string \<Rightarrow> int" where
  "decimal cs = foldl (\<lambda>n c. 10 * n + digit c) 0 (takeWhile is_digit cs)"

definition strtol :: "string \<Rightarrow> int \<times> bool" where
  "strtol cs =
     (let cs = dropWhile (\<lambda>c. c = CHR '' '' \<or> of_char c \<in> {9 :: nat .. 13}) cs;
          n = (case cs of c # ds \<Rightarrow> if c = CHR ''-'' then - decimal ds else if c = CHR ''+'' then decimal ds else decimal cs | [] \<Rightarrow> 0)
      in if n < - (2 ^ 31) then (- (2 ^ 31), True) else if 2 ^ 31 \<le> n then (2 ^ 31 - 1, True) else (n, False))"

text \<open>
  \<open>inet_pton\<close>: four numbers up to 255 without leading zeros, with dots between them. The state is the
  numbers so far, the last one first, and whether the last one has a digit.
\<close>

fun inet_digits :: "string \<Rightarrow> int list \<Rightarrow> bool \<Rightarrow> int list option" where
  "inet_digits [] ns saw = (if length ns = 4 then Some (rev ns) else None)"
| "inet_digits (c # cs) ns saw =
     (if is_digit c then
        if saw then
          (case ns of
             [] \<Rightarrow> None
           | n # ns \<Rightarrow> if n = 0 \<or> 10 * n + digit c > 255 then None else inet_digits cs ((10 * n + digit c) # ns) True)
        else if length ns = 4 then None else inet_digits cs (digit c # ns) True
      else if c = CHR ''.'' \<and> saw \<and> length ns < 4 then inet_digits cs ns False
      else None)"

text \<open>The address as the number that \<open>s_addr\<close> is on the host.\<close>

definition inet_pton :: "bool \<Rightarrow> string \<Rightarrow> u32 option" where
  "inet_pton le cs = map_option (\<lambda>ns. let bs = map word_of_int ns in u32_of (if le then bs else rev bs)) (inet_digits cs [] False)"

section \<open>Options\<close>

record options =
  batch_mode :: u8
  o_unix_client :: u8
  o_debug_level :: u8
  o_gateway_class :: u8
  o_originator_interval :: int
  o_pref_gateway :: u32
  o_routing_class :: u8
  o_vis_server :: u32
  found_args :: u8

definition default_options :: options where
  "default_options = \<lparr>batch_mode = 0, o_unix_client = 0, o_debug_level = 0, o_gateway_class = 0, o_originator_interval = 1000,
     o_pref_gateway = 0, o_routing_class = 0, o_vis_server = 0, found_args = 1\<rparr>"

text \<open>The exit status is \<open>EXIT_FAILURE\<close> or 0.\<close>

definition EXIT_FAILURE :: int where "EXIT_FAILURE = 1"

definition took_two :: "options \<Rightarrow> options" where
  "took_two opt = opt\<lparr>found_args := found_args opt + 2\<rparr>"

text \<open>
  One option. The result of \<open>strtol\<close> is stored in a variable of 8 or 16 bits before it is checked.
\<close>

definition apply_option :: "bool \<Rightarrow> u8 \<Rightarrow> char \<times> string \<Rightarrow> options \<Rightarrow> int + options" where
  "apply_option le level_max copt opt =
     (case copt of (c, optarg) \<Rightarrow>
        if c = CHR ''b'' then Inr (opt\<lparr>batch_mode := batch_mode opt + 1\<rparr>)
        else if c = CHR ''c'' then Inr (opt\<lparr>o_unix_client := o_unix_client opt + 1\<rparr>)
        else if c = CHR ''d'' then
          let (n, erange) = strtol optarg; opt = opt\<lparr>o_debug_level := word_of_int n\<rparr>
          in if erange \<or> o_debug_level opt > level_max then Inl EXIT_FAILURE else Inr (took_two opt)
        else if c = CHR ''g'' then
          let (n, erange) = strtol optarg; opt = opt\<lparr>o_gateway_class := word_of_int n\<rparr>
          in if erange \<or> o_gateway_class opt > 11 then Inl EXIT_FAILURE else Inr (took_two opt)
        else if c = CHR ''H'' then Inl 0
        else if c = CHR ''o'' then
          let opt = opt\<lparr>o_originator_interval := to_s16 (fst (strtol optarg))\<rparr>
          in if o_originator_interval opt < 1 then Inl EXIT_FAILURE else Inr (took_two opt)
        else if c = CHR ''p'' then
          (case inet_pton le optarg of
             None \<Rightarrow> Inl EXIT_FAILURE
           | Some a \<Rightarrow> Inr (took_two (opt\<lparr>o_pref_gateway := a\<rparr>)))
        else if c = CHR ''r'' then
          let opt = opt\<lparr>o_routing_class := word_of_int (fst (strtol optarg))\<rparr>
          in if o_routing_class opt > 3 then Inl EXIT_FAILURE else Inr (took_two opt)
        else if c = CHR ''s'' then
          (case inet_pton le optarg of
             None \<Rightarrow> Inl EXIT_FAILURE
           | Some a \<Rightarrow> Inr (took_two (opt\<lparr>o_vis_server := a\<rparr>)))
        else Inl 0)"

fun apply_options :: "bool \<Rightarrow> u8 \<Rightarrow> (char \<times> string) list \<Rightarrow> options \<Rightarrow> int + options" where
  "apply_options le level_max [] opt = Inr opt"
| "apply_options le level_max (c # cs) opt =
     (case apply_option le level_max c opt of
        Inl status \<Rightarrow> Inl status
      | Inr opt \<Rightarrow> apply_options le level_max cs opt)"

definition check_options :: "options \<Rightarrow> int + options" where
  "check_options opt =
     (if o_gateway_class opt \<noteq> 0 \<and> o_routing_class opt \<noteq> 0 then Inl EXIT_FAILURE
      else if o_gateway_class opt \<noteq> 0 \<and> o_pref_gateway opt \<noteq> 0 then Inl EXIT_FAILURE
      else if o_routing_class opt = 0 \<and> o_pref_gateway opt \<noteq> 0 then Inl EXIT_FAILURE
      else Inr opt)"

section \<open>Interfaces\<close>

text \<open>
  The results of the system calls for an interface: the socket for the requests, the hardware
  address, the raw socket with the requests that it needs, and the MTU.
\<close>

record iface_env =
  ie_tmp_socket :: int
  ie_hw_addr :: "mac option"
  ie_raw_socket :: int
  ie_index_ok :: bool
  ie_bind_ok :: bool
  ie_mtu :: "int option"

text \<open>The descriptor is returned in 8 bits.\<close>

definition rawsock_create :: "iface_env \<Rightarrow> int" where
  "rawsock_create e =
     (if ie_raw_socket e < 0 \<or> \<not> ie_index_ok e \<or> \<not> ie_bind_ok e then -1
      else sint (word_of_int (ie_raw_socket e) :: u8))"

definition IFNAMSIZ :: nat where "IFNAMSIZ = 16"

text \<open>\<^term>\<open>None\<close> is the exit with a failure. The MTU is returned in 16 bits.\<close>

definition init_interface :: "(string \<Rightarrow> iface_env) \<Rightarrow> string \<Rightarrow> (mac \<times> int \<times> int) option" where
  "init_interface env dev =
     (let e = env dev in
      if length dev > IFNAMSIZ - 1 \<or> ie_tmp_socket e < 0 then None
      else do {
        hw \<leftarrow> ie_hw_addr e;
        if rawsock_create e < 0 then None
        else do { mtu \<leftarrow> ie_mtu e; Some (hw, rawsock_create e, to_s16 mtu) }
      })"

record start_state =
  st_bat :: bat_state
  receive_max_sock :: int
  receive_wait_set :: "int set"

definition zero_packet :: batman_packet where
  "zero_packet = \<lparr>packet_type = 0, version = 0, flags = 0, ttl = 0, gwflags = 0, tq = 0, seqno = 0, orig = MAC 0 0 0 0 0 0,
     old_orig = MAC 0 0 0 0 0 0, num_hna = 0, pad = 0\<rparr>"

text \<open>The MTU of an interface is kept in an unsigned number of 16 bits.\<close>

definition setup_if :: "mac \<times> int \<times> int \<Rightarrow> start_state \<Rightarrow> start_state" where
  "setup_if res st =
     (case res of (hw, sock, mtu) \<Rightarrow>
        let s = st_bat st; p = brk s; tmp_mtu = uint (word_of_int mtu :: u16);
            batman_if = \<lparr>raw_sock = sock, if_num = uint (found_ifs s), hw_addr = hw, bcast_seqno = 0, out = zero_packet\<rparr>
        in st\<lparr>st_bat := s\<lparr>brk := Suc p, if_heap := (if_heap s)(p \<mapsto> batman_if), if_list := if_list s @ [p],
               tap_mtu := (if tmp_mtu < tap_mtu s then tmp_mtu else tap_mtu s), found_ifs := found_ifs s + 1\<rparr>,
             receive_max_sock := (if sock > receive_max_sock st then sock else receive_max_sock st),
             receive_wait_set := insert sock (receive_wait_set st)\<rparr>)"

text \<open>The index of the argument has 8 bits.\<close>

partial_function (option) setup_ifs :: "(string \<Rightarrow> iface_env) \<Rightarrow> string list \<Rightarrow> u8 \<Rightarrow> start_state \<Rightarrow> (int + start_state) option" where
  "setup_ifs env argv k st =
     (if uint k < int (length argv) then
        if init_interface env (argv ! unat k) = None then Some (Inl EXIT_FAILURE)
        else setup_ifs env argv (k + 1) (setup_if (the (init_interface env (argv ! unat k))) st)
      else Some (Inr st))"

section \<open>The tap device\<close>

datatype tap_call = TUNSETIFF | Tap_socket | SIOCGIFHWADDR | SIOCSIFHWADDR | SIOCGIFFLAGS | SIOCSIFFLAGS | SIOCSIFMTU

text \<open>
  What opening the device gives for the probe, its descriptor, the results of the calls on it, and
  what it was given: the address and the MTU.
\<close>

record tap_env =
  te_probe :: int
  te_fd :: int
  te_ok :: "tap_call \<Rightarrow> bool"

definition tap_probe :: "tap_env \<Rightarrow> bool" where
  "tap_probe e \<longleftrightarrow> 0 \<le> te_probe e"

definition tap_create :: "tap_env \<Rightarrow> int \<Rightarrow> int \<times> int option" where
  "tap_create e mtu =
     (if te_fd e < 0 \<or> \<not> te_ok e TUNSETIFF \<or> \<not> te_ok e Tap_socket \<or> \<not> te_ok e SIOCGIFHWADDR \<or> \<not> te_ok e SIOCSIFHWADDR \<or>
         \<not> te_ok e SIOCGIFFLAGS \<or> \<not> te_ok e SIOCSIFFLAGS then (-1, None)
      else if mtu < 100 then (te_fd e, None)
      else if \<not> te_ok e SIOCSIFMTU then (-1, None)
      else (te_fd e, Some (mtu - BATMAN_MAXFRAMESIZE)))"

section \<open>The client\<close>

text \<open>The message that asks for a debug level: a string in the first bytes of a buffer, of which 10 bytes are written.\<close>

fun decimal_bytes :: "nat \<Rightarrow> u8 list" where
  "decimal_bytes n = (if n < 10 then [word_of_nat (48 + n)] else decimal_bytes (n div 10) @ [word_of_nat (48 + n mod 10)])"

declare decimal_bytes.simps [simp del]

definition client_request :: "u8 \<Rightarrow> u8 list \<Rightarrow> u8 list" where
  "client_request level junk = take 10 ([100, 58] @ decimal_bytes (unat level) @ [0] @ junk)"

datatype shown_text = Show_line string | Show_rest string | Clear_it

text \<open>What is shown of one buffer; the boolean is the exit at the end of the data in batch mode.\<close>

function show_buffer :: "bool \<Rightarrow> string \<Rightarrow> shown_text list \<times> bool" where
  "show_buffer batch buff =
     (if CHR 0x0A \<in> set buff then
        let line = takeWhile (\<lambda>c. c \<noteq> CHR 0x0A) buff;
            rest = drop (Suc (length line)) buff
        in if take 3 line = ''EOD'' then if batch then ([], True) else show_buffer batch rest
           else let (txt, done) = show_buffer batch rest in
             if take 3 line = ''BOD'' then ((if batch then [] else [Clear_it]) @ txt, done)
             else (Show_line line # txt, done)
      else (if buff = [] then [] else [Show_rest buff], False))"
  by pat_completeness auto
termination by (relation "measure (\<lambda>(_, buff). length buff)") (auto dest!: length_pos_if_in_set intro!: diff_less)

declare show_buffer.simps [simp del]

definition c_string :: "string \<Rightarrow> string" where
  "c_string cs = takeWhile (\<lambda>c. c \<noteq> CHR 0x00) cs"

fun client_session :: "bool \<Rightarrow> string list \<Rightarrow> bool \<Rightarrow> shown_text list \<times> int" where
  "client_session batch [] failed = ([], if failed then EXIT_FAILURE else 0)"
| "client_session batch (b # bs) failed =
     (let (txt, done) = show_buffer batch (c_string b) in
      if done then (txt, 0) else let (txt', status) = client_session batch bs failed in (txt @ txt', status))"

section \<open>The start\<close>

text \<open>What \<open>main\<close> initialises.\<close>

definition main_init :: "bat_state \<Rightarrow> bat_state" where
  "main_init s = s\<lparr>forw_list := [], gw_list := [], if_list := [],
     unix_packet := (\<lambda>i. if i \<noteq> 255 then None else unix_packet s i)\<rparr>"

text \<open>
  \<open>my_daemon\<close>: the program goes on in the child of the second \<open>fork\<close>, and the parents exit; so does
  the first child when the second \<open>fork\<close> fails. The result is the exit status or the return value.
\<close>

datatype fork_result = Fork_failed | Fork_child | Fork_parent

definition my_daemon :: "fork_result \<Rightarrow> bool \<Rightarrow> fork_result \<Rightarrow> int + int" where
  "my_daemon fork1 setsid_ok fork2 =
     (case fork1 of
        Fork_failed \<Rightarrow> Inr (- 1)
      | Fork_parent \<Rightarrow> Inl 0
      | Fork_child \<Rightarrow> if \<not> setsid_ok then Inr (- 1) else if fork2 \<noteq> Fork_child then Inl 0 else Inr 0)"

record start_env =
  se_little_endian :: bool
  se_level_max :: u8
  se_iface :: "string \<Rightarrow> iface_env"
  se_tap :: tap_env
  se_fork :: fork_result
  se_setsid_ok :: bool
  se_fork2 :: fork_result
  se_vis_socket_ok :: bool
  se_bind_ok :: bool
  se_listen_ok :: bool
  se_connect_ok :: bool
  se_write_ok :: bool
  se_reads :: "string list"
  se_read_failed :: bool

datatype start_result = Exit int | Client "shown_text list" int | Daemon options start_state debug_state "int option"

definition start_client :: "start_env \<Rightarrow> options \<Rightarrow> start_result" where
  "start_client env opt =
     (if 0 < o_debug_level opt \<and> o_debug_level opt \<le> se_level_max env then
        if \<not> se_connect_ok env \<or> \<not> se_write_ok env then Exit EXIT_FAILURE
        else case client_session (batch_mode opt \<noteq> 0) (se_reads env) (se_read_failed env) of (txt, status) \<Rightarrow> Client txt status
      else Exit 0)"

text \<open>Without a debug level the daemon goes into the background: the exit status of a process that ends here.\<close>

definition background :: "start_env \<Rightarrow> options \<Rightarrow> int option" where
  "background env opt =
     (if o_debug_level opt = 0 then
        case my_daemon (se_fork env) (se_setsid_ok env) (se_fork2 env) of
          Inl status \<Rightarrow> Some status
        | Inr r \<Rightarrow> if r < 0 then Some EXIT_FAILURE else None
      else None)"

text \<open>The daemon: the debug levels, the interfaces, the tap device and the sockets.\<close>

definition start_daemon :: "start_env \<Rightarrow> options \<Rightarrow> string list \<Rightarrow> debug_state \<Rightarrow> bat_state \<Rightarrow> start_result option" where
  "start_daemon env opt argv d s =
     (if int (length argv) \<le> uint (found_args opt) then Some (Exit EXIT_FAILURE)
      else if background env opt \<noteq> None then Some (Exit (the (background env opt)))
      else do {
        d \<leftarrow> debug_foreground (debug_init (d\<lparr>debug_level := o_debug_level opt, debug_level_max := se_level_max env\<rparr>));
        r \<leftarrow> setup_ifs (se_iface env) argv (found_args opt)
          \<lparr>st_bat = s\<lparr>originator_interval := o_originator_interval opt, gateway_class := o_gateway_class opt, tap_mtu := 2000\<rparr>,
           receive_max_sock = 0, receive_wait_set = {}\<rparr>;
        (case r of
           Inl status \<Rightarrow> Some (Exit status)
         | Inr st \<Rightarrow>
             case tap_create (se_tap env) (to_s16 (tap_mtu (st_bat st))) of (fd, mtu) \<Rightarrow>
               if fd < 0 then Some (Exit EXIT_FAILURE)
               else if FD_SETSIZE \<le> fd then None
               else if o_vis_server opt \<noteq> 0 \<and> \<not> se_vis_socket_ok env then Some (Exit EXIT_FAILURE)
               else if \<not> se_bind_ok env \<or> \<not> se_listen_ok env then Some (Exit EXIT_FAILURE)
               else Some (Daemon opt (st\<lparr>receive_max_sock := (if fd > receive_max_sock st then fd else receive_max_sock st),
                 receive_wait_set := insert fd (receive_wait_set st)\<rparr>) d mtu))
      })"

definition apply_init_args :: "start_env \<Rightarrow> string list \<Rightarrow> debug_state \<Rightarrow> bat_state \<Rightarrow> start_result option" where
  "apply_init_args env argv d s =
     (case getopt (tl argv) of (opts, elems, rest) \<Rightarrow>
        case apply_options (se_little_endian env) (se_level_max env) opts default_options of
          Inl status \<Rightarrow> Some (Exit status)
        | Inr opt \<Rightarrow>
            case check_options opt of
              Inl status \<Rightarrow> Some (Exit status)
            | Inr opt \<Rightarrow>
                if \<not> tap_probe (se_tap env) then Some (Exit EXIT_FAILURE)
                else if o_unix_client opt = 0 then start_daemon env opt (hd argv # elems @ rest) d s
                else Some (start_client env opt))"

section \<open>Options\<close>

text \<open>The values that the checks let through.\<close>

definition options_ok :: "u8 \<Rightarrow> options \<Rightarrow> bool" where
  "options_ok level_max opt \<longleftrightarrow> o_debug_level opt \<le> level_max \<and> o_gateway_class opt \<le> 11 \<and> o_routing_class opt \<le> 3 \<and>
     1 \<le> o_originator_interval opt \<and> o_originator_interval opt < 32768"

definition args_taken :: "(char \<times> string) list \<Rightarrow> nat" where
  "args_taken opts = length (filter (\<lambda>(c, _). c \<in> arg_options) opts)"

lemma apply_option_ok:
  assumes "apply_option le level_max (c, a) opt = Inr opt'" "options_ok level_max opt"
  shows "options_ok level_max opt' \<and> found_args opt' = found_args opt + (if c \<in> arg_options then 2 else 0) \<and> c \<in> set ''bc'' \<union> arg_options"
proof -
  have lt: "to_s16 n < 32768" for n using to_s16_range [of n] by simp
  show ?thesis using assms lt
    by (auto simp: apply_option_def options_ok_def took_two_def arg_options_def Let_def not_less split: if_splits option.splits prod.splits)
qed

lemma apply_options_ok:
  "apply_options le level_max opts opt = Inr opt' \<Longrightarrow> options_ok level_max opt \<Longrightarrow>
   options_ok level_max opt' \<and> found_args opt' = found_args opt + 2 * word_of_nat (args_taken opts) \<and>
   fst ` set opts \<subseteq> set ''bc'' \<union> arg_options"
proof (induction opts arbitrary: opt)
  case (Cons x opts)
  obtain c a where x: "x = (c, a)" by fastforce
  obtain opt1 where o: "apply_option le level_max (c, a) opt = Inr opt1" "apply_options le level_max opts opt1 = Inr opt'"
    using Cons.prems(1) by (auto simp: x split: sum.splits)
  from apply_option_ok [OF o(1) Cons.prems(2)] Cons.IH [OF o(2)] show ?case by (auto simp: x args_taken_def algebra_simps)
qed (simp add: args_taken_def)

section \<open>Interfaces\<close>

definition new_if :: "mac \<times> int \<times> int \<Rightarrow> u8 \<Rightarrow> batman_if" where
  "new_if res n = \<lparr>raw_sock = fst (snd res), if_num = uint n, hw_addr = fst res, bcast_seqno = 0, out = zero_packet\<rparr>"

text \<open>The interfaces that a list of results adds.\<close>

definition add_ifs :: "(mac \<times> int \<times> int) list \<Rightarrow> bat_state \<Rightarrow> bat_state" where
  "add_ifs rs s = s\<lparr>brk := brk s + length rs,
     if_heap := (\<lambda>p. if brk s \<le> p \<and> p < brk s + length rs then Some (new_if (rs ! (p - brk s)) (found_ifs s + word_of_nat (p - brk s))) else if_heap s p),
     if_list := if_list s @ [brk s ..< brk s + length rs],
     tap_mtu := fold (\<lambda>(_, _, mtu) m. min m (uint (word_of_int mtu :: u16))) rs (tap_mtu s),
     found_ifs := found_ifs s + word_of_nat (length rs)\<rparr>"

lemma fold_setup_if: "st_bat (fold setup_if rs st) = add_ifs rs (st_bat st)"
proof (induction rs rule: rev_induct)
  case Nil
  have "(\<lambda>p. if b \<le> p \<and> p < b + 0 then x p else h p) = h" for b :: nat and x h :: "nat \<Rightarrow> batman_if option" by (rule ext) auto
  then show ?case by (simp add: add_ifs_def)
next
  case (snoc r rs)
  obtain hw sock mtu where r: "r = (hw, sock, mtu)" by (cases r)
  let ?s = "st_bat st"
  have heap: "(\<lambda>p. if a \<le> p \<and> p < a + length rs then Some (new_if (rs ! (p - a)) (k + word_of_nat (p - a))) else h p)(a + length rs \<mapsto> new_if r n)
      = (\<lambda>p. if a \<le> p \<and> p < Suc (a + length rs) then Some (new_if ((rs @ [r]) ! (p - a)) (k + word_of_nat (p - a))) else h p)"
    if "n = k + word_of_nat (length rs)" for a k n h
    by (rule ext) (auto simp: nth_append that)
  have small: "(if x < m then x else m) = min m x" for x m :: int by (simp add: min_def)
  define t where "t = fold setup_if rs st"
  have "st_bat (setup_if r t) = (st_bat t)\<lparr>brk := Suc (brk (st_bat t)),
      if_heap := (if_heap (st_bat t))(brk (st_bat t) \<mapsto> new_if r (found_ifs (st_bat t))), if_list := if_list (st_bat t) @ [brk (st_bat t)],
      tap_mtu := min (tap_mtu (st_bat t)) (uint (word_of_int mtu :: u16)), found_ifs := found_ifs (st_bat t) + 1\<rparr>"
    by (simp add: r setup_if_def new_if_def small Let_def)
  also have "st_bat t = add_ifs rs ?s" by (simp add: t_def snoc)
  finally have "st_bat (setup_if r t) = add_ifs (rs @ [r]) ?s"
    by (simp add: add_ifs_def heap r [symmetric]) (simp add: r algebra_simps)
  then show ?case by (simp add: t_def)
qed

lemma setup_ifs_eq:
  assumes "unat k + n = length argv" "length argv \<le> 255"
  shows "setup_ifs env argv k st =
    (if \<exists>dev \<in> set (drop (unat k) argv). init_interface env dev = None then Some (Inl EXIT_FAILURE)
     else Some (Inr (fold setup_if (map (\<lambda>dev. the (init_interface env dev)) (drop (unat k) argv)) st)))"
  using assms
proof (induction n arbitrary: k st)
  case 0
  then show ?case by (subst setup_ifs.simps) (simp add: uint_nat)
next
  case (Suc n)
  have k1: "unat k < length argv" "Suc (unat k) < 256" using Suc.prems by simp_all
  have "unat (k + 1) = (unat k + 1) mod 256" by (subst unat_word_ariths(1)) simp
  with k1 have k: "unat k < length argv" "unat (k + 1) = Suc (unat k)" by simp_all
  let ?r = "init_interface env (argv ! unat k)" and ?k = "drop (Suc (unat k)) argv"
  have lt: "uint k < int (length argv)" using k(1) by (metis of_nat_less_iff uint_nat)
  have d: "drop (unat k) argv = argv ! unat k # ?k" using k(1) by (rule Cons_nth_drop_Suc [symmetric])
  have "unat (k + 1) + n = length argv" using Suc.prems(1) k(2) by simp
  note IH = Suc.IH [OF this Suc.prems(2), of "setup_if (the ?r) st", unfolded k(2)]
  have step: "setup_ifs env argv k st = (if ?r = None then Some (Inl EXIT_FAILURE) else setup_ifs env argv (k + 1) (setup_if (the ?r) st))"
    by (subst setup_ifs.simps) (simp add: lt)
  show ?case
  proof (cases "?r = None")
    case True
    then have "\<exists>dev \<in> set (drop (unat k) argv). init_interface env dev = None" unfolding d by simp
    with True show ?thesis unfolding step by (simp only: if_True simp_thms)
  next
    case False
    then have e: "(\<exists>dev \<in> set (drop (unat k) argv). init_interface env dev = None) = (\<exists>dev \<in> set ?k. init_interface env dev = None)"
      unfolding d list.set bex_simps by blast
    have a: "setup_ifs env argv k st = (if \<exists>dev \<in> set ?k. init_interface env dev = None then Some (Inl EXIT_FAILURE)
        else Some (Inr (fold setup_if (map (\<lambda>dev. the (init_interface env dev)) ?k) (setup_if (the ?r) st))))"
      unfolding step IH using False by (rule if_not_P)
    have "fold setup_if (map (\<lambda>dev. the (init_interface env dev)) (drop (unat k) argv)) st =
        fold setup_if (map (\<lambda>dev. the (init_interface env dev)) ?k) (setup_if (the ?r) st)" unfolding d by simp
    then show ?thesis unfolding a e by (rule arg_cong [of _ _ "\<lambda>x. if _ then _ else Some (Inr x)", OF sym])
  qed
qed

lemma getopt_length: "getopt args = (opts, elems, rest) \<Longrightarrow> length elems + length rest = length args"
proof (induction args arbitrary: opts elems rest rule: getopt.induct)
  case (2 a args)
  obtain o1 used where e: "getopt_element (tl a) args = (o1, used)" by fastforce
  obtain o2 el re where g: "getopt args = (o2, el, re)" by (cases "getopt args") auto
  obtain o3 el' re' where g': "getopt (if used then tl args else args) = (o3, el', re')" by (cases "getopt (if used then tl args else args)") auto
  consider "a = ''--''" | "a \<noteq> ''--''" "2 \<le> length a \<and> hd a = CHR ''-''" | "a \<noteq> ''--''" "\<not> (2 \<le> length a \<and> hd a = CHR ''-'')" by blast
  then show ?case
  proof cases
    case 1
    with 2 show ?thesis by auto
  next
    case 2
    have "length el' + length re' = length (if used then tl args else args)" using "2.IH"(1) [OF 2(1) 2(2) e [symmetric] refl] g' by blast
    with 2 "2.prems" e g' show ?thesis by (cases used; cases args) auto
  next
    case 3
    have "length el + length re = length args" using "2.IH"(2) [OF 3] g by blast
    with 3 "2.prems" g show ?thesis by auto
  qed
qed simp

lemma debug_foreground_ok:
  assumes "level \<le> level_max"
  shows "\<exists>d'. debug_foreground (debug_init (d\<lparr>debug_level := level, debug_level_max := level_max\<rparr>)) = Some d' \<and> debug_ok d' \<and>
    debug_level_max d' = level_max \<and> (\<forall>i < length (fd_list d'). set (fd_list d' ! i) \<subseteq> {1})"
proof -
  let ?d = "debug_init (d\<lparr>debug_level := level, debug_level_max := level_max\<rparr>)"
  have d: "debug_ok ?d" "debug_level_max ?d = level_max" "debug_level ?d = level" "fd_list ?d = replicate (unat level_max) []"
    by (rule debug_init_ok) (simp_all add: debug_init_def)
  show ?thesis
  proof (cases "level = 0")
    case True
    with d show ?thesis by (simp add: debug_foreground_def)
  next
    case False
    then have "uint level \<noteq> 0" by (simp only: unsigned_eq_0_iff not_False_eq_True)
    moreover have "uint level \<le> uint level_max" using assms by (simp add: word_le_def)
    ultimately have i: "0 \<le> uint level - 1" "uint level - 1 < uint (debug_level_max ?d)"
      using uint_ge_0 [of level] unfolding d(2) by linarith+
    have k: "nat (uint level - 1) < unat level_max" using debug_ok_get [OF d(1) i] by (simp add: d(4))
    show ?thesis using debug_add_ok [OF d(1) i, of 1] False d k by (auto simp: debug_foreground_def FD_SETSIZE_def nth_list_update)
  qed
qed

section \<open>The whole start\<close>

text \<open>The state of the daemon when the interfaces are set up.\<close>

definition configured :: "options \<Rightarrow> bat_state \<Rightarrow> bat_state" where
  "configured opt s = s\<lparr>originator_interval := o_originator_interval opt, gateway_class := o_gateway_class opt, tap_mtu := 2000\<rparr>"

lemma start_daemon_ok:
  assumes "length argv \<le> 255" "te_fd (se_tap env) < FD_SETSIZE" "options_ok (se_level_max env) opt"
  shows "\<exists>res. start_daemon env opt argv d s = Some res \<and>
    (\<forall>opt' st d' mtu. res = Daemon opt' st d' mtu \<longrightarrow> opt' = opt \<and> debug_ok d' \<and> (\<forall>i < length (fd_list d'). set (fd_list d' ! i) \<subseteq> {1}) \<and>
       unat (found_args opt) < length argv \<and>
       (\<exists>rs. map (init_interface (se_iface env)) (drop (unat (found_args opt)) argv) = map Some rs \<and> st_bat st = add_ifs rs (configured opt s)))"
proof (cases "unat (found_args opt) < length argv \<and> background env opt = None")
  case False
  then have "int (length argv) \<le> uint (found_args opt) \<or> background env opt \<noteq> None"
    by (metis not_le_imp_less of_nat_less_iff uint_nat)
  then show ?thesis by (auto simp: start_daemon_def)
next
  case True
  then have n: "unat (found_args opt) < length argv" by simp
  have go: "\<not> int (length argv) \<le> uint (found_args opt)" using n by (metis not_le of_nat_less_iff uint_nat)
  have fork: "\<not> background env opt \<noteq> None" using True by simp
  let ?st = "\<lparr>st_bat = configured opt s, receive_max_sock = 0, receive_wait_set = {}\<rparr>"
  let ?devs = "drop (unat (found_args opt)) argv" and ?res = "init_interface (se_iface env)"
  have "o_debug_level opt \<le> se_level_max env" using assms(3) by (simp add: options_ok_def)
  from debug_foreground_ok [OF this] obtain d' where d': "debug_ok d'" "\<forall>i < length (fd_list d'). set (fd_list d' ! i) \<subseteq> {1}"
      "debug_foreground (debug_init (d\<lparr>debug_level := o_debug_level opt, debug_level_max := se_level_max env\<rparr>)) = Some d'" by blast
  have "unat (found_args opt) + (length argv - unat (found_args opt)) = length argv" using n by simp
  note ifs_eq = setup_ifs_eq [OF this assms(1), of "se_iface env" ?st]
  have eq: "start_daemon env opt argv d s =
      do { r \<leftarrow> setup_ifs (se_iface env) argv (found_args opt) ?st;
        (case r of
           Inl status \<Rightarrow> Some (Exit status)
         | Inr st \<Rightarrow>
             case tap_create (se_tap env) (to_s16 (tap_mtu (st_bat st))) of (fd, mtu) \<Rightarrow>
               if fd < 0 then Some (Exit EXIT_FAILURE)
               else if FD_SETSIZE \<le> fd then None
               else if o_vis_server opt \<noteq> 0 \<and> \<not> se_vis_socket_ok env then Some (Exit EXIT_FAILURE)
               else if \<not> se_bind_ok env \<or> \<not> se_listen_ok env then Some (Exit EXIT_FAILURE)
               else Some (Daemon opt (st\<lparr>receive_max_sock := (if fd > receive_max_sock st then fd else receive_max_sock st),
                 receive_wait_set := insert fd (receive_wait_set st)\<rparr>) d' mtu)) }"
    unfolding start_daemon_def if_not_P [OF go] if_not_P [OF fork] d'(3) configured_def by simp
  have fd: "fst (tap_create (se_tap env) m) < FD_SETSIZE" for m using assms(2) by (auto simp: tap_create_def FD_SETSIZE_def)
  show ?thesis
  proof (cases "\<exists>dev \<in> set ?devs. ?res dev = None")
    case True
    then show ?thesis unfolding eq ifs_eq by simp
  next
    case False
    define rs where "rs = map (\<lambda>dev. the (?res dev)) ?devs"
    define st where "st = fold setup_if rs ?st"
    have st: "st_bat st = add_ifs rs (configured opt s)" by (simp add: st_def fold_setup_if)
    obtain fd mtu where tap: "tap_create (se_tap env) (to_s16 (tap_mtu (st_bat st))) = (fd, mtu)" by fastforce
    with fd have "\<not> FD_SETSIZE \<le> fd" by (metis fst_conv not_le)
    moreover have "map ?res ?devs = map Some rs" using False by (auto simp: rs_def)
    moreover have "setup_ifs (se_iface env) argv (found_args opt) ?st = Some (Inr st)" unfolding ifs_eq using False by (simp add: st_def rs_def)
    ultimately show ?thesis unfolding eq using tap d'(1,2) n st by auto
  qed
qed

lemma apply_init_args_ok:
  assumes "argv \<noteq> []" "length argv \<le> 255" "te_fd (se_tap env) < FD_SETSIZE" "getopt (tl argv) = (opts, elems, rest)"
  shows "\<exists>res. apply_init_args env argv d s = Some res \<and>
    (\<forall>opt st d' mtu. res = Daemon opt st d' mtu \<longrightarrow> options_ok (se_level_max env) opt \<and>
       (o_gateway_class opt = 0 \<or> o_routing_class opt = 0 \<and> o_pref_gateway opt = 0) \<and> debug_ok d' \<and>
       found_args opt = word_of_nat (Suc (2 * args_taken opts)) \<and> unat (found_args opt) < length argv \<and>
       (\<exists>rs. map (init_interface (se_iface env)) (drop (unat (found_args opt)) (hd argv # elems @ rest)) = map Some rs \<and>
          st_bat st = add_ifs rs (configured opt s)))"
proof -
  let ?argv = "hd argv # elems @ rest" and ?le = "se_little_endian env" and ?max = "se_level_max env"
  have same: "length ?argv = length argv" using getopt_length [OF assms(4)] assms(1) by (cases argv) auto
  then have len: "length ?argv \<le> 255" using assms(2) by simp
  show ?thesis
  proof (cases "apply_options ?le ?max opts default_options")
    case (Inl status)
    then show ?thesis by (simp add: apply_init_args_def assms(4))
  next
    case (Inr opt)
    have "options_ok ?max default_options" by (simp add: options_ok_def default_options_def)
    from apply_options_ok [OF Inr this] have opt: "options_ok ?max opt" "found_args opt = word_of_nat (Suc (2 * args_taken opts))"
      by (simp_all add: default_options_def)
    show ?thesis
    proof (cases "check_options opt")
      case (Inl status)
      with Inr show ?thesis by (simp add: apply_init_args_def assms(4))
    next
      case check: (Inr opt')
      then have c: "opt' = opt" "o_gateway_class opt = 0 \<or> o_routing_class opt = 0 \<and> o_pref_gateway opt = 0"
        by (auto simp: check_options_def split: if_splits)
      have eq: "apply_init_args env argv d s =
          (if \<not> tap_probe (se_tap env) then Some (Exit EXIT_FAILURE) else if o_unix_client opt = 0 then start_daemon env opt ?argv d s
           else Some (start_client env opt))"
        using Inr check by (simp add: apply_init_args_def assms(4) c(1))
      have no_daemon: "start_client env opt \<noteq> Daemon o1 st d' mtu" for o1 st d' mtu by (simp add: start_client_def split: prod.split)
      from start_daemon_ok [OF len assms(3) opt(1), of d s] show ?thesis unfolding eq
        using opt c(2) no_daemon unfolding same by (auto simp del: of_nat_Suc)
    qed
  qed
qed

section \<open>Example\<close>

definition example_env :: start_env where
  "example_env = \<lparr>se_little_endian = True, se_level_max = 4,
     se_iface = (\<lambda>dev. \<lparr>ie_tmp_socket = 5, ie_hw_addr = Some (MAC 2 0 0 0 0 (of_char (last dev))), ie_raw_socket = 6, ie_index_ok = True,
       ie_bind_ok = True, ie_mtu = Some 1500\<rparr>),
     se_tap = \<lparr>te_probe = 9, te_fd = 9, te_ok = (\<lambda>_. True)\<rparr>, se_fork = Fork_child, se_setsid_ok = True,
     se_fork2 = Fork_child, se_vis_socket_ok = True, se_bind_ok = True,
     se_listen_ok = True, se_connect_ok = True, se_write_ok = True, se_reads = [], se_read_failed = False\<rparr>"

lemma example_getopt: "getopt [''-d3'', ''eth0'', ''eth1''] = ([(CHR ''d'', ''3'')], [''-d3''], [''eth0'', ''eth1''])"
  by (simp add: arg_options_def)

lemma example_run:
  "\<exists>opt st d' mtu. apply_init_args example_env [''batmand'', ''-d3'', ''eth0'', ''eth1''] example_debug s = Some (Daemon opt st d' mtu) \<and>
     o_originator_interval opt = 1000"
proof -
  let ?argv = "[''batmand'', ''-d3'', ''eth0'', ''eth1'']"
  have i: "init_interface (se_iface example_env) ''eth1'' = Some (MAC 2 0 0 0 0 0x31, 6, 1500)"
    by (simp add: init_interface_def example_env_def rawsock_create_def IFNAMSIZ_def Let_def)
  define opt where "opt = default_options\<lparr>o_debug_level := 3, found_args := 3\<rparr>"
  have o1: "apply_options True 4 [(CHR ''d'', ''3'')] default_options = Inr opt"
    by (simp add: apply_option_def strtol_def decimal_def is_digit_def digit_def took_two_def opt_def default_options_def)
  have o2: "check_options opt = Inr opt" by (simp add: check_options_def opt_def default_options_def)
  have "debug_foreground (debug_init (example_debug\<lparr>debug_level := 3, debug_level_max := 4\<rparr>)) \<noteq> None"
    by (simp add: debug_foreground_def debug_init_def debug_add_def array_get_def)
  then obtain d' where d': "debug_foreground (debug_init (example_debug\<lparr>debug_level := 3, debug_level_max := 4\<rparr>)) = Some d'" by blast
  have "setup_ifs (se_iface example_env) ?argv 3 st = Some (Inr (setup_if (MAC 2 0 0 0 0 0x31, 6, 1500) st))" for st
    using setup_ifs_eq [of 3 1 ?argv "se_iface example_env" st] i by simp
  then have "\<exists>st mtu. start_daemon example_env opt ?argv example_debug s = Some (Daemon opt st d' mtu)"
    using d' by (simp add: start_daemon_def background_def opt_def default_options_def) (simp add: example_env_def tap_create_def FD_SETSIZE_def)
  then obtain st mtu where r: "start_daemon example_env opt ?argv example_debug s = Some (Daemon opt st d' mtu)" by blast
  have env: "se_little_endian example_env = True" "se_level_max example_env = 4" "tap_probe (se_tap example_env)" "o_unix_client opt = 0"
      "o_originator_interval opt = 1000"
    by (simp_all add: example_env_def opt_def default_options_def tap_probe_def)
  have "apply_init_args example_env ?argv example_debug s = Some (Daemon opt st d' mtu)"
    using r by (simp add: apply_init_args_def example_getopt env o1 o2 del: getopt.simps apply_options.simps)
  with env show ?thesis by blast
qed

section \<open>Properties\<close>

text \<open>
  C15: the start of the program. It comes to a result, an exit or a running daemon, and a running
  daemon has options within their bounds. The interfaces are the arguments from the position on that
  was counted, two for every option with an argument and none for the others: these are the
  remaining arguments when every option with an argument has it in an element of its own and the
  options without argument are not used. An argument that is attached to its option makes the daemon
  skip an interface, and an option without argument makes it take the option for an interface.
\<close>

theorem startup_spec:
  assumes "argv \<noteq> []" "length argv \<le> 255" "te_fd (se_tap env) < FD_SETSIZE" "getopt (tl argv) = (opts, elems, rest)" "n = 2 * args_taken opts"
  shows "\<exists>res. apply_init_args env argv d s = Some res \<and>
    (\<forall>opt st d' mtu. res = Daemon opt st d' mtu \<longrightarrow> options_ok (se_level_max env) opt \<and>
       (o_gateway_class opt = 0 \<or> o_routing_class opt = 0 \<and> o_pref_gateway opt = 0) \<and> debug_ok d' \<and>
       (Suc n < 256 \<longrightarrow> drop n elems @ drop (n - length elems) rest \<noteq> [] \<and>
         (\<exists>rs. map (init_interface (se_iface env)) (drop n elems @ drop (n - length elems) rest) = map Some rs \<and>
            st_bat st = add_ifs rs (configured opt s))))"
proof -
  let ?argv = "hd argv # elems @ rest"
  have same: "length ?argv = length argv" using getopt_length [OF assms(4)] assms(1) by (cases argv) auto
  obtain res where res: "apply_init_args env argv d s = Some res"
    "\<forall>opt st d' mtu. res = Daemon opt st d' mtu \<longrightarrow> options_ok (se_level_max env) opt \<and>
       (o_gateway_class opt = 0 \<or> o_routing_class opt = 0 \<and> o_pref_gateway opt = 0) \<and> debug_ok d' \<and>
       found_args opt = word_of_nat (Suc n) \<and> unat (found_args opt) < length argv \<and>
       (\<exists>rs. map (init_interface (se_iface env)) (drop (unat (found_args opt)) ?argv) = map Some rs \<and> st_bat st = add_ifs rs (configured opt s))"
    using apply_init_args_ok [OF assms(1-4), of d s] unfolding assms(5) by blast
  have k: "unat (word_of_nat (Suc n) :: u8) = Suc n" if "Suc n < 256"
    using that by (simp only: unsigned_of_nat take_bit_nat_eq_self_iff) (simp add: take_bit_nat_eq_self)
  have drop: "drop (Suc n) ?argv = drop n elems @ drop (n - length elems) rest" by simp
  have "drop (Suc n) ?argv \<noteq> []" if "Suc n < length argv" using that unfolding same [symmetric] by (simp del: drop_append)
  with res k show ?thesis unfolding drop [symmetric] by (intro exI [of _ res]) (auto simp del: drop_Suc_Cons drop_append of_nat_Suc)
qed

text \<open>An attached argument: only the second interface is used.\<close>

theorem startup_spec_witness:
  "\<exists>opt st d' mtu. apply_init_args example_env [''batmand'', ''-d3'', ''eth0'', ''eth1''] example_debug example_state = Some (Daemon opt st d' mtu) \<and>
     st_bat st = add_ifs [(MAC 2 0 0 0 0 0x31, 6, 1500)] (configured opt example_state)"
proof -
  let ?argv = "[''batmand'', ''-d3'', ''eth0'', ''eth1'']"
  have g: "getopt (tl ?argv) = ([(CHR ''d'', ''3'')], [''-d3''], [''eth0'', ''eth1''])" using example_getopt by simp
  have n: "2 = 2 * args_taken [(CHR ''d'', ''3'')]" by (simp add: args_taken_def arg_options_def)
  have i: "init_interface (se_iface example_env) ''eth1'' = Some (MAC 2 0 0 0 0 0x31, 6, 1500)"
    by (simp add: init_interface_def example_env_def rawsock_create_def IFNAMSIZ_def Let_def)
  obtain opt st d' mtu where r: "apply_init_args example_env ?argv example_debug example_state = Some (Daemon opt st d' mtu)"
    using example_run by blast
  have "te_fd (se_tap example_env) < FD_SETSIZE" by (simp add: example_env_def FD_SETSIZE_def)
  with startup_spec [OF _ _ _ g n, of example_env example_debug example_state] r
  have "\<exists>rs. map (init_interface (se_iface example_env)) [''eth1''] = map Some rs \<and> st_bat st = add_ifs rs (configured opt example_state)"
    by (simp del: list.map)
  then have "st_bat st = add_ifs [(MAC 2 0 0 0 0 0x31, 6, 1500)] (configured opt example_state)" using i by (auto simp: Cons_eq_map_conv)
  with r show ?thesis by blast
qed

text \<open>
  C9: the start establishes what the main loop relies on. A daemon that was started with an interval
  above the jitter, on memory in which nothing is allocated, is in a start state: \<open>batman_init\<close> returns
  in a state that satisfies the invariant of the daemon, and from there it holds in every state that
  the daemon reaches.
\<close>

theorem startup_then_invariant:
  assumes "argv \<noteq> []" "length argv \<le> 255" "te_fd (se_tap env) < FD_SETSIZE" "getopt (tl argv) = (opts, elems, rest)"
    and "apply_init_args env argv d (main_init s) = Some (Daemon opt st d' mtu)" "JITTER < o_originator_interval opt"
    and "if_heap s = Map.empty" "found_ifs s = 0" "orig_heap s = Map.empty" "neigh_heap s = Map.empty" "elem_heap s = Map.empty"
      "buf_heap s = Map.empty" "g_num_hna s = 0"
    and "\<forall>k \<ge> ticks s. unat (clock s k) + nat (o_originator_interval opt + JITTER) < 2 ^ 32"
  shows "start_ok (st_bat st) \<and> (\<exists>now b. batman_init (st_bat st) = Some (now, b) \<and> daemon_ok b) \<and>
    (\<forall>b. reachable (st_bat st) b \<longrightarrow> daemon_ok b)"
proof -
  have same: "length (hd argv # elems @ rest) = length argv" using getopt_length [OF assms(4)] assms(1) by (cases argv) auto
  obtain rs where r: "unat (found_args opt) < length argv" "st_bat st = add_ifs rs (configured opt (main_init s))"
      "map (init_interface (se_iface env)) (drop (unat (found_args opt)) (hd argv # elems @ rest)) = map Some rs"
    using apply_init_args_ok [OF assms(1-4), of d "main_init s"] assms(5) by auto
  from arg_cong [OF r(3), of length] have "length rs = length argv - unat (found_args opt)" by (simp only: length_map length_drop same)
  with r(1,2) assms(2) have rs: "rs \<noteq> []" "length rs < 256" "st_bat st = add_ifs rs (configured opt (main_init s))" by auto
  let ?b = "st_bat st"
  have ifs: "ifs_ok ?b" using rs(1) by (auto simp: ifs_ok_def rs(3) add_ifs_def configured_def main_init_def)
  have "if_nums_ok ?b"
  proof -
    have "uint (word_of_nat j :: u8) < int (unat (word_of_nat (length rs) :: u8))" if "j < length rs" for j
      using that rs(2) by (simp add: unsigned_of_nat take_bit_nat_eq_self)
    moreover have "found_ifs ?b = word_of_nat (length rs)" by (simp add: rs(3) add_ifs_def configured_def main_init_def assms(8))
    moreover have "\<exists>j < length rs. if_num f = uint (word_of_nat j :: u8)" if "if_heap ?b i = Some f" for i f
    proof -
      have "i - brk s < length rs \<and> f = new_if (rs ! (i - brk s)) (word_of_nat (i - brk s))"
        using that by (auto simp: rs(3) add_ifs_def configured_def main_init_def assms(7,8) simp del: of_nat_diff split: if_splits)
      then show ?thesis by (intro exI [of _ "i - brk s"]) (simp add: new_if_def)
    qed
    ultimately show ?thesis unfolding if_nums_ok_def by (metis uint_ge_0)
  qed
  with ifs have start: "start_ok ?b" using assms(6,9-14)
    by (simp add: start_ok_def) (simp add: rs(3) add_ifs_def configured_def main_init_def)
  then show ?thesis using batman_init_ok [OF start] reachable_daemon_ok by blast
qed

theorem startup_then_invariant_witness:
  "\<exists>opt st d' mtu now b. apply_init_args example_env [''batmand'', ''-d3'', ''eth0'', ''eth1''] example_debug
       (main_init (example_state\<lparr>if_heap := Map.empty, found_ifs := 0\<rparr>)) = Some (Daemon opt st d' mtu) \<and>
     batman_init (st_bat st) = Some (now, b) \<and> daemon_ok b"
proof -
  let ?argv = "[''batmand'', ''-d3'', ''eth0'', ''eth1'']" and ?s = "example_state\<lparr>if_heap := Map.empty, found_ifs := 0\<rparr>"
  have g: "getopt (tl ?argv) = ([(CHR ''d'', ''3'')], [''-d3''], [''eth0'', ''eth1''])" using example_getopt by simp
  obtain opt st d' mtu where r: "apply_init_args example_env ?argv example_debug (main_init ?s) = Some (Daemon opt st d' mtu)"
      "o_originator_interval opt = 1000" using example_run by blast
  have "te_fd (se_tap example_env) < FD_SETSIZE" by (simp add: example_env_def FD_SETSIZE_def)
  moreover have "JITTER < o_originator_interval opt" "\<forall>k \<ge> ticks ?s. unat (clock ?s k) + nat (o_originator_interval opt + JITTER) < 2 ^ 32"
    by (simp_all add: r(2) JITTER_def) (simp add: example_state_def)
  moreover have "if_heap ?s = Map.empty" "found_ifs ?s = 0" "orig_heap ?s = Map.empty" "neigh_heap ?s = Map.empty" "elem_heap ?s = Map.empty"
      "buf_heap ?s = Map.empty" "g_num_hna ?s = 0" by (simp_all add: example_state_def)
  ultimately obtain now b where "batman_init (st_bat st) = Some (now, b)" "daemon_ok b"
    using startup_then_invariant [OF _ _ _ g r(1)] by auto
  with r(1) show ?thesis by blast
qed

text \<open>
  A client that is started for a debug level is subscribed to it: the daemon that reads its
  message changes a client without a level to this level, and its descriptor gets the output of
  that level.
\<close>

theorem client_request_subscribes:
  assumes "clients_ok s" "open_client s p c" "cl_level c = 0" "0 < level" "level \<le> debug_level_max (debug s)" "level < 10" "buff = client_request level junk"
  shows "\<exists>s'. client_data buff p s = Some s' \<and> clients s' p = Some (c\<lparr>cl_level := 48 + level\<rparr>) \<and>
    cl_sock c \<in> set (fd_list (debug s') ! (unat level - 1))"
proof -
  have lv: "unat level < 10" "0 < unat level" "unat level \<le> unat (debug_level_max (debug s))" using assms(4-6) by (simp_all add: word_less_nat_alt word_le_nat_alt)
  have dec: "decimal_bytes (unat level) = [48 + level]" using lv(1) by (subst decimal_bytes.simps) simp
  have buff: "buff ! 0 = 100" "buff ! 2 = 48 + level" "length buff > 2" by (simp_all add: assms(7) client_request_def dec)
  have un: "unat (48 + level) = 48 + unat level" by (subst unat_word_ariths(1)) (use lv in simp)
  have u: "uint (48 + level) = int (unat level) + 48" by (subst uint_nat) (simp add: un)
  have max: "int (unat level) \<le> uint (debug_level_max (debug s))" using assms(5) by (simp add: word_le_def)
  have "(48 :: u8) < 48 + level" using lv un by (simp add: word_less_nat_alt)
  with u max have valid: "level_valid (debug s) (48 + level)" by (simp add: level_valid_def)
  have "48 + level \<noteq> 0" using un by (metis add_is_0 unat_0 zero_neq_numeral)
  have ok: "debug_ok (debug s)" using assms(1) by (simp add: clients_ok_def)
  have len: "unat level - 1 < length (fd_list (debug s))" using ok lv by (simp add: debug_ok_def)
  obtain s' where s': "client_debug buff p s = Some s'" "clients s' = (clients s)(p \<mapsto> c\<lparr>cl_level := 48 + level\<rparr>)"
      "\<forall>i < length (fd_list (debug s)). set (fd_list (debug s') ! i) =
          (if uint (48 + level) = int i + 49 then {cl_sock c} else {}) \<union> (set (fd_list (debug s) ! i) - {cl_sock c})"
    using client_debug_ok [OF assms(1,2), of buff] buff(2,3) valid assms(3) \<open>48 + level \<noteq> 0\<close> by (auto simp: Let_def)
  have "uint (48 + level) = int (unat level - 1) + 49" using u lv by simp
  with s'(3) len have "cl_sock c \<in> set (fd_list (debug s') ! (unat level - 1))" by simp
  moreover have "client_data buff p s = Some s'" using s'(1) buff(1) by (simp add: client_data_def)
  ultimately show ?thesis using s'(2) by auto
qed

theorem client_request_subscribes_witness:
  "\<exists>s s'. clients s 51 = Some \<lparr>cl_sock = 8, cl_level = 0, cl_uid = 0\<rparr> \<and> client_data (client_request 2 (replicate 10 0)) 51 s = Some s' \<and>
     8 \<in> set (fd_list (debug s') ! 1)"
proof -
  let ?c = "\<lparr>cl_sock = 8, cl_level = 0, cl_uid = 0\<rparr>"
  obtain b s where s: "clients_ok s" "open_client s 51 ?c" "debug s = debug (example_clients b)"
    using example_connected by blast
  have "(2 :: u8) \<le> debug_level_max (debug s)" by (simp add: s(3) example_clients_def example_debug_def)
  from client_request_subscribes [OF s(1,2) _ _ this _ refl, of "replicate 10 0"] obtain s' where
    "client_data (client_request 2 (replicate 10 0)) 51 s = Some s'" "8 \<in> set (fd_list (debug s') ! 1)" by auto
  with s(2) show ?thesis by (auto simp: open_client_def)
qed

end
