(* ===== verification/Shutdown.thy ===== *)
theory Shutdown
  imports Main_Loop Start_Up Allocate
begin

text \<open>
  The end of the program: \<open>restore_defaults\<close>, \<open>restore_and_exit\<close>, \<open>segmentation_fault\<close> and \<open>cleanup\<close>
  of \<open>src/posix-specific.c\<close>, \<open>tap_destroy\<close> of \<open>src/linux.c\<close> and the end of \<open>main\<close> in
  \<open>src/posix.c\<close>.

  The calls of the operating system are recorded in \<open>calls\<close>, the latest first. Joining a thread that
  was joined before and reading a freed interface are \<^term>\<open>None\<close>, undefined behaviour. The descriptor
  0 and the identifier 0 of a thread stand for no descriptor and no thread, as in the code. The thread
  of a gateway (\<open>listen_thread_id\<close> of an interface) exists only in code that is commented out.
\<close>

section \<open>State\<close>

datatype exit_call = Close int | Tap_unpersist int | Join_listen | Join_gateway | Closelog | Default_sigsegv | Raise_sigsegv

datatype thread = No_thread | Running | Joined

record exit_state =
  ifs :: "nat \<rightharpoonup> batman_if"
  ifs_listed :: "nat list"
  tap_sock :: int
  unix_sock_of :: int
  listen_thread :: thread
  gateway_thread :: thread
  has_gateway :: bool
  routing :: u8
  level_of_debug :: u8
  is_client :: bool
  stopped :: bool
  calls :: "exit_call list"

definition call :: "exit_call \<Rightarrow> exit_state \<Rightarrow> exit_state" where
  "call c s = s\<lparr>calls := c # calls s\<rparr>"

section \<open>Operations\<close>

text \<open>An error of the \<open>ioctl\<close> is only reported.\<close>

definition tap_destroy :: "int \<Rightarrow> exit_state \<Rightarrow> exit_state" where
  "tap_destroy fd s = call (Close fd) (call (Tap_unpersist fd) s)"

definition join :: "exit_call \<Rightarrow> thread \<Rightarrow> exit_state \<Rightarrow> (thread \<times> exit_state) option" where
  "join c th s =
     (case th of No_thread \<Rightarrow> Some (No_thread, s) | Running \<Rightarrow> Some (Joined, call c s) | Joined \<Rightarrow> None)"

definition del_default_route :: "exit_state \<Rightarrow> exit_state option" where
  "del_default_route s = do {
     (th, s) \<leftarrow> join Join_gateway (gateway_thread s) (s\<lparr>has_gateway := False\<rparr>);
     Some (s\<lparr>gateway_thread := th\<rparr>)
   }"

text \<open>
  The interfaces. The head of the list is the predecessor that is passed to \<open>list_del\<close>, which is right
  here because the first entry is removed every time.
\<close>

fun restore_ifs :: "nat list \<Rightarrow> exit_state \<Rightarrow> exit_state option" where
  "restore_ifs [] s = Some s"
| "restore_ifs (i # js) s = do {
     batman_if \<leftarrow> ifs s i;
     let s = call (Close (raw_sock batman_if)) s;
     restore_ifs js (s\<lparr>ifs := (ifs s)(i := None), ifs_listed := tl (dropWhile ((\<noteq>) i) (ifs_listed s))\<rparr>)
   }"

definition restore_defaults :: "exit_state \<Rightarrow> exit_state option" where
  "restore_defaults s = do {
     s \<leftarrow> restore_ifs (ifs_listed s) s;
     s \<leftarrow> (if routing s \<noteq> 0 \<and> has_gateway s then del_default_route s else Some s);
     let s = (if tap_sock s \<noteq> 0 then tap_destroy (tap_sock s) s else s);
     let s = (if unix_sock_of s \<noteq> 0 then call (Close (unix_sock_of s)) s else s);
     (th, s) \<leftarrow> join Join_listen (listen_thread s) s;
     let s = s\<lparr>listen_thread := th\<rparr>;
     Some (if level_of_debug s = 0 then call Closelog s else s)
   }"

text \<open>The boolean says whether the function returns; otherwise the program exits with \<open>EXIT_FAILURE\<close>.\<close>

definition restore_and_exit :: "bool \<Rightarrow> exit_state \<Rightarrow> (bool \<times> exit_state) option" where
  "restore_and_exit is_sigsegv s = do {
     s \<leftarrow> (if \<not> is_client s then
             let s = s\<lparr>stopped := True\<rparr>;
                 s = (if tap_sock s \<noteq> 0 then (tap_destroy (tap_sock s) s)\<lparr>tap_sock := 0\<rparr> else s)
             in restore_defaults s
           else Some s);
     Some (is_sigsegv, s)
   }"

definition segmentation_fault :: "exit_state \<Rightarrow> exit_state option" where
  "segmentation_fault s = do {
     (returns, s) \<leftarrow> restore_and_exit True (call Default_sigsegv s);
     Some (if returns then call Raise_sigsegv s else s)
   }"

text \<open>
  The end of \<open>main\<close> after \<open>batman\<close> has returned \<open>res\<close>, given the debug levels when the thread of the
  clients has ended and the state of the allocator. \<open>cleanup\<close> frees the arrays of the debug levels,
  which \<open>checkLeak\<close> needs to report a leak.
\<close>

definition cleanup :: "debug_state \<Rightarrow> debug_state" where
  "cleanup d = d\<lparr>fd_list := [], clients_num := []\<rparr>"

fun report_leaks :: "int list \<Rightarrow> debug_state \<Rightarrow> debug_state option" where
  "report_leaks [] d = Some d"
| "report_leaks (tag # tags) d = do { d \<leftarrow> debug_output 0 ''Memory leak detected, malloc tag = %d'' d; report_leaks tags d }"

definition main_end :: "int \<Rightarrow> debug_state \<Rightarrow> alloc_state \<Rightarrow> exit_state \<Rightarrow> (int \<times> exit_state) option" where
  "main_end res d m s = do {
     s \<leftarrow> restore_defaults s;
     tags \<leftarrow> checkLeak m;
     d \<leftarrow> report_leaks tags (cleanup d);
     Some (res, s)
   }"

section \<open>What the operations do\<close>

definition exit_ok :: "exit_state \<Rightarrow> bool" where
  "exit_ok s \<longleftrightarrow> distinct (ifs_listed s) \<and> (\<forall>i \<in> set (ifs_listed s). ifs s i \<noteq> None) \<and> \<not> has_gateway s"

lemma restore_ifs_eq:
  assumes "ifs_listed s = js" "distinct js" "\<forall>i \<in> set js. ifs s i \<noteq> None"
  shows "restore_ifs js s = Some (s\<lparr>ifs := (ifs s) |` (- set js), ifs_listed := [],
    calls := rev (map (\<lambda>i. Close (raw_sock (the (ifs s i)))) js) @ calls s\<rparr>)"
  using assms
proof (induction js arbitrary: s)
  case (Cons i js)
  obtain b where b: "ifs s i = Some b" using Cons.prems(3) by auto
  define t where "t = (call (Close (raw_sock b)) s)\<lparr>ifs := (ifs s)(i := None), ifs_listed := js\<rparr>"
  have step: "restore_ifs (i # js) s = restore_ifs js t" using b Cons.prems(1) by (simp add: t_def call_def Let_def)
  have "restore_ifs js t = Some (t\<lparr>ifs := (ifs t) |` (- set js), ifs_listed := [],
      calls := rev (map (\<lambda>i. Close (raw_sock (the (ifs t i)))) js) @ calls t\<rparr>)"
    by (rule Cons.IH) (use Cons.prems in \<open>auto simp: t_def\<close>)
  moreover have "map (\<lambda>i. Close (raw_sock (the (ifs t i)))) js = map (\<lambda>i. Close (raw_sock (the (ifs s i)))) js"
    using Cons.prems(2) by (auto simp: t_def)
  moreover have "(ifs t) |` (- set js) = (ifs s) |` (- set (i # js))" by (auto simp: t_def restrict_map_def)
  ultimately show ?case using step b by (simp add: t_def call_def)
qed (simp add: restrict_map_def)

text \<open>The calls of \<open>restore_defaults\<close>, in their order.\<close>

definition restore_calls :: "exit_state \<Rightarrow> exit_call list" where
  "restore_calls s =
     map (\<lambda>i. Close (raw_sock (the (ifs s i)))) (ifs_listed s) @
     (if tap_sock s \<noteq> 0 then [Tap_unpersist (tap_sock s), Close (tap_sock s)] else []) @
     (if unix_sock_of s \<noteq> 0 then [Close (unix_sock_of s)] else []) @
     (if listen_thread s = Running then [Join_listen] else []) @
     (if level_of_debug s = 0 then [Closelog] else [])"

definition restored :: "exit_state \<Rightarrow> exit_state" where
  "restored s = s\<lparr>ifs := (ifs s) |` (- set (ifs_listed s)), ifs_listed := [],
     listen_thread := (if listen_thread s = Running then Joined else listen_thread s),
     calls := rev (restore_calls s) @ calls s\<rparr>"

lemma restore_defaults_eq:
  assumes "exit_ok s"
  shows "restore_defaults s = (if listen_thread s = Joined then None else Some (restored s))"
proof -
  note ok = assms [unfolded exit_ok_def]
  define t where "t = s\<lparr>ifs := (ifs s) |` (- set (ifs_listed s)), ifs_listed := [],
    calls := rev (map (\<lambda>i. Close (raw_sock (the (ifs s i)))) (ifs_listed s)) @ calls s\<rparr>"
  have t: "restore_ifs (ifs_listed s) s = Some t" unfolding t_def using ok by (intro restore_ifs_eq) auto
  have "restore_defaults s = (if listen_thread s = Joined then None else Some (t\<lparr>
      listen_thread := (if listen_thread s = Running then Joined else listen_thread s),
      calls := (if level_of_debug s = 0 then [Closelog] else []) @ (if listen_thread s = Running then [Join_listen] else []) @
        (if unix_sock_of s \<noteq> 0 then [Close (unix_sock_of s)] else []) @
        (if tap_sock s \<noteq> 0 then [Close (tap_sock s), Tap_unpersist (tap_sock s)] else []) @ calls t\<rparr>))"
    unfolding restore_defaults_def t using ok
    by (cases "listen_thread s") (simp_all add: t_def join_def tap_destroy_def call_def Let_def)
  then show ?thesis by (simp add: restored_def restore_calls_def t_def)
qed

text \<open>\<open>restore_and_exit\<close> removes the tap device first.\<close>

definition tap_first :: "exit_state \<Rightarrow> exit_state" where
  "tap_first s = s\<lparr>stopped := True, tap_sock := 0,
     calls := (if tap_sock s \<noteq> 0 then [Close (tap_sock s), Tap_unpersist (tap_sock s)] else []) @ calls s\<rparr>"

lemma restore_and_exit_eq:
  assumes "exit_ok s" "\<not> is_client s"
  shows "restore_and_exit sigsegv s = (if listen_thread s = Joined then None else Some (sigsegv, restored (tap_first s)))"
proof -
  have ok: "exit_ok (tap_first s)" "listen_thread (tap_first s) = listen_thread s" using assms(1) by (simp_all add: exit_ok_def tap_first_def)
  have "(if tap_sock u \<noteq> 0 then (tap_destroy (tap_sock u) u)\<lparr>tap_sock := 0\<rparr> else u) = tap_first s" if "u = s\<lparr>stopped := True\<rparr>" for u
    by (rule exit_state.equality) (simp_all add: that tap_first_def tap_destroy_def call_def)
  then have "restore_and_exit sigsegv s = do { s \<leftarrow> restore_defaults (tap_first s); Some (sigsegv, s) }"
    using assms(2) by (simp add: restore_and_exit_def Let_def)
  then show ?thesis unfolding restore_defaults_eq [OF ok(1)] ok(2) by simp
qed

lemma restored_ok: "exit_ok s \<Longrightarrow> exit_ok (restored s)"
  by (simp add: exit_ok_def restored_def)

lemma report_leaks_freed: "report_leaks tags (cleanup d) = (if tags = [] then Some (cleanup d) else None)"
proof (cases tags)
  case (Cons tag rest)
  have "debug_output 0 fmt (cleanup d) = None" for fmt
    by (subst debug_output.simps) (simp add: cleanup_def emit_def array_get_def)
  with Cons show ?thesis by simp
qed simp

section \<open>Property\<close>

text \<open>
  C39: the end of the program. After \<open>batman\<close> every interface is closed and freed, then the tap device
  is removed, the unix socket is closed and the thread of the clients is joined, each once; the value
  of \<open>batman\<close> is the exit status when the allocator has no block left, and otherwise the report of the
  leak reads the freed debug levels. An error exit in the middle of the daemon does the same, the tap
  device first; but an error exit behind \<open>restore_defaults\<close> joins the thread a second time.
\<close>

theorem program_end:
  assumes "exit_ok s" "\<not> is_client s" "listen_thread s = Running" "checkLeak m = Some tags"
  shows "main_end res d m s = (if tags = [] then Some (res, restored s) else None) \<and>
    ifs_listed (restored s) = [] \<and> calls (restored s) = rev (restore_calls s) @ calls s \<and>
    restore_and_exit sigsegv s = Some (sigsegv, restored (tap_first s)) \<and>
    calls (restored (tap_first s)) = rev ((if tap_sock s \<noteq> 0 then [Tap_unpersist (tap_sock s), Close (tap_sock s)] else []) @
      restore_calls (s\<lparr>tap_sock := 0\<rparr>)) @ calls s \<and>
    restore_and_exit sigsegv (restored s) = None"
proof -
  have "restore_defaults s = Some (restored s)" using restore_defaults_eq [OF assms(1)] assms(3) by simp
  then have "main_end res d m s = (if tags = [] then Some (res, restored s) else None)"
    using assms(4) report_leaks_freed by (simp add: main_end_def)
  moreover have "restore_and_exit sigsegv s = Some (sigsegv, restored (tap_first s))"
    using restore_and_exit_eq [OF assms(1,2)] assms(3) by simp
  moreover have "restore_and_exit sigsegv (restored s) = None"
    using restore_and_exit_eq [OF restored_ok [OF assms(1)]] assms(2,3) by (simp add: restored_def)
  moreover have "calls (restored (tap_first s)) = rev ((if tap_sock s \<noteq> 0 then [Tap_unpersist (tap_sock s), Close (tap_sock s)] else []) @
      restore_calls (s\<lparr>tap_sock := 0\<rparr>)) @ calls s" by (simp add: restored_def restore_calls_def tap_first_def)
  ultimately show ?thesis by (simp add: restored_def)
qed

definition example_exit :: exit_state where
  "example_exit = \<lparr>ifs = if_heap example_state, ifs_listed = [10, 11], tap_sock = 5, unix_sock_of = 6, listen_thread = Running,
     gateway_thread = No_thread, has_gateway = False, routing = 0, level_of_debug = 3, is_client = False, stopped = False, calls = []\<rparr>"

theorem program_end_witness:
  "\<exists>m s. checkLeak m = Some [] \<and> main_end (- 1) example_debug m example_exit = Some (- 1, s) \<and>
     calls s = [Join_listen, Close 6, Close 5, Tap_unpersist 5, Close 4, Close 3] \<and> restore_and_exit True s = None"
proof -
  define m where "m = \<lparr>a_little_endian = True, malloc_gives = (\<lambda>_. None), requests = 0, a_brk = 0, chunks = Map.empty, chunkList = None, memoryList = []\<rparr>"
  have m: "checkLeak m = Some []" by (simp add: checkLeak_def m_def leaked_tags.simps)
  have ok: "exit_ok example_exit" "\<not> is_client example_exit" "listen_thread example_exit = Running"
    by (simp_all add: exit_ok_def example_exit_def example_state_def)
  have "calls (restored example_exit) = [Join_listen, Close 6, Close 5, Tap_unpersist 5, Close 4, Close 3]"
    by (simp add: restored_def restore_calls_def) (simp add: example_exit_def example_state_def)
  with program_end [OF ok m, of "- 1" example_debug True] m show ?thesis by auto
qed

end
