(* ===== verification/Two_Threads.thy ===== *)
theory Two_Threads
  imports Clients Main_Loop
begin

text \<open>
  The two threads of the daemon together: the main loop of \<open>src/batman-adv.c\<close> and \<open>unix_listen\<close> of
  \<open>src/posix-specific.c\<close>. An action of the main loop and a round of \<open>unix_listen\<close> are atomic, and they
  happen in any order. The threads share the tables of the daemon, which \<open>handle_packet\<close> reads, the
  array \<open>unix_packet\<close>, through which \<open>receive_packet_batiface\<close> finds the client that an answer is for,
  and the debug levels.
\<close>

section \<open>The main loop among the clients\<close>

text \<open>The descriptor that \<open>unix_packet\<close> leads to, and an entry that points to freed memory.\<close>

definition unix_socks :: "client_state \<Rightarrow> u8 \<Rightarrow> int option" where
  "unix_socks s u = (case unix_packet_ptr s u of None \<Rightarrow> None | Some p \<Rightarrow> map_option cl_sock (clients s p))"

definition dangling :: "client_state \<Rightarrow> u8 \<Rightarrow> bool" where
  "dangling s u \<longleftrightarrow> (case unix_packet_ptr s u of None \<Rightarrow> False | Some p \<Rightarrow> clients s p = None)"

text \<open>What the main loop sees of the clients.\<close>

definition main_view :: "client_state \<Rightarrow> bat_state" where
  "main_view s = (daemon s)\<lparr>unix_packet := unix_socks s\<rparr>"

definition level_used :: "debug_state \<Rightarrow> int \<Rightarrow> bool" where
  "level_used d i \<longleftrightarrow> (case array_get (clients_num d) i of None \<Rightarrow> False | Some n \<Rightarrow> sint n > 0)"

definition main_action :: "debug_state \<Rightarrow> action \<Rightarrow> action" where
  "main_action d a = (case a of Debug_action e \<Rightarrow> Debug_action (e\<lparr>levels := level_used d\<rparr>) | _ \<Rightarrow> a)"

text \<open>The entry of \<open>unix_packet\<close> that an action dereferences: an ICMP packet for this node that is no request.\<close>

definition answered :: "action \<Rightarrow> bat_state \<Rightarrow> u8 option" where
  "answered a b =
     (case a of
        Raw_action i d h bytes \<Rightarrow>
          if is_broadcast_address d \<or> is_broadcast_address h then None
          else (case icmp_packet_at (little_endian b) bytes of
             None \<Rightarrow> None
           | Some (p, rest) \<Rightarrow>
               if icmp_packet_type p = BAT_ICMP \<and> is_my_mac (dst p) b = Some True \<and> msg_type p \<noteq> ECHO_REQUEST
               then Some (uid p) else None)
      | _ \<Rightarrow> None)"

text \<open>
  An action of the main loop. Writing to the descriptor of a freed client is undefined. The packets of
  the clients come from the other thread.
\<close>

definition of_main :: "action \<Rightarrow> bool" where
  "of_main a \<longleftrightarrow> (case a of Client_action buff u sock \<Rightarrow> False | _ \<Rightarrow> True)"

definition main_act :: "action \<Rightarrow> client_state \<Rightarrow> client_state option" where
  "main_act a s =
     (if (case answered a (main_view s) of None \<Rightarrow> False | Some u \<Rightarrow> dangling s u) then None
      else do { b \<leftarrow> act (main_action (debug s) a) (main_view s); Some (s\<lparr>daemon := b\<rparr>) })"

section \<open>Steps of the two threads\<close>

inductive threads :: "client_state \<Rightarrow> client_state \<Rightarrow> bool" where
  main_step: "of_main a \<Longrightarrow> enabled a (main_view s) \<Longrightarrow> goes_on a (main_view s) \<Longrightarrow> main_act a s = Some t \<Longrightarrow> threads s t"
| client_step: "event_ok e s \<Longrightarrow> unix_round e s = Some (True, t) \<Longrightarrow> threads s t"

inductive_cases threadsE: "threads s t"

lemma daemon_ok_unix: "daemon_ok b \<Longrightarrow> daemon_ok (b\<lparr>unix_packet := f\<rparr>)"
proof -
  assume ok: "daemon_ok b"
  then have "net_ok (b\<lparr>unix_packet := f\<rparr>)" using net_ok_fields [of "b\<lparr>unix_packet := f\<rparr>" b] by (simp add: daemon_ok_def bat_ok_def)
  with ok show ?thesis by (simp add: daemon_ok_def bat_ok_def queue_ok_def own_ifs_def)
qed

lemma enabled_main_action [simp]: "enabled (main_action d a) b = enabled a b" "goes_on (main_action d a) b = goes_on a b"
  by (cases a; simp add: main_action_def enabled_def goes_on_def)+

text \<open>The invariant of the clients holds, and the daemon is in a good state.\<close>

definition threads_ok :: "client_state \<Rightarrow> bool" where
  "threads_ok s \<longleftrightarrow> clients_ok s \<and> audible s (client_list s)"

lemma threads_ok_view: "threads_ok s \<Longrightarrow> daemon_ok (main_view s)"
  by (simp add: threads_ok_def clients_ok_def main_view_def daemon_ok_unix)

lemma main_act_ok:
  assumes "threads_ok s" "enabled a (main_view s)" "\<forall>u. answered a (main_view s) = Some u \<longrightarrow> \<not> dangling s u"
  shows "\<exists>b. main_act a s = Some (s\<lparr>daemon := b\<rparr>) \<and> act (main_action (debug s) a) (main_view s) = Some b \<and>
    (goes_on a (main_view s) \<longrightarrow> threads_ok (s\<lparr>daemon := b\<rparr>))"
proof -
  obtain b where b: "act (main_action (debug s) a) (main_view s) = Some b" "goes_on a (main_view s) \<longrightarrow> daemon_ok b"
    using act_ok [OF threads_ok_view [OF assms(1)], of "main_action (debug s) a"] assms(2) by auto
  have "audible (s\<lparr>daemon := b\<rparr>) ps = audible s ps" for ps by (simp add: audible_def)
  with b assms(1,3) show ?thesis by (auto simp: main_act_def threads_ok_def split: option.splits)
qed

lemma main_act_Some:
  assumes "main_act a s = Some t"
  shows "\<exists>b. t = s\<lparr>daemon := b\<rparr> \<and> act (main_action (debug s) a) (main_view s) = Some b"
  using assms by (auto simp: main_act_def bind_eq_Some_conv split: if_splits)

interpretation two_threads: invariant_system threads threads_ok
proof
  fix s t
  assume "threads s t" and ok: "threads_ok s"
  from \<open>threads s t\<close> show "threads_ok t"
  proof (cases rule: threads.cases)
    case (main_step a)
    then have "\<forall>u. answered a (main_view s) = Some u \<longrightarrow> \<not> dangling s u" by (auto simp: main_act_def split: if_splits)
    from main_act_ok [OF ok main_step(2) this] main_step(3,4) show ?thesis by auto
  next
    case (client_step e)
    with unix_round_ok [of s e] ok show ?thesis by (auto simp: threads_ok_def)
  qed
qed

section \<open>What the clients do to the daemon\<close>

lemma handle_packet_move: "handle_packet buff u sock b = Some b' \<Longrightarrow> moves b b'"
  by (rule move [of "Client_action buff u sock"]) (auto simp: enabled_def goes_on_def act_def handle_packet_def split: option.splits)

lemma assign_uid_daemon: "assign_uid p s = Some t \<Longrightarrow> daemon t = daemon s"
  by (auto simp: assign_uid_def bind_eq_Some_conv split: option.splits)

lemma client_data_moves: "client_data buff p s = Some t \<Longrightarrow> moves\<^sup>*\<^sup>* (daemon s) (daemon t)"
  by (auto simp: client_data_def client_packet_def client_debug_def bind_eq_Some_conv
      dest!: handle_packet_move assign_uid_daemon split: if_splits)

lemma client_turn_cases:
  assumes "client_turn e ready p s = Some t"
  obtains c m where "clients s p = Some c" "t = s\<lparr>max_sock := m\<rparr>" | buff m where "client_data buff p (s\<lparr>max_sock := m\<rparr>) = Some t"
  | "client_gone p s = Some t"
proof -
  obtain c where c: "clients s p = Some c" using assms by (cases "clients s p") (simp_all add: client_turn_def)
  define m where "m = (if cl_sock c > max_sock s then cl_sock c else max_sock s)"
  have t: "(if cl_sock c \<in> ready then (case ev_reads e (cl_sock c) of Some (b # buff) \<Rightarrow> client_data (b # buff) p (s\<lparr>max_sock := m\<rparr>) | _ \<Rightarrow> client_gone p s)
      else Some (s\<lparr>max_sock := m\<rparr>)) = Some t"
    using assms c by (simp only: client_turn_def bind.bind_lunit Let_def m_def)
  show thesis
  proof (cases "cl_sock c \<in> ready")
    case True
    with t that(2,3) show ?thesis by (simp split: option.split_asm list.split_asm)
  next
    case False
    with t have "t = s\<lparr>max_sock := m\<rparr>" by simp
    with c that(1) show ?thesis by blast
  qed
qed

lemma client_gone_daemon: "client_gone p s = Some t \<Longrightarrow> daemon t = daemon s"
  unfolding client_gone_def by (auto simp: bind_eq_Some_conv)

lemma client_turn_moves: "client_turn e ready p s = Some t \<Longrightarrow> moves\<^sup>*\<^sup>* (daemon s) (daemon t)"
  by (erule client_turn_cases) (auto dest: client_data_moves client_gone_daemon)

lemma client_turns_moves: "client_turns e ready ps s = Some t \<Longrightarrow> moves\<^sup>*\<^sup>* (daemon s) (daemon t)"
  by (induction ps arbitrary: s) (auto simp: bind_eq_Some_conv dest!: client_turn_moves intro: rtranclp_trans)

lemma unix_round_moves: "unix_round e s = Some (go, t) \<Longrightarrow> moves\<^sup>*\<^sup>* (daemon s) (daemon t)"
  by (auto simp: unix_round_def accept_client_def Let_def dest!: client_turns_moves split: if_splits)

lemma main_act_moves:
  "enabled a (main_view s) \<Longrightarrow> goes_on a (main_view s) \<Longrightarrow> main_act a s = Some t \<Longrightarrow> moves (main_view s) (daemon t)"
  using main_act_Some [of a s t] move [of "main_action (debug s) a"] by auto

section \<open>The numbers of the clients\<close>

text \<open>A client with a number other than 0 has the entry with this number.\<close>

definition owned :: "client_state \<Rightarrow> bool" where
  "owned s \<longleftrightarrow> (\<forall>p c. clients s p = Some c \<longrightarrow> cl_uid c \<noteq> 0 \<longrightarrow> unix_packet_ptr s (cl_uid c) = Some p)"

text \<open>As long as a client lives it keeps its descriptor, its number once it has one, and its entries.\<close>

definition same_client :: "unix_client option \<Rightarrow> unix_client option \<Rightarrow> bool" where
  "same_client x y \<longleftrightarrow> (\<forall>c'. y = Some c' \<longrightarrow> (\<exists>c. x = Some c \<and> cl_sock c' = cl_sock c \<and> (cl_uid c \<noteq> 0 \<longrightarrow> cl_uid c' = cl_uid c)))"

definition kept :: "client_state \<Rightarrow> client_state \<Rightarrow> bool" where
  "kept s t \<longleftrightarrow> cl_brk s \<le> cl_brk t \<and> (\<forall>p < cl_brk s. same_client (clients s p) (clients t p)) \<and>
     (owned s \<longrightarrow> owned t \<and> (\<forall>u. \<forall>p < cl_brk s. unix_packet_ptr s u = Some p \<longrightarrow> clients t p \<noteq> None \<longrightarrow> unix_packet_ptr t u = Some p))"

lemma same_client_trans: "same_client x y \<Longrightarrow> same_client y z \<Longrightarrow> same_client x z"
  by (fastforce simp: same_client_def)

lemma kept_refl [simp]: "kept s s"
  by (auto simp: kept_def same_client_def)

lemma kept_trans [trans]: "kept s t \<Longrightarrow> kept t u \<Longrightarrow> kept s u"
proof -
  assume st: "kept s t" and tu: "kept t u"
  have brk: "cl_brk s \<le> cl_brk t" using st by (simp add: kept_def)
  have same: "same_client (clients s p) (clients t p)" "same_client (clients t p) (clients u p)" if "p < cl_brk s" for p
    using st tu brk that by (simp_all add: kept_def)
  then have "same_client (clients s p) (clients u p)" "clients u p \<noteq> None \<longrightarrow> clients t p \<noteq> None" if "p < cl_brk s" for p
    using same_client_trans [OF same [OF that]] same(2) [OF that] by (auto simp: same_client_def)
  with brk st tu show "kept s u" unfolding kept_def by (meson order_trans order_less_le_trans)
qed

text \<open>A change that does not concern the clients.\<close>

lemma kept_same:
  "clients t = clients s \<Longrightarrow> unix_packet_ptr t = unix_packet_ptr s \<Longrightarrow> cl_brk t = cl_brk s \<Longrightarrow> kept s t"
  by (auto simp: kept_def owned_def same_client_def)

lemma kept_accept: "accept_client sock s = Some t \<Longrightarrow> kept s t"
  by (auto simp: accept_client_def kept_def owned_def same_client_def Let_def split: if_splits)

text \<open>An entry changes only when it is free or belongs to the client that changes.\<close>

lemma kept_client:
  assumes "clients s p = Some c" "clients t = (clients s)(p := x)" "cl_brk t = cl_brk s" "same_client (Some c) x"
    and "unix_packet_ptr t = (unix_packet_ptr s)(i := y)" "unix_packet_ptr s i = None \<or> y = unix_packet_ptr s i"
    and "\<forall>c'. x = Some c' \<longrightarrow> cl_uid c' \<noteq> 0 \<longrightarrow> unix_packet_ptr s (cl_uid c) = Some p \<or> cl_uid c = 0 \<longrightarrow> unix_packet_ptr t (cl_uid c') = Some p"
  shows "kept s t"
proof -
  have "unix_packet_ptr t (cl_uid d) = Some q" if "owned s" "clients t q = Some d" "cl_uid d \<noteq> 0" for q d
  proof (cases "q = p")
    case True
    with that assms(1,2,7) show ?thesis by (auto simp: owned_def)
  next
    case False
    with that assms(2) have "unix_packet_ptr s (cl_uid d) = Some q" by (auto simp: owned_def)
    with False assms(5,6) show ?thesis by (cases "cl_uid d = i") auto
  qed
  then have "owned s \<longrightarrow> owned t" by (simp add: owned_def)
  moreover have "same_client z z" for z by (auto simp: same_client_def)
  moreover have "unix_packet_ptr t u = Some q" if "unix_packet_ptr s u = Some q" for u q using that assms(5,6) by auto
  ultimately show ?thesis using assms(1-4) by (simp add: kept_def)
qed

lemma kept_assign:
  assumes "clients s p = Some c" "cl_uid c = 0" "assign_uid p s = Some t"
  shows "kept s t"
proof (cases "free_uid s")
  case (Some i)
  then have "t = put_client p (c\<lparr>cl_uid := i\<rparr>) (s\<lparr>unix_packet_ptr := (unix_packet_ptr s)(i := Some p)\<rparr>)" using assms by (simp add: assign_uid_def)
  with free_uid_None [OF Some] assms(2) show ?thesis
    by (intro kept_client [OF assms(1), where x = "Some (c\<lparr>cl_uid := i\<rparr>)" and i = i and y = "Some p"]) (simp_all add: same_client_def)
qed (use assms in \<open>simp add: assign_uid_def\<close>)

lemma kept_packet:
  assumes "client_packet buff p s = Some t"
  shows "kept s t"
proof (cases "int (length buff) = sizeof_icmp_packet + 2")
  case True
  obtain c where c: "clients s p = Some c" using assms True by (cases "clients s p") (simp_all add: client_packet_def)
  obtain u where u: "(if cl_uid c = 0 then assign_uid p s else Some s) = Some u"
    using assms True c by (cases "if cl_uid c = 0 then assign_uid p s else Some s") (simp_all add: client_packet_def cong: if_cong split del: if_split)
  from assms have "t = u \<or> (\<exists>b. t = u\<lparr>daemon := b\<rparr>)"
    unfolding client_packet_def if_P [OF True] c bind.bind_lunit u by (auto simp: bind_eq_Some_conv split: if_split_asm)
  note u = c u this
  have "kept s u" using u(1,2) kept_assign by (cases "cl_uid c = 0") auto
  moreover have "kept u t" using u(3) by (auto intro: kept_same)
  ultimately show ?thesis by (rule kept_trans)
qed (use assms in \<open>simp add: client_packet_def\<close>)

lemma kept_debug:
  assumes "client_debug buff p s = Some t"
  shows "kept s t"
proof (cases "length buff > 2 \<and> buff ! 2 > 48 \<and> uint (buff ! 2) \<le> uint (debug_level_max (debug s)) + 48")
  case True
  note r = assms [unfolded client_debug_def if_P [OF True]]
  obtain c where c: "clients s p = Some c" using r by (cases "clients s p") simp_all
  have "\<exists>l d. t = put_client p (c\<lparr>cl_level := l\<rparr>) (s\<lparr>debug := d\<rparr>)"
    using r unfolding c bind.bind_lunit by (cases "cl_level c \<noteq> buff ! 2") (auto simp: bind_eq_Some_conv simp del: not_None_eq)
  then obtain l d where t: "t = put_client p (c\<lparr>cl_level := l\<rparr>) (s\<lparr>debug := d\<rparr>)" by blast
  show ?thesis unfolding t
    by (rule kept_client [OF c, of _ "Some (c\<lparr>cl_level := l\<rparr>)" "cl_uid c" "unix_packet_ptr s (cl_uid c)"]) (simp_all add: same_client_def)
next
  case False
  from assms [unfolded client_debug_def if_not_P [OF False]] show ?thesis by simp
qed

lemma kept_gone:
  assumes "client_gone p s = Some t"
  shows "kept s t"
proof -
  obtain c where c: "clients s p = Some c" using assms by (cases "clients s p") (simp_all add: client_gone_def)
  then have t: "clients t = (clients s)(p := None)" "cl_brk t = cl_brk s"
      "unix_packet_ptr t = (if cl_uid c = 0 then unix_packet_ptr s else (unix_packet_ptr s)(cl_uid c := None))"
    using assms by (auto simp: client_gone_def bind_eq_Some_conv split: if_split_asm)
  have "owned t" if ow: "owned s"
  proof -
    have "unix_packet_ptr t (cl_uid d) = Some q" if d: "clients t q = Some d" "cl_uid d \<noteq> 0" for q d
    proof -
      have q: "q \<noteq> p" "clients s q = Some d" using d(1) t(1) by (auto split: if_split_asm)
      then have "unix_packet_ptr s (cl_uid d) = Some q" using ow d(2) by (simp add: owned_def)
      moreover have "cl_uid c = 0 \<or> unix_packet_ptr s (cl_uid c) = Some p" using ow c by (auto simp: owned_def)
      ultimately show ?thesis using q(1) by (auto simp: t(3))
    qed
    then show ?thesis by (simp add: owned_def)
  qed
  moreover have "unix_packet_ptr t u = Some q" if "owned s" "unix_packet_ptr s u = Some q" "clients t q \<noteq> None" for u q
  proof -
    have "cl_uid c = 0 \<or> unix_packet_ptr s (cl_uid c) = Some p" using that(1) c by (auto simp: owned_def)
    with that(2,3) t(1) show ?thesis by (auto simp: t(3) split: if_split_asm)
  qed
  ultimately show ?thesis using t(1,2) by (auto simp: kept_def same_client_def)
qed

lemma kept_turn: "client_turn e ready p s = Some t \<Longrightarrow> kept s t"
proof (erule client_turn_cases)
  fix buff m
  assume "client_data buff p (s\<lparr>max_sock := m\<rparr>) = Some t"
  then have "kept (s\<lparr>max_sock := m\<rparr>) t" by (auto simp: client_data_def dest: kept_packet kept_debug split: if_split_asm)
  moreover have "kept s (s\<lparr>max_sock := m\<rparr>)" by (simp add: kept_same)
  ultimately show "kept s t" by (rule kept_trans [rotated])
qed (auto intro: kept_same kept_gone)

lemma kept_turns: "client_turns e ready ps s = Some t \<Longrightarrow> kept s t"
  by (induction ps arbitrary: s) (auto simp: bind_eq_Some_conv dest!: kept_turn intro: kept_trans)

lemma kept_round: "unix_round e s = Some (go, t) \<Longrightarrow> kept s t"
proof -
  assume r: "unix_round e s = Some (go, t)"
  have "kept s (s\<lparr>max_sock := unix_sock s\<rparr>)" by (simp add: kept_same)
  with r show ?thesis by (auto simp: unix_round_def Let_def dest: kept_accept kept_turns intro: kept_trans split: if_split_asm)
qed

lemma kept_threads: "threads\<^sup>*\<^sup>* s t \<Longrightarrow> kept s t"
proof (induction rule: rtranclp_induct)
  case (step t u)
  from step.hyps(2) have "kept t u"
    by (cases rule: threads.cases) (auto dest!: main_act_Some kept_round intro: kept_same)
  with step.IH show ?case by (rule kept_trans)
qed simp

section \<open>Reachable states\<close>

lemma reachable_threads_ok:
  assumes "clients_start s0" "threads\<^sup>*\<^sup>* (unix_start s0) s"
  shows "threads_ok s" "owned s"
proof -
  have "threads_ok (unix_start s0)" using unix_start_ok [OF assms(1)] by (simp add: threads_ok_def)
  with two_threads.star_inv [OF assms(2)] show "threads_ok s" .
  have "owned (unix_start s0)" using assms(1) by (simp add: owned_def unix_start_def clients_start_def)
  with kept_threads [OF assms(2)] show "owned s" by (simp add: kept_def)
qed

text \<open>A client with a number is being served.\<close>

lemma numbered_client:
  assumes "threads_ok s" "owned s" "clients s p = Some c" "cl_uid c \<noteq> 0"
  shows "unix_packet_ptr s (cl_uid c) = Some p" "cl_sock c \<in> wait_sockets s"
proof -
  show ptr: "unix_packet_ptr s (cl_uid c) = Some p" using assms(2-4) by (simp add: owned_def)
  have "table_live s" "\<forall>p c. open_client s p c \<longrightarrow> serving s c" using assms(1) by (simp_all add: threads_ok_def clients_ok_def)
  with ptr assms(3,4) show "cl_sock c \<in> wait_sockets s" by (fastforce simp: table_live_def open_client_def serving_def)
qed

lemma dangling_first: "threads_ok s \<Longrightarrow> dangling s u \<Longrightarrow> u = 0"
  by (auto simp: dangling_def threads_ok_def clients_ok_def table_live_def open_client_def split: option.splits)

text \<open>An answer to a client.\<close>

lemma answer_delivered:
  assumes "threads_ok s" "unix_packet_ptr s (uid q) = Some p" "clients s p = Some c"
    and "icmp_packet_type q = BAT_ICMP" "msg_type q \<noteq> ECHO_REQUEST" "my_mac (daemon s) (dst q)"
    and "\<not> is_broadcast_address d" "\<not> is_broadcast_address h" "bytes = bytes_of_icmp_packet (little_endian (daemon s)) q @ rest"
  shows "main_act (Raw_action i d h bytes) s =
    Some (s\<lparr>daemon := (main_view s)\<lparr>unix_written := (cl_sock c, take (nat sizeof_icmp_packet) bytes) # unix_written (daemon s)\<rparr>\<rparr>)"
proof -
  let ?b = "main_view s"
  have ok: "bat_ok ?b" using threads_ok_view [OF assms(1)] by (simp add: daemon_ok_def)
  have le: "little_endian ?b = little_endian (daemon s)" "unix_written ?b = unix_written (daemon s)" "unix_packet ?b (uid q) = Some (cl_sock c)"
    using assms(2,3) by (simp_all add: main_view_def unix_socks_def)
  have my: "my_mac ?b (dst q)" using assms(6) by (simp add: my_mac_def main_view_def)
  have at: "icmp_packet_at (little_endian ?b) bytes = Some (q, rest)" by (simp add: assms(9) le)
  from recv_icmp_eq [OF ok assms(7,8) at] obtain res s' where r: "recv_icmp d h bytes ?b = Some (res, s')" "icmp_effect ?b d q rest bytes res s'" by blast
  have s': "s' = ?b\<lparr>unix_written := (cl_sock c, take (nat sizeof_icmp_packet) bytes) # unix_written (daemon s)\<rparr>"
    using r(2) my assms(5) le by (simp add: icmp_effect_def)
  obtain v x xs where "bytes = BAT_ICMP # v # x # xs" using assms(4,9) by (simp add: bytes_of_icmp_packet_def)
  moreover have "BAT_ICMP \<noteq> BAT_PACKET" "BAT_ICMP \<noteq> BAT_UNICAST" by (simp_all add: BAT_ICMP_def BAT_PACKET_def BAT_UNICAST_def)
  ultimately have "recv_frame i d h bytes ?b = Some (res, i, s')" using r(1) by (simp add: recv_frame_def)
  moreover have "\<not> dangling s (uid q)" using assms(2,3) by (simp add: dangling_def)
  moreover have "answered (Raw_action i d h bytes) ?b = None \<or> answered (Raw_action i d h bytes) ?b = Some (uid q)"
    using at by (simp add: answered_def)
  ultimately show ?thesis by (auto simp: main_act_def main_action_def act_def s')
qed

text \<open>
  An answer with the number under which a client sent its packet reaches this client as long as it is
  connected, whatever both threads do in between.
\<close>

lemma answer_reaches_client:
  assumes "threads_ok s" "owned s" "open_client s p c" "unix_packet_ptr s (uid q) = Some p"
    and "threads\<^sup>*\<^sup>* s t" "clients t p \<noteq> None"
    and "icmp_packet_type q = BAT_ICMP" "msg_type q \<noteq> ECHO_REQUEST" "my_mac (daemon t) (dst q)"
    and "\<not> is_broadcast_address d" "\<not> is_broadcast_address h" "bytes = bytes_of_icmp_packet (little_endian (daemon t)) q @ rest"
  shows "\<exists>t'. main_act (Raw_action i d h bytes) t = Some t' \<and> cl_sock c \<in> wait_sockets t \<and>
    unix_written (daemon t') = (cl_sock c, bytes_of_icmp_packet (little_endian (daemon t)) q) # unix_written (daemon t)"
proof -
  have ok: "threads_ok t" by (rule two_threads.star_inv [OF assms(5,1)])
  have p: "p < cl_brk s" using assms(1,3) by (simp add: threads_ok_def clients_ok_def open_client_def)
  with kept_threads [OF assms(5)] assms(2-6) obtain c' where c': "clients t p = Some c'" "cl_sock c' = cl_sock c" "unix_packet_ptr t (uid q) = Some p"
    by (fastforce simp: kept_def same_client_def open_client_def)
  then have "open_client t p c'" using assms(3) by (simp add: open_client_def)
  then have "cl_sock c' \<in> wait_sockets t" using ok by (simp add: threads_ok_def clients_ok_def serving_def)
  with answer_delivered [OF ok c'(3,1) assms(7-12)] c'(2) assms(12) show ?thesis by (simp add: sizeof_icmp_packet_def)
qed

section \<open>Example\<close>

text \<open>A client connects and sends two packets that are no requests: it gets the number 0 and then the number 1.\<close>

definition chatter :: unix_event where
  "chatter = \<lparr>ev_res = 1, ev_eintr = False, ev_ready = {7}, ev_accept = - 1, ev_reads = (\<lambda>_. Some (replicate 21 112))\<rparr>"

lemma example_numbered_in:
  "daemon_ok b \<Longrightarrow> \<exists>s. clients_start (example_clients b) \<and> threads\<^sup>*\<^sup>* (unix_start (example_clients b)) s \<and>
     clients s 50 = Some \<lparr>cl_sock = 7, cl_level = 0, cl_uid = 1\<rparr> \<and> client_list s = [50] \<and> daemon s = b"
proof -
  assume ok: "daemon_ok b"
  have "debug_ok (example_debug\<lparr>fd_list := [[], [], [], [1]], clients_num := [0, 0, 0, 1]\<rparr>)"
    by (simp add: debug_ok_def example_debug_def level_ok_def FD_SETSIZE_def)
  with ok have b: "clients_start (example_clients b)"
    by (auto simp: clients_start_def example_clients_def FD_SETSIZE_def less_Suc_eq eval_nat_numeral)
  let ?c = "\<lambda>u. \<lparr>cl_sock = 7, cl_level = 0, cl_uid = u\<rparr>"
  define t where "t = (example_clients b)\<lparr>wait_sockets := {7, 3}, max_sock := 7, cl_brk := 51, client_list := [50], clients := [50 \<mapsto> ?c 0]\<rparr>"
  define u where "u = t\<lparr>unix_packet_ptr := (\<lambda>_. None)(0 := Some 50)\<rparr>"
  define v where "v = t\<lparr>unix_packet_ptr := (\<lambda>_. None)(0 := Some 50, 1 := Some 50), clients := [50 \<mapsto> ?c 1]\<rparr>"
  have s: "unix_start (example_clients b) = (example_clients b)\<lparr>wait_sockets := {3}, max_sock := 3\<rparr>"
    by (simp add: unix_start_def) (simp add: example_clients_def fun_eq_iff)
  have r1: "unix_round (connect 7) (unix_start (example_clients b)) = Some (True, t)"
    unfolding s by (simp add: unix_round_def connect_def accept_client_def put_client_def t_def example_clients_def FD_SETSIZE_def Let_def)
  have hp: "handle_packet (replicate 19 112) n sock b = Some b" for n sock
    by (simp add: handle_packet_def numeral_eq_Suc BAT_ICMP_def) (simp add: ECHO_REQUEST_def)
  have f1: "free_uid x = Some 1" if "unix_packet_ptr x = (\<lambda>_. None)(0 := Some 50)" for x
    using that by (simp add: free_uid_def upt_conv_Cons)
  have buff: "replicate 21 (112 :: u8) = 112 # 112 # replicate 19 112" by (simp add: eval_nat_numeral)
  have "client_packet (replicate 21 112) 50 (t\<lparr>max_sock := 7\<rparr>) = Some u"
    by (simp add: client_packet_def sizeof_icmp_packet_def assign_uid_def free_uid_0 put_client_def t_def u_def example_clients_def hp)
  then have r2: "unix_round chatter t = Some (True, u)"
    by (simp add: unix_round_def chatter_def t_def example_clients_def client_turn_def client_data_def buff Let_def)
  have "client_packet (replicate 21 112) 50 (u\<lparr>max_sock := 7\<rparr>) = Some v"
    by (simp add: client_packet_def sizeof_icmp_packet_def assign_uid_def f1 put_client_def t_def u_def v_def example_clients_def hp)
  then have r3: "unix_round chatter u = Some (True, v)"
    by (simp add: unix_round_def chatter_def t_def u_def example_clients_def client_turn_def client_data_def buff Let_def)
  have "event_ok (connect 7) (unix_start (example_clients b))" "event_ok chatter x" for x
    unfolding s by (simp_all add: event_ok_def connect_def chatter_def example_clients_def FD_SETSIZE_def)
  with r1 r2 r3 have "threads\<^sup>*\<^sup>* (unix_start (example_clients b)) v"
    by (meson client_step converse_rtranclp_into_rtranclp rtranclp.rtrancl_refl)
  moreover have "clients v 50 = Some (?c 1)" "client_list v = [50]" "daemon v = b" by (simp_all add: v_def t_def example_clients_def)
  ultimately show ?thesis using b by blast
qed

lemma example_numbered:
  "\<exists>b s. clients_start (example_clients b) \<and> threads\<^sup>*\<^sup>* (unix_start (example_clients b)) s \<and>
     clients s 50 = Some \<lparr>cl_sock = 7, cl_level = 0, cl_uid = 1\<rparr>"
proof -
  obtain b where "daemon_ok b" using batman_init_ok [OF example_start_ok] by blast
  then show ?thesis using example_numbered_in by blast
qed

section \<open>Properties\<close>

text \<open>
  C7: the two threads together. In every state that actions of the main loop and rounds of the
  thread of the clients reach, in any order, both invariants hold; a number other than 0 belongs to at
  most one client, which is being served; every round is defined; and every action of the main loop is
  defined, unless it is an answer with the number 0 for a freed client. Every step is a move of the
  state machine of the daemon, or packets of clients on its tables.
\<close>

theorem threads_invariant:
  assumes "clients_start s0" "threads\<^sup>*\<^sup>* (unix_start s0) s"
  shows "clients_ok s \<and> daemon_ok (main_view s) \<and>
    (\<forall>p c. clients s p = Some c \<and> cl_uid c \<noteq> 0 \<longrightarrow> unix_packet_ptr s (cl_uid c) = Some p \<and> cl_sock c \<in> wait_sockets s) \<and>
    (\<forall>e. event_ok e s \<longrightarrow> unix_round e s \<noteq> None) \<and>
    (\<forall>a. enabled a (main_view s) \<longrightarrow> main_act a s \<noteq> None \<or> answered a (main_view s) = Some 0 \<and> dangling s 0) \<and>
    (\<forall>t. threads s t \<longrightarrow> moves (main_view s) (daemon t) \<or> moves\<^sup>*\<^sup>* (daemon s) (daemon t))"
proof (intro conjI)
  note ok = reachable_threads_ok [OF assms]
  show "clients_ok s" "daemon_ok (main_view s)" using ok(1) threads_ok_view by (simp_all add: threads_ok_def)
  show "\<forall>p c. clients s p = Some c \<and> cl_uid c \<noteq> 0 \<longrightarrow> unix_packet_ptr s (cl_uid c) = Some p \<and> cl_sock c \<in> wait_sockets s"
    using numbered_client [OF ok] by blast
  show "\<forall>e. event_ok e s \<longrightarrow> unix_round e s \<noteq> None" using unix_round_ok [of s] ok(1) by (fastforce simp: threads_ok_def)
  show "\<forall>a. enabled a (main_view s) \<longrightarrow> main_act a s \<noteq> None \<or> answered a (main_view s) = Some 0 \<and> dangling s 0"
    using main_act_ok [OF ok(1)] dangling_first [OF ok(1)] by (metis option.distinct(1))
  show "\<forall>t. threads s t \<longrightarrow> moves (main_view s) (daemon t) \<or> moves\<^sup>*\<^sup>* (daemon s) (daemon t)"
    using main_act_moves unix_round_moves by (auto elim!: threadsE)
qed

theorem threads_invariant_witness:
  "\<exists>b s. threads\<^sup>*\<^sup>* (unix_start (example_clients b)) s \<and> clients_ok s \<and> unix_packet_ptr s 1 = Some 50 \<and> main_act Read_clock s \<noteq> None"
proof -
  obtain b s where s: "clients_start (example_clients b)" "threads\<^sup>*\<^sup>* (unix_start (example_clients b)) s"
      "clients s 50 = Some \<lparr>cl_sock = 7, cl_level = 0, cl_uid = 1\<rparr>" using example_numbered by blast
  have inv: "clients_ok s" "\<forall>p c. clients s p = Some c \<and> cl_uid c \<noteq> 0 \<longrightarrow> unix_packet_ptr s (cl_uid c) = Some p \<and> cl_sock c \<in> wait_sockets s"
      "\<forall>a. enabled a (main_view s) \<longrightarrow> main_act a s \<noteq> None \<or> answered a (main_view s) = Some 0 \<and> dangling s 0"
    using threads_invariant [OF s(1,2)] by blast+
  have "unix_packet_ptr s 1 = Some 50" using inv(2) s(3) by fastforce
  moreover have "enabled Read_clock (main_view s)" "answered Read_clock (main_view s) = None" by (simp_all add: enabled_def answered_def)
  then have "main_act Read_clock s \<noteq> None" using inv(3) by fastforce
  ultimately show ?thesis using s(2) inv(1) by blast
qed

end
