(* ===== verification/C_Types.thy ===== *)
theory C_Types
  imports Main_Loop
begin

text \<open>
  The signed integers of \<open>src/batman-adv.h\<close> are \<^typ>\<open>int\<close> in the model. This theory shows that they stay
  within their types: \<open>hna_buff_len\<close>, \<open>pack_buff_len\<close> and \<open>if_num\<close> (\<open>int16_t\<close>), \<open>num_hna\<close> and
  \<open>tq_asym_penalty\<close> of an originator (\<open>int\<close>). The number of announced hosts stays within the field of 8
  bits of a message, so the buffer of a message is never longer than the receive buffer of 2000 bytes.
\<close>

section \<open>Results of operations\<close>

text \<open>Whatever an operation returns has the property; undefined behaviour is not excluded.\<close>

definition ensures :: "('a \<Rightarrow> bool) \<Rightarrow> 'a option \<Rightarrow> bool" where
  "ensures P m \<longleftrightarrow> (\<forall>x. m = Some x \<longrightarrow> P x)"

lemma ens_Some: "P x \<Longrightarrow> ensures P (Some x)" and ens_None: "ensures P None"
  by (simp_all add: ensures_def)

lemma ens_any: "(\<And>x. m = Some x \<Longrightarrow> ensures P (f x)) \<Longrightarrow> ensures P (m \<bind> f)"
  by (cases m) (simp_all add: ensures_def)

lemma ens_bind: "ensures Q m \<Longrightarrow> (\<And>x. Q x \<Longrightarrow> ensures P (f x)) \<Longrightarrow> ensures P (m \<bind> f)"
  by (cases m) (simp_all add: ensures_def)

lemma ens_bind2: "ensures (\<lambda>(r, s). Q s) m \<Longrightarrow> (\<And>r s. Q s \<Longrightarrow> ensures P (f (r, s))) \<Longrightarrow> ensures P (m \<bind> f)"
  by (cases m) (auto simp: ensures_def)

lemma ens_if: "(b \<Longrightarrow> ensures P x) \<Longrightarrow> (\<not> b \<Longrightarrow> ensures P y) \<Longrightarrow> ensures P (if b then x else y)"
  by simp

lemma ens_option: "(m = None \<Longrightarrow> ensures P x) \<Longrightarrow> (\<And>a. m = Some a \<Longrightarrow> ensures P (f a)) \<Longrightarrow> ensures P (case m of None \<Rightarrow> x | Some a \<Rightarrow> f a)"
  by (cases m) simp_all

lemma ens_let: "ensures P (f x) \<Longrightarrow> ensures P (Let x f)"
  by simp

lemma ens_pair: "ensures P (f a b) \<Longrightarrow> ensures P (case (a, b) of (x, y) \<Rightarrow> f x y)"
  by simp

lemma ens_prod: "(\<And>a b. x = (a, b) \<Longrightarrow> ensures P (f a b)) \<Longrightarrow> ensures P (case x of (a, b) \<Rightarrow> f a b)"
  by (cases x) simp

lemma ens_map: "ensures (\<lambda>x. P (f x)) m \<Longrightarrow> ensures P (map_option f m)"
  by (cases m) (simp_all add: ensures_def)

lemma ensD: "ensures P m \<Longrightarrow> m = Some x \<Longrightarrow> P x"
  by (simp add: ensures_def)

lemmas ens = ens_let ens_pair ens_if ens_Some ens_None ens_option


lemma hash_loop_ensures:
  assumes "\<And>d s. Q s \<Longrightarrow> ensures (\<lambda>(b, s). Q s) (body d s)" "Q s"
  shows "ensures (\<lambda>(h, s). Q s) (hash_loop body hash it s)"
proof -
  have "Q (snd r)" if "hash_loop body hash it s = Some r" for r
  proof -
    have "(\<forall>d s. Q s \<longrightarrow> ensures (\<lambda>(b, s). Q s) (body d s)) \<longrightarrow> Q s \<longrightarrow> Q (snd r)"
    proof (rule hash_loop.raw_induct [where P = "\<lambda>body hash it s r. (\<forall>d s. Q s \<longrightarrow> ensures (\<lambda>(b, s). Q s) (body d s)) \<longrightarrow> Q s \<longrightarrow> Q (snd r)", OF _ that])
      fix loop body hash it s r
      assume IH: "\<And>body hash it s r. loop body hash it s = Some r \<Longrightarrow>
          (\<forall>d s. Q s \<longrightarrow> ensures (\<lambda>(b, s). Q s) (body d s)) \<longrightarrow> Q s \<longrightarrow> Q (snd r)"
        and r: "hash_iterate hash it \<bind> (\<lambda>iter. case iter of None \<Rightarrow> Some (hash, s) | Some it \<Rightarrow>
          bucket it \<bind> (\<lambda>b. cell_data hash b \<bind> (\<lambda>data. body data s \<bind> (\<lambda>(remove, s).
            (if remove then map_option snd (hash_remove_bucket hash it) else Some hash) \<bind> (\<lambda>hash. loop body hash (Some it) s))))) = Some r"
      show "(\<forall>d s. Q s \<longrightarrow> ensures (\<lambda>(b, s). Q s) (body d s)) \<longrightarrow> Q s \<longrightarrow> Q (snd r)"
      proof (intro impI)
        assume body: "\<forall>d s. Q s \<longrightarrow> ensures (\<lambda>(b, s). Q s) (body d s)" and q: "Q s"
        have step: "Q u" if "body d s = Some (b, u)" for d b u using body q that by (auto simp: ensures_def)
        from r q show "Q (snd r)"
          by (auto simp: bind_eq_Some_conv split: option.splits dest!: step IH simp: body)
      qed
    qed
    with assms show ?thesis by blast
  qed
  then show ?thesis by (auto simp: ensures_def)
qed

section \<open>Ranges\<close>

definition fields_ok :: "orig_node \<Rightarrow> bool" where
  "fields_ok n \<longleftrightarrow> 0 \<le> hna_buff_len n \<and> hna_buff_len n \<le> 1530 \<and> 0 \<le> tq_asym_penalty n \<and> tq_asym_penalty n < 2 ^ 31 \<and> o_num_hna n = 0"

definition typed :: "bat_state \<Rightarrow> bool" where
  "typed s \<longleftrightarrow> (\<forall>p n. orig_heap s p = Some n \<longrightarrow> fields_ok n) \<and> (\<forall>x \<in> set (forw_list s). length (pack_tail (snd x)) \<le> 1978) \<and> g_num_hna s \<le> 255"

lemma typed_fields [simp]:
  "typed (s\<lparr>ticks := a1\<rparr>) = typed s" "typed (s\<lparr>rolls := a2\<rparr>) = typed s" "typed (s\<lparr>written := a3\<rparr>) = typed s" "typed (s\<lparr>sent := a4\<rparr>) = typed s"
  "typed (s\<lparr>tap_pos := a5\<rparr>) = typed s" "typed (s\<lparr>tap_written := a6\<rparr>) = typed s" "typed (s\<lparr>raw_pos := a7\<rparr>) = typed s"
  "typed (s\<lparr>unix_written := a8\<rparr>) = typed s" "typed (s\<lparr>brk := a9\<rparr>) = typed s" "typed (s\<lparr>curr_time := b1\<rparr>) = typed s"
  "typed (s\<lparr>if_heap := b2\<rparr>) = typed s" "typed (s\<lparr>neigh_heap := b3\<rparr>) = typed s" "typed (s\<lparr>elem_heap := b4\<rparr>) = typed s"
  "typed (s\<lparr>buf_heap := b5\<rparr>) = typed s" "typed (s\<lparr>orig_hash := b6\<rparr>) = typed s" "typed (s\<lparr>trans_hash := b7\<rparr>) = typed s"
  "typed (s\<lparr>gw_list := b8\<rparr>) = typed s" "typed (s\<lparr>hna_changed := b9\<rparr>) = typed s" "typed (s\<lparr>g_hna_buff := c1\<rparr>) = typed s"
  "typed (s\<lparr>hna_list := c2\<rparr>) = typed s" "typed (s\<lparr>vis_packet_buff := c3\<rparr>) = typed s" "typed (s\<lparr>vis_packet_size := c5\<rparr>) = typed s" "typed (s\<lparr>unix_packet := c4\<rparr>) = typed s"
  "typed (put_neigh p m s) = typed s" "typed (put_elem p e s) = typed s" "typed (put_if p f s) = typed s"
  "typed (free_elem p s) = typed s"
  by (simp_all add: typed_def put_defs free_elem_def)

lemma typed_put_orig: "typed s \<Longrightarrow> fields_ok n \<Longrightarrow> typed (put_orig p n s)"
  by (simp add: typed_def put_orig_def)

lemma typed_orig: "typed s \<Longrightarrow> orig_heap s p = Some n \<Longrightarrow> fields_ok n"
  by (simp add: typed_def)

lemma typed_del_orig: "typed s \<Longrightarrow> typed (s\<lparr>orig_heap := (orig_heap s)(p := None)\<rparr>)"
  by (simp add: typed_def)

lemma typed_tail: "typed s \<Longrightarrow> forw_list s = x # xs \<Longrightarrow> typed (s\<lparr>forw_list := xs\<rparr>)"
  by (simp add: typed_def)

text \<open>A change of the other fields of an originator.\<close>

lemma typed_same:
  "typed s \<Longrightarrow> orig_heap s p = Some n \<Longrightarrow> hna_buff_len n' = hna_buff_len n \<Longrightarrow> tq_asym_penalty n' = tq_asym_penalty n \<Longrightarrow>
   o_num_hna n' = o_num_hna n \<Longrightarrow> typed (put_orig p n' s)"
  using typed_orig [of s p n] by (intro typed_put_orig) (simp_all add: fields_ok_def)

lemma typed_len:
  "typed s \<Longrightarrow> orig_heap s p = Some n \<Longrightarrow> 0 \<le> len \<Longrightarrow> len \<le> 1530 \<Longrightarrow> typed (put_orig p (n\<lparr>hna_buff_len := len\<rparr>) s)"
  "typed s \<Longrightarrow> orig_heap s p = Some n \<Longrightarrow> 0 \<le> len \<Longrightarrow> len \<le> 1530 \<Longrightarrow> typed (put_orig p (n\<lparr>o_hna_buff := b, hna_buff_len := len\<rparr>) s)"
  using typed_orig [of s p n] by (simp_all add: typed_put_orig fields_ok_def)

text \<open>The rules for calls of operations, to be tried before the ones for a single step.\<close>

named_theorems calls \<open>rules for binding the result of an operation\<close>

lemmas typed_simps = typed_put_orig typed_same typed_del_orig typed_tail put_defs Let_def

section \<open>The translation table\<close>

lemma dlist_del_typed: "typed s \<Longrightarrow> ensures typed (dlist_del p s)"
  unfolding dlist_del_def
  by (rule ens_any) (auto intro!: ens_any ens_Some simp: ens_None Let_def typed_put_orig typed_same split: dlink.split)
declare dlist_del_typed [THEN ens_bind, calls]

lemma trans_remove_typed: "typed s \<Longrightarrow> ensures typed (trans_remove p s)"
  unfolding trans_remove_def by (rule ens ens_any ens_prod | simp)+
declare trans_remove_typed [THEN ens_bind, calls]

lemma transtable_add_typed: "typed s \<Longrightarrow> ensures (\<lambda>(r, s). typed s) (transtable_add m b s)"
  unfolding transtable_add_def
  apply (rule ens)
   apply (simp add: ens_Some)
  apply (rule ens_any)
  apply (rule ens_bind2 [where Q = typed])
  by (rule calls ens ens_any ens_prod | simp)+
declare transtable_add_typed [THEN ens_bind2, calls]

lemma dlist_add_hna_typed: "typed s \<Longrightarrow> ensures typed (dlist_add_hna p s)"
  unfolding dlist_add_hna_def by (rule ens ens_any | simp)+
declare dlist_add_hna_typed [THEN ens_bind, calls]

lemma dlist_add_orig_typed: "typed s \<Longrightarrow> ensures typed (dlist_add_orig p h s)"
  unfolding dlist_add_orig_def by (rule ens ens_any | simp add: typed_same)+
declare dlist_add_orig_typed [THEN ens_bind, calls]

lemma hna_del_typed: "typed s \<Longrightarrow> ensures typed (hna_del p s)"
  unfolding hna_del_def by (rule calls ens ens_any | simp)+
declare hna_del_typed [THEN ens_bind, calls]

lemma hna_add_typed: "typed s \<Longrightarrow> ensures typed (hna_add m my s)"
  unfolding hna_add_def
  apply (rule ens_any)
  apply (rule ens_bind2 [where Q = typed])
  by (rule calls ens ens_any ens_prod | simp)+
declare hna_add_typed [THEN ens_bind, calls]

lemma hna_purge_typed: "typed s \<Longrightarrow> ensures (\<lambda>(r, s). typed s) (hna_purge my ps cnt s)"
  by (induction ps arbitrary: cnt s) (simp_all add: ens_Some, (rule calls ens ens_any | simp)+)
declare hna_purge_typed [THEN ens_bind2, calls]

lemma hna_remove_list_typed: "typed s \<Longrightarrow> ensures typed (hna_remove_list ps s)"
  by (induction ps arbitrary: s) (simp_all add: ens_Some, (rule calls ens ens_any | simp)+)
declare hna_remove_list_typed [THEN ens_bind, calls]

lemma typed_num: "typed s \<Longrightarrow> n \<le> 255 \<Longrightarrow> typed (s\<lparr>g_num_hna := n\<rparr>)"
  by (simp add: typed_def)

lemma hna_rebuild_typed: "typed s \<Longrightarrow> ensures typed (hna_rebuild cnt s)"
  unfolding hna_rebuild_def
  by (rule ens ens_any ens_prod | (auto simp: typed_num not_less)[1])+
declare hna_rebuild_typed [THEN ens_bind, calls]

lemma hna_update_typed: "typed s \<Longrightarrow> ensures typed (hna_update s)"
  unfolding hna_update_def by (rule hna_rebuild_typed calls ens ens_any ens_prod | simp)+
declare hna_update_typed [THEN ens_bind, calls]

lemma hna_add_hosts_typed: "typed s \<Longrightarrow> ensures typed (hna_add_hosts p hosts s)"
proof (induction hosts arbitrary: s)
  case (Cons h hosts)
  then show ?case unfolding hna_add_hosts.simps
    apply -
    apply (rule ens_any)
    apply (rule calls, assumption)
    apply (rule ens_pair)
    apply (rule ens_bind [where Q = typed])
     apply (rule dlist_add_orig_typed calls ens ens_any | assumption)+
    done
qed (simp add: ens_Some)
declare hna_add_hosts_typed [THEN ens_bind, calls]

lemma hna_add_buff_typed: "typed s \<Longrightarrow> ensures typed (hna_add_buff p s)"
  unfolding hna_add_buff_def by (rule hna_add_hosts_typed calls ens ens_any | simp)+

lemma free_buf_typed: "typed s \<Longrightarrow> ensures typed (free_buf b s)"
  unfolding free_buf_def by (rule ens ens_any | simp)+

declare free_buf_typed [THEN ens_bind, calls]

lemma hna_del_buff_typed: "typed s \<Longrightarrow> ensures typed (hna_del_buff p s)"
  unfolding hna_del_buff_def
  by (rule calls ens ens_any | simp add: typed_len)+
declare hna_del_buff_typed [THEN ens_bind, calls]

section \<open>Routes and originators\<close>

lemma update_router_typed: "typed s \<Longrightarrow> ensures typed (update_router p q s)"
  unfolding update_router_def by (rule calls ens ens_any | simp add: typed_same)+
declare update_router_typed [THEN ens_bind, calls]

lemma hna_copy_buff_typed:
  assumes "typed s" "len \<le> 1530"
  shows "ensures typed (hna_copy_buff p src len s)"
proof -
  have "0 \<le> len" if "hna_recv_bytes src len s = Some bytes" for bytes using that by (auto simp: hna_recv_bytes_def bind_eq_Some_conv split: if_split_asm)
  then show ?thesis unfolding hna_copy_buff_def using assms
    by - (rule hna_add_buff_typed ens ens_any | simp add: typed_len)+
qed

lemma update_hna_typed:
  assumes "typed s" "len \<le> 1530"
  shows "ensures typed (update_hna p src len s)"
proof -
  have "ensures typed (changed \<bind> (\<lambda>c. if c then hna_del_buff p s \<bind> hna_copy_buff p src len else Some s))" for changed
    by (rule calls hna_copy_buff_typed ens ens_any | simp add: assms)+
  then show ?thesis unfolding update_hna_def using assms
    by (intro ens_any) (simp add: ens_Some hna_copy_buff_typed hna_del_buff_typed split: hna_recv.split option.split)
qed

lemma update_routes_typed: "typed s \<Longrightarrow> len \<le> 1530 \<Longrightarrow> ensures typed (update_routes p q src len s)"
  unfolding update_routes_def by (rule update_hna_typed calls | simp)+
declare update_routes_typed [THEN ens_bind, calls]

lemma update_gw_list_typed: "typed s \<Longrightarrow> ensures typed (update_gw_list p f s)"
  unfolding update_gw_list_def get_time_def by (rule ens ens_any | simp add: typed_same)+
declare update_gw_list_typed [THEN ens_bind, calls]

lemma get_orig_node_typed: "typed s \<Longrightarrow> ensures (\<lambda>(r, s). typed s) (get_orig_node addr s)"
  unfolding get_orig_node_def
  by (rule ens ens_any ens_prod | simp add: typed_put_orig fields_ok_def new_orig_node_def)+
declare get_orig_node_typed [THEN ens_bind2, calls]

lemma create_neighbor_typed: "typed s \<Longrightarrow> ensures (\<lambda>(r, s). typed s) (create_neighbor p q a i s)"
  unfolding create_neighbor_def by (rule ens ens_any | simp add: typed_same)+
declare create_neighbor_typed [THEN ens_bind2, calls]

lemma update_orig_loop_typed: "typed s \<Longrightarrow> ensures (\<lambda>(f, r, s). typed s) (update_orig_loop p neigh i dup qs f r s)"
proof (induction qs arbitrary: f r s)
  case (Cons q qs)
  have "ensures typed (if dup then Some s else do { n \<leftarrow> neigh_tq_update 0 n; Some (put_neigh q n s) })" for n
    by (rule ens ens_any | simp add: Cons.prems)+
  note put = this
  show ?case unfolding update_orig_loop.simps
    by (rule ens_any, rule ens_if, rule Cons.IH [OF Cons.prems], rule ens_bind [OF put], rule ens_any, rule ens_any, rule Cons.IH)
qed (simp add: ens_Some)

lemma update_orig_typed: "typed s \<Longrightarrow> ensures typed (update_orig p neigh inp i hna len dup now s)"
proof -
  assume s: "typed s"
  have 1: "ensures (\<lambda>(q, s). typed s) (case found of Some p \<Rightarrow> Some (p, u) | None \<Rightarrow> do { (q, s) \<leftarrow> get_orig_node neigh u; create_neighbor p q neigh i s })"
    if "typed u" for found u
    using that by - (rule create_neighbor_typed calls ens ens_any | simp)+
  have 2: "ensures typed (if b then update_gw_list p f u else Some u)" if "typed u" for b f u
    using that by (simp add: update_gw_list_typed ens_Some)
  have len: "(if len > uint (num_hna inp) * 6 then uint (num_hna inp) * 6 else len) \<le> 1530"
    using uint_lt2p [of "num_hna inp"] by simp
  have 3: "ensures (\<lambda>(r, x). typed (snd x)) (update_orig_loop q neigh i dup qs f r u)" if "typed u" for q qs f r u
    using update_orig_loop_typed [OF that] by (simp add: ensures_def split_def)
  show ?thesis unfolding update_orig_def
    apply (rule ens_any)
    apply (rule ens_bind2, rule 3, rule s)
    apply (rule ens_pair, rule ens_prod, simp only: snd_conv)
    apply (rule ens_bind2, rule 1, assumption)
    apply (rule ens_pair, rule ens_any, rule ens_any, rule ens_let, rule ens_let, rule ens_any, rule ens_let, rule ens_any, rule ens_let)
    apply (rule update_routes_typed [THEN ens_bind])
      apply (simp add: typed_same)
     apply (rule len)
    apply (rule ens_any)
    apply (rule ens_bind, rule 2, assumption)
    apply (rule ens_any ens)+
    apply (simp add: typed_same)
    done
qed

declare update_orig_typed [THEN ens_bind, calls]

section \<open>Originator messages\<close>

lemma asym_penalty_int: "0 \<le> asym_penalty c" "asym_penalty c < 2 ^ 31"
proof -
  define k where "k = 64 - uint c"
  have k: "- 191 \<le> k" "k \<le> 64" using uint_lt2p [of c] by (simp_all add: k_def)
  have "255 * k * k * k \<le> 255 * 262144" "- (255 * 6967871) \<le> 255 * k * k * k"
  proof -
    have "k ^ 3 \<le> 64 ^ 3" "(- 191) ^ 3 \<le> k ^ 3" 
      using power_mono_odd [of 3 k 64] power_mono_odd [of 3 "- 191" k] k by simp_all
    moreover have "255 * k * k * k = 255 * k ^ 3" by (simp add: power3_eq_cube)
    ultimately show "255 * k * k * k \<le> 255 * 262144" "- (255 * 6967871) \<le> 255 * k * k * k" by simp_all
  qed
  then have "(255 * k * k * k) sdiv 262144 \<le> 255" "- 6778 \<le> (255 * k * k * k) sdiv 262144"
    by (auto simp: signed_divide_int_def sgn_if abs_if)
  then show "0 \<le> asym_penalty c" "asym_penalty c < 2 ^ 31"
    by (simp_all add: asym_penalty_def TQ_MAX_VALUE_def TQ_LOCAL_WINDOW_SIZE_def Let_def k_def [symmetric])
qed

lemma typed_penalty:
  "typed s \<Longrightarrow> orig_heap s q = Some n \<Longrightarrow> 0 \<le> k \<Longrightarrow> k < 2 ^ 31 \<Longrightarrow> typed (put_orig q (n\<lparr>tq_own := t, tq_asym_penalty := k\<rparr>) s)"
  using typed_orig [of s q n] by (simp add: typed_put_orig fields_ok_def)

lemma isBidirectional_typed: "typed s \<Longrightarrow> ensures (\<lambda>(b, p, s). typed s) (isBidirectionalNeigh p q inp now i s)"
proof -
  assume s: "typed s"
  have 1: "ensures (\<lambda>(q, s). typed s) (case found of Some p \<Rightarrow> Some (p, s) | None \<Rightarrow> create_neighbor q q a i s)" for found a
    using create_neighbor_typed [OF s] s by (simp add: ens_Some split: option.split)
  show ?thesis unfolding isBidirectionalNeigh_def
    apply (rule ens_any, rule ens_any, rule ens_bind2 [OF 1], rule ens_pair, rule ens_any, rule ens_let, rule ens_let, rule ens_any)
    apply (rule ens_let, rule ens_any, rule ens_any, rule ens_let, rule ens_let, rule ens_let, rule ens_let, rule ens_Some)
    apply (simp only: case_prod_conv)
    apply (rule typed_penalty [OF typed_same], simp, assumption, simp, simp, simp)
      apply assumption
     apply (rule asym_penalty_int)+
    done
qed

lemma count_real_loop_typed: "typed s \<Longrightarrow> ensures (\<lambda>(d, s). typed s) (count_real_loop neigh sq i lrs ps d s)"
  by (induction ps arbitrary: d s) (simp_all add: ens_Some, (rule ens_any ens_prod | simp)+)

lemma count_real_packets_typed: "typed s \<Longrightarrow> ensures (\<lambda>(d, s). typed s) (count_real_packets neigh inp i s)"
  unfolding count_real_packets_def
  by (rule count_real_loop_typed [THEN ens_bind2] calls ens ens_any | simp add: typed_same)+

declare count_real_packets_typed [THEN ens_bind2, calls]

lemma schedule_forward_typed:
  assumes "typed s" "length tail \<le> 1978"
  shows "ensures typed (schedule_forward_packet p neigh inp tail d i s)"
proof -
  have "typed (s\<lparr>ticks := t, forw_list := (b, f) # forw_list s, brk := k\<rparr>)" if "pack_tail f = tail" for t b f k
    using assms that by (simp add: typed_def)
  then show ?thesis using assms unfolding schedule_forward_packet_def get_time_def
    by - (rule ens_if ens_any ens_let ens_pair ens_Some | simp)+
qed

lemma ogm_own_echo_typed: "typed s \<Longrightarrow> ensures typed (ogm_own_echo neigh inp d i s)"
  unfolding ogm_own_echo_def by (rule calls ens ens_any | simp add: typed_same)+

lemma ogm_foreign_typed:
  assumes "typed s" "length tail \<le> 1978"
  shows "ensures typed (ogm_foreign neigh inp tail i s)"
proof -
  have 1: "ensures (\<lambda>(q, s). typed s) (if b then Some (p, u) else get_orig_node neigh u)" if "typed u" for b p u
    using get_orig_node_typed [OF that] that by (simp add: ens_Some)
  have 2: "ensures (\<lambda>(b, x). typed (snd x)) (isBidirectionalNeigh p q inp now i u)" if "typed u" for p q now u
    using isBidirectional_typed [OF that] by (simp add: ensures_def split_def)
  have 3: "ensures typed (if b then update_orig p neigh inp i tail (int (length tail)) d now u else Some u)" if "typed u" for b p inp d now u
    using update_orig_typed [OF that] that by (simp add: ens_Some)
  note fw = schedule_forward_typed [OF _ assms(2)]
  show ?thesis unfolding ogm_foreign_def
    apply (rule ens_let, rule ens_bind2, rule count_real_packets_typed, rule assms(1))
    apply (rule ens_pair, rule ens_bind2, rule get_orig_node_typed, assumption)
    apply (rule ens_pair, rule ens_bind2, rule 1, assumption, rule ens_pair, rule ens_any)
    apply (rule ens_if, rule ens_Some, assumption)
    apply (rule ens_bind2, rule 2, assumption, rule ens_pair, rule ens_prod, simp only: snd_conv, rule ens_any)
    apply (rule ens_bind, rule 3, assumption)
    apply (rule ens_if fw ens_Some | assumption)+
    done
qed

lemma process_ogm_typed: "typed s \<Longrightarrow> length tail \<le> 1978 \<Longrightarrow> ensures typed (process_ogm neigh inp tail i s)"
  unfolding process_ogm_def get_time_def
  by (rule ogm_own_echo_typed ogm_foreign_typed calls ens ens_any | simp)+

section \<open>Sending\<close>

lemma typed_wrote [simp]: "typed (wrote s w fs) = typed s"
  by (simp add: wrote_def)

lemma rawsock_write_typed [simp]: "typed (snd (rawsock_write sock a b bytes s)) = typed s"
  using rawsock_write_once [of sock a b bytes s] by auto

lemma send_packet_typed: "send_packet bytes a b sock s = (r, t) \<Longrightarrow> typed s \<Longrightarrow> typed t"
  by (rule send_packet_wrote [of bytes a b sock s]) (auto simp del: typed_fields)

lemma send_on_typed: "send_on p tail f s = (r, t) \<Longrightarrow> typed s \<Longrightarrow> typed t"
  unfolding send_on_def by (rule send_packet_typed)

lemma send_on_all_typed: "typed s \<Longrightarrow> ensures (\<lambda>(r, s). typed s) (send_on_all p tail d dev js s)"
proof (induction js arbitrary: s)
  case (Cons j js)
  then show ?case unfolding send_on_all.simps
    by - (rule ens_any ens_let ens_prod ens_if Cons.IH ens_Some | simp add: send_on_typed)+
qed (simp add: ens_Some)

lemma send_forw_node_typed: "typed s \<Longrightarrow> ensures (\<lambda>(r, s). typed s) (send_forw_node f s)"
  unfolding send_forw_node_def
  by (rule send_on_all_typed ens_any ens | simp add: send_on_typed split: prod.split)+

lemma send_on_list: "send_on p tail f s = (r, t) \<Longrightarrow> forw_list t = forw_list s"
  unfolding send_on_def
  by (rule send_packet_wrote [of "bytes_of_batman_packet (little_endian s) p @ tail" "hw_addr f" broadcastAddr "raw_sock f" s]) (auto simp: wrote_def)

lemma send_on_all_list: "forw_list s = l \<Longrightarrow> ensures (\<lambda>(r, s). forw_list s = l) (send_on_all p tail d dev js s)"
proof (induction js arbitrary: s)
  case (Cons j js)
  then show ?case unfolding send_on_all.simps
    by - (rule ens_any ens_let ens_prod ens_if Cons.IH ens_Some | simp add: send_on_list)+
qed (simp add: ens_Some)

lemma send_forw_node_list: "ensures (\<lambda>(r, t). forw_list t = forw_list s) (send_forw_node f s)"
  unfolding send_forw_node_def
  by (rule send_on_all_list ens_any ens | simp add: send_on_list split: prod.split)+

lemma count_own_bcast_typed: "typed s \<Longrightarrow> ensures (\<lambda>(b, s). typed s) (count_own_bcast k d s)"
  unfolding count_own_bcast_def by (rule ens_any ens_prod ens | simp add: typed_same)+

lemma own_forw_node_typed: "typed s \<Longrightarrow> ensures (\<lambda>(f, s). length (pack_tail f) \<le> 1978 \<and> typed s) (own_forw_node i s)"
proof -
  assume s: "typed s"
  then have "unat (g_num_hna s) \<le> 255" by (simp add: typed_def word_le_nat_alt)
  with s show ?thesis unfolding own_forw_node_def get_time_def rand_num_def
    by - (rule ens_any ens | simp add: JITTER_def)+
qed

lemma typed_forw_insert: "typed s \<Longrightarrow> length (pack_tail f) \<le> 1978 \<Longrightarrow> typed (s\<lparr>forw_list := forw_insert (p, f) (forw_list s)\<rparr>)"
proof -
  assume s: "typed s" "length (pack_tail f) \<le> 1978"
  have "set (forw_insert (p, f) xs) = insert (p, f) (set xs)" for xs by (induction xs) auto
  with s show ?thesis by (auto simp: typed_def)
qed

lemma schedule_own_typed: "typed s \<Longrightarrow> ensures typed (schedule_own_packet i s)"
proof -
  assume s: "typed s"
  have loop: "ensures (\<lambda>(h, s). typed s) (hash_loop (count_own_bcast k) h it u)" if "typed u" for k h it u
    using that by (rule hash_loop_ensures [rotated]) (rule count_own_bcast_typed)
  show ?thesis unfolding schedule_own_packet_def
    apply (rule ens_bind, rule own_forw_node_typed [OF s], rule ens_prod, rule ens_let, rule ens_any, rule ens_let)
    apply (rule ens_bind2, rule loop)
     apply (simp add: typed_forw_insert)
    apply (rule ens | simp)+
    done
qed

lemma typed_suffix: "typed s \<Longrightarrow> set xs \<subseteq> set (forw_list s) \<Longrightarrow> typed (s\<lparr>forw_list := xs\<rparr>)"
  by (auto simp: typed_def)

lemma forw_at_suffix: "forw_at p xs = Some (f, rest) \<Longrightarrow> set rest \<subseteq> set xs"
  by (induction xs) (auto split: if_split_asm)

lemma send_loop_typed: "typed s \<Longrightarrow> ensures (\<lambda>(r, s). typed s) (send_loop now pos s)"
proof -
  have "typed s \<longrightarrow> typed (snd r)" if "send_loop now pos s = Some r" for r
  proof (rule send_loop.raw_induct [where P = "\<lambda>now pos s r. typed s \<longrightarrow> typed (snd r)", OF _ that])
    fix loop now pos s r
    assume IH: "\<And>now pos s r. loop now pos s = Some r \<Longrightarrow> typed s \<longrightarrow> typed (snd r)"
      and r: "(case pos of None \<Rightarrow> Some (True, s) | Some p \<Rightarrow> forw_at p (forw_list s) \<bind> (\<lambda>(f, rest).
          let temp = case rest of [] \<Rightarrow> None | (q, x) # xa \<Rightarrow> Some q
          in if send_time f \<le> now then send_forw_node f s \<bind> (\<lambda>(ok, s).
               if ok then let s = s\<lparr>forw_list := rest\<rparr> in
                 (if own f then if_outgoing f \<bind> (\<lambda>i. schedule_own_packet i s) else Some s) \<bind> loop now temp
               else Some (False, s))
             else Some (True, s))) = Some r"
    have IH': "ensures (\<lambda>(r, s). typed s) (loop now pos s)" if "typed s" for pos s using IH that by (auto simp: ensures_def)
    have own: "ensures typed (if b then x \<bind> (\<lambda>i. schedule_own_packet i s) else Some s)" if "typed s" for b x s
      using that by - (rule ens_if ens_any schedule_own_typed ens_Some | assumption)+
    show "typed s \<longrightarrow> typed (snd r)"
    proof
      assume s: "typed s"
      have "ensures (\<lambda>(r, s). typed s) (Some r)"
      proof (subst r [symmetric], rule ens_option)
        fix p
        have fl: "forw_list t = forw_list s" if "send_forw_node f s = Some (ok, t)" for f ok t
          using ensD [OF send_forw_node_list that] by simp
        show "ensures (\<lambda>(r, s). typed s) (forw_at p (forw_list s) \<bind> (\<lambda>(f, rest).
          let temp = case rest of [] \<Rightarrow> None | (q, x) # xa \<Rightarrow> Some q
          in if send_time f \<le> now then send_forw_node f s \<bind> (\<lambda>(ok, s).
               if ok then let s = s\<lparr>forw_list := rest\<rparr> in
                 (if own f then if_outgoing f \<bind> (\<lambda>i. schedule_own_packet i s) else Some s) \<bind> loop now temp
               else Some (False, s))
             else Some (True, s)))"
        proof (rule ens_any, rule ens_prod, rule ens_let, rule ens_if, rule ens_any, rule ens_prod, rule ens_if, rule ens_let)
          fix x f rest y ok t
          assume x: "forw_at p (forw_list s) = Some x" "x = (f, rest)" "send_forw_node f s = Some y" "y = (ok, t)"
          have t: "typed t" using ensD [OF send_forw_node_typed [OF s], of f] x(3,4) by auto
          then show "ensures (\<lambda>(r, s). typed s) (Some (False, t))" by (simp add: ens_Some)
          have "typed (t\<lparr>forw_list := rest\<rparr>)"
            using t forw_at_suffix [of p "forw_list s" f rest] fl x by (intro typed_suffix) auto
          then show "ensures (\<lambda>(r, s). typed s) ((if own f then if_outgoing f \<bind> (\<lambda>i. schedule_own_packet i (t\<lparr>forw_list := rest\<rparr>))
              else Some (t\<lparr>forw_list := rest\<rparr>)) \<bind> loop now (case rest of [] \<Rightarrow> None | (q, x) # xa \<Rightarrow> Some q))"
            by - (rule ens_bind, rule own, assumption, rule IH')
        qed (simp add: ens_Some s)
      qed (simp add: ens_Some s)
      then show "typed (snd r)" by (simp add: ensures_def split_def)
    qed
  qed
  then show "typed s \<Longrightarrow> ?thesis" by (auto simp: ensures_def)
qed

lemma send_outstanding_typed: "typed s \<Longrightarrow> ensures (\<lambda>(r, s). typed s) (send_outstanding_packets s)"
  unfolding send_outstanding_packets_def get_time_def
  by (simp add: ens_Some send_loop_typed split: list.split)

section \<open>Purging\<close>

lemma free_neigh_typed: "typed s \<Longrightarrow> ensures typed (free_neigh p s)"
  unfolding free_neigh_def by (rule ens_any ens | simp)+

lemma free_neighs_typed: "typed s \<Longrightarrow> ensures typed (free_neighs ps s)"
  by (induction ps arbitrary: s) (simp_all add: ens_Some, rule ens_bind, rule free_neigh_typed)

declare free_neighs_typed [THEN ens_bind, calls]

lemma purge_gw_typed [simp]: "typed (purge_gw_of p s) = typed s"
  by (simp add: purge_gw_of_def get_time_def)

lemma purge_dead_typed: "typed s \<Longrightarrow> ensures typed (purge_dead_orig p s)"
  unfolding purge_dead_orig_def
  by (rule calls ens_any ens | simp add: typed_same typed_del_orig)+

lemma purge_neighs_typed: "typed s \<Longrightarrow> ensures (\<lambda>(k, d, b, s). typed s \<and> orig_heap s = h) (purge_neighs now ps best s)" if "orig_heap s = h"
  using that
proof (induction ps arbitrary: best s)
  case (Cons p ps)
  have IH: "ensures (\<lambda>r. typed (snd (snd (snd r))) \<and> orig_heap (snd (snd (snd r))) = h) (purge_neighs now ps best u)"
    if "typed u" "orig_heap u = h" for best u
    using Cons.IH [OF that] by (simp add: ensures_def split_def)
  have free: "ensures (\<lambda>u. typed u \<and> orig_heap u = h) (free_neigh q s)" for q
    using Cons.prems by (auto simp: free_neigh_def ensures_def bind_eq_Some_conv)
  show ?case unfolding purge_neighs.simps
    apply (rule ens_any, rule ens_if)
     apply (rule ens_bind, rule free, rule ens_bind, rule IH, blast, blast)
     apply (simp add: ens_Some split_def)
    apply (rule ens_any, rule ens_bind, rule IH)
    using Cons.prems by (simp_all add: ens_Some split_def)
qed (simp add: ens_Some)

lemma purge_live_typed: "typed s \<Longrightarrow> ensures typed (purge_live_orig now p s)"
proof -
  assume s: "typed s"
  have up: "ensures typed (update_routes p q src (hna_buff_len n) u)" if "typed u" "orig_heap s p = Some n" for q src n u
    using update_routes_typed [OF that(1)] typed_orig [OF s that(2)] by (simp add: fields_ok_def)
  have N: "ensures (\<lambda>r. typed (snd (snd (snd r))) \<and> orig_heap (snd (snd (snd r))) = orig_heap s) (purge_neighs now qs b s)" for qs b
    using purge_neighs_typed [OF refl s] by (simp add: ensures_def split_def)
  show ?thesis unfolding purge_live_orig_def
    apply (rule ens_any, rule ens_bind, rule N)
    apply (rule ens_prod, rule ens_prod, rule ens_prod, rule ens_let, rule ens_let, rule ens_if, rule ens_Some)
     apply (simp add: typed_same)
    apply (simp add: up typed_same split: option.split)
    apply (intro conjI allI impI)
    by (rule ens_any ens up | simp add: typed_same)+
qed

lemma purge_orig_typed: "typed s \<Longrightarrow> ensures typed (purge_orig now s)"
proof -
  assume s: "typed s"
  have "ensures (\<lambda>(b, s). typed s) (purge_body now p u)" if "typed u" for p u
    using that unfolding purge_body_def by - (rule ens_any ens_if ens_map | simp add: purge_dead_typed purge_live_typed)+
  then have "ensures (\<lambda>(h, s). typed s) (hash_loop (purge_body now) h it s)" for h it
    by (rule hash_loop_ensures) (auto intro: s)
  then show ?thesis unfolding purge_orig_def by - (rule ens_bind2, assumption, (rule ens | simp)+)
qed

section \<open>Frames\<close>

lemma raw_reply_typed [simp]: "typed (snd (raw_reply f d bytes s)) = typed s"
proof (cases "rawsock_write (raw_sock f) (hw_addr f) d bytes s")
  case (Pair r t)
  with rawsock_write_typed [of "raw_sock f" "hw_addr f" d bytes s] show ?thesis by (simp add: raw_reply_def split: write_result.split)
qed

lemma reply_typed: "typed s \<Longrightarrow> (case case hop of None \<Rightarrow> (Rx_next, s) | Some (f, d) \<Rightarrow> raw_reply f d (bytes f) s of (r, s) \<Rightarrow> typed s)"
  using raw_reply_typed by (simp add: split_def split: option.split)

lemma recv_unicast_typed: "typed s \<Longrightarrow> ensures (\<lambda>(r, s). typed s) (recv_unicast d h bytes s)"
  unfolding recv_unicast_def by (rule ens_any ens reply_typed ens_prod | simp)+

lemma icmp_answer_typed: "typed s \<Longrightarrow> ensures (\<lambda>(r, s). typed s) (icmp_answer m d p rest s)"
  unfolding icmp_answer_def by (rule ens_any ens reply_typed ens_prod | simp)+

lemma recv_icmp_typed: "typed s \<Longrightarrow> ensures (\<lambda>(r, s). typed s) (recv_icmp d h bytes s)"
  unfolding recv_icmp_def by (rule icmp_answer_typed ens_any ens reply_typed ens_prod | simp split: option.split)+

lemma rebroadcast_typed: "typed s \<Longrightarrow> ensures (\<lambda>(r, c, s). typed s) (rebroadcast d bytes cur js s)"
proof (induction js arbitrary: cur s)
  case (Cons j js)
  have reply: "typed t" if "raw_reply f d bytes s = (r, t)" for f r t
    using raw_reply_typed [of f d bytes s] that Cons.prems by simp
  show ?case unfolding rebroadcast.simps
    by (rule ens_any, rule ens_prod, rename_tac r t, case_tac r) (simp_all add: Cons.IH reply ens_Some)
qed (simp add: ens_Some)

lemma recv_bcast_typed: "typed s \<Longrightarrow> ensures (\<lambda>(r, c, s). typed s) (recv_bcast cur d h bytes s)"
  unfolding recv_bcast_def by (rule rebroadcast_typed ens_any ens ens_prod | simp add: typed_same)+

lemma recv_frame_typed: "typed s \<Longrightarrow> ensures (\<lambda>(r, c, s). typed s) (recv_frame cur d h bytes s)"
  using recv_unicast_typed [of s d h bytes] recv_icmp_typed [of s d h bytes] recv_bcast_typed [of s cur d h bytes]
  by (auto simp: recv_frame_def ens_Some ensures_def split: list.split option.split)

lemma bcast_on_all_typed: "typed s \<Longrightarrow> ensures (\<lambda>(r, s). typed s) (bcast_on_all bytes js s)"
proof (induction js arbitrary: s)
  case (Cons j js)
  then show ?case unfolding bcast_on_all.simps
    by - (rule ens_any ens_let ens_prod ens_if Cons.IH ens_Some | simp add: send_packet_typed)+
qed (simp add: ens_Some)

lemma tap_frame_typed: "typed s \<Longrightarrow> ensures (\<lambda>(r, s). typed s) (tap_frame d h rest s)"
proof -
  assume s: "typed s"
  have b: "ensures (\<lambda>(r, s). typed s) (tap_broadcast x u)" if "typed u" for x u
    using that unfolding tap_broadcast_def by - (rule bcast_on_all_typed ens_any ens ens_prod | simp)+
  have p: "typed t" if "typed u" "send_packet x a c k u = (r, t)" for x a c k u r t using send_packet_typed that by blast
  have u: "ensures (\<lambda>(r, s). typed s) (tap_unicast a x u)" if "typed u" for a x u
    using that unfolding tap_unicast_def by - (rule ens_any ens ens_prod | simp split: prod.split | (auto intro: p)[1])+
  show ?thesis unfolding tap_frame_def
    by (rule b u calls ens_any ens_prod ens_let ens_if | simp add: s)+
qed

lemma handle_packet_typed: "typed s \<Longrightarrow> ensures typed (handle_packet buff u sock s)"
  unfolding handle_packet_def by (rule ens_any ens ens_prod | simp add: ens_Some del: fun_upd_apply)+

lemma vis_add_typed: "typed s \<Longrightarrow> ensures typed (vis_add junk d s)"
  by (auto simp: ensures_def vis_add_def vis_grow_def vis_put_def bind_eq_Some_conv Let_def split: if_splits)

lemma vis_interfaces_typed: "typed s \<Longrightarrow> ensures typed (vis_interfaces junk m js s)"
proof (induction js arbitrary: s)
  case (Cons j js)
  then show ?case unfolding vis_interfaces.simps by - (rule vis_add_typed [THEN ens_bind] ens_if ens_any | simp)+
qed (simp add: ens_Some)

lemma vis_hna_typed: "typed s \<Longrightarrow> ensures typed (vis_hna junk s)"
proof -
  have "ensures typed (vis_hna_loop ms u)" if "typed u" for ms u
    using that
  proof (induction ms arbitrary: u)
    case (Cons m ms)
    then show ?case unfolding vis_hna_loop.simps vis_put_def by - (rule ens_any ens | fastforce simp: bind_eq_Some_conv split: if_splits)+
  qed (simp add: ens_Some)
  note loop = this
  assume s: "typed s"
  show ?thesis unfolding vis_hna_def vis_grow_def by (rule ens_bind [where Q = typed], rule ens_any) (simp_all add: s ens_Some ens_None loop Let_def)
qed

lemma vis_typed: "typed s \<Longrightarrow> ensures typed (generate_vis_packet junk s)"
proof -
  assume s: "typed s"
  have "ensures (\<lambda>(b, s). typed s) (vis_neighbour junk p u)" if "typed u" for p u
    using that unfolding vis_neighbour_def by - (rule vis_add_typed [THEN ens_bind] ens_any ens ens_prod | simp)+
  note body = this
  have loop: "ensures (\<lambda>(h, s). typed s) (hash_loop (vis_neighbour junk) h it u)" if "typed u" for h it u
    by (rule hash_loop_ensures [OF body that])
  have opt: "ensures typed (if b then vis_interfaces junk m js u else Some u)" "ensures typed (if b then vis_hna junk u else Some u)"
    if "typed u" for b m js u using that by (simp_all add: vis_interfaces_typed vis_hna_typed ens_Some)
  show ?thesis unfolding generate_vis_packet_def
    by (rule loop [THEN ens_bind2] opt [THEN ens_bind] ens_any ens_prod ens_let ens_pair ens_Some | simp add: s)+
qed

lemma debug_typed: "typed s \<Longrightarrow> ensures (\<lambda>(ms, s). typed s) (debug_orig e s)"
  unfolding debug_orig_def get_time_def by (rule ens_any ens ens_prod | simp)+

section \<open>Reachable states\<close>

text \<open>The receive buffer of the main loop has 2000 bytes, 22 of them for the head of a message.\<close>

definition fits :: "action \<Rightarrow> bool" where
  "fits a \<longleftrightarrow> (case a of Ogm_action neigh p tail i \<Rightarrow> length tail \<le> 1978 | _ \<Rightarrow> True)"

lemma act_typed:
  assumes "typed s" "fits a" "act a s = Some t"
  shows "typed t"
proof -
  have "ensures typed (act a s)"
  proof (cases a)
    case Read_clock
    with assms(1) show ?thesis by (simp add: act_def get_time_def ens_Some)
  next
    case Read_tap
    with assms(1) show ?thesis by (simp add: act_def ens_Some)
  next
    case (Read_raw k)
    with assms(1) show ?thesis by (simp add: act_def ens_Some)
  next
    case (Tap_action d h rest)
    with tap_frame_typed [OF assms(1)] show ?thesis by (auto simp: act_def ensures_def)
  next
    case (Raw_action i d h bytes)
    with recv_frame_typed [OF assms(1)] show ?thesis by (fastforce simp: act_def ensures_def)
  next
    case (Ogm_action neigh p tail i)
    with process_ogm_typed [OF assms(1)] assms(2) show ?thesis by (simp add: act_def fits_def)
  next
    case (Client_action buff u sock)
    with handle_packet_typed [OF assms(1)] show ?thesis by (simp add: act_def)
  next
    case Hna_action
    with hna_update_typed [OF assms(1)] show ?thesis by (simp add: act_def)
  next
    case Send_action
    with send_outstanding_typed [OF assms(1)] show ?thesis by (auto simp: act_def ensures_def)
  next
    case Purge_action
    with purge_orig_typed [OF assms(1)] show ?thesis by (simp add: act_def)
  next
    case (Debug_action e)
    with debug_typed [OF assms(1)] show ?thesis by (auto simp: act_def ensures_def)
  next
    case (Vis_action junk)
    with vis_typed [OF assms(1)] show ?thesis by (simp add: act_def)
  qed
  with assms(3) show ?thesis by (simp add: ensures_def)
qed

text \<open>Moves of the main loop whose messages come from the receive buffer.\<close>

inductive fit_moves :: "bat_state \<Rightarrow> bat_state \<Rightarrow> bool" where
  fit_move: "enabled a s \<Longrightarrow> goes_on a s \<Longrightarrow> fits a \<Longrightarrow> act a s = Some t \<Longrightarrow> fit_moves s t"

inductive_cases fit_movesE: "fit_moves s t"

interpretation typed_moves: invariant_system fit_moves "\<lambda>t. typed t \<and> daemon_ok t"
proof
  fix s t
  assume "fit_moves s t" "typed s \<and> daemon_ok s"
  then show "typed t \<and> daemon_ok t" by (elim fit_movesE) (use act_typed act_ok in fastforce)
qed

lemma batman_init_typed:
  assumes "start_ok s" "batman_init s = Some (d, t)"
  shows "typed t"
proof -
  have "typed s" using assms(1) by (simp add: typed_def start_ok_def)
  have if_typed: "ensures typed (init_if i u)" if "typed u" for i u
    using that unfolding init_if_def by - (rule ens_any ens_let | simp add: schedule_own_typed)+
  have "ensures typed (init_ifs js u)" if "typed u" for js u
    using that
  proof (induction js arbitrary: u)
    case (Cons j js)
    show ?case unfolding init_ifs.simps by (rule ens_bind, rule if_typed [OF Cons.prems], rule Cons.IH)
  qed (simp add: ens_Some)
  note ifs = this
  have init: "ensures (\<lambda>(r, s). typed s) (transtable_init u)" if "typed u" for u
    using that unfolding transtable_init_def by - (rule calls ens_any ens ens_prod | simp)+
  have "ensures (\<lambda>(d, s). typed s) (batman_init s)" unfolding batman_init_def get_time_def
    by (rule ifs [THEN ens_bind] init [THEN ens_bind2] ens_let ens_pair ens_Some | simp add: \<open>typed s\<close>)+
  with assms(2) show ?thesis by (simp add: ensures_def)
qed

section \<open>Properties\<close>

text \<open>
  C8: the signed integers stay within their C types. In every state that the main loop reaches with
  messages from a receive buffer of 2000 bytes: the length of an announcement (\<open>int16_t\<close>) is at most
  1530, the penalty (\<open>int\<close>) is not negative, the length of a queued message (\<open>int16_t\<close>) is at most 2000,
  the number of an interface fits into an \<open>int16_t\<close>, and the number of the hosts that are announced fits
  into the 8 bits of the message, although the code counts it in 32 bits.
\<close>

theorem signed_in_range:
  assumes "start_ok s0" "batman_init s0 = Some (d, s)" "fit_moves\<^sup>*\<^sup>* s t"
  shows "(\<forall>p n. orig_heap t p = Some n \<longrightarrow> 0 \<le> hna_buff_len n \<and> hna_buff_len n \<le> 1530 \<and> 0 \<le> tq_asym_penalty n \<and> tq_asym_penalty n < 2 ^ 31) \<and>
    (\<forall>x \<in> set (forw_list t). sizeof_batman_packet + int (length (pack_tail (snd x))) \<le> 2000) \<and>
    (\<forall>i f. if_heap t i = Some f \<longrightarrow> 0 \<le> if_num f \<and> if_num f < 2 ^ 15) \<and>
    uint (ucast (g_num_hna t) :: u8) = uint (g_num_hna t)"
proof -
  have "typed s \<and> daemon_ok s" using batman_init_typed [OF assms(1,2)] batman_init_ok [OF assms(1)] assms(2) by auto
  with typed_moves.star_inv [OF assms(3)] have t: "typed t" "if_nums_ok t" by (simp_all add: daemon_ok_def bat_ok_def net_ok_def)
  have "if_num f < 2 ^ 15" if "if_heap t i = Some f" for i f
  proof -
    have "if_num f < int (unat (found_ifs t))" using t(2) that unfolding if_nums_ok_def by blast
    moreover have "int (unat (found_ifs t)) \<le> 255" using unat_u8_le [of "found_ifs t"] by linarith
    ultimately show ?thesis by simp
  qed
  moreover have "uint (g_num_hna t) \<le> 255" using t(1) by (simp add: typed_def word_le_def)
  then have "uint (ucast (g_num_hna t) :: u8) = uint (g_num_hna t)" by (simp add: uint_up_ucast unsigned_ucast_eq take_bit_int_eq_self)
  ultimately show ?thesis using t by (fastforce simp: typed_def fields_ok_def if_nums_ok_def sizeof_batman_packet_def)
qed

theorem signed_in_range_witness:
  "\<exists>d s t m h rest. batman_init example_state = Some (d, s) \<and> act (Tap_action m h rest) s = Some t \<and> forw_list t \<noteq> [] \<and>
     (\<forall>x \<in> set (forw_list t). sizeof_batman_packet + int (length (pack_tail (snd x))) \<le> 2000)"
proof -
  obtain d s where s: "batman_init example_state = Some (d, s)" "daemon_ok s"
    using batman_init_ok [OF example_start_ok] by auto
  have en: "enabled (Tap_action m h rest) s" "goes_on (Tap_action m h rest) s" "fits (Tap_action m h rest)"
    by (simp_all add: enabled_def goes_on_def fits_def)
  with act_ok [OF s(2)] obtain t where t: "act (Tap_action m h rest) s = Some t" "daemon_ok t" by blast
  have "fit_moves\<^sup>*\<^sup>* s t" using fit_move [OF en t(1)] by blast
  from signed_in_range [OF example_start_ok s(1) this]
  have "\<forall>x \<in> set (forw_list t). sizeof_batman_packet + int (length (pack_tail (snd x))) \<le> 2000" by blast
  moreover have "forw_list t \<noteq> []" using daemon_timeout [OF t(2)] by (auto simp: select_timeout_def)
  ultimately show ?thesis using s(1) t(1) by blast
qed

end
