(* ===== verification/Ping.thy ===== *)
theory Ping
  imports Two_Threads
begin

text \<open>
  A ping over the mesh: a client of one node sends an echo request, the nodes on the way hand it on, the
  node of the destination answers, the answer travels back, and the thread of the main loop writes it to
  the socket of the client. Every node has its own state and byte order.
\<close>

section \<open>Byte orders\<close>

text \<open>The packet that a node reads from the bytes that a node with another byte order has written.\<close>

definition swap_seqno :: "bool \<Rightarrow> bool \<Rightarrow> icmp_packet \<Rightarrow> icmp_packet" where
  "swap_seqno le le' p = (if le = le' then p else p\<lparr>icmp_seqno := htons True (icmp_seqno p)\<rparr>)"

lemma swap_seqno_simps [simp]:
  "icmp_packet_type (swap_seqno le le' p) = icmp_packet_type p" "msg_type (swap_seqno le le' p) = msg_type p" "dst (swap_seqno le le' p) = dst p"
  "icmp_orig (swap_seqno le le' p) = icmp_orig p" "icmp_ttl (swap_seqno le le' p) = icmp_ttl p" "uid (swap_seqno le le' p) = uid p"
  by (simp_all add: swap_seqno_def)

lemma swap_seqno_update:
  "(swap_seqno le le' p)\<lparr>icmp_ttl := l\<rparr> = swap_seqno le le' (p\<lparr>icmp_ttl := l\<rparr>)"
  "(swap_seqno le le' p)\<lparr>dst := a, icmp_orig := b, msg_type := m, icmp_ttl := l\<rparr> =
   swap_seqno le le' (p\<lparr>dst := a, icmp_orig := b, msg_type := m, icmp_ttl := l\<rparr>)"
  by (simp_all add: swap_seqno_def)

lemma bytes_swap_seqno: "bytes_of_icmp_packet le' (swap_seqno le le' p) = bytes_of_icmp_packet le p"
  by (cases le; cases le') (simp_all add: swap_seqno_def bytes_of_icmp_packet_def u16_bytes_def htons_def)

lemma icmp_read_other: "icmp_packet_at le' (bytes_of_icmp_packet le p @ rest) = Some (swap_seqno le le' p, rest)"
  using icmp_packet_at_bytes [of le' "swap_seqno le le' p" rest] by (simp add: bytes_swap_seqno)

section \<open>The way through the mesh\<close>

lemma icmp_relay:
  assumes "mesh_ok M" "on_the_way (dst p) path" "follows M (dst p) s (path @ [x])" "hop_of s (dst p) = Some (b, addr)"
    and "icmp_packet_type p = BAT_ICMP" "length path < unat (icmp_ttl p)"
  shows "\<exists>c r. relay M (length path) (frame_via b addr (bytes_of_icmp_packet le p @ rest)) =
      Some (frame_via c r (bytes_of_icmp_packet le (p\<lparr>icmp_ttl := icmp_ttl p - of_nat (length path)\<rparr>) @ rest)) \<and> M (hw_addr c) r = Some x"
proof -
  let ?pk = "\<lambda>k. bytes_of_icmp_packet le (p\<lparr>icmp_ttl := icmp_ttl p - of_nat k\<rparr>) @ rest"
  have "\<exists>res cur t'. recv_frame i d h (?pk k) t = Some (res, cur, t') \<and> sent t' = frame_via c r (?pk (Suc k)) # sent t"
    if k: "k < length path" and t: "bat_ok t" "\<not> my_mac t (dst p)" "\<forall>j. writes t j = Written" "\<not> is_broadcast_address d" "\<not> is_broadcast_address h"
      "hop_of t (dst p) = Some (c, r)" for k i t d h c r
  proof -
    let ?le = "little_endian t"
    let ?q = "swap_seqno le ?le (p\<lparr>icmp_ttl := icmp_ttl p - of_nat k\<rparr>)"
    obtain res t' where rc: "recv_icmp d h (?pk k) t = Some (res, t')" "icmp_effect t d ?q rest (?pk k) res t'"
      using recv_icmp_eq [OF t(1,4,5) icmp_read_other] by blast
    have "routed t (Some (c, r)) (bytes_of_icmp_packet ?le (?q\<lparr>icmp_ttl := icmp_ttl p - of_nat k - 1\<rparr>) @ rest) res t'"
      using rc(2) t(2,6) ttl_left [OF k assms(6)] by (simp add: icmp_effect_def)
    then have "routed t (Some (c, r)) (?pk (Suc k)) res t'" by (simp only: swap_seqno_update bytes_swap_seqno) (simp add: algebra_simps)
    with rc(1) t(3) recv_frame_icmp [of "p\<lparr>icmp_ttl := icmp_ttl p - of_nat k\<rparr>" i d h le rest t] assms(5) show ?thesis
      by (auto simp: routed_def frame_via_def)
  qed
  then have "\<exists>c r. relay M (length path) (frame_via b addr (?pk 0)) = Some (frame_via c r (?pk (length path))) \<and> M (hw_addr c) r = Some x"
    by (rule relay_path [OF assms(1-4)])
  then show ?thesis by simp
qed

section \<open>The destination\<close>

lemma icmp_answered:
  assumes "bat_ok s" "my_mac s (dst p)" "icmp_packet_type p = BAT_ICMP" "msg_type p = ECHO_REQUEST" "hop_of s (icmp_orig p) = Some (b, addr)"
    and "\<forall>j. writes s j = Written" "\<not> is_broadcast_address d" "\<not> is_broadcast_address h"
  shows "\<exists>s'. recv_frame i d h (bytes_of_icmp_packet le p @ rest) s = Some (Rx_next, i, s') \<and> sent s' = frame_via b addr
    (bytes_of_icmp_packet le (p\<lparr>dst := icmp_orig p, icmp_orig := d, msg_type := ECHO_REPLY, icmp_ttl := TTL\<rparr>) @ rest) # sent s"
proof -
  let ?le = "little_endian s"
  let ?q = "swap_seqno le ?le p" and ?up = "\<lambda>p. p\<lparr>dst := icmp_orig p, icmp_orig := d, msg_type := ECHO_REPLY, icmp_ttl := TTL\<rparr>"
  obtain res s' where r: "recv_icmp d h (bytes_of_icmp_packet le p @ rest) s = Some (res, s')"
      "icmp_effect s d ?q rest (bytes_of_icmp_packet le p @ rest) res s'"
    using recv_icmp_eq [OF assms(1,7,8) icmp_read_other] by blast
  have "routed s (Some (b, addr)) (bytes_of_icmp_packet ?le (?q\<lparr>dst := icmp_orig p, icmp_orig := d, msg_type := ECHO_REPLY, icmp_ttl := TTL\<rparr>) @ rest) res s'"
    using r(2) assms(2,4,5) by (simp add: icmp_effect_def)
  then have "routed s (Some (b, addr)) (bytes_of_icmp_packet le (?up p) @ rest) res s'"
    by (simp only: swap_seqno_update bytes_swap_seqno)
  with r(1) assms(6) recv_frame_icmp [OF assms(3), of i d h le rest s] show ?thesis by (auto simp: routed_def frame_via_def)
qed

section \<open>The node of the client\<close>

text \<open>A request of a client goes to the router with a number that leads back to the client.\<close>

lemma client_pings:
  assumes "threads_ok s" "owned s" "open_client s p c" "cl_uid c \<noteq> 0 \<or> free_uid s \<noteq> None"
    and "icmp_packet_type q = BAT_ICMP" "msg_type q = ECHO_REQUEST" "0 < icmp_ttl q" "hop_of (daemon s) (dst q) = Some (b, addr)"
    and "\<forall>j. writes (daemon s) j = Written" "buff = x # y # bytes_of_icmp_packet (little_endian (daemon s)) q"
  shows "\<exists>s' c' fr. client_packet buff p s = Some s' \<and> threads_ok s' \<and> owned s' \<and> open_client s' p c' \<and> cl_sock c' = cl_sock c \<and>
    unix_packet_ptr s' (cl_uid c') = Some p \<and> sent (daemon s') = fr # sent (daemon s) \<and>
    fr = frame_via b addr (bytes_of_icmp_packet (little_endian (daemon s)) (q\<lparr>uid := cl_uid c', icmp_orig := hw_addr b\<rparr>))"
proof -
  let ?le = "little_endian (daemon s)"
  have len: "int (length buff) = sizeof_icmp_packet + 2" by (simp add: assms(10) sizeof_icmp_packet_def)
  have clients: "clients_ok s" "clients s p = Some c" using assms(1,3) by (simp_all add: threads_ok_def open_client_def)
  have ok: "bat_ok (daemon s)" using clients(1) by (simp add: clients_ok_def daemon_ok_def)
  obtain t u where t: "(if cl_uid c = 0 then assign_uid p s else Some s) = Some t" "clients_ok t"
      "open_client t p (c\<lparr>cl_uid := u\<rparr>)" "daemon t = daemon s" "unix_packet_ptr t u = Some p"
  proof (cases "cl_uid c = 0")
    case True
    then obtain i where i: "free_uid s = Some i" using assms(4) by auto
    have c: "c\<lparr>cl_uid := i\<rparr> = c\<lparr>cl_uid := u\<rparr>" if "open_client t p (c\<lparr>cl_uid := u\<rparr>)"
        "t = put_client p (c\<lparr>cl_uid := i\<rparr>) (s\<lparr>unix_packet_ptr := (unix_packet_ptr s)(i := Some p)\<rparr>)" for t u
      using that by (simp add: open_client_def)
    from assign_uid_ok [OF clients(1) assms(3) True] i True obtain t u where
      "assign_uid p s = Some t" "clients_ok t" "open_client t p (c\<lparr>cl_uid := u\<rparr>)" "daemon t = daemon s"
      "t = put_client p (c\<lparr>cl_uid := i\<rparr>) (s\<lparr>unix_packet_ptr := (unix_packet_ptr s)(i := Some p)\<rparr>)" by auto
    with c [of t u] that [of t i] True show ?thesis by simp
  next
    case False
    have "c\<lparr>cl_uid := cl_uid c\<rparr> = c" by (cases c) simp
    moreover have "unix_packet_ptr s (cl_uid c) = Some p" using False assms(2) clients(2) by (simp add: owned_def)
    ultimately show ?thesis using False clients(1) assms(3) that [of s "cl_uid c"] by simp
  qed
  obtain w fs where w: "rawsock_write (raw_sock b) (hw_addr b) addr
      (bytes_of_icmp_packet ?le (q\<lparr>uid := u, icmp_orig := hw_addr b\<rparr>)) (daemon s) = (Written, wrote (daemon s) w fs)"
      "fs = [\<lparr>f_sock = raw_sock b, f_shost = hw_addr b, f_dhost = addr, f_bytes = bytes_of_icmp_packet ?le (q\<lparr>uid := u, icmp_orig := hw_addr b\<rparr>)\<rparr>]"
    using rawsock_write_once [of "raw_sock b" "hw_addr b" addr "bytes_of_icmp_packet ?le (q\<lparr>uid := u, icmp_orig := hw_addr b\<rparr>)" "daemon s"] assms(9)
    by auto
  have at: "icmp_packet_at ?le (drop 2 buff) = Some (q, [])" using icmp_packet_at_bytes [of ?le q "[]"] by (simp add: assms(10))
  have hp: "handle_packet (drop 2 buff) u k (daemon s) = Some (wrote (daemon s) w fs)" for k
    using assms(5-8) at w(1) next_hop_eq [OF bat_ok_net [OF ok]] by (simp add: handle_packet_def word_gt_0)
  define s' where "s' = t\<lparr>daemon := wrote (daemon s) w fs\<rparr>"
  have eq: "client_packet buff p s = Some s'"
    using len clients(2) t hp by (simp add: client_packet_def open_client_def s'_def)
  obtain s2 where "client_packet buff p s = Some s2" "clients_ok s2" "socks_same s s2" using client_packet_ok [OF clients(1) assms(3)] by blast
  then have "threads_ok s'" using eq assms(1) socks_same_audible [of s s'] by (simp add: threads_ok_def) (simp add: socks_same_def)
  moreover have "owned s'" using kept_packet [OF eq] assms(2) by (simp add: kept_def)
  ultimately show ?thesis using eq t(3,5) w(2) by (auto simp: s'_def open_client_def wrote_def frame_via_def intro!: exI [of _ "c\<lparr>cl_uid := u\<rparr>"])
qed

section \<open>Properties\<close>

text \<open>
  C11: a ping and its answer. A client of the first node sends an echo request to an address of another
  node; the routers lead to that node, over fewer nodes than the time to live of the request, and from
  there back to the interface over which the request has left, over at most 49 nodes. Every frame on the
  way is received under the address to which the node before has sent it. Then the request reaches the
  destination, the destination answers from the interface that the request came in on, and the answer
  reaches the first node. When it is read there, after any actions of both threads and as long as the
  client is connected and the interface has its address, the client gets it on its socket: an echo reply
  with the address of the destination and the sequence number of the request.
\<close>

theorem ping_round_trip:
  assumes "clients_start s0" "threads\<^sup>*\<^sup>* (unix_start s0) s" "p \<in> set (client_list s)" "clients s p = Some c"
    and "cl_uid c \<noteq> 0 \<or> free_uid s \<noteq> None" "icmp_packet_type q = BAT_ICMP" "msg_type q = ECHO_REQUEST"
    and "hop_of (daemon s) (dst q) = Some (b, addr)" "\<forall>j. writes (daemon s) j = Written" "mesh_ok M"
    and "follows M (dst q) (daemon s) (path @ [(j, s2)])" "on_the_way (dst q) path" "length path < unat (icmp_ttl q)"
    and "my_mac s2 (dst q)" "\<forall>j. writes s2 j = Written"
    and "follows M (hw_addr b) s2 (rpath @ [(i, daemon s)])" "on_the_way (hw_addr b) rpath" "length rpath < 50"
    and "le = little_endian (daemon s)"
  shows "\<exists>s' fr fr1 s2' fr2 fr3 reply.
    client_packet (112 # y # bytes_of_icmp_packet le q) p s = Some s' \<and> sent (daemon s') = fr # sent (daemon s) \<and> leaves (daemon s) fr \<and>
    relay M (length path) fr = Some fr1 \<and> M (f_shost fr1) (f_dhost fr1) = Some (j, s2) \<and>
    recv_frame j (f_dhost fr1) (f_shost fr1) (f_bytes fr1) s2 = Some (Rx_next, j, s2') \<and> sent s2' = fr2 # sent s2 \<and> leaves s2 fr2 \<and>
    relay M (length rpath) fr2 = Some fr3 \<and> M (f_shost fr3) (f_dhost fr3) = Some (i, daemon s) \<and>
    icmp_packet_at le (f_bytes fr3) = Some (reply, []) \<and>
    msg_type reply = ECHO_REPLY \<and> icmp_orig reply = hw_addr (the (if_heap s2 j)) \<and> icmp_seqno reply = icmp_seqno q \<and>
    (\<forall>s3. threads\<^sup>*\<^sup>* s' s3 \<and> clients s3 p \<noteq> None \<and> my_mac (daemon s3) (hw_addr b) \<longrightarrow>
      (\<exists>s4. main_act (Raw_action i (f_dhost fr3) (f_shost fr3) (f_bytes fr3)) s3 = Some s4 \<and>
        unix_written (daemon s4) = (cl_sock c, f_bytes fr3) # unix_written (daemon s3)))"
proof -
  note ok = reachable_threads_ok [OF assms(1,2)]
  have "\<exists>c. open_client s p c" using ok(1) assms(3) by (simp add: threads_ok_def clients_ok_def)
  then have c: "open_client s p c" using assms(4) by (auto simp: open_client_def)
  have ok1: "bat_ok (daemon s)" using ok(1) by (simp add: threads_ok_def clients_ok_def daemon_ok_def)
  have ttl: "0 < icmp_ttl q" "unat TTL = 50" using assms(13) by (simp_all add: word_less_nat_alt TTL_def)
  obtain s' c' fr where s': "client_packet (112 # y # bytes_of_icmp_packet le q) p s = Some s'" "threads_ok s'" "owned s'" "open_client s' p c'"
      "cl_sock c' = cl_sock c" "unix_packet_ptr s' (cl_uid c') = Some p" "sent (daemon s') = fr # sent (daemon s)"
      "fr = frame_via b addr (bytes_of_icmp_packet le (q\<lparr>uid := cl_uid c', icmp_orig := hw_addr b\<rparr>))"
    using client_pings [OF ok c assms(5,6,7) ttl(1) assms(8,9), of "112 # y # bytes_of_icmp_packet le q" 112 y] assms(19) by auto
  define q1 where "q1 = q\<lparr>uid := cl_uid c', icmp_orig := hw_addr b\<rparr>"
  define q2 where "q2 = q1\<lparr>icmp_ttl := icmp_ttl q1 - of_nat (length path)\<rparr>"
  obtain c1 r1 where go: "relay M (length path) fr = Some (frame_via c1 r1 (bytes_of_icmp_packet le q2))" "M (hw_addr c1) r1 = Some (j, s2)"
    using icmp_relay [of M q1 path "daemon s" "(j, s2)" b addr le "[]"] assms(6,8,10-13) s'(8) by (auto simp: q1_def q2_def)
  have m: "\<not> is_broadcast_address (hw_addr c1)" "\<not> is_broadcast_address r1" "bat_ok s2" "hw_addr (the (if_heap s2 j)) = r1"
    using assms(10) go(2) unfolding mesh_ok_def by blast+
  obtain b2 addr2 where hop2: "hop_of s2 (hw_addr b) = Some (b2, addr2)" using assms(16) by (cases rpath) (auto split: option.splits)
  define q3 where "q3 = q2\<lparr>dst := icmp_orig q2, icmp_orig := r1, msg_type := ECHO_REPLY, icmp_ttl := TTL\<rparr>"
  define q4 where "q4 = q3\<lparr>icmp_ttl := icmp_ttl q3 - of_nat (length rpath)\<rparr>"
  have q4: "icmp_packet_type q4 = BAT_ICMP" "msg_type q4 = ECHO_REPLY" "dst q4 = hw_addr b" "icmp_orig q4 = r1" "uid q4 = cl_uid c'"
      "icmp_seqno q4 = icmp_seqno q" using assms(6) by (simp_all add: q1_def q2_def q3_def q4_def)
  obtain s2' where ans: "recv_frame j r1 (hw_addr c1) (bytes_of_icmp_packet le q2) s2 = Some (Rx_next, j, s2')"
      "sent s2' = frame_via b2 addr2 (bytes_of_icmp_packet le q3) # sent s2"
    using icmp_answered [OF m(3), of q2 b2 addr2 r1 "hw_addr c1" j le "[]"] assms(6,7,14,15) hop2 m(1,2) by (auto simp: q1_def q2_def q3_def)
  obtain c3 r3 where home: "relay M (length rpath) (frame_via b2 addr2 (bytes_of_icmp_packet le q3)) = Some (frame_via c3 r3 (bytes_of_icmp_packet le q4))"
      "M (hw_addr c3) r3 = Some (i, daemon s)"
    using icmp_relay [of M q3 rpath s2 "(i, daemon s)" b2 addr2 le "[]"] assms(6,10,16-18) hop2 ttl(2) by (auto simp: q1_def q2_def q3_def q4_def)
  have m3: "\<not> is_broadcast_address (hw_addr c3)" "\<not> is_broadcast_address r3" using assms(10) home(2) unfolding mesh_ok_def by blast+
  have last: "\<exists>s4. main_act (Raw_action i r3 (hw_addr c3) (bytes_of_icmp_packet le q4)) s3 = Some s4 \<and>
      unix_written (daemon s4) = (cl_sock c, bytes_of_icmp_packet le q4) # unix_written (daemon s3)"
    if s3: "threads\<^sup>*\<^sup>* s' s3" "clients s3 p \<noteq> None" "my_mac (daemon s3) (hw_addr b)" for s3
  proof -
    let ?le = "little_endian (daemon s3)"
    have "bytes_of_icmp_packet le q4 = bytes_of_icmp_packet ?le (swap_seqno le ?le q4) @ []" by (simp add: bytes_swap_seqno)
    moreover have "ECHO_REPLY \<noteq> ECHO_REQUEST" by (simp add: ECHO_REPLY_def ECHO_REQUEST_def)
    ultimately show ?thesis
      using answer_reaches_client [OF s'(2-4), of "swap_seqno le ?le q4" s3 r3 "hw_addr c3" "bytes_of_icmp_packet le q4" "[]" i] s'(5,6) s3 q4 m3
      by (auto simp: bytes_swap_seqno)
  qed
  have at: "icmp_packet_at le (bytes_of_icmp_packet le q4) = Some (q4, [])" using icmp_packet_at_bytes [of le q4 "[]"] by simp
  have lv: "leaves (daemon s) fr" "leaves s2 (frame_via b2 addr2 (bytes_of_icmp_packet le q3))"
    using leaves_hop [OF ok1 assms(8)] leaves_hop [OF m(3) hop2] s'(8) by simp_all
  show ?thesis
    by (rule exI [of _ s'], rule exI [of _ fr], rule exI [of _ "frame_via c1 r1 (bytes_of_icmp_packet le q2)"], rule exI [of _ s2'],
      rule exI [of _ "frame_via b2 addr2 (bytes_of_icmp_packet le q3)"], rule exI [of _ "frame_via c3 r3 (bytes_of_icmp_packet le q4)"], rule exI [of _ q4])
      (use s'(1,7) lv go ans home at q4 m(4) last in simp)
qed

text \<open>
  The client of the node with the address 1 pings the address 9. The request goes over a node with the
  address 7, the answer over one with the address 8.
\<close>

theorem ping_round_trip_witness:
  "\<exists>M s s' fr fr1 s2 s2' fr2 fr3 reply home.
    client_packet (112 # 58 # bytes_of_icmp_packet True \<lparr>icmp_packet_type = BAT_ICMP, icmp_version = 5, msg_type = ECHO_REQUEST,
       dst = MAC 2 0 0 0 0 9, icmp_orig = MAC 0 0 0 0 0 0, icmp_ttl = 50, uid = 0, icmp_seqno = 7\<rparr>) 50 s = Some s' \<and>
    sent (daemon s') = fr # sent (daemon s) \<and> relay M 1 fr = Some fr1 \<and> M (f_shost fr1) (f_dhost fr1) = Some (10, s2) \<and>
    M (MAC 2 0 0 0 0 7) (MAC 2 0 0 0 0 9) = Some (10, s2) \<and>
    recv_frame 10 (f_dhost fr1) (f_shost fr1) (f_bytes fr1) s2 = Some (Rx_next, 10, s2') \<and> sent s2' = fr2 # sent s2 \<and>
    relay M 1 fr2 = Some fr3 \<and> M (f_shost fr3) (f_dhost fr3) = Some (10, home) \<and> M (MAC 2 0 0 0 0 8) (MAC 2 0 0 0 0 1) = Some (10, home) \<and>
    icmp_packet_at True (f_bytes fr3) = Some (reply, []) \<and> msg_type reply = ECHO_REPLY \<and> icmp_orig reply = MAC 2 0 0 0 0 9 \<and> icmp_seqno reply = 7"
proof -
  let ?a1 = "MAC 2 0 0 0 0 1" and ?a7 = "MAC 2 0 0 0 0 7" and ?a8 = "MAC 2 0 0 0 0 8" and ?a9 = "MAC 2 0 0 0 0 9"
  have ne: "?a9 \<noteq> ?a1" "?a9 \<noteq> ?a7" "?a1 \<noteq> ?a9" "?a1 \<noteq> ?a8" "?a9 \<noteq> MAC 2 0 0 0 0 2" "?a1 \<noteq> MAC 2 0 0 0 0 2" by simp_all
  obtain b0 b where b0: "bat_ok b0" "if_list b0 = [10, 11]" "if_heap b0 10 = Some b" "hw_addr b = ?a1" "hop_of b0 ?a9 = Some (b, ?a7)"
      "\<forall>j. writes b0 j = Written" "little_endian b0" "originator_interval b0 = 1000"
      "map (\<lambda>x. the (if_outgoing (snd x))) (filter (\<lambda>x. own (snd x)) (forw_list b0)) = [10, 11]"
    using example_node [OF ne(1,5), of ?a7] by (elim exE conjE)
  have dok: "daemon_ok b0" using b0 by (simp add: daemon_ok_def own_ifs_def JITTER_def)
  obtain t c where t: "bat_ok t" "if_list t = [10, 11]" "if_heap t 10 = Some c" "hw_addr c = ?a7" "hop_of t ?a9 = Some (c, ?a9)"
      "\<not> my_mac t ?a9" "\<forall>j. writes t j = Written" using example_node [OF ne(2,5), of ?a9] by blast
  obtain s2 e where s2: "bat_ok s2" "if_list s2 = [10, 11]" "if_heap s2 10 = Some e" "hw_addr e = ?a9" "hop_of s2 ?a1 = Some (e, ?a8)"
      "my_mac s2 ?a9" "\<forall>j. writes s2 j = Written" using example_node [OF ne(3,6), of ?a8] by blast
  obtain t2 f where t2: "bat_ok t2" "if_list t2 = [10, 11]" "if_heap t2 10 = Some f" "hw_addr f = ?a8" "hop_of t2 ?a1 = Some (f, ?a1)"
      "\<not> my_mac t2 ?a1" "\<forall>j. writes t2 j = Written" using example_node [OF ne(4,6), of ?a1] by blast
  obtain s where s: "clients_start (example_clients b0)" "threads\<^sup>*\<^sup>* (unix_start (example_clients b0)) s"
      "clients s 50 = Some \<lparr>cl_sock = 7, cl_level = 0, cl_uid = 1\<rparr>" "client_list s = [50]" "daemon s = b0"
    using example_numbered_in [OF dok] by blast
  define M where "M = (\<lambda>h d. if h = ?a1 \<and> d = ?a7 then Some (10 :: nat, t) else if h = ?a7 \<and> d = ?a9 then Some (10, s2)
      else if h = ?a9 \<and> d = ?a8 then Some (10, t2) else if h = ?a8 \<and> d = ?a1 then Some (10, b0) else None)"
  have links: "M ?a1 ?a7 = Some (10, t)" "M ?a7 ?a9 = Some (10, s2)" "M ?a9 ?a8 = Some (10, t2)" "M ?a8 ?a1 = Some (10, b0)" by (simp_all add: M_def)
  have nb: "\<not> is_broadcast_address (MAC 2 0 0 0 0 k)" for k by (simp add: is_broadcast_address_def broadcastAddr_def)
  have mesh: "mesh_ok M" unfolding mesh_ok_def M_def using b0 t s2 t2 nb by auto
  define q where "q = \<lparr>icmp_packet_type = BAT_ICMP, icmp_version = 5, msg_type = ECHO_REQUEST,
       dst = ?a9, icmp_orig = MAC 0 0 0 0 0 0, icmp_ttl = 50, uid = 0, icmp_seqno = 7\<rparr>"
  have q: "icmp_packet_type q = BAT_ICMP" "msg_type q = ECHO_REQUEST" "icmp_seqno q = 7" "dst q = ?a9" "length [(10 :: nat, t)] < unat (icmp_ttl q)"
    by (simp_all add: q_def)
  have pre: "50 \<in> set (client_list s)" "cl_uid \<lparr>cl_sock = 7, cl_level = 0, cl_uid = 1\<rparr> \<noteq> 0 \<or> free_uid s \<noteq> None"
      "hop_of (daemon s) (dst q) = Some (b, ?a7)" "\<forall>j. writes (daemon s) j = Written" "True = little_endian (daemon s)"
    using b0 s q(4) by simp_all
  have go: "follows M (dst q) (daemon s) ([(10, t)] @ [(10, s2)])" "on_the_way (dst q) [(10, t)]" "my_mac s2 (dst q)"
    using b0 t s2 links s(5) q(4) by (simp_all add: on_the_way_def)
  have home: "follows M (hw_addr b) s2 ([(10, t2)] @ [(10, daemon s)])" "on_the_way (hw_addr b) [(10, t2)]" "length [(10 :: nat, t2)] < 50"
    using b0 s2 t2 links s(5) by (simp_all add: on_the_way_def)
  have len: "length [(10 :: nat, x)] = 1" for x :: bat_state by simp
  have e: "hw_addr (the (if_heap s2 10)) = ?a9" using s2 by simp
  from ping_round_trip [OF s(1,2) pre(1) s(3) pre(2) q(1,2) pre(3,4) mesh go(1,2) q(5) go(3) s2(7) home pre(5), of 58, unfolded q(3) e len]
  obtain s' fr fr1 s2' fr2 fr3 reply where
    "client_packet (112 # 58 # bytes_of_icmp_packet True q) 50 s = Some s'" "sent (daemon s') = fr # sent (daemon s)"
    "relay M 1 fr = Some fr1" "M (f_shost fr1) (f_dhost fr1) = Some (10, s2)"
    "recv_frame 10 (f_dhost fr1) (f_shost fr1) (f_bytes fr1) s2 = Some (Rx_next, 10, s2')" "sent s2' = fr2 # sent s2"
    "relay M 1 fr2 = Some fr3" "M (f_shost fr3) (f_dhost fr3) = Some (10, daemon s)"
    "icmp_packet_at True (f_bytes fr3) = Some (reply, [])" "msg_type reply = ECHO_REPLY" "icmp_orig reply = ?a9" "icmp_seqno reply = 7" by blast
  with links(2,4) s(5) show ?thesis unfolding q_def by blast
qed

end
