(* ===== verification/Plain_Allocate.thy ===== *)
theory Plain_Allocate
  imports Allocate
begin

text \<open>
  What the daemon relies on when it asks for memory (the locale \<open>allocator\<close>), and that both versions
  of \<open>src/allocate.c\<close> provide it: the checking one (\<open>Allocate\<close>), and the one without
  \<open>DEBUG_MALLOC\<close>, whose functions call the C library and leave the daemon when it has no memory.
\<close>

section \<open>The allocator without checks\<close>

text \<open>
  The memory that the C library has handed out, with its bytes. The library answers every request with
  the contents of the new memory, or with none, and says whether \<open>realloc\<close> moves a block.
\<close>

record plain_state =
  p_gives :: "nat \<Rightarrow> (nat \<Rightarrow> u8) option"
  p_moves :: "nat \<Rightarrow> bool"
  p_requests :: nat
  p_brk :: nat
  p_blocks :: "nat \<rightharpoonup> u8 list"

text \<open>The functions of the C library. Freeing or resizing what is no block is undefined.\<close>

definition libc_malloc :: "u32 \<Rightarrow> plain_state \<Rightarrow> nat option \<times> plain_state" where
  "libc_malloc len s =
     (case p_gives s (p_requests s) of
        None \<Rightarrow> (None, s\<lparr>p_requests := Suc (p_requests s)\<rparr>)
      | Some junk \<Rightarrow> (Some (p_brk s), s\<lparr>p_requests := Suc (p_requests s), p_brk := Suc (p_brk s),
          p_blocks := (p_blocks s)(p_brk s \<mapsto> map junk [0 ..< unat len])\<rparr>))"

definition libc_free :: "nat option \<Rightarrow> plain_state \<Rightarrow> plain_state option" where
  "libc_free mem s =
     (case mem of
        None \<Rightarrow> Some s
      | Some p \<Rightarrow> do { bytes \<leftarrow> p_blocks s p; Some (s\<lparr>p_blocks := (p_blocks s)(p := None)\<rparr>) })"

definition libc_realloc :: "nat option \<Rightarrow> u32 \<Rightarrow> plain_state \<Rightarrow> (nat option \<times> plain_state) option" where
  "libc_realloc mem len s =
     (case mem of
        None \<Rightarrow> Some (libc_malloc len s)
      | Some p \<Rightarrow> do {
          bytes \<leftarrow> p_blocks s p;
          let (q, t) = libc_malloc len s;
          (case q of
             None \<Rightarrow> Some (None, t)
           | Some q \<Rightarrow> do {
               fresh \<leftarrow> p_blocks t q;
               let copied = take (unat len) bytes @ drop (length bytes) fresh;
               let r = (if p_moves s (p_requests s) then q else p);
               Some (Some r, t\<lparr>p_blocks := (p_blocks s)(p := None, r \<mapsto> copied)\<rparr>)
             })
        })"

text \<open>The functions of the source.\<close>

definition plain_debugMalloc :: "u32 \<Rightarrow> int \<Rightarrow> plain_state \<Rightarrow> (alloc_exit + nat \<times> plain_state) option" where
  "plain_debugMalloc len tag s =
     (case libc_malloc len s of
        (None, s) \<Rightarrow> Some (Inl Cannot_allocate)
      | (Some result, s) \<Rightarrow> Some (Inr (result, s)))"

definition plain_debugRealloc :: "nat option \<Rightarrow> u32 \<Rightarrow> int \<Rightarrow> plain_state \<Rightarrow> (alloc_exit + nat \<times> plain_state) option" where
  "plain_debugRealloc mem len tag s = do {
     r \<leftarrow> libc_realloc mem len s;
     (case r of
        (None, s) \<Rightarrow> Some (Inl Cannot_allocate)
      | (Some result, s) \<Rightarrow> Some (Inr (result, s)))
   }"

definition plain_debugFree :: "nat option \<Rightarrow> int \<Rightarrow> plain_state \<Rightarrow> plain_state option" where
  "plain_debugFree mem tag s = libc_free mem s"

definition plain_checkIntegrity :: "plain_state \<Rightarrow> plain_state" where "plain_checkIntegrity s = s"
definition plain_checkLeak :: "plain_state \<Rightarrow> plain_state" where "plain_checkLeak s = s"

section \<open>The contract\<close>

text \<open>
  \<open>good\<close> are the states in which the allocator works, \<open>mem\<close> is the memory that is in use, and \<open>has\<close>
  says that there is memory for a length. A block gets an address that is not in use and has the
  length that was asked for; a resized block begins with the old contents, and other blocks stay.
\<close>

locale allocator =
  fixes good :: "'s \<Rightarrow> bool"
    and mem :: "'s \<Rightarrow> nat \<rightharpoonup> u8 list"
    and has :: "u32 \<Rightarrow> 's \<Rightarrow> bool"
    and malloc :: "u32 \<Rightarrow> int \<Rightarrow> 's \<Rightarrow> (alloc_exit + nat \<times> 's) option"
    and realloc :: "nat option \<Rightarrow> u32 \<Rightarrow> int \<Rightarrow> 's \<Rightarrow> (alloc_exit + nat \<times> 's) option"
    and free :: "nat \<Rightarrow> int \<Rightarrow> 's \<Rightarrow> (alloc_exit + 's) option"
  assumes malloc_ok: "good s \<Longrightarrow> has len s \<Longrightarrow>
      \<exists>t q bytes. malloc len tag s = Some (Inr (q, t)) \<and> good t \<and> mem s q = None \<and>
        mem t = (mem s)(q \<mapsto> bytes) \<and> length bytes = unat len"
    and realloc_null: "realloc None len tag s = malloc len tag s"
    and realloc_ok: "good s \<Longrightarrow> has len s \<Longrightarrow> mem s p = Some old \<Longrightarrow>
      \<exists>t q more. realloc (Some p) len tag s = Some (Inr (q, t)) \<and> good t \<and> (mem s q = None \<or> q = p) \<and>
        mem t = (mem s)(p := None, q \<mapsto> take (unat len) old @ more) \<and> length (take (unat len) old @ more) = unat len"
    and free_ok: "good s \<Longrightarrow> mem s p \<noteq> None \<Longrightarrow>
      \<exists>t. free p tag s = Some (Inr t) \<and> good t \<and> mem t = (mem s)(p := None)"
begin

text \<open>Memory that is allocated and freed again leaves the other blocks as they were.\<close>

lemma malloc_free:
  assumes "good s" "has len s"
  shows "\<exists>q t u. malloc len tag s = Some (Inr (q, t)) \<and> free q tag t = Some (Inr u) \<and> good u \<and> mem u = mem s"
proof -
  obtain t q bytes where t: "malloc len tag s = Some (Inr (q, t))" "good t" "mem s q = None" "mem t = (mem s)(q \<mapsto> bytes)"
    using malloc_ok [OF assms] by blast
  obtain u where u: "free q tag t = Some (Inr u)" "good u" "mem u = (mem t)(q := None)"
    using free_ok [OF t(2), of q tag] t(4) by auto
  have "mem u = mem s" unfolding u(3) t(4) using t(3) by auto
  with t(1) u(1,2) show ?thesis by blast
qed

text \<open>A buffer that grows, as the announcement of \<open>hna_update\<close> and the packet for the visualisation server, keeps its contents.\<close>

lemma realloc_grows:
  assumes "good s" "has len s" "mem s p = Some old" "length old \<le> unat len"
  shows "\<exists>q t more. realloc (Some p) len tag s = Some (Inr (q, t)) \<and> good t \<and> mem t q = Some (old @ more) \<and>
    length (old @ more) = unat len \<and> (\<forall>r. r \<noteq> p \<and> r \<noteq> q \<longrightarrow> mem t r = mem s r)"
  using realloc_ok [OF assms(1-3), of tag] assms(4) by auto

end

section \<open>Both versions\<close>

definition plain_good :: "plain_state \<Rightarrow> bool" where
  "plain_good s \<longleftrightarrow> (\<forall>p \<in> dom (p_blocks s). p < p_brk s)"

lemma libc_malloc_ok:
  assumes "plain_good s" "p_gives s (p_requests s) = Some junk"
  shows "libc_malloc len s = (Some (p_brk s), s\<lparr>p_requests := Suc (p_requests s), p_brk := Suc (p_brk s),
      p_blocks := (p_blocks s)(p_brk s \<mapsto> map junk [0 ..< unat len])\<rparr>)"
    "p_blocks s (p_brk s) = None"
  using assms by (auto simp: libc_malloc_def plain_good_def)

interpretation plain: allocator plain_good p_blocks "\<lambda>len s. p_gives s (p_requests s) \<noteq> None" plain_debugMalloc plain_debugRealloc
  "\<lambda>p tag s. map_option Inr (plain_debugFree (Some p) tag s)"
proof
  fix s :: plain_state and len tag
  assume good: "plain_good s" and "p_gives s (p_requests s) \<noteq> None"
  then obtain junk where junk: "p_gives s (p_requests s) = Some junk" by blast
  note m = libc_malloc_ok(1) [OF good junk, of len] libc_malloc_ok(2) [OF good junk]
  show "\<exists>t q bytes. plain_debugMalloc len tag s = Some (Inr (q, t)) \<and> plain_good t \<and> p_blocks s q = None \<and>
      p_blocks t = (p_blocks s)(q \<mapsto> bytes) \<and> length bytes = unat len"
    using m good by (auto simp: plain_debugMalloc_def plain_good_def less_Suc_eq)
  fix p old
  assume old: "p_blocks s p = Some old"
  define r where "r = (if p_moves s (p_requests s) then p_brk s else p)"
  have lt: "p < p_brk s" using good old by (auto simp: plain_good_def)
  have "plain_debugRealloc (Some p) len tag s = Some (Inr (r, s\<lparr>p_requests := Suc (p_requests s), p_brk := Suc (p_brk s),
      p_blocks := (p_blocks s)(p := None, r \<mapsto> take (unat len) old @ drop (length old) (map junk [0 ..< unat len]))\<rparr>))"
    by (simp add: plain_debugRealloc_def libc_realloc_def old m Let_def r_def)
  moreover have "plain_good (s\<lparr>p_requests := Suc (p_requests s), p_brk := Suc (p_brk s),
      p_blocks := (p_blocks s)(p := None, r \<mapsto> x)\<rparr>)" for x
    using good lt by (auto simp: plain_good_def r_def less_Suc_eq split: if_splits)
  ultimately show "\<exists>t q more. plain_debugRealloc (Some p) len tag s = Some (Inr (q, t)) \<and> plain_good t \<and> (p_blocks s q = None \<or> q = p) \<and>
      p_blocks t = (p_blocks s)(p := None, q \<mapsto> take (unat len) old @ more) \<and> length (take (unat len) old @ more) = unat len"
    using m(2) by (auto simp: r_def intro!: exI [of _ "drop (length old) (map junk [0 ..< unat len])"])
next
  show "plain_debugRealloc None len tag s = plain_debugMalloc len tag s" for len tag s
    by (simp add: plain_debugRealloc_def plain_debugMalloc_def libc_realloc_def)
next
  show "plain_good s \<Longrightarrow> p_blocks s p \<noteq> None \<Longrightarrow>
      \<exists>t. map_option Inr (plain_debugFree (Some p) tag s) = Some (Inr t :: alloc_exit + plain_state) \<and> plain_good t \<and> p_blocks t = (p_blocks s)(p := None)"
    for s p tag by (auto simp: plain_debugFree_def libc_free_def plain_good_def)
qed

text \<open>
  The checking allocator, as long as the sizes do not overflow and fewer than \<open>2 ^ 32 - 1\<close> blocks are in use.
\<close>

definition checked_has :: "u32 \<Rightarrow> alloc_state \<Rightarrow> bool" where
  "checked_has len s \<longleftrightarrow> unat len < 2 ^ 32 - 20 \<and> card (dom (chunks s)) < 2 ^ 32 - 1 \<and>
     malloc_gives s (requests s) \<noteq> None \<and> malloc_gives s (Suc (requests s)) \<noteq> None"

definition memory :: "alloc_state \<Rightarrow> nat \<rightharpoonup> u8 list" where
  "memory s p = map_option snd (blocks s p)"

lemma memory_blocks: "blocks t = (blocks s)(p := None, q \<mapsto> (tag, bytes)) \<Longrightarrow> memory t = (memory s)(p := None, q \<mapsto> bytes)"
  by (simp add: memory_def fun_eq_iff)

lemma alloc_ok_card: "alloc_ok s cs \<Longrightarrow> card (dom (chunks s)) = length cs"
  using distinct_card [of cs] by (auto simp: alloc_ok_def)

definition checked_good :: "alloc_state \<Rightarrow> bool" where
  "checked_good s \<longleftrightarrow> (\<exists>cs. alloc_ok s cs)"

interpretation checked: allocator checked_good memory checked_has debugMalloc debugRealloc "\<lambda>p tag s. debugFree p s"
proof
  fix s len tag
  assume "checked_good s" and has: "checked_has len s"
  then obtain cs where cs: "alloc_ok s cs" by (auto simp: checked_good_def)
  obtain junk where j: "unat len < 2 ^ 32 - 20" "length cs < 2 ^ 32 - 1" "malloc_gives s (requests s) = Some junk"
      "malloc_gives s (Suc (requests s)) \<noteq> None" using has by (auto simp: checked_has_def alloc_ok_card [OF cs])
  obtain t c where t: "debugMalloc len tag s = Some (Inr (a_brk s, t))" "alloc_ok t (a_brk s # cs)" "chunks s (a_brk s) = None"
      "chunks t = (chunks s)(a_brk s \<mapsto> c)" "c_length c = len"
    using debugMalloc_ok [OF cs j] by blast
  have "chunks t (a_brk s) = Some c" by (simp add: t(4))
  with t(2) have "intact (a_little_endian t) c" unfolding alloc_ok_def by blast
  then have "length (payload c) = unat len" using t(5) by (simp add: payload_def intact_def)
  moreover have "memory t = (memory s)(a_brk s \<mapsto> payload c)" by (simp add: memory_def blocks_def fun_eq_iff t(4))
  moreover have "memory s (a_brk s) = None" by (simp add: memory_def blocks_def t(3))
  ultimately show "\<exists>t q bytes. debugMalloc len tag s = Some (Inr (q, t)) \<and> checked_good t \<and> memory s q = None \<and>
      memory t = (memory s)(q \<mapsto> bytes) \<and> length bytes = unat len"
    using t(1,2) unfolding checked_good_def by blast
  fix p old
  assume "memory s p = Some old"
  then obtain tag0 where old: "blocks s p = Some (tag0, old)" by (auto simp: memory_def)
  have p: "p \<in> set cs" using old cs by (auto simp: blocks_def alloc_ok_def)
  obtain u q more where u: "debugRealloc (Some p) len tag s = Some (Inr (q, u))" "q \<notin> set cs" "alloc_ok u (q # remove1 p cs)"
      "length (take (unat len) old @ more) = unat len" "blocks u = (blocks s)(p := None, q \<mapsto> (tag, take (unat len) old @ more))"
    using debugRealloc_ok [OF cs p old j] by blast
  have "memory s q = None" using u(2) cs by (auto simp: memory_def blocks_def alloc_ok_def)
  with u memory_blocks [OF u(5)] show "\<exists>t q more. debugRealloc (Some p) len tag s = Some (Inr (q, t)) \<and> checked_good t \<and>
      (memory s q = None \<or> q = p) \<and> memory t = (memory s)(p := None, q \<mapsto> take (unat len) old @ more) \<and>
      length (take (unat len) old @ more) = unat len"
    unfolding checked_good_def by blast
next
  show "debugRealloc None len tag s = debugMalloc len tag s" for len tag s by (simp add: debugRealloc_def)
next
  fix s p and tag :: int
  assume "checked_good s" "memory s p \<noteq> None"
  then obtain cs where cs: "alloc_ok s cs" "p \<in> set cs" by (auto simp: checked_good_def memory_def blocks_def alloc_ok_def)
  obtain t where t: "debugFree p s = Some (Inr t)" "alloc_ok t (remove1 p cs)" "blocks t = (blocks s)(p := None)"
    using debugFree_ok [OF cs] by blast
  have "memory t = (memory s)(p := None)" by (simp add: memory_def fun_eq_iff t(3))
  with t(1,2) show "\<exists>t. debugFree p s = Some (Inr t) \<and> checked_good t \<and> memory t = (memory s)(p := None)"
    unfolding checked_good_def by blast
qed

text \<open>
  So a buffer of the daemon that grows keeps its contents with both versions, whatever the tag is.
\<close>

lemmas buffer_grows = plain.realloc_grows checked.realloc_grows

end
