(* ===== verification/Terminal.thy ===== *)
theory Terminal
  imports Start_Up
begin

text \<open>
  What the program writes to a terminal: the animation of the option \<open>-V\<close> (\<open>sym_print\<close>,
  \<open>print_animation\<close> and \<open>bat_wait\<close> of \<open>src/posix.c\<close>) and the two usage texts of \<open>src/batman-adv.c\<close>.
  The animation draws the right half of a picture and mirrors it to the left.
\<close>

section \<open>Drawing\<close>

text \<open>One \<open>BAT_LOGO_PRINT\<close>: a character at a column and a row of the terminal.\<close>

type_synonym logo_print = "int \<times> int \<times> char"

definition BAT_LOGO_PRINT :: "int \<Rightarrow> int \<Rightarrow> char \<Rightarrow> logo_print" where
  "BAT_LOGO_PRINT x y z = (x, y + 1, z)"

definition NUL :: char where "NUL = CHR 0x00"

definition mirror :: "char \<Rightarrow> char" where
  "mirror c =
     (if c = CHR 0x5C then CHR ''/'' else if c = CHR ''/'' then CHR 0x5C else if c = CHR '')'' then CHR ''('' else c)"

text \<open>
  The loop of \<open>sym_print\<close> from the character with the number \<open>i\<close> on. It also prints the character that
  ends the string. The number is kept in a \<open>char\<close>, and a string without an end is read beyond.
\<close>

fun sym_loop :: "int \<Rightarrow> int \<Rightarrow> int \<Rightarrow> string \<Rightarrow> logo_print list option" where
  "sym_loop x y i [] = None"
| "sym_loop x y i (c # cs) =
     (if i > 127 then None
      else do {
        let prs = [BAT_LOGO_PRINT (25 + x + i) y c, BAT_LOGO_PRINT (24 - x - i) y (mirror c)];
        if c = NUL then Some prs else map_option ((@) prs) (sym_loop x y (i + 1) cs)
      })"

definition sym_print :: "int \<Rightarrow> int \<Rightarrow> string \<Rightarrow> logo_print list option" where
  "sym_print x y z = sym_loop x y 0 (z @ [NUL])"

text \<open>\<open>bat_wait\<close>: the seconds and the microseconds that are given to \<open>select\<close>.\<close>

definition bat_wait :: "int \<Rightarrow> int \<Rightarrow> int \<times> int" where
  "bat_wait T t = (T, t * 10000)"

section \<open>The animation\<close>

text \<open>A frame of the animation: what is drawn, and how long it is shown.\<close>

type_synonym bat_frame = "(int \<times> int \<times> string) list \<times> int \<times> int"

definition animation :: "bat_frame list" where
  "animation =
     [([(0, 3, ''.'')], 1, 0),
      ([(0, 4, ''v'')], 0, 20),
      ([(1, 3, ''^'')], 0, 20),
      ([(1, 4, ''/''), (0, 5, ''/'')], 0, 10),
      ([(2, 3, [CHR 0x5C]), (2, 5, ''/''), (0, 6, '')/'')], 0, 10),
      ([(2, 3, ''_'' @ [CHR 0x5C]), (4, 4, '')''), (2, 5, '' /''), (0, 6, '' )/'')], 0, 10),
      ([(4, 2, [CHR 0x27, CHR 0x5C]), (2, 3, ''__/ '' @ [CHR 0x5C]), (4, 4, ''   )''), (1, 5, ''   ''), (2, 6, ''   /''),
        (3, 7, [CHR 0x5C])], 0, 15),
      ([(6, 3, '' '' @ [CHR 0x5C]), (3, 4, ''_ '' @ [CHR 0x5C] @ ''   '' @ [CHR 0x5C]), (10, 5, [CHR 0x5C]),
        (1, 6, ''          '' @ [CHR 0x5C]), (3, 7, '' '')], 0, 20),
      ([(7, 1, ''____________''), (7, 3, '' _   '' @ [CHR 0x5C]), (3, 4, ''_      ''), (10, 5, '' ''), (11, 6, '' '')], 0, 25),
      ([(3, 1, ''____________    ''), (1, 2, [CHR 0x27] @ ''|'' @ [CHR 0x5C] @ ''   '' @ [CHR 0x5C]), (2, 3, '' /         ''),
        (3, 4, '' '')], 0, 25),
      ([(3, 1, ''    ____________''), (1, 2, ''    '' @ [CHR 0x27, CHR 0x5C] @ ''   ''), (2, 3, ''__/  _   '' @ [CHR 0x5C]),
        (3, 4, ''_'')], 0, 35),
      ([(7, 1, ''            ''), (7, 3, '' '' @ [CHR 0x5C] @ ''   ''), (5, 4, [CHR 0x5C] @ ''    '' @ [CHR 0x5C]),
        (11, 5, [CHR 0x5C]), (12, 6, [CHR 0x5C])], 0, 35)]"

fun print_frame :: "(int \<times> int \<times> string) list \<Rightarrow> logo_print list option" where
  "print_frame [] = Some []"
| "print_frame ((x, y, z) # fs) = do { prs \<leftarrow> sym_print x y z; shown \<leftarrow> print_frame fs; Some (prs @ shown) }"

text \<open>
  The screen is cleared and the first picture is shown for half a second; then come the frames. The
  result is what is printed before every wait, with the wait.
\<close>

fun print_frames :: "bat_frame list \<Rightarrow> (logo_print list \<times> int \<times> int) list option" where
  "print_frames [] = Some []"
| "print_frames ((f, T, t) # fs) = do { prs \<leftarrow> print_frame f; shown \<leftarrow> print_frames fs; Some ((prs, bat_wait T t) # shown) }"

definition print_animation :: "(logo_print list \<times> int \<times> int) list option" where
  "print_animation = map_option ((#) ([], bat_wait 0 50)) (print_frames animation)"

section \<open>The picture\<close>

text \<open>What the terminal shows: the last character at a place; the character with the code 0 shows nothing.\<close>

definition show_print :: "logo_print \<Rightarrow> (int \<times> int \<Rightarrow> char) \<Rightarrow> int \<times> int \<Rightarrow> char" where
  "show_print p scr = (case p of (x, y, c) \<Rightarrow> if c = NUL then scr else scr((x, y) := c))"

text \<open>The left half of the screen is the mirror image of the right half.\<close>

definition symmetric :: "(int \<times> int \<Rightarrow> char) \<Rightarrow> bool" where
  "symmetric scr \<longleftrightarrow> (\<forall>x y. 25 \<le> x \<longrightarrow> scr (49 - x, y) = mirror (scr (x, y)))"

lemma sym_loop_Cons:
  "sym_loop x y i (c # cs) = Some prs \<Longrightarrow>
   \<exists>shown. prs = [BAT_LOGO_PRINT (25 + x + i) y c, BAT_LOGO_PRINT (24 - x - i) y (mirror c)] @ shown \<and> i \<le> 127 \<and>
     (if c = NUL then shown = [] else sym_loop x y (i + 1) cs = Some shown)"
  by (auto simp: Let_def split: if_splits)

text \<open>Every character is drawn together with its mirror image.\<close>

lemma mirror_NUL [simp]: "mirror c = NUL \<longleftrightarrow> c = NUL"
  by (simp add: mirror_def NUL_def)

lemma sym_loop_symmetric:
  "sym_loop x y i cs = Some prs \<Longrightarrow> 0 \<le> x + i \<Longrightarrow> symmetric scr \<Longrightarrow> symmetric (fold show_print prs scr)"
proof (induction x y i cs arbitrary: prs scr rule: sym_loop.induct)
  case (2 x y i c cs)
  let ?first = "[BAT_LOGO_PRINT (25 + x + i) y c, BAT_LOGO_PRINT (24 - x - i) y (mirror c)]"
  have first: "symmetric (fold show_print ?first scr)"
    using "2.prems"(2,3) by (auto simp: symmetric_def show_print_def BAT_LOGO_PRINT_def)
  obtain shown where shown: "prs = ?first @ shown" "i \<le> 127" "if c = NUL then shown = [] else sym_loop x y (i + 1) cs = Some shown"
    using sym_loop_Cons [OF "2.prems"(1)] by blast
  have "symmetric (fold show_print shown (fold show_print ?first scr))"
  proof (cases "c = NUL")
    case False
    with "2.IH" [OF _ refl False _ _ first] shown "2.prems"(2) show ?thesis by simp
  qed (use shown(3) first in simp)
  then show ?case by (simp add: shown(1))
qed simp

lemma sym_print_symmetric:
  "sym_print x y z = Some prs \<Longrightarrow> 0 \<le> x \<Longrightarrow> symmetric scr \<Longrightarrow> symmetric (fold show_print prs scr)"
  using sym_loop_symmetric [of x y 0] by (simp add: sym_print_def)

lemma print_frame_symmetric:
  "print_frame fs = Some prs \<Longrightarrow> \<forall>(x, y, z) \<in> set fs. 0 \<le> x \<Longrightarrow> symmetric scr \<Longrightarrow> symmetric (fold show_print prs scr)"
proof (induction fs arbitrary: prs scr rule: print_frame.induct)
  case (2 x y z fs)
  then obtain p ps where p: "sym_print x y z = Some p" "print_frame fs = Some ps" "prs = p @ ps" by (auto simp: bind_eq_Some_conv)
  from "2.IH" [OF p(1,2) _ sym_print_symmetric [OF p(1)]] "2.prems" show ?case by (simp add: p(3))
qed simp

text \<open>Where the characters of a string are drawn.\<close>

lemma sym_loop_within:
  "sym_loop x y i cs = Some prs \<Longrightarrow> 0 \<le> x + i \<Longrightarrow> p \<in> set prs \<Longrightarrow>
   snd (snd p) = NUL \<or> fst (snd p) = y + 1 \<and> 25 - x - i - int (length cs) \<le> fst p \<and> fst p < 25 + x + i + int (length cs)"
proof (induction x y i cs arbitrary: prs rule: sym_loop.induct)
  case (2 x y i c cs)
  from sym_loop_Cons [OF "2.prems"(1)] "2.prems"(3)
  consider (head) "p = BAT_LOGO_PRINT (25 + x + i) y c \<or> p = BAT_LOGO_PRINT (24 - x - i) y (mirror c)"
    | (tail) shown where "i \<le> 127" "c \<noteq> NUL" "sym_loop x y (i + 1) cs = Some shown" "p \<in> set shown"
    by (fastforce split: if_splits)
  then show ?case
  proof cases
    case head
    with "2.prems"(2) show ?thesis by (auto simp: BAT_LOGO_PRINT_def)
  next
    case tail
    from "2.IH" [OF _ refl tail(2,3) _ tail(4)] tail(1) "2.prems"(2) show ?thesis by force
  qed
qed simp

lemma sym_loop_defined: "0 \<le> i \<Longrightarrow> i + int (length z) \<le> 127 \<Longrightarrow> sym_loop x y i (z @ [NUL]) \<noteq> None"
  by (induction z arbitrary: i) (auto simp: Let_def)

text \<open>Every string of the animation is in range: it is short, and lies within the columns 5 to 44 and the rows 2 to 8.\<close>

definition in_picture :: "int \<times> int \<times> string \<Rightarrow> bool" where
  "in_picture s = (case s of (x, y, z) \<Rightarrow> 0 \<le> x \<and> 1 \<le> y \<and> y \<le> 7 \<and> x + int (length z) \<le> 19)"

lemma animation_in_picture: "\<forall>(f, T, t) \<in> set animation. (\<forall>s \<in> set f. in_picture s) \<and> 0 \<le> T \<and> 0 \<le> t \<and> t < 100"
  by (simp add: animation_def in_picture_def)

lemma print_frame_defined:
  "\<forall>s \<in> set fs. in_picture s \<Longrightarrow>
   \<exists>prs. print_frame fs = Some prs \<and> (\<forall>(x, y, c) \<in> set prs. c = NUL \<or> 5 \<le> x \<and> x \<le> 44 \<and> 2 \<le> y \<and> y \<le> 8)"
proof (induction fs rule: print_frame.induct)
  case (2 x y z fs)
  have s: "0 \<le> x" "1 \<le> y" "y \<le> 7" "x + int (length z) \<le> 19" using "2.prems" by (simp_all add: in_picture_def)
  obtain prs where prs: "sym_print x y z = Some prs" using sym_loop_defined [of 0 z x y] s by (auto simp: sym_print_def)
  have "\<exists>shown. print_frame fs = Some shown \<and> (\<forall>(x, y, c) \<in> set shown. c = NUL \<or> 5 \<le> x \<and> x \<le> 44 \<and> 2 \<le> y \<and> y \<le> 8)"
    using prs "2.prems" by (intro "2.IH") auto
  moreover have "c = NUL \<or> 5 \<le> x' \<and> x' \<le> 44 \<and> 2 \<le> y' \<and> y' \<le> 8" if "(x', y', c) \<in> set prs" for x' y' c
    using sym_loop_within [OF prs [unfolded sym_print_def] _ that] s by auto
  ultimately show ?case using prs by fastforce
qed simp

text \<open>
  The animation is drawn completely, every wait is a valid time, the picture stays between the two lines
  of text that follow it (in the rows 1 and 9), and the screen is symmetric at every moment.
\<close>

lemma print_frames_picture:
  assumes "\<forall>(f, T, t) \<in> set fs. (\<forall>s \<in> set f. in_picture s) \<and> 0 \<le> T \<and> 0 \<le> t \<and> t < 100" "symmetric scr"
  shows "\<exists>shown. print_frames fs = Some shown \<and>
    (\<forall>(prs, sec, usec) \<in> set shown. 0 \<le> sec \<and> 0 \<le> usec \<and> usec < 1000000 \<and>
       (\<forall>(x, y, c) \<in> set prs. c = NUL \<or> 5 \<le> x \<and> x \<le> 44 \<and> 2 \<le> y \<and> y \<le> 8)) \<and>
    (\<forall>n. symmetric (fold show_print (concat (map fst (take n shown))) scr))"
  using assms
proof (induction fs arbitrary: scr rule: print_frames.induct)
  case (2 f T t fs)
  obtain prs where prs: "print_frame f = Some prs" "\<forall>(x, y, c) \<in> set prs. c = NUL \<or> 5 \<le> x \<and> x \<le> 44 \<and> 2 \<le> y \<and> y \<le> 8"
    using print_frame_defined [of f] "2.prems"(1) by auto
  have sym: "symmetric (fold show_print prs scr)"
    using print_frame_symmetric [OF prs(1) _ "2.prems"(2)] "2.prems"(1) by (auto simp: in_picture_def)
  have "\<forall>(f, T, t) \<in> set fs. (\<forall>s \<in> set f. in_picture s) \<and> 0 \<le> T \<and> 0 \<le> t \<and> t < 100" using "2.prems"(1) by simp
  from "2.IH" [OF prs(1) this sym] obtain shown where shown: "print_frames fs = Some shown"
      "\<forall>(prs, sec, usec) \<in> set shown. 0 \<le> sec \<and> 0 \<le> usec \<and> usec < 1000000 \<and>
         (\<forall>(x, y, c) \<in> set prs. c = NUL \<or> 5 \<le> x \<and> x \<le> 44 \<and> 2 \<le> y \<and> y \<le> 8)"
      "\<forall>n. symmetric (fold show_print (concat (map fst (take n shown))) (fold show_print prs scr))" by blast
  have "symmetric (fold show_print (concat (map fst (take n ((prs, bat_wait T t) # shown)))) scr)" for n
    using shown(3) "2.prems"(2) by (cases n) simp_all
  with prs shown(1,2) "2.prems"(1) show ?case by (auto simp: bat_wait_def)
qed simp

lemma print_animation_picture:
  assumes "symmetric scr"
  shows "\<exists>shown. print_animation = Some shown \<and>
    (\<forall>(prs, sec, usec) \<in> set shown. 0 \<le> sec \<and> 0 \<le> usec \<and> usec < 1000000 \<and>
       (\<forall>(x, y, c) \<in> set prs. c = NUL \<or> 5 \<le> x \<and> x \<le> 44 \<and> 2 \<le> y \<and> y \<le> 8)) \<and>
    (\<forall>n. symmetric (fold show_print (concat (map fst (take n shown))) scr))"
proof -
  obtain shown where shown: "print_frames animation = Some shown"
      "\<forall>(prs, sec, usec) \<in> set shown. 0 \<le> sec \<and> 0 \<le> usec \<and> usec < 1000000 \<and>
         (\<forall>(x, y, c) \<in> set prs. c = NUL \<or> 5 \<le> x \<and> x \<le> 44 \<and> 2 \<le> y \<and> y \<le> 8)"
      "\<forall>n. symmetric (fold show_print (concat (map fst (take n shown))) scr)"
    using print_frames_picture [OF animation_in_picture assms] by blast
  have "symmetric (fold show_print (concat (map fst (take n (([], bat_wait 0 50) # shown)))) scr)" for n
    using shown(3) assms by (cases n) simp_all
  with shown(1,2) show ?thesis by (auto simp: print_animation_def bat_wait_def)
qed

section \<open>The usage texts\<close>

definition newline :: string where "newline = [CHR 0x0A]"

text \<open>The lines that are written to the standard error.\<close>

definition usage :: "string list" where
  "usage = map (\<lambda>l. l @ newline)
    [''Usage: batman [options] interface [interface interface]'',
     ''       -b run connection in batch mode'',
     ''       -c connect via unix socket'',
     ''       -d debug level'',
     ''       -h this help'',
     ''       -H verbose help'',
     ''       -o originator interval in ms'',
     ''       -s visualisation server'',
     ''       -v print version'']"

definition verbose_usage :: "string list" where
  "verbose_usage = map (\<lambda>l. l @ newline)
    [''Usage: batman [options] interface [interface interface]'' @ newline,
     ''       -b run connection in batch mode'',
     ''       -c connect to running batmand via unix socket'',
     ''       -d debug level'',
     ''          default:         0 -> debug disabled'',
     ''          allowed values:  1 -> list neighbours'',
     ''                           2 -> list gateways'',
     ''                           3 -> observe batman'',
     ''                           4 -> observe batman (very verbose)'' @ newline,
     ''       -h shorter help'',
     ''       -H this help'',
     ''       -o originator interval in ms'',
     ''          default: 1000, allowed values: >0'' @ newline,
     ''       -s visualisation server'',
     ''          default: none, allowed values: IP'' @ newline,
     ''       -v print version'']"

text \<open>The option that a line describes.\<close>

definition option_of :: "string \<Rightarrow> char option" where
  "option_of l = (if take 8 l = ''       -'' then Some (l ! 8) else None)"

text \<open>
  Both texts describe the same options, all of them are known to \<open>getopt\<close>, and four known options are
  left out.
\<close>

lemma usage_options:
  "List.map_filter option_of usage = ''bcdhHosv''" "List.map_filter option_of verbose_usage = ''bcdhHosv''"
  "flag_options \<union> arg_options = set (''bcdhHosv'' @ ''gprV'')"
  by (auto simp: usage_def verbose_usage_def newline_def option_of_def flag_options_def arg_options_def map_filter_simps)

text \<open>
  The verbose text allows every originator interval above 0. The number is stored in 16 bits before it
  is checked: 40000 is rejected and 65537 is taken as 1.
\<close>

lemma interval_of_usage:
  "apply_option le m (CHR ''o'', cs) opt =
     (let n = to_s16 (fst (strtol cs))
      in if n < 1 then Inl EXIT_FAILURE else Inr (took_two (opt\<lparr>o_originator_interval := n\<rparr>)))"
  by (simp add: apply_option_def Let_def)

lemma interval_rejected: "apply_option le m (CHR ''o'', ''40000'') opt = Inl EXIT_FAILURE"
  by (simp add: interval_of_usage to_s16_mod strtol_def decimal_def digit_def is_digit_def)

lemma interval_wraps:
  "apply_option le m (CHR ''o'', ''65537'') opt = Inr (took_two (opt\<lparr>o_originator_interval := 1\<rparr>))"
  by (simp add: interval_of_usage to_s16_mod strtol_def decimal_def digit_def is_digit_def)

end
