(* ===== verification/Spec2Isabelle.thy ===== *)
theory Spec2Isabelle
  imports Bat_Prelude Bitarray Ring_Buffer List_Batman DList_Batman Hash Packet Bat_State Originator Trans_Table Debug_Table Routes Ranking Schedule Ogm Receive Batman Net_Inv Net_Ops Ogm_Inv Send_Inv Recv_Inv Mesh Announce Tap_Inv Vis Purge Daemon Main_Loop Allocate Debug_Clients Clients Start_Up Shutdown Two_Threads C_Types Ping Plain_Allocate Terminal
begin

text \<open>
  A verification of the userspace daemon of B.A.T.M.A.N. advanced, a routing protocol for wireless
  meshes.

  \<^bold>\<open>The program.\<close> Every node floods originator messages (OGMs) on its interfaces. From the OGMs that
  arrive over its neighbours a node learns how good its links are (\<open>isBidirectionalNeigh\<close>), counts
  in a sliding window per neighbour which messages of an originator came over it (\<open>bitarray.c\<close>), and
  averages the transmitted qualities (\<open>ring_buffer.c\<close>); the best neighbour becomes the router towards
  the originator (\<open>originator.c\<close>). Good messages are forwarded (\<open>schedule.c\<close>). A node announces the
  payload addresses of its hosts (HNA) behind its OGMs, and the others keep in the translation table
  which originator serves which host (\<open>trans_table.c\<close>). Frames of local hosts come from a tap device
  and travel as unicast or broadcast packets from router to router (\<open>posix-specific.c\<close>). One thread
  runs the main loop of \<open>batman-adv.c\<close>, a second one serves clients on a unix socket that ping nodes
  or subscribe to debug levels. The tables are hash tables (\<open>hash.c\<close>) and intrusive lists
  (\<open>list-batman.c\<close>, \<open>dlist.h\<close>), and memory comes from a checking allocator (\<open>allocate.c\<close>).

  \<^bold>\<open>The theories.\<close> All sources are in \<open>src/\<close>; a definition has the name of its C function, with a
  suffix or prefix where a loop or a branch of a function has a definition of its own.

  \<^item> \<open>Bat_Prelude\<close>: machine integers, array accesses with bounds, MAC addresses, and the locale
    \<open>invariant_system\<close> of step relations with an invariant.
  \<^item> \<open>Bitarray\<close> (\<open>bitarray.c\<close>), polymorphic in the width of \<open>TYPE_OF_WORD\<close>. The abstract view is the
    set of the positions that are marked (\<open>window\<close>); the locale \<open>seq_window\<close> states what the daemon
    relies on and is interpreted for an ILP32 target.
  \<^item> \<open>Ring_Buffer\<close> (\<open>ring_buffer.c\<close>).
  \<^item> \<open>List_Batman\<close> (\<open>list-batman.c\<close>, \<open>list-batman.h\<close>) and \<open>DList_Batman\<close> (\<open>dlist.h\<close>): the pointers of
    both kinds of lists, with the locales \<open>linked_list\<close> and \<open>intrusive_list\<close> for what they promise.
    The other theories use lists of addresses instead; these two justify it, for empty lists, too, and
    with the lists that an operation does not touch.
  \<^item> \<open>Hash\<close> (\<open>hash.c\<close>, \<open>hash.h\<close>), with the iterator and the removal during an iteration. The locale
    \<open>hash_keys\<close> states what the callbacks have to promise; \<open>Originator\<close> interprets it for
    \<open>compare_orig\<close> and \<open>choose_orig\<close>.
  \<^item> \<open>Packet\<close> (\<open>packet.h\<close>, \<open>vis-types.h\<close>): the packed structures and their bytes.
  \<^item> \<open>Bat_State\<close> (\<open>batman-adv.h\<close>, \<open>trans_table.h\<close>): the structures as records, and \<open>bat_state\<close> for the
    global variables and the operating system.
  \<^item> \<open>Originator\<close> and \<open>Ranking\<close> (\<open>originator.c\<close>): lookup and creation of originators and neighbours;
    \<open>update_orig\<close> and \<open>purge_orig\<close>. \<open>Debug_Table\<close>: \<open>debug_orig\<close> and its text.
  \<^item> \<open>Trans_Table\<close> (\<open>trans_table.c\<close>). The abstract view is the map \<open>host_map\<close> from hosts to originators.
  \<^item> \<open>Routes\<close> (\<open>update_routes\<close>, \<open>update_gw_list\<close> of \<open>batman-adv.c\<close>), \<open>Schedule\<close> (\<open>schedule.c\<close>,
    \<open>send_packet\<close>, \<open>rawsock_write\<close>), \<open>Ogm\<close> (\<open>isBidirectionalNeigh\<close>, \<open>count_real_packets\<close>, the branch
    of \<open>batman\<close> that treats an OGM, and the packet for the visualisation server), \<open>Receive\<close>
    (\<open>receive_packet\<close> with all kinds of packets, \<open>handle_packet\<close>), \<open>Batman\<close> (the parts of \<open>batman\<close>).
  \<^item> \<open>Net_Inv\<close>, \<open>Net_Ops\<close>, \<open>Ogm_Inv\<close>, \<open>Send_Inv\<close>, \<open>Recv_Inv\<close>, \<open>Tap_Inv\<close>, \<open>Vis\<close>, \<open>Purge\<close>: the invariant of
    the tables (\<open>net_ok\<close>) and of the daemon (\<open>bat_ok\<close>), and for every operation that it returns, keeps
    the invariant, and what else it does. \<open>Announce\<close>: the way of a host from \<open>hna_update\<close> of its node over
    the own message to the translation table of another node.
  \<^item> \<open>Mesh\<close>: several nodes and the links between them. \<open>relay\<close> hands a frame to the node that it is
    addressed to, \<open>follows\<close> says which path the routers of the nodes make up, and \<open>relay_path\<close> that a
    packet takes this path; \<open>Tap_Inv\<close> and \<open>Ping\<close> use it for unicast and icmp packets.
  \<^item> \<open>Daemon\<close>: the main loop as a state machine of actions, its invariant and its reachable states.
    \<open>Main_Loop\<close>: the function \<open>batman\<close>, whose iterations are sequences of these actions.
  \<^item> \<open>Allocate\<close> (\<open>allocate.c\<close>), refined to a map from addresses to tagged byte strings.
  \<^item> \<open>Debug_Clients\<close> (\<open>debug_output\<close> and the subscriptions), \<open>Clients\<close> (\<open>unix_listen\<close>), \<open>Start_Up\<close>
    (\<open>apply_init_args\<close>, \<open>init_interface\<close>, \<open>rawsock_create\<close>, \<open>tap_create\<close>) and \<open>Shutdown\<close>
    (\<open>restore_defaults\<close>, \<open>restore_and_exit\<close>, the end of \<open>main\<close>).
  \<^item> \<open>Plain_Allocate\<close>: the allocator without \<open>DEBUG_MALLOC\<close>, and the locale \<open>allocator\<close> for what the daemon
    relies on, which both versions satisfy. \<open>Terminal\<close> (\<open>posix.c\<close>, \<open>batman-adv.c\<close>): the animation and the
    usage texts.
  \<^item> \<open>Two_Threads\<close>: the steps of the main loop and of the thread of the clients, in any order, on one
    state. \<open>C_Types\<close>: the signed integers of the structures stay within their types. \<open>Ping\<close>: an echo
    request of a client, the nodes on its way, and the answer on the socket of the client.

  \<^bold>\<open>What is shown.\<close> The main results build on each other. The start of the program ends in an exit or
  in a state from which \<open>batman_init\<close> establishes the invariant of the daemon. The invariant holds in
  every state that the main loop reaches, no action runs into undefined behaviour there as long as its
  conditions hold, and exactly one own message per interface is queued. \<open>batman\<close> returns for every list
  of iterations, and the end of the program releases every descriptor once. The thread of the clients
  has an invariant of its own, and both invariants hold together when the steps of the two threads are
  interleaved. On top of these, the theorems say what single operations do: which OGM
  counts as a duplicate, that the best neighbour becomes the router, what is forwarded with which
  quality and time to live, that every due message is sent and queued again, that a unicast packet
  is passed from each node to its router and reaches its host over at most 50 hops unchanged, that the
  answer to a ping reaches the client that asked, that a broadcast packet is delivered once, that other
  nodes learn the announced hosts, what becomes of every kind of frame, and what is purged and which
  routers replace the purged ones. The data structures are refined to their abstract
  counterparts: windows to sets, hash tables to maps, linked lists to lists, the allocator to a map.

  \<^bold>\<open>Conventions.\<close>

  \<^item> The value \<^term>\<open>None\<close> of an operation is undefined behaviour of C (a null or freed pointer, an index
    out of range, a bad shift, a signed overflow, a division by zero, a descriptor that does not fit
    into an \<open>fd_set\<close>) or a loop that does not end (\<open>partial_function (option)\<close>), so a theorem with
    \<open>= Some\<close> excludes both. Loops with a bound in the code (\<open>PACKETS_PER_CYCLE\<close>) have it as an argument;
    no other fuel is used.
  \<^item> Unsigned integers are words of their width, and signed ones are \<^typ>\<open>int\<close> with the conversions
    written out. The target is ILP32.
  \<^item> Allocated structures live in maps from addresses to records. Addresses are not handed out again.
  \<^item> What the operating system answers (clock, random numbers, reads, results of writes, \<open>select\<close>) is
    given by functions or lists in the state or in an argument, and the theorems hold for all of them.
    What the program writes is in lists, the latest first.
  \<^item> Messages of \<open>debug_output\<close> are left out where they have no other effect.

  \<^bold>\<open>Conditions.\<close> The theorems about the daemon name what they need; most of these conditions keep a
  defect of the code out, which a theorem of its own shows or which the text of the condition states:

  \<^item> \<open>seq_safe\<close>, \<open>ogm_safe\<close>, \<open>bcast_safe\<close>: sequence numbers do not lie exactly one window ahead and do
    not wrap around inside of the window, and the gateway class of a message is at most 11.
  \<^item> \<open>purge_safe\<close>: \<open>purge_orig\<close> does not touch freed memory. A neighbour entry that stays does not refer to
    an originator that is purged; when the router of an originator that stays is too old, all its
    neighbours are; and an originator that gets a new router has no announcement, since the code would
    copy the announcement from the buffer it has just freed. An originator that is purged has hosts only
    with an announcement.
  \<^item> \<open>vis_safe\<close>: the packet for the visualisation server is shorter than 65536 bytes, because the code keeps
    its size in 16 bits.
  \<^item> \<open>clock_ok\<close>: the clock does not run backwards and does not overflow within an interval; and the
    interval is longer than the jitter of 100 ms.
  \<^item> \<open>enabled\<close> and \<open>iteration_safe\<close> collect these for the actions and for an iteration; \<open>event_ok\<close> says
    that \<open>accept\<close> returns a new descriptor below \<open>FD_SETSIZE\<close>.
  \<^item> The start assumes at most 255 arguments, the width of the counter of the code.

  \<^bold>\<open>The two threads.\<close> An action of the main loop and a round of \<open>unix_listen\<close> are atomic, and
  \<open>Two_Threads\<close> interleaves them in any order; the races inside of an action are outside of the model.
  \<open>Clients\<close> has \<open>unix_packet\<close> as a table of pointers; the main loop sees the sockets behind them
  (\<open>main_view\<close>), and an answer with the number 0 for a freed client is the one undefined action that is
  left. The interleaving begins after \<open>batman_init\<close>: before it the table of the originators does not
  exist, and a request of a client that is read then is undefined.

  \<^bold>\<open>Not modelled.\<close> The single system call in \<open>send_udp_packet\<close> (\<open>send_vis_packet\<close> has its bytes, and its
  error is only reported), the check of \<open>main\<close> that the user is root, and the signal handlers for
  \<open>SIGINT\<close> and \<open>SIGTERM\<close>, which set \<open>stop\<close> (the end of the list of iterations stands for it). Races
  inside of an action, as above. Gateways are chosen and used only in code that is commented out. What
  is left beside these are declarations, prototypes and comments.
\<close>

end
